(* ===== verification/Kfs_Prelude.thy ===== *)
theory Kfs_Prelude
  imports "HOL-Library.Word" "HOL-Library.Monad_Syntax"
begin

text \<open>
  Shared vocabulary of the development: the machine types of the i386 target, the flat byte
  memory that C pointers address, the wrap-around block of addresses a loop touches, the
  generic pointer scan behind the library's \<^verbatim>\<open>while\<close> loops, and the facts on words,
  bits and lists that every component theory uses.

  Conventions.  \<^verbatim>\<open>uint8_t\<close>, \<^verbatim>\<open>uint16_t\<close>, \<^verbatim>\<open>uint32_t\<close>/\<^verbatim>\<open>size_t\<close>/\<^verbatim>\<open>uintptr_t\<close> and pointers are
  words of that width, so every \<open>+\<close> wraps as the machine does.  A loop that the C code
  may run forever is a \<^theory_text>\<open>partial_function (option)\<close>; \<open>None\<close> is "does not return".
\<close>

unbundle bit_operations_syntax

section \<open>Types\<close>

type_synonym u8 = "8 word"
type_synonym u16 = "16 word"
type_synonym u32 = "32 word"
type_synonym u64 = "64 word"

text \<open>A C pointer is an address of the flat 32-bit space; memory maps addresses to bytes.\<close>

type_synonym ptr = u32
type_synonym mem = "ptr \<Rightarrow> u8"

text \<open>
  The addresses of the \<open>n\<close> bytes that start at \<open>p\<close>, wrapping at the end of the address
  space exactly as the pointer increments of the code do.
\<close>

definition blk :: "ptr \<Rightarrow> nat \<Rightarrow> ptr set" where
  "blk p n = {a. unat (a - p) < n}"

text \<open>\<open>cstr m p xs\<close>: a NUL terminated string with the bytes \<open>xs\<close> stands at \<open>p\<close>.\<close>

fun cstr :: "mem \<Rightarrow> ptr \<Rightarrow> u8 list \<Rightarrow> bool" where
  "cstr m p [] \<longleftrightarrow> m p = 0"
| "cstr m p (x # xs) \<longleftrightarrow> x \<noteq> 0 \<and> m p = x \<and> cstr m (p + 1) xs"

text \<open>The loop \<^verbatim>\<open>while (P(s)) s++;\<close> over a pointer; it returns the first \<open>s\<close> where \<open>P\<close> fails.\<close>

partial_function (option) scan :: "(ptr \<Rightarrow> bool) \<Rightarrow> ptr \<Rightarrow> ptr option" where
  "scan P s = (if P s then scan P (s + 1) else Some s)"

declare scan.simps [code]

text \<open>ASCII literals of the C source as byte lists.\<close>

definition bytes :: "string \<Rightarrow> u8 list" where
  "bytes s = map of_char s"

named_theorems word_nat \<open>reading word arithmetic as natural numbers under a no-overflow side condition\<close>

named_theorems bit_u8 \<open>single-bit tests and updates of a bitmap byte\<close>

section \<open>Words and natural numbers\<close>

lemma unat_add_no_wrap [word_nat]:
  fixes a b :: "'a::len word"
  assumes "unat a + unat b < 2 ^ LENGTH('a)"
  shows "unat (a + b) = unat a + unat b"
  using assms by (simp add: unat_add_lem [THEN iffD1])

lemma unat_mult_no_wrap [word_nat]:
  fixes a b :: "'a::len word"
  assumes "unat a * unat b < 2 ^ LENGTH('a)"
  shows "unat (a * b) = unat a * unat b"
  using assms by (simp add: unat_mult_lem [THEN iffD1])

lemma unat_sub_no_wrap [word_nat]:
  fixes a b :: "'a::len word"
  assumes "unat b \<le> unat a"
  shows "unat (a - b) = unat a - unat b"
  using assms by (simp add: unat_sub word_le_nat_alt)

lemma unat_of_nat_small [word_nat]:
  assumes "n < 2 ^ LENGTH('a::len)"
  shows "unat (of_nat n :: 'a word) = n"
  using assms by (simp add: unat_of_nat)

lemma of_nat_word_inj:
  assumes "i < 2 ^ LENGTH('a::len)" "j < 2 ^ LENGTH('a)"
  shows "(of_nat i :: 'a word) = of_nat j \<longleftrightarrow> i = j"
  using assms by (metis unat_of_nat_small)

lemma unat_u32_less: "unat (x :: u32) < 4294967296"
  using unsigned_less [of x, where ?'a = nat] by simp

lemma add_of_nat_Suc: "(p :: 'a::len word) + 1 + of_nat n = p + of_nat (Suc n)"
  by (simp add: algebra_simps)

section \<open>Alignment masks\<close>

text \<open>
  The kernel clears low bits with \<^verbatim>\<open>x & (0xffffffff ^ (align - 1))\<close> and tests them with
  \<^verbatim>\<open>x & (align - 1)\<close>.  For a power of two these are the usual quotient and remainder.
\<close>

lemma unat_take_bit: "unat (take_bit k x :: 'a::len word) = unat x mod 2 ^ k"
  by (simp add: unsigned_take_bit_eq flip: take_bit_eq_mod)

lemma unat_and_mask [word_nat]: "unat (x AND mask k :: 'a::len word) = unat x mod 2 ^ k"
  by (simp add: unat_take_bit flip: take_bit_eq_mask)

lemma and_not_mask_eq: "x AND NOT (mask k) = (x :: 'a::len word) - take_bit k x"
proof -
  have "(x AND NOT (mask k)) + (x AND mask k) = (x AND NOT (mask k)) OR (x AND mask k)"
    by (rule disjunctive_add_eq_or) (auto simp: bit_eq_iff bit_simps)
  also have "\<dots> = x"
    by (auto simp: bit_eq_iff bit_simps)
  finally show ?thesis
    by (simp add: take_bit_eq_mask algebra_simps)
qed

lemma unat_and_not_mask [word_nat]:
  "unat (x AND NOT (mask k) :: 'a::len word) = unat x div 2 ^ k * 2 ^ k"
proof -
  have "take_bit k x \<le> x"
    by (simp add: word_le_nat_alt unat_take_bit)
  then have "unat (x - take_bit k x) = unat x - unat x mod 2 ^ k"
    by (simp add: unat_sub unat_take_bit)
  then show ?thesis
    by (simp add: and_not_mask_eq minus_mod_eq_div_mult)
qed

lemma unat_drop_bit [word_nat]: "unat (drop_bit k x :: 'a::len word) = unat x div 2 ^ k"
  by (metis drop_bit_eq_div unat_drop_bit_eq)

lemma all_ones_xor: "(0xffffffff :: u32) XOR x = NOT x"
proof -
  have "(0xffffffff :: u32) = -1" by simp
  then have "(0xffffffff :: u32) XOR x = -1 XOR x" by (rule arg_cong)
  also have "\<dots> = NOT x" by (auto simp: bit_eq_iff bit_simps)
  finally show ?thesis .
qed

section \<open>Single bits of a byte\<close>

lemma and_single_bit_ne_0 [bit_u8]: "x AND 2 ^ i \<noteq> 0 \<longleftrightarrow> bit (x :: u8) i"
  by (auto simp: bit_iff_and_push_bit_not_eq_0)

lemma bit_set [bit_u8]:
  "i < 8 \<Longrightarrow> bit (x OR 2 ^ i :: u8) j \<longleftrightarrow> j = i \<or> bit x j"
  by (auto simp: bit_or_iff bit_exp_iff possible_bit_word)

lemma bit_clear [bit_u8]:
  "i < 8 \<Longrightarrow> bit (x AND NOT (2 ^ i) :: u8) j \<longleftrightarrow> j \<noteq> i \<and> bit x j"
  by (auto simp: bit_and_iff bit_not_iff bit_exp_iff possible_bit_word dest: bit_imp_le_length)

section \<open>Address blocks\<close>

lemma blk_0 [simp]: "blk p 0 = {}"
  by (simp add: blk_def)

lemma in_blk_iff: "a \<in> blk p n \<longleftrightarrow> unat (a - p) < n"
  by (simp add: blk_def)

lemma blk_add_of_nat: "i < n \<Longrightarrow> n \<le> 4294967296 \<Longrightarrow> p + of_nat i \<in> blk p n"
  by (simp add: blk_def unat_of_nat_small)

lemma blk_Suc: "n < 4294967296 \<Longrightarrow> blk p (Suc n) = insert p (blk (p + 1) n)"
proof (intro set_eqI)
  fix a assume n: "n < 4294967296"
  show "a \<in> blk p (Suc n) \<longleftrightarrow> a \<in> insert p (blk (p + 1) n)"
  proof (cases "a = p")
    case False
    then have "unat (a - p - 1) = unat (a - p) - 1" and "unat (a - p) \<noteq> 0"
      by (simp_all add: unat_minus_one unat_eq_0)
    then show ?thesis using False by (auto simp: blk_def diff_diff_eq)
  qed (simp add: blk_def)
qed

lemma base_notin_blk_Suc: "n < 4294967296 \<Longrightarrow> p \<notin> blk (p + 1) n"
  by (simp add: blk_def unsigned_minus_1_eq_mask mask_eq_exp_minus_1)

lemma unat_plus_1_le: "unat (x + 1 :: 'a::len word) \<le> Suc (unat x)"
  by (simp add: unat_word_ariths)

lemma unat_eq_iff_of_nat: "n < 4294967296 \<Longrightarrow> unat (x :: u32) = n \<longleftrightarrow> x = of_nat n"
  by (auto simp: unat_of_nat_small)

lemma blk_Suc_top: "n < 4294967296 \<Longrightarrow> blk p (Suc n) = insert (p + of_nat n) (blk p n)"
  by (auto simp: blk_def less_Suc_eq unat_eq_iff_of_nat unat_of_nat_small algebra_simps)

lemma in_blkE:
  assumes "a \<in> blk p n"
  obtains i where "i < n" "i < 4294967296" "a = p + of_nat i" "unat (a - p) = i"
proof
  show "unat (a - p) < n" using assms by (simp add: blk_def)
  show "unat (a - p) < 4294967296" by (rule unat_u32_less)
  show "a = p + of_nat (unat (a - p))" by simp
qed simp

lemma unat_add_of_nat: "unat (p :: u32) + i < 4294967296 \<Longrightarrow> unat (p + of_nat i) = unat p + i"
  by (subst unat_add_no_wrap) (simp_all add: unat_of_nat_small)

lemma blk_subset: "k + n \<le> j \<Longrightarrow> j \<le> 4294967296 \<Longrightarrow> blk (p + of_nat k) n \<subseteq> blk p j"
proof
  fix a assume a: "k + n \<le> j" "j \<le> 4294967296" "a \<in> blk (p + of_nat k) n"
  then obtain i where i: "i < n" "a = p + of_nat (k + i)" by (elim in_blkE) (simp add: algebra_simps)
  moreover from this a have "unat (of_nat (k + i) :: u32) = k + i" by (intro unat_of_nat_small) simp
  ultimately show "a \<in> blk p j" using a by (simp add: blk_def del: of_nat_add)
qed

lemma blk_apart:
  assumes a: "unat p + n \<le> unat q" "unat q + k \<le> 4294967296"
  shows "blk p n \<inter> blk q k = {}"
proof (rule ccontr)
  assume "blk p n \<inter> blk q k \<noteq> {}"
  then obtain i j where ij: "i < n" "j < k" and eq: "p + of_nat i = q + of_nat j"
    by (metis disjoint_iff in_blkE)
  have "unat (p + of_nat i) = unat p + i" using a ij unat_u32_less [of q] by (intro unat_add_of_nat) simp
  moreover have "unat (q + of_nat j) = unat q + j" using a ij by (intro unat_add_of_nat) simp
  ultimately show False using eq a ij by simp
qed

section \<open>Lists\<close>

lemma find_map: "find P (map f xs) = map_option f (find (\<lambda>x. P (f x)) xs)"
  by (induction xs) auto

lemma find_map_Suc: "find P [Suc 0..<Suc n] = map_option Suc (find (\<lambda>i. P (Suc i)) [0..<n])"
  by (simp add: find_map del: upt_Suc flip: map_Suc_upt)

end
