(* ===== verification/Lib_Mem.thy ===== *)
theory Lib_Mem
  imports Kfs_Prelude
begin

text \<open>
  The memory half of the string library, \<^verbatim>\<open>src/lib/string/mem.c\<close>.  Each \<^verbatim>\<open>while (n--)\<close>
  loop is a recursion on the iteration count \<open>unat n\<close> over the flat memory, so that
  overlapping buffers alias as they do in the code.  A returned \<^verbatim>\<open>NULL\<close> is \<open>None\<close>.
\<close>

unbundle bit_operations_syntax

section \<open>Definitions\<close>

fun memchr_loop :: "mem \<Rightarrow> ptr \<Rightarrow> u32 \<Rightarrow> nat \<Rightarrow> ptr option" where
  "memchr_loop m sc c 0 = None"
| "memchr_loop m sc c (Suc n) =
     (if ucast (m sc) = c then Some sc else memchr_loop m (sc + 1) c n)"

definition memchr :: "mem \<Rightarrow> ptr \<Rightarrow> u32 \<Rightarrow> u32 \<Rightarrow> ptr option" where
  "memchr m s c n = memchr_loop m s c (unat n)"

fun memrchr_loop :: "mem \<Rightarrow> ptr \<Rightarrow> u32 \<Rightarrow> nat \<Rightarrow> ptr option" where
  "memrchr_loop m sc c 0 = None"
| "memrchr_loop m sc c (Suc n) =
     (if ucast (m sc) = c then Some sc else memrchr_loop m (sc - 1) c n)"

definition memrchr :: "mem \<Rightarrow> ptr \<Rightarrow> u32 \<Rightarrow> u32 \<Rightarrow> ptr option" where
  "memrchr m s c n = memrchr_loop m (s + n) c (unat n)"

fun memcmp_loop :: "mem \<Rightarrow> ptr \<Rightarrow> ptr \<Rightarrow> nat \<Rightarrow> int" where
  "memcmp_loop m sc1 sc2 0 = 0"
| "memcmp_loop m sc1 sc2 (Suc n) =
     (if m sc1 = m sc2 then memcmp_loop m (sc1 + 1) (sc2 + 1) n
      else uint (m sc1) - uint (m sc2))"

definition memcmp :: "mem \<Rightarrow> ptr \<Rightarrow> ptr \<Rightarrow> u32 \<Rightarrow> int" where
  "memcmp m s1 s2 n = memcmp_loop m s1 s2 (unat n)"

fun memcpy_loop :: "mem \<Rightarrow> ptr \<Rightarrow> ptr \<Rightarrow> nat \<Rightarrow> mem" where
  "memcpy_loop m dst src 0 = m"
| "memcpy_loop m dst src (Suc n) = memcpy_loop (m(dst := m src)) (dst + 1) (src + 1) n"

definition memcpy :: "mem \<Rightarrow> ptr \<Rightarrow> ptr \<Rightarrow> u32 \<Rightarrow> mem \<times> ptr" where
  "memcpy m dst src n = (memcpy_loop m dst src (unat n), dst)"

fun memmove_loop :: "mem \<Rightarrow> ptr \<Rightarrow> ptr \<Rightarrow> nat \<Rightarrow> mem" where
  "memmove_loop m dstc srcc 0 = m"
| "memmove_loop m dstc srcc (Suc n) =
     (if dstc > srcc
      then memmove_loop (m(dstc + of_nat n := m (srcc + of_nat n))) dstc srcc n
      else memmove_loop (m(dstc := m srcc)) (dstc + 1) (srcc + 1) n)"

definition memmove :: "mem \<Rightarrow> ptr \<Rightarrow> ptr \<Rightarrow> u32 \<Rightarrow> mem \<times> ptr" where
  "memmove m dst src n = (memmove_loop m dst src (unat n), dst)"

fun memset_loop :: "mem \<Rightarrow> ptr \<Rightarrow> u8 \<Rightarrow> nat \<Rightarrow> mem" where
  "memset_loop m sc c 0 = m"
| "memset_loop m sc c (Suc n) = memset_loop (m(sc := c)) (sc + 1) c n"

definition memset :: "mem \<Rightarrow> ptr \<Rightarrow> u32 \<Rightarrow> u32 \<Rightarrow> mem \<times> ptr" where
  "memset m s c n = (memset_loop m s (ucast c) (unat n), s)"

text \<open>What a block copy and a block fill should do to memory, with no loop.\<close>

definition copied :: "mem \<Rightarrow> ptr \<Rightarrow> ptr \<Rightarrow> nat \<Rightarrow> mem" where
  "copied m dst src n = (\<lambda>a. if a \<in> blk dst n then m (src + (a - dst)) else m a)"

definition filled :: "mem \<Rightarrow> ptr \<Rightarrow> u8 \<Rightarrow> nat \<Rightarrow> mem" where
  "filled m p c n = (\<lambda>a. if a \<in> blk p n then c else m a)"

section \<open>Fill and copy\<close>

lemma filled_Suc:
  "n < 4294967296 \<Longrightarrow> filled m p c (Suc n) = filled (m(p := c)) (p + 1) c n"
  by (auto simp: filled_def blk_Suc base_notin_blk_Suc)

lemma memset_loop_filled: "n \<le> 4294967296 \<Longrightarrow> memset_loop m p c n = filled m p c n"
proof (induction n arbitrary: m p)
  case 0
  then show ?case by (simp add: filled_def)
next
  case (Suc n)
  then show ?case by (simp add: filled_Suc)
qed

lemma memset_filled: "memset m p c n = (filled m p (ucast c) (unat n), p)"
  using unat_u32_less [of n] by (simp add: memset_def memset_loop_filled)

text \<open>
  A forward byte copy is right when no source byte is overwritten before it is read: the
  destination does not start inside the source, after its first byte.
\<close>

lemma memcpy_loop_copied:
  assumes "n \<le> 4294967296" and "dst = src \<or> n \<le> unat (dst - src)"
  shows "memcpy_loop m dst src n = copied m dst src n"
  using assms
proof (induction n arbitrary: m dst src)
  case 0
  then show ?case by (simp add: copied_def)
next
  case (Suc n)
  have le: "n < 4294967296" using Suc.prems by simp
  have IH: "memcpy_loop (m(dst := m src)) (dst + 1) (src + 1) n
             = copied (m(dst := m src)) (dst + 1) (src + 1) n"
    by (rule Suc.IH) (use Suc.prems in auto)
  have nr: "src + (a - dst) \<noteq> dst" if a: "a \<in> blk (dst + 1) n" for a
  proof (cases "dst = src")
    case True
    then show ?thesis using a le base_notin_blk_Suc by auto
  next
    case False
    show ?thesis
    proof
      assume "src + (a - dst) = dst"
      then have "dst - src = a - (dst + 1) + 1" by (simp add: algebra_simps)
      then have "unat (dst - src) \<le> Suc (unat (a - (dst + 1)))"
        by (simp only: unat_plus_1_le)
      then show False using a False Suc.prems by (simp add: blk_def)
    qed
  qed
  show ?case using le
    by (auto simp: IH copied_def blk_Suc base_notin_blk_Suc fun_eq_iff nr)
qed

text \<open>
  The backward half of \<^verbatim>\<open>memmove\<close>: with the destination above the source, copying from the
  last byte down never overwrites a source byte that is still needed.
\<close>

lemma memmove_down_copied:
  assumes "src < dst" "unat dst + n \<le> 4294967296"
  shows "memmove_loop m dst src n = copied m dst src n"
  using assms
proof (induction n arbitrary: m)
  case 0
  then show ?case by (simp add: copied_def)
next
  case (Suc n)
  let ?m = "m(dst + of_nat n := m (src + of_nat n))"
  have n: "n < 4294967296" using Suc.prems by simp
  have IH: "memmove_loop ?m dst src n = copied ?m dst src n"
    by (rule Suc.IH) (use Suc.prems in auto)
  have out: "dst + of_nat n \<notin> blk dst n"
    using n by (simp add: blk_def unat_of_nat_small)
  have nr: "src + (a - dst) \<noteq> dst + of_nat n" if "a \<in> blk dst n" for a
  proof
    assume eq: "src + (a - dst) = dst + of_nat n"
    obtain i where i: "i < n" "a = dst + of_nat i" using \<open>a \<in> blk dst n\<close> by (rule in_blkE)
    have "unat (src + of_nat i) = unat src + i" "unat (dst + of_nat n) = unat dst + n"
      using Suc.prems i by (simp_all add: unat_add_of_nat word_less_nat_alt)
    then show False using eq i Suc.prems by (simp add: word_less_nat_alt)
  qed
  show ?case
    using Suc.prems(1) n by (auto simp: IH copied_def blk_Suc_top out nr fun_eq_iff)
qed

lemma memmove_up_memcpy:
  assumes "dst \<le> src" "unat src + n \<le> 4294967296"
  shows "memmove_loop m dst src n = memcpy_loop m dst src n"
  using assms
proof (induction n arbitrary: m dst src)
  case (Suc n)
  show ?case
  proof (cases n)
    case (Suc k)
    then have "unat (src + 1) = Suc (unat src)" "unat (dst + 1) = Suc (unat dst)"
      using Suc.prems unat_add_of_nat [of src 1] unat_add_of_nat [of dst 1]
      by (simp_all add: word_le_nat_alt)
    then have "dst + 1 \<le> src + 1" "unat (src + 1) + n \<le> 4294967296"
      using Suc.prems by (simp_all add: word_le_nat_alt)
    then have "memmove_loop (m(dst := m src)) (dst + 1) (src + 1) n
                 = memcpy_loop (m(dst := m src)) (dst + 1) (src + 1) n"
      by (rule Suc.IH)
    with Suc.prems(1) show ?thesis by (simp add: leD)
  qed (use Suc.prems in \<open>simp add: leD fun_eq_iff\<close>)
qed simp

lemma memmove_loop_copied:
  assumes "unat dst + n \<le> 4294967296" "unat src + n \<le> 4294967296"
  shows "memmove_loop m dst src n = copied m dst src n"
proof (cases "src < dst")
  case True
  then show ?thesis using assms by (simp add: memmove_down_copied)
next
  case False
  have "dst = src \<or> n \<le> unat (dst - src)"
    using False assms by (auto simp: unat_sub_if_size word_size word_le_nat_alt word_less_nat_alt word_unat_eq_iff)
  then show ?thesis
    using False assms by (simp add: memmove_up_memcpy memcpy_loop_copied)
qed

section \<open>Comparison and search\<close>

text \<open>\<^verbatim>\<open>memcmp\<close> returns the difference of the first pair of bytes that differ, 0 when none does.\<close>

lemma memcmp_loop_first_difference:
  "memcmp_loop m p q n =
     (case find (\<lambda>i. m (p + of_nat i) \<noteq> m (q + of_nat i)) [0..<n] of
        None \<Rightarrow> 0
      | Some i \<Rightarrow> uint (m (p + of_nat i)) - uint (m (q + of_nat i)))"
proof (induction n arbitrary: p q)
  case (Suc n)
  have "find (\<lambda>i. m (p + of_nat i) \<noteq> m (q + of_nat i)) [0..<Suc n] =
          (if m p \<noteq> m q then Some 0
           else map_option Suc (find (\<lambda>i. m (p + of_nat (Suc i)) \<noteq> m (q + of_nat (Suc i))) [0..<n]))"
    by (simp add: upt_rec [of 0 "Suc n"] find_map_Suc del: upt_Suc of_nat_Suc)
  then show ?case
    by (auto simp: Suc.IH add_of_nat_Suc split: option.splits simp del: of_nat_Suc upt_Suc)
qed simp

lemma memchr_loop_find:
  "memchr_loop m p c n =
     map_option (\<lambda>i. p + of_nat i) (find (\<lambda>i. ucast (m (p + of_nat i)) = c) [0..<n])"
proof (induction n arbitrary: p)
  case (Suc n)
  have "find (\<lambda>i. ucast (m (p + of_nat i)) = c) [0..<Suc n] =
          (if ucast (m p) = c then Some 0
           else map_option Suc (find (\<lambda>i. ucast (m (p + of_nat (Suc i))) = c) [0..<n]))"
    by (simp add: upt_rec [of 0 "Suc n"] find_map_Suc del: upt_Suc of_nat_Suc)
  then show ?case
    by (auto simp: Suc.IH add_of_nat_Suc option.map_comp o_def simp del: of_nat_Suc upt_Suc)
qed simp

text \<open>
  \<^verbatim>\<open>memrchr\<close> starts at \<^verbatim>\<open>s + n\<close>, one byte past the buffer, and stops before index 0.
\<close>

lemma memrchr_loop_find:
  "memrchr_loop m (s + of_nat n) c n =
     map_option (\<lambda>i. s + of_nat i) (find (\<lambda>i. ucast (m (s + of_nat i)) = c) (rev [1..<Suc n]))"
proof (induction n)
  case (Suc n)
  have eq: "s + of_nat (Suc n) - 1 = s + of_nat n" by simp
  show ?case
    by (simp only: memrchr_loop.simps eq Suc.IH)
       (simp add: upt_Suc_append del: of_nat_Suc upt_Suc)
qed simp

lemma find_SomeD: "find P xs = Some x \<Longrightarrow> P x"
  by (auto simp: find_Some_iff)

section \<open>Correctness properties\<close>

text \<open>
  C29: on buffers that do not wrap around the address space, overlapping or not, \<^verbatim>\<open>memmove\<close> gives
  the destination the bytes the source had before the call, changes no other byte, and returns
  the destination.
\<close>

theorem memmove_correct:
  assumes "unat dst + unat n \<le> 4294967296" "unat src + unat n \<le> 4294967296"
  shows "memmove m dst src n =
     ((\<lambda>a. if a \<in> blk dst (unat n) then m (src + (a - dst)) else m a), dst)"
  using memmove_loop_copied [OF assms] by (simp add: memmove_def copied_def)

theorem memmove_correct_witness:
  "fst (memmove (\<lambda>a. ucast a) 5 3 4) 8 = 6 \<and> fst (memmove (\<lambda>a. ucast a) 3 5 4) 4 = 6"
  using memmove_correct [of 5 4 3 "\<lambda>a. ucast a"] memmove_correct [of 3 4 5 "\<lambda>a. ucast a"]
  by (simp add: in_blk_iff)

text \<open>
  \<^verbatim>\<open>memcmp\<close> is the difference of the first two bytes that differ, 0 when none does; it is 0
  exactly when the two buffers hold the same bytes.
\<close>

theorem memcmp_correct:
  "memcmp m p q n =
     (case find (\<lambda>i. m (p + of_nat i) \<noteq> m (q + of_nat i)) [0..<unat n] of
        None \<Rightarrow> 0
      | Some i \<Rightarrow> uint (m (p + of_nat i)) - uint (m (q + of_nat i)))
   \<and> (memcmp m p q n = 0 \<longleftrightarrow> (\<forall>i < unat n. m (p + of_nat i) = m (q + of_nat i)))"
proof -
  have "memcmp m p q n = 0 \<longleftrightarrow> find (\<lambda>i. m (p + of_nat i) \<noteq> m (q + of_nat i)) [0..<unat n] = None"
    by (cases "find (\<lambda>i. m (p + of_nat i) \<noteq> m (q + of_nat i)) [0..<unat n]")
       (auto simp: memcmp_def memcmp_loop_first_difference word_uint_eq_iff dest: find_SomeD)
  then show ?thesis by (simp add: memcmp_def memcmp_loop_first_difference find_None_iff)
qed

theorem memcmp_correct_witness: "memcmp ((\<lambda>_. 7)(0 := 8)) 1 100 4 = 0"
proof -
  have "1 + of_nat i \<noteq> (0 :: u32) \<and> 100 + of_nat i \<noteq> (0 :: u32)" if "i < 4" for i
    using unat_add_of_nat [of 1 i] unat_add_of_nat [of 100 i] that by (auto simp: word_unat_eq_iff)
  then show ?thesis using memcmp_correct [of "(\<lambda>_. 7)(0 := 8)" 1 100 4] by simp
qed

text \<open>
  \<^verbatim>\<open>memrchr\<close> returns the last match among the bytes 1 to n of the buffer: it looks at byte n, one
  past the end, and never at byte 0.
\<close>

theorem memrchr_range:
  "memrchr m s c n =
     map_option (\<lambda>i. s + of_nat i) (find (\<lambda>i. ucast (m (s + of_nat i)) = c) (rev [1..<Suc (unat n)]))"
  using memrchr_loop_find [of m s "unat n" c] by (simp add: memrchr_def)

end
