(* ===== verification/Lib_Str.thy ===== *)
theory Lib_Str
  imports Lib_Mem
begin

text \<open>
  The string half of the string library, \<^verbatim>\<open>src/lib/string/str.c\<close>.  Strings are NUL terminated
  in the flat memory (\<open>cstr\<close>); \<^verbatim>\<open>char\<close> is signed on this target, so comparisons read \<open>sint\<close>.  The
  loops run until they find a NUL, so they are partial; the lemmas show that they return on
  every string.  A returned \<^verbatim>\<open>NULL\<close> is \<open>None\<close> inside the result, the address 0 as an argument.
\<close>

unbundle bit_operations_syntax

section \<open>Definitions\<close>

partial_function (option) isof :: "mem \<Rightarrow> int \<Rightarrow> ptr \<Rightarrow> bool option" where
  "isof m c charset =
     (if m charset \<noteq> 0
      then if c = sint (m charset) then Some True else isof m c (charset + 1)
      else Some False)"

partial_function (option) strlen_loop :: "mem \<Rightarrow> ptr \<Rightarrow> u32 \<Rightarrow> u32 option" where
  "strlen_loop m s i = (if m s \<noteq> 0 then strlen_loop m (s + 1) (i + 1) else Some i)"

definition strlen :: "mem \<Rightarrow> ptr \<Rightarrow> u32 option" where
  "strlen m s = strlen_loop m s 0"

definition strchr :: "mem \<Rightarrow> ptr \<Rightarrow> int \<Rightarrow> ptr option option" where
  "strchr m s c =
     do { s' \<leftarrow> scan (\<lambda>s. m s \<noteq> 0 \<and> sint (m s) \<noteq> c) s;
          Some (if sint (m s') = c then Some s' else None) }"

text \<open>\<^verbatim>\<open>while (len-- && *s != c) s--;\<close>\<close>

fun strrchr_loop :: "mem \<Rightarrow> int \<Rightarrow> nat \<Rightarrow> ptr \<Rightarrow> ptr" where
  "strrchr_loop m c 0 s = s"
| "strrchr_loop m c (Suc len) s = (if sint (m s) \<noteq> c then strrchr_loop m c len (s - 1) else s)"

definition strrchr :: "mem \<Rightarrow> ptr \<Rightarrow> int \<Rightarrow> ptr option option" where
  "strrchr m s c =
     do { len \<leftarrow> strlen m s;
          let s' = strrchr_loop m c (unat len) (s + len);
          Some (if sint (m s') = c then Some s' else None) }"

text \<open>Two pointers that advance together: \<^verbatim>\<open>while (P(s, t)) s++, t++;\<close>\<close>

partial_function (option) scan2 :: "(ptr \<Rightarrow> ptr \<Rightarrow> bool) \<Rightarrow> ptr \<Rightarrow> ptr \<Rightarrow> (ptr \<times> ptr) option" where
  "scan2 P s t = (if P s t then scan2 P (s + 1) (t + 1) else Some (s, t))"

definition strcmp :: "mem \<Rightarrow> ptr \<Rightarrow> ptr \<Rightarrow> int option" where
  "strcmp m s1 s2 =
     do { (s1', s2') \<leftarrow> scan2 (\<lambda>s t. m s \<noteq> 0 \<and> m t \<noteq> 0 \<and> m s = m t) s1 s2;
          Some (sint (m s1') - sint (m s2')) }"

text \<open>
  The loop of \<^verbatim>\<open>strncmp\<close>: the test \<^verbatim>\<open>n--\<close> decrements \<open>n\<close> even when it fails, so that \<open>n\<close> is
  \<^verbatim>\<open>SIZE_MAX\<close> after \<open>n\<close> equal characters.
\<close>

function strncmp_loop :: "mem \<Rightarrow> u32 \<Rightarrow> ptr \<Rightarrow> ptr \<Rightarrow> u32 \<times> ptr \<times> ptr" where
  "strncmp_loop m n s1 s2 =
     (if n \<noteq> 0 \<and> m s1 \<noteq> 0 \<and> m s2 \<noteq> 0 \<and> m s1 = m s2
      then strncmp_loop m (n - 1) (s1 + 1) (s2 + 1)
      else (n - 1, s1, s2))"
  by pat_completeness auto
termination
  by (relation "measure (\<lambda>(m, n, s1, s2). unat n)") (auto simp: unat_minus_one unat_gt_0)

declare strncmp_loop.simps [simp del]

definition strncmp :: "mem \<Rightarrow> ptr \<Rightarrow> ptr \<Rightarrow> u32 \<Rightarrow> int" where
  "strncmp m s1 s2 n =
     (let (n', s1', s2') = strncmp_loop m n s1 s2
      in if n' = 0 then 0 else sint (m s1') - sint (m s2'))"

partial_function (option) strcpy_loop :: "mem \<Rightarrow> ptr \<Rightarrow> ptr \<Rightarrow> mem option" where
  "strcpy_loop m dst src =
     (if m src \<noteq> 0 then strcpy_loop (m(dst := m src)) (dst + 1) (src + 1) else Some (m(dst := 0)))"

definition strcpy :: "mem \<Rightarrow> ptr \<Rightarrow> ptr \<Rightarrow> (mem \<times> ptr) option" where
  "strcpy m dst src = do { m' \<leftarrow> strcpy_loop m dst src; Some (m', dst) }"

fun strncpy_loop :: "mem \<Rightarrow> ptr \<Rightarrow> ptr \<Rightarrow> nat \<Rightarrow> mem" where
  "strncpy_loop m dst src 0 = m"
| "strncpy_loop m dst src (Suc n) = strncpy_loop (m(dst := m src)) (dst + 1) (src + 1) n"

definition strncpy :: "mem \<Rightarrow> ptr \<Rightarrow> ptr \<Rightarrow> u32 \<Rightarrow> mem \<times> ptr" where
  "strncpy m dst src n = (strncpy_loop m dst src (unat n), dst)"

partial_function (option) strspn_loop :: "mem \<Rightarrow> ptr \<Rightarrow> ptr \<Rightarrow> u32 \<Rightarrow> u32 option" where
  "strspn_loop m accept s count =
     (if m s \<noteq> 0
      then do { b \<leftarrow> isof m (sint (m s)) accept;
                if b then strspn_loop m accept (s + 1) (count + 1) else Some count }
      else Some count)"

definition strspn :: "mem \<Rightarrow> ptr \<Rightarrow> ptr \<Rightarrow> u32 option" where
  "strspn m s accept = strspn_loop m accept s 0"

partial_function (option) strcspn_loop :: "mem \<Rightarrow> ptr \<Rightarrow> ptr \<Rightarrow> u32 \<Rightarrow> u32 option" where
  "strcspn_loop m reject s count =
     (if m s \<noteq> 0
      then do { b \<leftarrow> isof m (sint (m s)) reject;
                if b then Some count else strcspn_loop m reject (s + 1) (count + 1) }
      else Some count)"

definition strcspn :: "mem \<Rightarrow> ptr \<Rightarrow> ptr \<Rightarrow> u32 option" where
  "strcspn m s reject = strcspn_loop m reject s 0"

text \<open>\<^verbatim>\<open>while (*s && isof(*s, set) == b) s++;\<close>, the loop of \<^verbatim>\<open>strpbrk\<close> and the two of \<^verbatim>\<open>strtok\<close>.\<close>

partial_function (option) skip_isof :: "mem \<Rightarrow> ptr \<Rightarrow> bool \<Rightarrow> ptr \<Rightarrow> ptr option" where
  "skip_isof m charset b s =
     (if m s \<noteq> 0
      then do { r \<leftarrow> isof m (sint (m s)) charset;
                if r = b then skip_isof m charset b (s + 1) else Some s }
      else Some s)"

definition strpbrk :: "mem \<Rightarrow> ptr \<Rightarrow> ptr \<Rightarrow> ptr option option" where
  "strpbrk m s accept =
     do { s' \<leftarrow> skip_isof m accept False s; Some (if m s' \<noteq> 0 then Some s' else None) }"

partial_function (option) strstr :: "mem \<Rightarrow> ptr \<Rightarrow> ptr \<Rightarrow> ptr option" where
  "strstr m haystack needle =
     (if m haystack \<noteq> 0
      then do { (tmph, tmpn) \<leftarrow> scan2 (\<lambda>s t. m s \<noteq> 0 \<and> m t \<noteq> 0 \<and> m s = m t) haystack needle;
                if m tmpn = 0 then Some haystack else strstr m (haystack + 1) needle }
      else Some haystack)"

text \<open>\<^verbatim>\<open>strtok\<close> keeps the static \<^verbatim>\<open>ptr\<close>: it is an argument and the second component of the result.\<close>

definition strtok :: "mem \<Rightarrow> ptr \<Rightarrow> ptr \<Rightarrow> ptr \<Rightarrow> (mem \<times> ptr \<times> ptr) option" where
  "strtok m ptr0 str delim =
     do { let p0 = (if str \<noteq> 0 then str else ptr0);
          p \<leftarrow> skip_isof m delim True p0;
          tmp \<leftarrow> skip_isof m delim False p;
          Some (m(tmp := 0), p, p) }"

definition strcat :: "mem \<Rightarrow> ptr \<Rightarrow> ptr \<Rightarrow> (mem \<times> ptr) option" where
  "strcat m dst src =
     do { d \<leftarrow> scan (\<lambda>s. m s \<noteq> 0) dst;
          (m', r) \<leftarrow> strcpy m (d + 1) src;
          Some (m', dst) }"

definition strncat :: "mem \<Rightarrow> ptr \<Rightarrow> ptr \<Rightarrow> u32 \<Rightarrow> (mem \<times> ptr) option" where
  "strncat m dst src n =
     do { d \<leftarrow> scan (\<lambda>s. m s \<noteq> 0) dst;
          let m' = fst (strncpy m (d + 1) src n);
          Some (m'(d + 1 + n := 0), dst) }"

declare isof.simps [code] strlen_loop.simps [code] scan2.simps [code] strcpy_loop.simps [code]
  strspn_loop.simps [code] strcspn_loop.simps [code] skip_isof.simps [code] strstr.simps [code]

section \<open>Strings in memory\<close>

lemma cstr_iff:
  "cstr m p xs \<longleftrightarrow> (\<forall>i < length xs. m (p + of_nat i) = xs ! i \<and> xs ! i \<noteq> 0) \<and> m (p + of_nat (length xs)) = 0"
proof (induction xs arbitrary: p)
  case (Cons x xs)
  show ?case
    unfolding cstr.simps Cons.IH length_Cons All_less_Suc2 add_of_nat_Suc nth_Cons_0 nth_Cons_Suc
    by auto
qed simp

lemma cstr_unique: "cstr m p xs \<Longrightarrow> cstr m p ys \<Longrightarrow> xs = ys"
proof (induction xs arbitrary: p ys)
  case Nil
  then show ?case by (cases ys) auto
next
  case (Cons x xs)
  then show ?case by (cases ys) auto
qed

lemma cstr_drop: "cstr m p xs \<Longrightarrow> i \<le> length xs \<Longrightarrow> cstr m (p + of_nat i) (drop i xs)"
proof (induction xs arbitrary: p i)
  case (Cons x xs)
  show ?case
  proof (cases i)
    case (Suc k)
    then show ?thesis using Cons.IH [of "p + 1" k] Cons.prems by (simp add: add.assoc)
  qed (use Cons.prems in simp)
qed simp

lemma cstr_nonzero: "cstr m p xs \<Longrightarrow> 0 \<notin> set xs"
  by (induction xs arbitrary: p) auto

lemma scan_cstr:
  assumes "cstr m s xs" "\<not> Q 0"
  shows "scan (\<lambda>s. Q (m s)) s = Some (s + of_nat (length (takeWhile Q xs)))"
  using assms(1)
proof (induction xs arbitrary: s)
  case Nil
  then show ?case using assms(2) by (subst scan.simps) simp
next
  case (Cons x xs)
  then show ?case by (subst scan.simps) (auto simp: add.assoc)
qed

lemma isof_cstr: "cstr m p cs \<Longrightarrow> isof m c p = Some (c \<in> sint ` set cs)"
proof (induction cs arbitrary: p)
  case Nil
  then show ?case by (subst isof.simps) simp
next
  case (Cons x cs)
  then show ?case by (subst isof.simps) auto
qed

lemma sint_eq_iff [simp]: "sint (a :: 'a::len word) = sint b \<longleftrightarrow> a = b"
  by (auto intro: signed_word_eqI)

section \<open>The functions on strings\<close>

lemma strlen_loop_cstr: "cstr m s xs \<Longrightarrow> strlen_loop m s i = Some (i + of_nat (length xs))"
proof (induction xs arbitrary: s i)
  case Nil
  then show ?case by (subst strlen_loop.simps) simp
next
  case (Cons x xs)
  then show ?case by (subst strlen_loop.simps) (simp add: add.assoc)
qed

lemma strlen_cstr: "cstr m s xs \<Longrightarrow> strlen m s = Some (of_nat (length xs))"
  by (simp add: strlen_def strlen_loop_cstr)

text \<open>The common prefix of two lists.\<close>

fun common :: "'a list \<Rightarrow> 'a list \<Rightarrow> nat" where
  "common (x # xs) (y # ys) = (if x = y then Suc (common xs ys) else 0)"
| "common xs ys = 0"

lemma common_le: "common xs ys \<le> length xs" "common xs ys \<le> length ys"
  by (induction xs ys rule: common.induct) auto

lemma scan2_cstr:
  assumes "cstr m s xs" "cstr m t ys"
  shows "scan2 (\<lambda>s t. m s \<noteq> 0 \<and> m t \<noteq> 0 \<and> m s = m t) s t = Some (s + of_nat (common xs ys), t + of_nat (common xs ys))"
  using assms
proof (induction xs ys arbitrary: s t rule: common.induct)
  case (1 x xs y ys)
  then show ?case by (subst scan2.simps) (auto simp: add.assoc)
qed (subst scan2.simps, force)+

text \<open>The byte a terminated string has at position \<open>i\<close>, its NUL included.\<close>

abbreviation zat :: "u8 list \<Rightarrow> nat \<Rightarrow> u8" where "zat xs i \<equiv> (xs @ [0]) ! i"

lemma cstr_zat: "cstr m p xs \<Longrightarrow> i \<le> length xs \<Longrightarrow> m (p + of_nat i) = zat xs i"
  by (auto simp: cstr_iff nth_append le_less)

lemma common_differ:
  "0 \<notin> set xs \<Longrightarrow> 0 \<notin> set ys \<Longrightarrow> zat xs (common xs ys) = zat ys (common xs ys) \<longleftrightarrow> xs = ys"
proof (induction xs arbitrary: ys)
  case Nil
  then show ?case by (cases ys) auto
next
  case (Cons x xs)
  then show ?case by (cases ys) auto
qed

lemma strcmp_cstr:
  assumes "cstr m p xs" "cstr m q ys"
  shows "strcmp m p q = Some (sint (zat xs (common xs ys)) - sint (zat ys (common xs ys)))"
  using assms by (simp add: strcmp_def scan2_cstr cstr_zat common_le)

lemma strcmp_eq_0:
  assumes "cstr m p xs" "cstr m q ys"
  shows "strcmp m p q = Some 0 \<longleftrightarrow> xs = ys"
  using common_differ [OF cstr_nonzero [OF assms(1)] cstr_nonzero [OF assms(2)]]
  by (simp add: strcmp_cstr [OF assms])

text \<open>\<^verbatim>\<open>strncmp\<close>: how far the loop goes, and with which counter it stops.\<close>

lemma strncmp_loop_cstr:
  assumes "cstr m p xs" "cstr m q ys" "k = min (unat n) (common xs ys)"
  shows "strncmp_loop m n p q = (n - of_nat k - 1, p + of_nat k, q + of_nat k)"
  using assms
proof (induction xs ys arbitrary: n p q k rule: common.induct)
  case (1 x xs y ys)
  show ?case
  proof (cases "n \<noteq> 0 \<and> x = y")
    case True
    then have n: "unat (n - 1) = unat n - 1" "0 < unat n" by (auto simp: unat_minus_one unat_gt_0)
    define j where "j = min (unat (n - 1)) (common xs ys)"
    have k: "k = Suc j" using 1(4) True n by (auto simp: j_def)
    have "strncmp_loop m (n - 1) (p + 1) (q + 1) = (n - 1 - of_nat j - 1, p + 1 + of_nat j, q + 1 + of_nat j)"
      using 1(1) [OF _ _ _ j_def] 1(2,3) True by simp
    then show ?thesis using True 1(2,3) by (subst strncmp_loop.simps) (simp add: k algebra_simps)
  next
    case False
    then show ?thesis using 1(2-4) by (subst strncmp_loop.simps) auto
  qed
qed (subst strncmp_loop.simps, auto)+

lemma strspn_loop_cstr:
  assumes "cstr m s xs" "cstr m a as"
  shows "strspn_loop m a s i = Some (i + of_nat (length (takeWhile (\<lambda>x. x \<in> set as) xs)))"
    and "strcspn_loop m a s i = Some (i + of_nat (length (takeWhile (\<lambda>x. x \<notin> set as) xs)))"
    and "skip_isof m a b s = Some (s + of_nat (length (takeWhile (\<lambda>x. (x \<in> set as) = b) xs)))"
  using assms(1)
proof (induction xs arbitrary: s i)
  case Nil
  { case 1 then show ?case by (subst strspn_loop.simps) simp }
  { case 2 then show ?case by (subst strcspn_loop.simps) simp }
  { case 3 then show ?case by (subst skip_isof.simps) simp }
next
  case (Cons x xs)
  have o: "isof m (sint x) a = Some (x \<in> set as)" using isof_cstr [OF assms(2)] by (auto simp: image_iff)
  { case 1 then show ?case using Cons.IH(1) by (subst strspn_loop.simps) (simp add: o add.assoc) }
  { case 2 then show ?case using Cons.IH(2) by (subst strcspn_loop.simps) (simp add: o add.assoc) }
  { case 3 then show ?case using Cons.IH(3) by (subst skip_isof.simps) (simp add: o add.assoc) }
qed

lemma common_prefix: "common xs ys = length ys \<longleftrightarrow> take (length ys) xs = ys"
  by (induction xs ys rule: common.induct) auto

lemma strstr_cstr:
  assumes "cstr m h hs" "cstr m n ns"
  shows "strstr m h n = Some (h + of_nat
     (case find (\<lambda>i. take (length ns) (drop i hs) = ns) [0..<length hs] of Some i \<Rightarrow> i | None \<Rightarrow> length hs))"
  using assms(1)
proof (induction hs arbitrary: h)
  case Nil
  then show ?case by (subst strstr.simps) simp
next
  case (Cons x xs)
  let ?k = "common (x # xs) ns"
  have "m (n + of_nat ?k) = 0 \<longleftrightarrow> ?k = length ns"
    using assms(2) common_le [of ns "x # xs"] common_le(2) [of "x # xs" ns] by (auto simp: cstr_iff le_less)
  also have "\<dots> \<longleftrightarrow> take (length ns) (x # xs) = ns" by (rule common_prefix)
  finally have hit: "m (n + of_nat ?k) = 0 \<longleftrightarrow> take (length ns) (x # xs) = ns" .
  have fnd: "find (\<lambda>i. take (length ns) (drop i (x # xs)) = ns) [0..<length (x # xs)] =
     (if take (length ns) (x # xs) = ns then Some 0
      else map_option Suc (find (\<lambda>i. take (length ns) (drop i xs) = ns) [0..<length xs]))"
    by (simp add: upt_rec [of 0 "Suc _"] find_map_Suc del: upt_Suc)
  have "strstr m h n = (if take (length ns) (x # xs) = ns then Some h else strstr m (h + 1) n)"
    using Cons.prems scan2_cstr [OF Cons.prems assms(2)] by (subst strstr.simps) (simp add: hit)
  then show ?case
    using Cons.IH [of "h + 1"] Cons.prems unfolding fnd by (auto simp: add.assoc split: option.splits)
qed

section \<open>Copies\<close>

lemma cstr_cong: "(\<And>a. a \<in> blk p (Suc (length xs)) \<Longrightarrow> m' a = m a) \<Longrightarrow> length xs < 4294967296 \<Longrightarrow> cstr m' p xs = cstr m p xs"
proof (induction xs arbitrary: p)
  case Nil
  then show ?case by (simp add: in_blk_iff)
next
  case (Cons x xs)
  have "m' p = m p" using Cons.prems(1) [of p] by (simp add: in_blk_iff)
  moreover have "cstr m' (p + 1) xs = cstr m (p + 1) xs"
    using Cons.prems by (intro Cons.IH) (auto simp: blk_Suc [of "Suc (length xs)"])
  ultimately show ?case by simp
qed

lemma strcpy_loop_memcpy:
  assumes "cstr m src xs" "length xs < 4294967295" "dst \<notin> blk src (Suc (length xs))"
  shows "strcpy_loop m dst src = Some (memcpy_loop m dst src (Suc (length xs)))"
  using assms
proof (induction xs arbitrary: m dst src)
  case Nil
  then show ?case by (subst strcpy_loop.simps) (simp add: fun_eq_iff)
next
  case (Cons x xs)
  have nb: "dst \<notin> blk (src + 1) (Suc (length xs))"
    using Cons.prems(2,3) by (simp add: blk_Suc [of "Suc (length xs)"])
  then have "cstr (m(dst := m src)) (src + 1) xs = cstr m (src + 1) xs"
    using Cons.prems(2) by (intro cstr_cong) auto
  then have "cstr (m(dst := m src)) (src + 1) xs" using Cons.prems(1) by simp
  moreover have "dst + 1 \<notin> blk (src + 1) (Suc (length xs))"
    using Cons.prems(3) by (simp add: in_blk_iff)
  moreover have "length xs < 4294967295" using Cons.prems(2) by simp
  ultimately have "strcpy_loop (m(dst := m src)) (dst + 1) (src + 1) =
      Some (memcpy_loop (m(dst := m src)) (dst + 1) (src + 1) (Suc (length xs)))"
    by (intro Cons.IH)
  then show ?case using Cons.prems(1) by (subst strcpy_loop.simps) simp
qed

lemma strcpy_copied:
  assumes "cstr m src xs" "length xs < 4294967295" "dst \<notin> blk src (Suc (length xs))"
  shows "strcpy m dst src = Some (copied m dst src (Suc (length xs)), dst)"
  using strcpy_loop_memcpy [OF assms] memcpy_loop_copied [of "Suc (length xs)" dst src m] assms(2,3)
  by (simp add: strcpy_def in_blk_iff)

lemma cstr_copied:
  assumes "cstr m src xs" "length xs < 4294967295"
  shows "cstr (copied m dst src (Suc (length xs))) dst xs"
proof -
  have "copied m dst src (Suc (length xs)) (dst + of_nat i) = m (src + of_nat i)" if "i \<le> length xs" for i
    using that assms(2) blk_add_of_nat [of i "Suc (length xs)" dst] by (simp add: copied_def)
  then show ?thesis using assms(1) by (simp add: cstr_iff)
qed

lemma strncpy_loop_memcpy: "strncpy_loop m dst src n = memcpy_loop m dst src n"
  by (induction n arbitrary: m dst src) auto

section \<open>Correctness properties\<close>

text \<open>A memory for the witnesses: the string ABBA at 16, AB at 32, the empty string at 48.\<close>

definition demo_mem :: mem where
  "demo_mem = (\<lambda>_. 0)(16 := 65, 17 := 66, 18 := 66, 19 := 65, 32 := 65, 33 := 66)"

lemma demo_cstr: "cstr demo_mem 16 [65, 66, 66, 65]" "cstr demo_mem 32 [65, 66]" "cstr demo_mem 48 []"
  by (simp_all add: demo_mem_def)

text \<open>
  On NUL terminated strings \<^verbatim>\<open>strlen\<close> returns the length and \<^verbatim>\<open>strcmp\<close> returns the difference of
  the first two characters that differ, the NUL included; it is 0 exactly on equal strings.
\<close>

theorem strcmp_correct:
  assumes "cstr m p xs" "cstr m q ys"
  shows "strlen m p = Some (of_nat (length xs))
     \<and> strcmp m p q = Some (sint (zat xs (common xs ys)) - sint (zat ys (common xs ys)))
     \<and> (strcmp m p q = Some 0 \<longleftrightarrow> xs = ys)"
  using strlen_cstr [OF assms(1)] strcmp_cstr [OF assms] strcmp_eq_0 [OF assms] by blast

theorem strcmp_correct_witness:
  "strlen demo_mem 16 = Some 4 \<and> strcmp demo_mem 16 32 = Some 66 \<and> strcmp demo_mem 16 32 \<noteq> Some 0"
  using strcmp_correct [OF demo_cstr(1,2)] by simp

text \<open>
  \<^verbatim>\<open>strcpy\<close> to a destination that does not start inside the source string returns, leaves a copy
  of the string at the destination and changes only the bytes of that copy.
\<close>

theorem strcpy_correct:
  assumes "cstr m src xs" "length xs < 4294967295" "dst \<notin> blk src (Suc (length xs))"
  shows "\<exists>m'. strcpy m dst src = Some (m', dst) \<and> cstr m' dst xs
     \<and> (\<forall>a. a \<notin> blk dst (Suc (length xs)) \<longrightarrow> m' a = m a)"
  using strcpy_copied [OF assms] cstr_copied [OF assms(1,2), of dst] by (simp add: copied_def)

theorem strcpy_correct_witness: "\<exists>m'. strcpy demo_mem 64 16 = Some (m', 64) \<and> cstr m' 64 [65, 66, 66, 65]"
  using strcpy_correct [OF demo_cstr(1), of 64] by (auto simp: in_blk_iff)

text \<open>
  \<^verbatim>\<open>strspn\<close>, \<^verbatim>\<open>strcspn\<close> and \<^verbatim>\<open>strpbrk\<close> measure or find the first character of the string outside,
  or inside, the character set.
\<close>

theorem strspn_correct:
  assumes "cstr m s xs" "cstr m a as"
  shows "strspn m s a = Some (of_nat (length (takeWhile (\<lambda>x. x \<in> set as) xs)))
     \<and> strcspn m s a = Some (of_nat (length (takeWhile (\<lambda>x. x \<notin> set as) xs)))
     \<and> strpbrk m s a = Some (if set xs \<inter> set as = {} then None
                             else Some (s + of_nat (length (takeWhile (\<lambda>x. x \<notin> set as) xs))))"
proof -
  let ?k = "length (takeWhile (\<lambda>x. x \<notin> set as) xs)"
  have "m (s + of_nat ?k) = 0 \<longleftrightarrow> ?k = length xs"
    using assms(1) length_takeWhile_le [of "\<lambda>x. x \<notin> set as" xs] by (auto simp: cstr_iff le_less)
  also have "\<dots> \<longleftrightarrow> set xs \<inter> set as = {}"
    by (metis disjoint_iff takeWhile_eq_all_conv takeWhile_eq_take take_all_iff order_refl)
  finally have "m (s + of_nat ?k) = 0 \<longleftrightarrow> set xs \<inter> set as = {}" .
  then show ?thesis
    using strspn_loop_cstr [OF assms] by (simp add: strspn_def strcspn_def strpbrk_def)
qed

theorem strspn_correct_witness: "strspn demo_mem 16 32 = Some 4 \<and> strpbrk demo_mem 16 48 = Some None"
  using strspn_correct [OF demo_cstr(1,2)] strspn_correct [OF demo_cstr(1,3)] by simp

text \<open>
  \<^verbatim>\<open>strstr\<close> returns the first position of the needle; when there is none it returns the address of
  the haystack's NUL, never a null pointer.
\<close>

theorem strstr_first:
  assumes "cstr m h hs" "cstr m n ns"
  shows "strstr m h n = Some (h + of_nat
     (case find (\<lambda>i. take (length ns) (drop i hs) = ns) [0..<length hs] of Some i \<Rightarrow> i | None \<Rightarrow> length hs))"
  by (rule strstr_cstr [OF assms])

theorem strstr_first_witness: "strstr demo_mem 32 16 = Some 34"
  using strstr_first [OF demo_cstr(2,1)] by (simp add: upt_rec)

text \<open>
  When the first \<open>n\<close> characters of two strings are equal, \<^verbatim>\<open>strncmp\<close> with count \<open>n\<close> does not return
  0 but the difference of the characters at position \<open>n\<close>; and when they first differ at position
  \<open>n - 1\<close> it returns 0.
\<close>

theorem strncmp_off_by_one:
  assumes "cstr m p xs" "cstr m q ys" "unat n \<noteq> 4294967295"
  shows "(unat n \<le> common xs ys \<longrightarrow> strncmp m p q n = sint (zat xs (unat n)) - sint (zat ys (unat n)))
     \<and> (common xs ys + 1 = unat n \<longrightarrow> strncmp m p q n = 0)"
proof (intro conjI impI)
  assume le: "unat n \<le> common xs ys"
  then have "strncmp_loop m n p q = (-1, p + n, q + n)"
    using strncmp_loop_cstr [OF assms(1,2), of "unat n" n] by simp
  moreover have "m (p + n) = zat xs (unat n)" "m (q + n) = zat ys (unat n)"
    using cstr_zat [OF assms(1), of "unat n"] cstr_zat [OF assms(2), of "unat n"] le common_le [of xs ys] by simp_all
  ultimately show "strncmp m p q n = sint (zat xs (unat n)) - sint (zat ys (unat n))"
    by (simp add: strncmp_def)
next
  assume n: "common xs ys + 1 = unat n"
  then have "n = of_nat (common xs ys + 1)" by simp
  then have "n - of_nat (common xs ys) - 1 = 0" by simp
  then show "strncmp m p q n = 0"
    using strncmp_loop_cstr [OF assms(1,2) refl, of n] n by (simp add: strncmp_def flip: n)
qed

theorem strncmp_off_by_one_witness:
  "strncmp demo_mem 16 32 2 = 66 \<and> strncmp demo_mem 16 32 3 = 0"
  using strncmp_off_by_one [OF demo_cstr(1,2), of 2] strncmp_off_by_one [OF demo_cstr(1,2), of 3] by simp

text \<open>
  \<^verbatim>\<open>strcat\<close> writes its copy one byte past the NUL of the destination, so the destination string is
  the same string after the call.
\<close>

theorem strcat_no_effect:
  assumes "cstr m dst xs" "cstr m src ys" "length xs + length ys + 2 < 4294967296"
    and "dst + of_nat (length xs) + 1 \<notin> blk src (Suc (length ys))"
  shows "\<exists>m'. strcat m dst src = Some (m', dst) \<and> cstr m' dst xs \<and> cstr m' (dst + of_nat (length xs) + 1) ys"
proof -
  let ?d = "dst + of_nat (length xs) + 1"
  have tw: "takeWhile (\<lambda>x. x \<noteq> 0) xs = xs"
    using cstr_nonzero [OF assms(1)] unfolding takeWhile_eq_all_conv by auto
  have d: "scan (\<lambda>s. m s \<noteq> 0) dst = Some (dst + of_nat (length xs))"
    using scan_cstr [OF assms(1), of "\<lambda>x. x \<noteq> 0"] unfolding tw by simp
  have cp: "strcpy m ?d src = Some (copied m ?d src (Suc (length ys)), ?d)"
    using assms(3) by (intro strcpy_copied assms(2,4)) simp
  have "a \<notin> blk ?d (Suc (length ys))" if a: "a \<in> blk dst (Suc (length xs))" for a
  proof
    assume "a \<in> blk ?d (Suc (length ys))"
    then obtain j where j: "j < Suc (length ys)" "a = ?d + of_nat j" by (elim in_blkE)
    then have "a - dst = of_nat (length xs + 1 + j)" by simp
    then have "unat (a - dst) = length xs + 1 + j"
      using unat_of_nat_small [of "length xs + 1 + j", where 'a = 32] j(1) assms(3) by (simp only:) simp
    then show False using a by (simp add: in_blk_iff)
  qed
  then have "cstr (copied m ?d src (Suc (length ys))) dst xs = cstr m dst xs"
    using assms(3) by (intro cstr_cong) (auto simp: copied_def)
  moreover have "cstr (copied m ?d src (Suc (length ys))) ?d ys"
    using assms(3) by (intro cstr_copied assms(2)) simp
  ultimately show ?thesis using d cp assms(1) by (simp add: strcat_def)
qed

theorem strcat_no_effect_witness: "\<exists>m'. strcat demo_mem 32 16 = Some (m', 32) \<and> cstr m' 32 [65, 66]"
  using strcat_no_effect [OF demo_cstr(2,1)] by (auto simp: in_blk_iff)

end
