(* ===== verification/Lib_Std.thy ===== *)
theory Lib_Std
  imports Lib_Str
begin

text \<open>
  The standard library, \<^verbatim>\<open>src/lib/std\<close>: \<^verbatim>\<open>abs\<close>, \<^verbatim>\<open>bsearch\<close>, \<^verbatim>\<open>atoi\<close> and the four string-to-number
  conversions.  The four share their text up to the width and the sign handling, so their
  common loops are definitions over a word of any width, used at 32 and 64 bits.  \<^verbatim>\<open>char\<close> and
  \<^verbatim>\<open>int c\<close> are read as signed numbers.  A conversion returns its value with the address it
  stores through \<^verbatim>\<open>endptr\<close>.
\<close>

unbundle bit_operations_syntax

section \<open>abs.c and bsearch.c\<close>

definition abs_int :: "32 word \<Rightarrow> 32 word" where "abs_int x = (if x <s 0 then - x else x)"

definition labs :: "32 word \<Rightarrow> 32 word" where "labs x = (if x <s 0 then - x else x)"

definition llabs :: "64 word \<Rightarrow> 64 word" where "llabs x = (if x <s 0 then - x else x)"

text \<open>\<^verbatim>\<open>compar\<close> is the caller's function, applied to the two addresses.\<close>

fun bsearch_loop :: "(ptr \<Rightarrow> ptr \<Rightarrow> int) \<Rightarrow> ptr \<Rightarrow> ptr \<Rightarrow> u32 \<Rightarrow> nat \<Rightarrow> nat \<Rightarrow> ptr option" where
  "bsearch_loop compar key base sz i 0 = None"
| "bsearch_loop compar key base sz i (Suc k) =
     (let p = base + of_nat i * sz
      in if compar key p = 0 then Some p else bsearch_loop compar key base sz (Suc i) k)"

definition bsearch :: "ptr \<Rightarrow> ptr \<Rightarrow> u32 \<Rightarrow> u32 \<Rightarrow> (ptr \<Rightarrow> ptr \<Rightarrow> int) \<Rightarrow> ptr option" where
  "bsearch key base nitems sz compar = bsearch_loop compar key base sz 0 (unat nitems)"

section \<open>strtol.c, strtoll.c, strtoul.c, strtoull.c, atoi.c\<close>

text \<open>The value of a digit or letter, before the comparison with the base.\<close>

definition digit_val :: "int \<Rightarrow> int option" where
  "digit_val c =
     (if c \<ge> 48 \<and> c \<le> 57 then Some (c - 48)
      else if c \<ge> 65 \<and> c \<le> 90 then Some (c - (65 - 10))
      else if c \<ge> 97 \<and> c \<le> 122 then Some (c - (97 - 10))
      else None)"

text \<open>The \<^verbatim>\<open>0x\<close> prefix and the choice of the base.\<close>

definition strto_base :: "mem \<Rightarrow> int \<Rightarrow> ptr \<Rightarrow> int \<Rightarrow> int \<times> ptr \<times> int" where
  "strto_base m c s base =
     (let (c, s, base) =
        (if (base = 0 \<or> base = 16) \<and> c = 48 \<and> (m s = 120 \<or> m s = 88)
         then (sint (m (s + 1)), s + 2, 16) else (c, s, base))
      in (c, s, if base = 0 then (if c = 48 then 8 else 10) else base))"

text \<open>The digit loop; \<open>s\<close> is one past the character in \<open>c\<close>.\<close>

partial_function (option) strto_digits ::
    "mem \<Rightarrow> int \<Rightarrow> 'a::len word \<Rightarrow> int \<Rightarrow> int \<Rightarrow> ptr \<Rightarrow> 'a word \<Rightarrow> int \<Rightarrow> ('a word \<times> int \<times> ptr) option" where
  "strto_digits m base cutoff cutlim c s acc any =
     (case digit_val c of
        None \<Rightarrow> Some (acc, any, s)
      | Some d \<Rightarrow>
          if d \<ge> base then Some (acc, any, s)
          else if any < 0 \<or> acc > cutoff \<or> (acc = cutoff \<and> d > cutlim)
          then strto_digits m base cutoff cutlim (sint (m s)) (s + 1) acc (-1)
          else strto_digits m base cutoff cutlim (sint (m s)) (s + 1) (acc * of_int base + of_int d) 1)"

declare strto_digits.simps [code]

text \<open>From the first cutoff on: the two divisions, the loop and the address for \<^verbatim>\<open>endptr\<close>.\<close>

definition strto_run :: "mem \<Rightarrow> ptr \<Rightarrow> int \<Rightarrow> ptr \<Rightarrow> int \<Rightarrow> 'a::len word \<Rightarrow> ('a word \<times> int \<times> ptr) option" where
  "strto_run m nptr c s base cutoff =
     do { let cutlim = sint (ucast (cutoff mod of_int base) :: 32 word);
          (acc, any, s') \<leftarrow> strto_digits m base (cutoff div of_int base) cutlim c s 0 0;
          Some (acc, any, if any \<noteq> 0 then s' - 1 else nptr) }"

definition LONG_MAX :: "'a::len word" where "LONG_MAX = drop_bit 1 (NOT 0)"
definition LONG_MIN :: "'a::len word" where "LONG_MIN = NOT LONG_MAX"

text \<open>The sign that follows the spaces, and the next character with the address after it.\<close>

definition strto_sign :: "mem \<Rightarrow> ptr \<Rightarrow> bool \<times> int \<times> ptr" where
  "strto_sign m s0 =
     (let c0 = sint (m s0); s1 = s0 + 1
      in if c0 = 45 then (True, sint (m s1), s1 + 1)
         else if c0 = 43 then (False, sint (m s1), s1 + 1)
         else (False, c0, s1))"

definition strto_plus :: "mem \<Rightarrow> ptr \<Rightarrow> int \<times> ptr" where
  "strto_plus m s0 =
     (let c0 = sint (m s0); s1 = s0 + 1
      in if c0 = 43 then (sint (m s1), s1 + 1) else (c0, s1))"

definition strto_signed :: "mem \<Rightarrow> ptr \<Rightarrow> int \<Rightarrow> ('a::len word \<times> ptr) option" where
  "strto_signed m nptr base0 =
     do { s0 \<leftarrow> scan (\<lambda>s. m s = 32) nptr;
          let (neg, c1, s2) = strto_sign m s0;
          let (c, s, base) = strto_base m c1 s2 base0;
          (acc, any, e) \<leftarrow> strto_run m nptr c s base (if neg then - LONG_MIN else LONG_MAX :: 'a word);
          Some (if any < 0 then (if neg then LONG_MIN else LONG_MAX) else if neg then - acc else acc, e) }"

definition strto_unsigned :: "mem \<Rightarrow> ptr \<Rightarrow> int \<Rightarrow> ('a::len word \<times> ptr) option" where
  "strto_unsigned m nptr base0 =
     do { s0 \<leftarrow> scan (\<lambda>s. m s = 32) nptr;
          let (c1, s2) = strto_plus m s0;
          let (c, s, base) = strto_base m c1 s2 base0;
          (acc, any, e) \<leftarrow> strto_run m nptr c s base (NOT 0 :: 'a word);
          Some (if any < 0 then NOT 0 else acc, e) }"

definition strtol :: "mem \<Rightarrow> ptr \<Rightarrow> int \<Rightarrow> (32 word \<times> ptr) option" where
  "strtol m nptr base = strto_signed m nptr base"

definition strtoll :: "mem \<Rightarrow> ptr \<Rightarrow> int \<Rightarrow> (64 word \<times> ptr) option" where
  "strtoll m nptr base = strto_signed m nptr base"

definition strtoul :: "mem \<Rightarrow> ptr \<Rightarrow> int \<Rightarrow> (32 word \<times> ptr) option" where
  "strtoul m nptr base = strto_unsigned m nptr base"

definition strtoull :: "mem \<Rightarrow> ptr \<Rightarrow> int \<Rightarrow> (64 word \<times> ptr) option" where
  "strtoull m nptr base = strto_unsigned m nptr base"

definition atoi :: "mem \<Rightarrow> ptr \<Rightarrow> 32 word option" where
  "atoi m nptr = map_option fst (strtol m nptr 10)"

section \<open>The digit loop computes the number\<close>

text \<open>The value of a list of digits, most significant first.\<close>

definition digits_val :: "nat \<Rightarrow> nat \<Rightarrow> nat list \<Rightarrow> nat" where
  "digits_val b = foldl (\<lambda>a d. a * b + d)"

lemma digits_val_simps [simp]:
  "digits_val b a [] = a" "digits_val b a (d # ds) = digits_val b (a * b + d) ds"
  by (simp_all add: digits_val_def)

lemma digits_val_ge: "0 < b \<Longrightarrow> a \<le> digits_val b a ds"
proof (induction ds arbitrary: a)
  case (Cons d ds)
  have "a \<le> a * b + d" using Cons.prems by (simp add: trans_le_add1)
  then show ?case using Cons.IH [of "a * b + d"] Cons.prems by simp
qed simp

text \<open>A byte that is a digit of the base, with its value; a byte that ends the number.\<close>

definition is_digit :: "nat \<Rightarrow> u8 \<Rightarrow> nat \<Rightarrow> bool" where
  "is_digit b x d \<longleftrightarrow> digit_val (sint x) = Some (int d) \<and> d < b"

definition ends_number :: "nat \<Rightarrow> u8 \<Rightarrow> bool" where
  "ends_number b x \<longleftrightarrow> (\<forall>d. digit_val (sint x) = Some d \<longrightarrow> int b \<le> d)"

text \<open>After an overflow the loop only looks for the end.\<close>

lemma strto_digits_overflow:
  assumes "list_all2 (is_digit b) xs ds" "cstr m p (xs @ rest)" "ends_number b (zat rest 0)"
  shows "strto_digits m (int b) cutoff cutlim (sint (m p)) (p + 1) acc (-1) = Some (acc, -1, p + of_nat (length xs) + 1)"
  using assms(1,2)
proof (induction xs arbitrary: p ds)
  case Nil
  have "m p = zat rest 0" using Nil.prems(2) cstr_zat [of m p rest 0] by simp
  then show ?case using assms(3) by (subst strto_digits.simps) (auto simp: ends_number_def split: option.splits)
next
  case (Cons x xs)
  then obtain d ds' where ds: "ds = d # ds'" "is_digit b x d" "list_all2 (is_digit b) xs ds'" by (auto simp: list_all2_Cons1)
  have "m p = x" using Cons.prems(2) by simp
  then show ?case using Cons.IH [OF ds(3), of "p + 1"] Cons.prems(2) ds(2)
    by (subst strto_digits.simps) (simp add: is_digit_def algebra_simps)
qed

text \<open>The comparison of quotient and remainder is the comparison of the whole numbers.\<close>

lemma exceeds_iff:
  assumes "d < (b :: nat)"
  shows "L div b < a \<or> (a = L div b \<and> L mod b < d) \<longleftrightarrow> L < a * b + d"
proof -
  define q r where "q = L div b" and "r = L mod b"
  have L: "L = q * b + r" "r < b" using assms by (simp_all add: q_def r_def)
  have up: "q * b + b \<le> a * b" if "q < a" using mult_le_mono1 [of "q + 1" a b] that by simp
  have down: "a * b + b \<le> q * b" if "a < q" using mult_le_mono1 [of "a + 1" q b] that by simp
  show ?thesis
    unfolding q_def [symmetric] r_def [symmetric] L(1)
    using up down L(2) assms by (cases a q rule: linorder_cases) auto
qed

lemma strto_digits_value:
  fixes acc :: "'a::len word"
  assumes "list_all2 (is_digit b) xs ds" "cstr m p (xs @ rest)" "ends_number b (zat rest 0)" "0 < b"
    and cut: "unat cutoff = L div b" "cutlim = int (L mod b)" "L < 2 ^ LENGTH('a)" and any: "any \<in> {0, 1}" "unat acc \<le> L"
  defines "v \<equiv> digits_val b (unat acc) ds"
  shows "\<exists>acc' any'. strto_digits m (int b) cutoff cutlim (sint (m p)) (p + 1) acc any = Some (acc', any', p + of_nat (length xs) + 1)
     \<and> (if v \<le> L then acc' = of_nat v \<and> any' = (if ds = [] then any else 1) else any' = -1)"
  unfolding v_def using assms(1,2) any
proof (induction xs arbitrary: p ds acc any)
  case Nil
  have "m p = zat rest 0" using Nil.prems(2) cstr_zat [of m p rest 0] by simp
  then show ?case using assms(3) Nil.prems
    by (subst strto_digits.simps) (auto simp: ends_number_def split: option.splits)
next
  case (Cons x xs)
  then obtain d ds' where ds: "ds = d # ds'" "is_digit b x d" "list_all2 (is_digit b) xs ds'" by (auto simp: list_all2_Cons1)
  have x: "m p = x" "digit_val (sint x) = Some (int d)" "d < b" "cstr m (p + 1) (xs @ rest)"
    using Cons.prems(2) ds(2) by (simp_all add: is_digit_def)
  let ?v = "unat acc * b + d"
  have ov: "(acc > cutoff \<or> (acc = cutoff \<and> int d > cutlim)) \<longleftrightarrow> L < ?v"
    using exceeds_iff [OF x(3), of L "unat acc"] unfolding word_less_nat_alt word_unat_eq_iff cut(1,2) by simp
  show ?case
  proof (cases "L < ?v")
    case True
    have "strto_digits m (int b) cutoff cutlim (sint (m (p + 1))) (p + 1 + 1) acc (-1) = Some (acc, -1, p + 1 + of_nat (length xs) + 1)"
      by (rule strto_digits_overflow [OF ds(3) x(4) assms(3)])
    moreover have "L < digits_val b ?v ds'" using digits_val_ge [OF assms(4), of ?v ds'] True by linarith
    ultimately show ?thesis using x ov True Cons.prems(3) ds(1)
      by (subst strto_digits.simps) (auto simp: algebra_simps)
  next
    case False
    let ?acc = "acc * of_int (int b) + of_int (int d)"
    have acc: "unat ?acc = ?v"
    proof -
      have "?acc = of_nat ?v" by simp
      moreover have "?v < 2 ^ LENGTH('a)" using False cut(3) by linarith
      ultimately show ?thesis by (metis unat_of_nat_small)
    qed
    have step: "strto_digits m (int b) cutoff cutlim (sint (m p)) (p + 1) acc any
        = strto_digits m (int b) cutoff cutlim (sint (m (p + 1))) (p + 1 + 1) ?acc 1"
      using x ov False Cons.prems(3) by (subst strto_digits.simps) auto
    have e: "p + of_nat (length (x # xs)) + 1 = p + 1 + of_nat (length xs) + 1" by simp
    have le: "unat ?acc \<le> L" using False unfolding acc by simp
    have one: "(1 :: int) \<in> {0, 1}" by simp
    show ?thesis
      using Cons.IH [OF ds(3) x(4) one le] unfolding step e ds(1) digits_val_simps acc
      by (simp only: if_cancel list.distinct if_False)
  qed
qed

section \<open>Whole numerals\<close>

text \<open>
  The texts a conversion reads: the base the digits are read in, for the argument \<open>base0\<close> and an
  optional prefix, given the characters \<open>xs\<close> that follow it.
\<close>

fun radix :: "int \<Rightarrow> u8 list \<Rightarrow> u8 list \<Rightarrow> nat option" where
  "radix base0 [] xs =
     (if (base0 = 0 \<or> base0 = 16) \<and> zat xs 0 = 48 \<and> (zat (tl xs) 0 = 120 \<or> zat (tl xs) 0 = 88) then None
      else if base0 = 0 then Some (if zat xs 0 = 48 then 8 else 10)
      else if 2 \<le> base0 \<and> base0 \<le> 36 then Some (nat base0) else None)"
| "radix base0 [z, x] xs =
     (if z = 48 \<and> (x = 120 \<or> x = 88) \<and> (base0 = 0 \<or> base0 = 16) then Some 16 else None)"
| "radix base0 pre xs = None"

lemma cstr_append_zat: "cstr m p xs \<Longrightarrow> m p = zat xs 0"
  using cstr_zat [of m p xs 0] by simp

lemma radix_bounds: "radix base0 pre xs = Some b \<Longrightarrow> 2 \<le> b \<and> b \<le> 36"
  by (induction base0 pre xs rule: radix.induct) (auto split: if_splits)

lemma strto_base_radix:
  assumes "radix base0 pre xs = Some b" "cstr m p (pre @ xs)"
  shows "strto_base m (sint (m p)) (p + 1) base0 =
     (sint (m (p + of_nat (length pre))), p + of_nat (length pre) + 1, int b)"
  using assms
proof (induction base0 pre xs rule: radix.induct)
  case (1 base0 xs)
  have s48: "sint (m p) = 48 \<longleftrightarrow> m p = 48" using sint_eq_iff [of "m p" 48] by simp
  have mp: "m p = zat xs 0" using 1(2) cstr_append_zat by simp
  have "m (p + 1) = zat (tl xs) 0" if "m p = 48"
    using 1(2) that cstr_append_zat [of m "p + 1" "tl xs"] by (cases xs) auto
  then show ?case
    using 1(1) mp s48 by (auto simp: strto_base_def split: if_splits)
next
  case (2 base0 z x xs)
  have z48: "sint z = 48 \<longleftrightarrow> z = 48" using sint_eq_iff [of z 48] by simp
  show ?case using 2 z48 by (auto simp: strto_base_def algebra_simps split: if_splits)
qed auto

lemma strto_run_value:
  fixes cutoff :: "'a::len word"
  assumes "list_all2 (is_digit b) xs ds" "cstr m p (xs @ rest)" "ends_number b (zat rest 0)" "2 \<le> b" "b \<le> 36" "(36 :: nat) < 2 ^ LENGTH('a)"
  defines "v \<equiv> digits_val b 0 ds"
  shows "\<exists>acc any. strto_run m nptr (sint (m p)) (p + 1) (int b) cutoff
             = Some (acc, any, if ds = [] then nptr else p + of_nat (length xs))
     \<and> (if v \<le> unat cutoff then acc = of_nat v \<and> 0 \<le> any else any < 0)"
proof -
  have b: "unat (of_nat b :: 'a word) = b" using assms(5,6) unat_of_nat_small [of b, where 'a = 'a] by simp
  have d: "unat (cutoff div of_nat b) = unat cutoff div b" using b by (simp add: unat_div)
  have r: "unat (cutoff mod of_nat b) = unat cutoff mod b" using b by (simp add: unat_mod)
  have rb: "unat cutoff mod b < 36" using assms(4,5) mod_less_divisor [of b "unat cutoff"] by linarith
  have "ucast (cutoff mod of_nat b) = (of_nat (unat cutoff mod b) :: 32 word)"
    using r rb by (simp add: word_unat_eq_iff unsigned_ucast_eq take_bit_nat_eq_self unat_of_nat_small)
  then have lim: "sint (ucast (cutoff mod of_nat b) :: 32 word) = int (unat cutoff mod b)"
    using rb by (simp add: signed_of_nat signed_take_bit_int_eq_self)
  obtain acc any where "strto_digits m (int b) (cutoff div of_nat b) (int (unat cutoff mod b)) (sint (m p)) (p + 1) 0 0
        = Some (acc, any, p + of_nat (length xs) + 1)"
      "if v \<le> unat cutoff then acc = of_nat v \<and> any = (if ds = [] then 0 else 1) else any = -1"
    using strto_digits_value [OF assms(1-3) _ d refl unsigned_less, of 0 0] assms(4) unfolding v_def by auto
  moreover have "v = 0" if "ds = []" using that by (simp add: v_def)
  ultimately show ?thesis
    by (auto simp: strto_run_def lim split: if_splits)
qed

lemma scan_spaces:
  assumes "cstr m p (replicate k 32 @ xs)" "zat xs 0 \<noteq> 32"
  shows "scan (\<lambda>s. m s = 32) p = Some (p + of_nat k)" "cstr m (p + of_nat k) xs"
proof -
  have "takeWhile (\<lambda>x. x = 32) (replicate k 32 @ xs) = replicate k 32"
    using assms(2) by (cases xs) (simp_all add: takeWhile_append)
  then show "scan (\<lambda>s. m s = 32) p = Some (p + of_nat k)"
    using scan_cstr [OF assms(1), of "\<lambda>x. x = 32"] by simp
  show "cstr m (p + of_nat k) xs" using cstr_drop [OF assms(1), of k] by simp
qed

lemma LONG_nat:
  "unat (LONG_MAX :: 'a::len word) = 2 ^ (LENGTH('a) - 1) - 1"
  "unat (- LONG_MIN :: 'a word) = 2 ^ (LENGTH('a) - 1)"
proof -
  have p: "(2 :: nat) ^ LENGTH('a) = 2 * 2 ^ (LENGTH('a) - 1)" by (metis len_gt_0 power_eq_if less_irrefl)
  have "unat (NOT 0 :: 'a word) = 2 ^ LENGTH('a) - 1" by (simp add: unsigned_minus_1_eq_mask mask_eq_exp_minus_1)
  moreover have "unat (LONG_MAX :: 'a word) = unat (NOT 0 :: 'a word) div 2"
    unfolding LONG_MAX_def by (subst unat_drop_bit) (simp only: power_one_right)
  moreover have "(2 * x - 1) div 2 = x - 1" for x :: nat by linarith
  ultimately show max: "unat (LONG_MAX :: 'a word) = 2 ^ (LENGTH('a) - 1) - 1" using p by simp
  have "- LONG_MIN = (LONG_MAX + 1 :: 'a word)" by (simp add: LONG_MIN_def not_eq_complement)
  moreover have "unat (LONG_MAX + 1 :: 'a word) = unat (LONG_MAX :: 'a word) + 1"
    using p max by (subst unat_add_no_wrap) (simp_all add: max)
  ultimately show "unat (- LONG_MIN :: 'a word) = 2 ^ (LENGTH('a) - 1)" using max by simp
qed

text \<open>
  The characters before the digits: spaces, a sign, a prefix.  \<open>numeral_text\<close> says that the string at
  \<open>p\<close> reads as a number: its digits in base \<open>b\<close>, with what follows them.
\<close>

definition numeral_text :: "mem \<Rightarrow> ptr \<Rightarrow> int \<Rightarrow> nat \<Rightarrow> u8 list \<Rightarrow> u8 list \<Rightarrow> u8 list \<Rightarrow> u8 list \<Rightarrow> nat \<Rightarrow> nat list \<Rightarrow> bool" where
  "numeral_text m p base0 k sign pre xs rest b ds \<longleftrightarrow>
     cstr m p (replicate k 32 @ sign @ pre @ xs @ rest)
     \<and> (sign = [] \<longrightarrow> zat (pre @ xs @ rest) 0 \<notin> {32, 43, 45})
     \<and> radix base0 pre (xs @ rest) = Some b \<and> list_all2 (is_digit b) xs ds \<and> ends_number b (zat rest 0)"

lemma strto_signed_value:
  assumes num: "numeral_text m p base0 k sign pre xs rest b ds" and sign: "sign \<in> {[], [43], [45]}"
    and len: "(36 :: nat) < 2 ^ LENGTH('a::len)"
  defines "v \<equiv> digits_val b 0 ds"
  shows "strto_signed m p base0 = Some
     (if sign = [45] then (if v \<le> 2 ^ (LENGTH('a) - 1) then - of_nat v else LONG_MIN)
      else (if v < 2 ^ (LENGTH('a) - 1) then of_nat v else LONG_MAX :: 'a word),
      if ds = [] then p else p + of_nat (k + length sign + length pre + length xs))"
proof -
  let ?q = "p + of_nat k" and ?t = "pre @ xs @ rest"
  have nz: "zat (sign @ ?t) 0 \<noteq> 32" using num sign by (auto simp: numeral_text_def)
  have c: "cstr m p (replicate k 32 @ (sign @ ?t))" using num by (simp add: numeral_text_def)
  note sp = scan_spaces [OF c nz]
  let ?r = "?q + of_nat (length sign)"
  have cr: "cstr m ?r ?t" using cstr_drop [OF sp(2), of "length sign"] by simp
  have hd: "m ?q = zat (sign @ ?t) 0" by (rule cstr_append_zat [OF sp(2)])
  have n45: "sint (m ?q) = 45 \<longleftrightarrow> m ?q = 45" "sint (m ?q) = 43 \<longleftrightarrow> m ?q = 43"
    using sint_eq_iff [of "m ?q" 45] sint_eq_iff [of "m ?q" 43] by simp_all
  have sg: "strto_sign m ?q = (sign = [45], sint (m ?r), ?r + 1)"
    using sign hd num unfolding strto_sign_def Let_def n45 numeral_text_def by auto
  have rx: "radix base0 pre (xs @ rest) = Some b" using num by (simp add: numeral_text_def)
  have cs: "cstr m (?r + of_nat (length pre)) (xs @ rest)" using cstr_drop [OF cr, of "length pre"] by simp
  have lim: "unat (if sign = [45] then - LONG_MIN else LONG_MAX :: 'a word) = (if sign = [45] then 2 ^ (LENGTH('a) - 1) else 2 ^ (LENGTH('a) - 1) - 1)"
    by (simp add: LONG_nat)
  obtain acc any where run: "strto_run m p (sint (m (?r + of_nat (length pre)))) (?r + of_nat (length pre) + 1) (int b)
        (if sign = [45] then - LONG_MIN else LONG_MAX :: 'a word) = Some (acc, any, if ds = [] then p else ?r + of_nat (length pre) + of_nat (length xs))"
      and val: "if v \<le> (if sign = [45] then 2 ^ (LENGTH('a) - 1) else 2 ^ (LENGTH('a) - 1) - 1) then acc = of_nat v \<and> 0 \<le> any else any < 0"
    using strto_run_value [OF _ cs _ _ _ len, of b ds p "if sign = [45] then - LONG_MIN else LONG_MAX"] num radix_bounds [OF rx]
    unfolding lim v_def numeral_text_def by blast
  have le: "v \<le> 2 ^ (LENGTH('a) - 1) - 1 \<longleftrightarrow> v < 2 ^ (LENGTH('a) - 1)"
    using zero_less_power [of "2 :: nat" "LENGTH('a) - 1"] by linarith
  have "strto_signed m p base0 = Some
      (if any < 0 then (if sign = [45] then LONG_MIN else LONG_MAX) else if sign = [45] then - acc else acc,
       if ds = [] then p else ?r + of_nat (length pre) + of_nat (length xs))"
    unfolding strto_signed_def Let_def by (simp add: sp(1) sg strto_base_radix [OF rx cr] run)
  then show ?thesis using val le by (auto simp: add.assoc split: if_splits)
qed

lemma strto_unsigned_value:
  assumes num: "numeral_text m p base0 k sign pre xs rest b ds" and sign: "sign \<in> {[], [43]}"
    and len: "(36 :: nat) < 2 ^ LENGTH('a::len)"
  defines "v \<equiv> digits_val b 0 ds"
  shows "strto_unsigned m p base0 = Some
     (if v < 2 ^ LENGTH('a) then of_nat v else NOT 0 :: 'a word,
      if ds = [] then p else p + of_nat (k + length sign + length pre + length xs))"
proof -
  let ?q = "p + of_nat k" and ?t = "pre @ xs @ rest"
  have nz: "zat (sign @ ?t) 0 \<noteq> 32" using num sign by (auto simp: numeral_text_def)
  have c: "cstr m p (replicate k 32 @ (sign @ ?t))" using num by (simp add: numeral_text_def)
  note sp = scan_spaces [OF c nz]
  let ?r = "?q + of_nat (length sign)"
  have cr: "cstr m ?r ?t" using cstr_drop [OF sp(2), of "length sign"] by simp
  have hd: "m ?q = zat (sign @ ?t) 0" by (rule cstr_append_zat [OF sp(2)])
  have n43: "sint (m ?q) = 43 \<longleftrightarrow> m ?q = 43" using sint_eq_iff [of "m ?q" 43] by simp
  have sg: "strto_plus m ?q = (sint (m ?r), ?r + 1)"
    using sign hd num unfolding strto_plus_def Let_def n43 numeral_text_def by auto
  have rx: "radix base0 pre (xs @ rest) = Some b" using num by (simp add: numeral_text_def)
  have cs: "cstr m (?r + of_nat (length pre)) (xs @ rest)" using cstr_drop [OF cr, of "length pre"] by simp
  have lim: "v \<le> unat (NOT 0 :: 'a word) \<longleftrightarrow> v < 2 ^ LENGTH('a)"
  proof -
    have "v \<le> X - 1 \<longleftrightarrow> v < X" if "0 < X" for X :: nat using that by linarith
    then show ?thesis by (simp add: unsigned_minus_1_eq_mask mask_eq_exp_minus_1)
  qed
  obtain acc any where run: "strto_run m p (sint (m (?r + of_nat (length pre)))) (?r + of_nat (length pre) + 1) (int b)
        (NOT 0 :: 'a word) = Some (acc, any, if ds = [] then p else ?r + of_nat (length pre) + of_nat (length xs))"
      and val: "if v < 2 ^ LENGTH('a) then acc = of_nat v \<and> 0 \<le> any else any < 0"
    using strto_run_value [OF _ cs _ _ _ len, of b ds p "NOT 0"] num radix_bounds [OF rx] lim
    unfolding v_def numeral_text_def by auto
  have "strto_unsigned m p base0 = Some
      (if any < 0 then NOT 0 else acc, if ds = [] then p else ?r + of_nat (length pre) + of_nat (length xs))"
    using run unfolding strto_unsigned_def Let_def by (simp add: sp(1) sg strto_base_radix [OF rx cr])
  then show ?thesis using val by (auto simp: add.assoc split: if_splits)
qed

lemma bsearch_loop_find:
  "bsearch_loop f key base sz i k =
     map_option (\<lambda>j. base + of_nat j * sz) (find (\<lambda>j. f key (base + of_nat j * sz) = 0) [i..<i + k])"
proof (induction k arbitrary: i)
  case (Suc k)
  have "[i..<i + Suc k] = i # [Suc i..<Suc i + k]" by (simp add: upt_rec)
  then show ?case using Suc by (simp add: Let_def)
qed simp

lemma sint_of_int_small:
  "- (2 ^ 31) \<le> i \<Longrightarrow> i < 2 ^ 31 \<Longrightarrow> sint (of_int i :: 32 word) = i"
  "- (2 ^ 63) \<le> i \<Longrightarrow> i < 2 ^ 63 \<Longrightarrow> sint (of_int i :: 64 word) = i"
  by (simp_all add: signed_of_int signed_take_bit_int_eq_self)

section \<open>Correctness properties\<close>

text \<open>
  C28: on a text of spaces, an optional sign, an optional prefix and digits, \<^verbatim>\<open>strtol\<close> and \<^verbatim>\<open>strtoll\<close>
  return the value clamped to the range of their type, and store the address of the first
  character after the digits, or the start of the text when there is no digit.
\<close>

theorem strtol_correct:
  assumes "numeral_text m p base0 k sign pre xs rest b ds" "sign \<in> {[], [43], [45]}"
  shows "(\<exists>r. strtol m p base0 = Some (r, if ds = [] then p else p + of_nat (k + length sign + length pre + length xs))
           \<and> sint r = max (- (2 ^ 31)) (min (2 ^ 31 - 1) ((if sign = [45] then - 1 else 1) * int (digits_val b 0 ds))))
       \<and> (\<exists>r. strtoll m p base0 = Some (r, if ds = [] then p else p + of_nat (k + length sign + length pre + length xs))
           \<and> sint r = max (- (2 ^ 63)) (min (2 ^ 63 - 1) ((if sign = [45] then - 1 else 1) * int (digits_val b 0 ds))))"
proof -
  let ?v = "digits_val b 0 ds"
  have mx: "sint (LONG_MAX :: 32 word) = 2 ^ 31 - 1" "sint (LONG_MAX :: 64 word) = 2 ^ 63 - 1"
    "sint (LONG_MIN :: 32 word) = - (2 ^ 31)" "sint (LONG_MIN :: 64 word) = - (2 ^ 63)"
    by (simp_all add: LONG_MAX_def LONG_MIN_def mask_eq_exp_minus_1)
  have "strto_signed m p base0 = Some
     (if sign = [45] then (if ?v \<le> 2 ^ 31 then - of_nat ?v else LONG_MIN) else (if ?v < 2 ^ 31 then of_nat ?v else LONG_MAX :: 32 word),
      if ds = [] then p else p + of_nat (k + length sign + length pre + length xs))"
    using strto_signed_value [OF assms, where 'a = 32] by simp
  moreover have "strto_signed m p base0 = Some
     (if sign = [45] then (if ?v \<le> 2 ^ 63 then - of_nat ?v else LONG_MIN) else (if ?v < 2 ^ 63 then of_nat ?v else LONG_MAX :: 64 word),
      if ds = [] then p else p + of_nat (k + length sign + length pre + length xs))"
    using strto_signed_value [OF assms, where 'a = 64] by simp
  moreover have "sint (- of_nat n :: 32 word) = - int n" if "n \<le> 2 ^ 31" for n
    using that sint_of_int_small(1) [of "- int n"] by simp
  moreover have "sint (- of_nat n :: 64 word) = - int n" if "n \<le> 2 ^ 63" for n
    using that sint_of_int_small(2) [of "- int n"] by simp
  moreover have "sint (of_nat n :: 32 word) = int n" if "n < 2 ^ 31" for n
    using that sint_of_int_small(1) [of "int n"] by simp
  moreover have "sint (of_nat n :: 64 word) = int n" if "n < 2 ^ 63" for n
    using that sint_of_int_small(2) [of "int n"] by simp
  ultimately show ?thesis
    unfolding strtol_def strtoll_def by (auto simp: mx)
qed

text \<open>A memory for the witnesses: the texts -0x1f! at 16 and 4294967296 at 32.\<close>

definition demo_num :: mem where
  "demo_num = (\<lambda>_. 0)(16 := 45, 17 := 48, 18 := 120, 19 := 49, 20 := 102, 21 := 33,
     32 := 52, 33 := 50, 34 := 57, 35 := 52, 36 := 57, 37 := 54, 38 := 55, 39 := 50, 40 := 57, 41 := 54)"

lemma demo_numeral:
  "numeral_text demo_num 16 0 0 [45] [48, 120] [49, 102] [33] 16 [1, 15]"
  "numeral_text demo_num 32 10 0 [] [] [52, 50, 57, 52, 57, 54, 55, 50, 57, 54] [] 10 [4, 2, 9, 4, 9, 6, 7, 2, 9, 6]"
  by (simp_all add: numeral_text_def demo_num_def is_digit_def ends_number_def digit_val_def)

theorem strtol_correct_witness:
  "(\<exists>r. strtol demo_num 16 0 = Some (r, 21) \<and> sint r = -31)
   \<and> (\<exists>r. strtol demo_num 32 10 = Some (r, 42) \<and> sint r = 2 ^ 31 - 1)"
  using strtol_correct [OF demo_numeral(1)] strtol_correct [OF demo_numeral(2)] by simp

text \<open>
  \<^verbatim>\<open>strtoul\<close> and \<^verbatim>\<open>strtoull\<close> do the same for texts without a minus sign, clamped to the largest
  value of their type.
\<close>

theorem strtoul_correct:
  assumes "numeral_text m p base0 k sign pre xs rest b ds" "sign \<in> {[], [43]}"
  shows "(\<exists>r. strtoul m p base0 = Some (r, if ds = [] then p else p + of_nat (k + length sign + length pre + length xs))
           \<and> unat r = min (2 ^ 32 - 1) (digits_val b 0 ds))
       \<and> (\<exists>r. strtoull m p base0 = Some (r, if ds = [] then p else p + of_nat (k + length sign + length pre + length xs))
           \<and> unat r = min (2 ^ 64 - 1) (digits_val b 0 ds))"
  using strto_unsigned_value [OF assms, where 'a = 32] strto_unsigned_value [OF assms, where 'a = 64]
  by (simp add: strtoul_def strtoull_def unat_of_nat_small unsigned_minus_1_eq_mask mask_eq_exp_minus_1 min_def not_less)

theorem strtoul_correct_witness:
  "(\<exists>r. strtoul demo_num 32 10 = Some (r, 42) \<and> unat r = 2 ^ 32 - 1)
   \<and> (\<exists>r. strtoull demo_num 32 10 = Some (r, 42) \<and> unat r = 4294967296)"
  using strtoul_correct [OF demo_numeral(2)] by simp

text \<open>
  \<^verbatim>\<open>bsearch\<close> is a linear search: whatever the order of the array, it returns the address of the
  first item that compares equal to the key.
\<close>

theorem bsearch_first:
  "bsearch key base nitems sz f =
     map_option (\<lambda>j. base + of_nat j * sz) (find (\<lambda>j. f key (base + of_nat j * sz) = 0) [0..<unat nitems])"
  by (simp add: bsearch_def bsearch_loop_find)

text \<open>
  \<^verbatim>\<open>abs\<close>, \<^verbatim>\<open>labs\<close> and \<^verbatim>\<open>llabs\<close> are the absolute value except at the least number, which they return
  unchanged.
\<close>

theorem abs_correct:
  "sint (abs_int x) = (if x = 0x80000000 then - (2 ^ 31) else \<bar>sint x\<bar>)
   \<and> labs x = abs_int x \<and> sint (llabs y) = (if y = 0x8000000000000000 then - (2 ^ 63) else \<bar>sint y\<bar>)"
proof -
  have 32: "sint (- x) = - sint x" if "x \<noteq> 0x80000000"
  proof -
    have "sint x \<noteq> - (2 ^ 31)" using sint_eq_iff [of x "0x80000000"] that by simp
    then have "- (2 ^ 31) < sint x" "sint x < 2 ^ 31" using sint_range_size [of x] by (auto simp: word_size)
    then show ?thesis using sint_of_int_small(1) [of "- sint x"] by simp
  qed
  have 64: "sint (- y) = - sint y" if "y \<noteq> 0x8000000000000000"
  proof -
    have "sint y \<noteq> - (2 ^ 63)" using sint_eq_iff [of y "0x8000000000000000"] that by simp
    then have "- (2 ^ 63) < sint y" "sint y < 2 ^ 63" using sint_range_size [of y] by (auto simp: word_size)
    then show ?thesis using sint_of_int_small(2) [of "- sint y"] by simp
  qed
  show ?thesis
    using 32 64 by (auto simp: abs_int_def labs_def llabs_def word_sless_alt)
qed

section \<open>The conversions return\<close>

lemma strto_digits_total:
  assumes "cstr m p xs"
  shows "\<exists>acc' any' n. n \<le> length xs \<and> strto_digits m base cutoff cutlim (sint (m p)) (p + 1) acc any = Some (acc', any', p + of_nat n + 1)"
  using assms
proof (induction xs arbitrary: p acc any)
  case Nil
  then show ?case by (subst strto_digits.simps) (simp add: digit_val_def)
next
  case (Cons x xs)
  let ?go = "\<lambda>acc any. strto_digits m base cutoff cutlim (sint (m (p + 1))) (p + 1 + 1) acc any"
  have go: "\<exists>acc' any' n. n \<le> length (x # xs) \<and> ?go acc any = Some (acc', any', p + of_nat n + 1)" for acc any
  proof -
    obtain acc' any' n where "n \<le> length xs" "?go acc any = Some (acc', any', p + 1 + of_nat n + 1)"
      using Cons.IH [of "p + 1" acc any] Cons.prems by auto
    then show ?thesis by (intro exI [of _ acc'] exI [of _ any'] exI [of _ "Suc n"]) (simp add: algebra_simps)
  qed
  have stop: "\<exists>acc' any' n. n \<le> length (x # xs) \<and> Some (acc, any, p + 1) = Some (acc', any', p + of_nat n + 1)" for acc :: "'a word" and any :: int
    by (intro exI [of _ acc] exI [of _ any] exI [of _ 0]) simp
  show ?case
    by (subst strto_digits.simps) (auto simp only: split: option.split if_split intro: go stop)
qed

lemma strto_base_inside:
  assumes "cstr m p xs" "strto_base m (sint (m p)) (p + 1) base0 = (c, s, base)"
  shows "\<exists>n \<le> length xs. c = sint (m (p + of_nat n)) \<and> s = p + of_nat n + 1 \<and> cstr m (p + of_nat n) (drop n xs)"
proof (cases "(base0 = 0 \<or> base0 = 16) \<and> sint (m p) = 48 \<and> (m (p + 1) = 120 \<or> m (p + 1) = 88)")
  case True
  then have "m p \<noteq> 0" "m (p + 1) \<noteq> 0" by auto
  then obtain x y zs where "xs = x # y # zs" using assms(1) by (cases xs; cases "tl xs") auto
  then have "cstr m (p + of_nat 2) (drop 2 xs)" "2 \<le> length xs" using assms(1) by (simp_all add: add.assoc)
  then show ?thesis using True assms(2) by (intro exI [of _ 2]) (auto simp: strto_base_def Let_def add.assoc)
next
  case False
  then have "c = sint (m p)" "s = p + 1" using assms(2) unfolding strto_base_def by (auto simp: Let_def split: if_splits)
  then show ?thesis using assms(1) by (intro exI [of _ 0]) simp
qed

lemma strto_run_total:
  assumes "cstr m nptr xs" "i \<le> length xs" "cstr m (nptr + of_nat i) (drop i xs)"
  shows "\<exists>acc any n. n \<le> length xs \<and> strto_run m nptr (sint (m (nptr + of_nat i))) (nptr + of_nat i + 1) base cutoff = Some (acc, any, nptr + of_nat n)"
proof -
  obtain acc any n where "n \<le> length (drop i xs)"
    "strto_digits m base (cutoff div of_int base) (sint (ucast (cutoff mod of_int base) :: 32 word)) (sint (m (nptr + of_nat i))) (nptr + of_nat i + 1) 0 0
       = Some (acc, any, nptr + of_nat i + of_nat n + 1)"
    using strto_digits_total [OF assms(3)] by blast
  moreover have "i + n \<le> length xs" if "n \<le> length (drop i xs)" for n using that assms(2) by simp
  ultimately show ?thesis unfolding strto_run_def
    by (intro exI [of _ acc] exI [of _ any] exI [of _ "if any \<noteq> 0 then i + n else 0"]) (simp add: add.assoc)
qed

text \<open>The spaces and the sign are followed by a place within the string, its terminator included.\<close>

lemma strto_start:
  assumes "cstr m nptr xs"
  shows "\<exists>j \<le> length xs. scan (\<lambda>s. m s = 32) nptr = Some (nptr + of_nat j) \<and> cstr m (nptr + of_nat j) (drop j xs)"
proof -
  let ?j = "length (takeWhile (\<lambda>c. c = 32) xs)"
  have "?j \<le> length xs" by (rule length_takeWhile_le)
  then show ?thesis using scan_cstr [OF assms, of "\<lambda>c. c = 32"] cstr_drop [OF assms] by auto
qed

lemma strto_sign_inside:
  assumes "cstr m nptr xs" "j \<le> length xs"
  shows "\<exists>neg i. i \<le> length xs \<and> strto_sign m (nptr + of_nat j) = (neg, sint (m (nptr + of_nat i)), nptr + of_nat i + 1)"
    and "\<exists>i. i \<le> length xs \<and> strto_plus m (nptr + of_nat j) = (sint (m (nptr + of_nat i)), nptr + of_nat i + 1)"
proof -
  have j: "Suc j \<le> length xs" if "m (nptr + of_nat j) \<noteq> 0"
    using that assms cstr_iff [of m nptr xs] by (metis le_neq_implies_less Suc_leI)
  have le: "Suc j \<le> length xs" if "sint (m (nptr + of_nat j)) \<in> {43, 45}" using that by (intro j) auto
  have e: "nptr + of_nat j + 1 = nptr + of_nat (Suc j)" by simp
  have "strto_sign m (nptr + of_nat j) = (if sint (m (nptr + of_nat j)) \<in> {43, 45}
      then (sint (m (nptr + of_nat j)) = 45, sint (m (nptr + of_nat (Suc j))), nptr + of_nat (Suc j) + 1)
      else (False, sint (m (nptr + of_nat j)), nptr + of_nat j + 1))"
    "strto_plus m (nptr + of_nat j) = (if sint (m (nptr + of_nat j)) = 43
      then (sint (m (nptr + of_nat (Suc j))), nptr + of_nat (Suc j) + 1) else (sint (m (nptr + of_nat j)), nptr + of_nat j + 1))"
    by (simp_all only: strto_sign_def strto_plus_def Let_def e) simp_all
  then show "\<exists>neg i. i \<le> length xs \<and> strto_sign m (nptr + of_nat j) = (neg, sint (m (nptr + of_nat i)), nptr + of_nat i + 1)"
    "\<exists>i. i \<le> length xs \<and> strto_plus m (nptr + of_nat j) = (sint (m (nptr + of_nat i)), nptr + of_nat i + 1)"
    using assms(2) le by (auto simp only: split: if_split)
qed

lemma strto_rest_total:
  assumes "cstr m nptr xs" "i \<le> length xs" "strto_base m (sint (m (nptr + of_nat i))) (nptr + of_nat i + 1) base0 = (c, s, base)"
  shows "\<exists>acc any n. n \<le> length xs \<and> strto_run m nptr c s base cutoff = Some (acc, any, nptr + of_nat n)"
proof -
  obtain n where n: "n \<le> length (drop i xs)" "c = sint (m (nptr + of_nat i + of_nat n))" "s = nptr + of_nat i + of_nat n + 1"
    using strto_base_inside [OF cstr_drop [OF assms(1,2)] assms(3)] by blast
  then show ?thesis
    using strto_run_total [OF assms(1), of "i + n" base cutoff] cstr_drop [OF assms(1), of "i + n"] assms(2) by (simp add: add.assoc)
qed

lemma strto_total:
  assumes "cstr m nptr xs"
  shows "\<exists>v n. n \<le> length xs \<and> strto_signed m nptr base = Some (v :: 'a::len word, nptr + of_nat n)"
    and "\<exists>v n. n \<le> length xs \<and> strto_unsigned m nptr base = Some (v :: 'a::len word, nptr + of_nat n)"
proof -
  obtain j where j: "j \<le> length xs" "scan (\<lambda>s. m s = 32) nptr = Some (nptr + of_nat j)" using strto_start [OF assms] by blast
  obtain neg i where i: "i \<le> length xs" "strto_sign m (nptr + of_nat j) = (neg, sint (m (nptr + of_nat i)), nptr + of_nat i + 1)"
    using strto_sign_inside(1) [OF assms j(1)] by blast
  obtain c s b where b: "strto_base m (sint (m (nptr + of_nat i))) (nptr + of_nat i + 1) base = (c, s, b)" using prod_cases3 by blast
  show "\<exists>v n. n \<le> length xs \<and> strto_signed m nptr base = Some (v :: 'a word, nptr + of_nat n)"
    using strto_rest_total [OF assms i(1) b, of "if neg then - LONG_MIN else LONG_MAX :: 'a word"] j(2) i(2) b
    by (auto simp: strto_signed_def)
  obtain i where i: "i \<le> length xs" "strto_plus m (nptr + of_nat j) = (sint (m (nptr + of_nat i)), nptr + of_nat i + 1)"
    using strto_sign_inside(2) [OF assms j(1)] by blast
  obtain c s b where b: "strto_base m (sint (m (nptr + of_nat i))) (nptr + of_nat i + 1) base = (c, s, b)" using prod_cases3 by blast
  show "\<exists>v n. n \<le> length xs \<and> strto_unsigned m nptr base = Some (v :: 'a word, nptr + of_nat n)"
    using strto_rest_total [OF assms i(1) b, of "NOT 0 :: 'a word"] j(2) i(2) b
    by (auto simp: strto_unsigned_def)
qed

text \<open>
  The outcome depends on the string only, neither on its place nor on the memory around it: two copies of a string give the same
  number and the same distance of the end pointer.
\<close>

lemma strto_digits_same:
  assumes "cstr m p xs" "cstr m' p' xs"
  shows "\<exists>acc' any' n. n \<le> length xs
    \<and> strto_digits m base cutoff cutlim (sint (m p)) (p + 1) acc any = Some (acc', any', p + of_nat n + 1)
    \<and> strto_digits m' base cutoff cutlim (sint (m' p')) (p' + 1) acc any = Some (acc', any', p' + of_nat n + 1)"
  using assms
proof (induction xs arbitrary: p p' acc any)
  case Nil
  then show ?case by (subst (1 2) strto_digits.simps) (simp add: digit_val_def)
next
  case (Cons x xs)
  let ?go = "\<lambda>m p acc any. strto_digits m base cutoff cutlim (sint (m (p + 1))) (p + 1 + 1) acc any"
  have go: "\<exists>acc' any' n. n \<le> length (x # xs) \<and> ?go m p acc any = Some (acc', any', p + of_nat n + 1)
      \<and> ?go m' p' acc any = Some (acc', any', p' + of_nat n + 1)" for acc any
  proof -
    obtain acc' any' n where "n \<le> length xs" "?go m p acc any = Some (acc', any', p + 1 + of_nat n + 1)"
        "?go m' p' acc any = Some (acc', any', p' + 1 + of_nat n + 1)"
      using Cons.IH [of "p + 1" "p' + 1" acc any] Cons.prems by auto
    then show ?thesis by (intro exI [of _ acc'] exI [of _ any'] exI [of _ "Suc n"]) (simp add: algebra_simps)
  qed
  have stop: "\<exists>acc' any' n. n \<le> length (x # xs) \<and> Some (acc, any, p + 1) = Some (acc', any', p + of_nat n + 1)
      \<and> Some (acc, any, p' + 1) = Some (acc', any', p' + of_nat n + 1)" for acc :: "'a word" and any :: int
    by (intro exI [of _ acc] exI [of _ any] exI [of _ 0]) simp
  have x: "m p = x" "m' p' = x" using Cons.prems by simp_all
  show ?case unfolding x
    by (subst (1 2) strto_digits.simps) (auto simp only: split: option.split if_split intro: go stop)
qed

lemma strto_base_same:
  assumes "cstr m p xs" "cstr m' p' xs"
  shows "\<exists>n b. n \<le> length xs \<and> strto_base m (sint (m p)) (p + 1) base0 = (sint (m (p + of_nat n)), p + of_nat n + 1, b)
    \<and> strto_base m' (sint (m' p')) (p' + 1) base0 = (sint (m' (p' + of_nat n)), p' + of_nat n + 1, b)"
proof (cases "(base0 = 0 \<or> base0 = 16) \<and> sint (m p) = 48 \<and> (m (p + 1) = 120 \<or> m (p + 1) = 88)")
  case True
  then have "m p \<noteq> 0" "m (p + 1) \<noteq> 0" by auto
  then obtain x y zs where xs: "xs = x # y # zs" using assms(1) by (cases xs; cases "tl xs") auto
  then have "m' p' = m p" "m' (p' + 1) = m (p + 1)" "m' (p' + 1 + 1) = m (p + 1 + 1)"
    using assms by (simp_all) (cases zs; simp)
  then show ?thesis using True xs
    by (intro exI [of _ 2] exI [of _ "16"]) (auto simp: strto_base_def Let_def add.assoc)
next
  case False
  have e: "m' p' = m p" "m p = 0 \<or> m' (p' + 1) = m (p + 1)" using assms by (cases xs; cases "tl xs"; simp)+
  then have F: "\<not> ((base0 = 0 \<or> base0 = 16) \<and> sint (m' p') = 48 \<and> (m' (p' + 1) = 120 \<or> m' (p' + 1) = 88))"
    using False by auto
  show ?thesis using False F e(1)
    by (intro exI [of _ 0] exI [of _ "if base0 = 0 then (if sint (m p) = 48 then 8 else 10) else base0"]) (auto simp: strto_base_def Let_def)
qed

lemma strto_unsigned_same:
  assumes "cstr m p xs" "cstr m' p' xs"
  shows "\<exists>v n. n \<le> length xs \<and> strto_unsigned m p base = Some (v :: 'a::len word, p + of_nat n)
    \<and> strto_unsigned m' p' base = Some (v, p' + of_nat n)"
proof -
  let ?j = "length (takeWhile (\<lambda>c. c = 32) xs)"
  have sc: "scan (\<lambda>s. m s = 32) p = Some (p + of_nat ?j)" "scan (\<lambda>s. m' s = 32) p' = Some (p' + of_nat ?j)"
    using scan_cstr [OF assms(1), of "\<lambda>c. c = 32"] scan_cstr [OF assms(2), of "\<lambda>c. c = 32"] by simp_all
  have j: "?j \<le> length xs" by (rule length_takeWhile_le)
  have at: "m (p + of_nat i) = m' (p' + of_nat i)" if "i \<le> length xs" for i
    using cstr_zat [OF assms(1) that] cstr_zat [OF assms(2) that] by simp
  define i where "i = (if sint (m (p + of_nat ?j)) = 43 then Suc ?j else ?j)"
  have i: "i \<le> length xs"
  proof (cases "sint (m (p + of_nat ?j)) = 43")
    case True
    then have "m (p + of_nat ?j) \<noteq> 0" by auto
    then have "?j \<noteq> length xs" using assms(1) by (auto simp: cstr_iff)
    then show ?thesis using j by (simp add: i_def)
  qed (use j in \<open>simp add: i_def\<close>)
  have plus: "strto_plus m (p + of_nat ?j) = (sint (m (p + of_nat i)), p + of_nat i + 1)"
    "strto_plus m' (p' + of_nat ?j) = (sint (m' (p' + of_nat i)), p' + of_nat i + 1)"
    using at [OF j] by (simp_all add: strto_plus_def Let_def i_def algebra_simps)
  obtain n b where b: "n \<le> length (drop i xs)"
      "strto_base m (sint (m (p + of_nat i))) (p + of_nat i + 1) base = (sint (m (p + of_nat i + of_nat n)), p + of_nat i + of_nat n + 1, b)"
      "strto_base m' (sint (m' (p' + of_nat i))) (p' + of_nat i + 1) base = (sint (m' (p' + of_nat i + of_nat n)), p' + of_nat i + of_nat n + 1, b)"
    using strto_base_same [OF cstr_drop [OF assms(1) i] cstr_drop [OF assms(2) i]] by blast
  have n: "i + n \<le> length xs" using b(1) i by simp
  have e: "p + of_nat i + of_nat n = p + of_nat (i + n)" "p' + of_nat i + of_nat n = p' + of_nat (i + n)" by simp_all
  obtain acc any l where d: "l \<le> length (drop (i + n) xs)"
      "strto_digits m b ((NOT 0 :: 'a word) div of_int b) (sint (ucast ((NOT 0 :: 'a word) mod of_int b) :: 32 word)) (sint (m (p + of_nat (i + n)))) (p + of_nat (i + n) + 1) 0 0
         = Some (acc, any, p + of_nat (i + n) + of_nat l + 1)"
      "strto_digits m' b ((NOT 0 :: 'a word) div of_int b) (sint (ucast ((NOT 0 :: 'a word) mod of_int b) :: 32 word)) (sint (m' (p' + of_nat (i + n)))) (p' + of_nat (i + n) + 1) 0 0
         = Some (acc, any, p' + of_nat (i + n) + of_nat l + 1)"
    using strto_digits_same [OF cstr_drop [OF assms(1) n] cstr_drop [OF assms(2) n]] by blast
  have "strto_unsigned m p base = Some (if any < 0 then NOT 0 else acc, p + of_nat (if any \<noteq> 0 then i + n + l else 0))"
    "strto_unsigned m' p' base = Some (if any < 0 then NOT 0 else acc, p' + of_nat (if any \<noteq> 0 then i + n + l else 0))"
    using sc plus b(2,3) d(2,3) unfolding strto_unsigned_def strto_run_def e by (simp_all add: add.assoc)
  moreover have "(if any \<noteq> 0 then i + n + l else 0) \<le> length xs" using d(1) n by auto
  ultimately show ?thesis by blast
qed

text \<open>The number \<^verbatim>\<open>strtoul\<close> finds in a word, and how many of its characters it reads.\<close>

definition word_mem :: "u8 list \<Rightarrow> mem" where
  "word_mem w a = (if unat a < length w then w ! unat a else 0)"

definition word_num :: "u8 list \<Rightarrow> u32 \<times> nat" where
  "word_num w = (case strtoul (word_mem w) 0 0 of Some (v, q) \<Rightarrow> (v, unat q) | None \<Rightarrow> (0, 0))"

lemma strtoul_word:
  assumes "cstr m p w" "length w < 4294967296"
  shows "strtoul m p 0 = Some (fst (word_num w), p + of_nat (snd (word_num w)))" "snd (word_num w) \<le> length w"
proof -
  have "cstr (word_mem w) 0 w"
    using cstr_nonzero [OF assms(1)] assms(2) by (auto simp: cstr_iff word_mem_def unat_of_nat_small in_set_conv_nth)
  from strto_unsigned_same [OF assms(1) this, of 0, where 'a = 32] obtain v n where
    v: "n \<le> length w" "strtoul m p 0 = Some (v, p + of_nat n)" "strtoul (word_mem w) 0 0 = Some (v, of_nat n)"
    unfolding strtoul_def by auto
  then have "word_num w = (v, n)" using assms(2) by (simp add: word_num_def unat_of_nat_small)
  then show "strtoul m p 0 = Some (fst (word_num w), p + of_nat (snd (word_num w)))" "snd (word_num w) \<le> length w" using v by simp_all
qed

text \<open>
  C34: the four conversions return on every string and in every base, well-formed number or not, and the end
  pointer they set lies within the string, its terminator included.
\<close>

theorem strto_returns:
  assumes "cstr m p xs"
  shows "(\<exists>v n. n \<le> length xs \<and> strtol m p base = Some (v, p + of_nat n)) \<and> (\<exists>v n. n \<le> length xs \<and> strtoul m p base = Some (v, p + of_nat n))
    \<and> (\<exists>v n. n \<le> length xs \<and> strtoll m p base = Some (v, p + of_nat n)) \<and> (\<exists>v n. n \<le> length xs \<and> strtoull m p base = Some (v, p + of_nat n))"
  unfolding strtol_def strtoul_def strtoll_def strtoull_def by (intro conjI strto_total [OF assms])

theorem strto_returns_witness: "\<exists>v n. n \<le> 1 \<and> strtol ((\<lambda>_. 0)(0 := 45)) 0 0 = Some (v, 0 + of_nat n)"
  using strto_returns [of "(\<lambda>_. 0)(0 := 45)" 0 "[45]" 0] by auto

end
