(* ===== verification/Literals.thy ===== *)
theory Literals
  imports Lib_Str
begin

text \<open>
  The string literals of the console code: the formats and names that \<^verbatim>\<open>isr.c\<close>, \<^verbatim>\<open>kernel.c\<close>, \<^verbatim>\<open>nsh.c\<close> and the built-in
  commands hand to \<^verbatim>\<open>kprintf\<close> and \<^verbatim>\<open>strcmp\<close>.  Where the linker puts them is a parameter of the model; a table of slots of 128
  bytes shows that a placement with the properties assumed of it exists.
\<close>

definition literals :: "string list" where
  "literals = [
    ''frame interupt: %p\<newline>'', ''     eip: %x\<newline>'', ''      cs: %x\<newline>'', ''     flg: %x\<newline>'',
    ''      sp: %x\<newline>'', ''      ss: %x\<newline>'', ''     err: %x\<newline>'', ''DIVIDE ERROR\<newline>'',
    ''OVERFLOW\<newline>'', ''DOUBLE FAULT\<newline>'', ''Usage: alloc size\<newline>'',
    ''chunk: {\<newline>    addr = %p\<newline>    size = %u\<newline>}\<newline>'',
    ''alloc: Size not well formatted.\<newline>'', ''Asked for allocation of %d bytes\<newline>'',
    ''Failed to allocate memory area.\<newline>'', ''Usage: free size\<newline>'',
    ''free: Address not well formatted.\<newline>'', ''free: Size not well formatted.\<newline>'',
    ''Usage: color fg/bg COLOR\<newline>'', ''       color reset\<newline>'', ''black'', ''blue'', ''green'', ''cyan'',
    ''red'', ''magenta'', ''brown'', ''lightgrey'', ''darkgrey'', ''lightblue'', ''lightgreen'', ''lightcyan'',
    ''lightred'', ''lightmagenta'', ''lightbrown'', ''white'', ''color: '%s' unknown color.\<newline>'', ''reset'', ''fg'',
    ''bg'', ''color: '%s' unknown command.\<newline>'', ''Usage: keymap LAYOUT\<newline>'',
    ''       keymap list\<newline>'', ''us'', ''fr'', ''list'', ''Layout:\<newline>'', ''- %s\<newline>'',
    ''keymap: Layout '%s' not found.\<newline>'', ''Usage: hexdump address size\<newline>'', '' '', ''%2x'', ''  '', ''%c'',
    ''%8p: '', ''  |'', ''|\<newline>'', ''hexdump: Address not well formated.\<newline>'',
    ''hexdump: Size not well formated.\<newline>'', ''Usage: info [gdt/idt/stack/buddy/registers]\<newline>'',
    ''eax : %8p\<newline>'', ''ebx : %8p\<newline>'', ''ecx : %8p\<newline>'', ''edx : %8p\<newline>'',
    ''cs : %8p\<newline>'', ''ds : %8p\<newline>'', ''es : %8p\<newline>'', ''gs : %8p\<newline>'', ''ss : %8p\<newline>'',
    ''esi : %8p\<newline>'', ''edi : %8p\<newline>'', ''ebp : %8p\<newline>'', ''eip : %8p\<newline>'',
    ''esp : %8p\<newline>'', ''eflags : %b\<newline>'', ''cr0 : %8b\<newline>'', ''cr3 : %8p\<newline>'',
    ''INFO IDT\<newline>'', ''Base:  %8p | Limit: %8p\<newline>'', ''Size = %u bytes\<newline>'', ''\<newline>%4x  '',
    ''order %u(size of %u)\<newline>'', ''\<newline>'', ''INFO BUDDY\<newline>'', ''buddy address:        %p\<newline>'',
    ''buddy size:           %u KB\<newline>'', ''orders address:       %p\<newline>'',
    ''frame number:         %x\<newline>'', ''memory size:          %u KB\<newline>'', ''INFO STACK\<newline>'',
    ''Top:   %8p | Bottom : %8p\<newline>'', ''Size = %d bytes\<newline>'', ''%4p      '', ''INFO GDT\<newline>'',
    ''BASE LOW    BASE MID    BASE HIGH   LIMIT LOW   GRAN        ACC\<newline>'', ''gdt'', ''stack'', ''buddy'',
    ''info: order number not formatted correctly\<newline>'', ''idt'', ''registers'',
    ''info: '%s' doesn't exist.\<newline>'', ''Usage: interrupt int\<newline>'',
    ''interrupt: interrupt number not well formated.\<newline>'',
    ''interrupt: interrupt number '%d' not implemented.\<newline>'', ''reboot'', ''Reboot the machine'', ''poweroff'',
    ''Power-off the machine'', ''exit'', ''Alias of 'poweroff'' @ [CHR 0x27], ''keymap'', ''Switch keyboard layout'',
    ''color'', ''Change the screen buffer color'', ''alloc'', ''Allocate a memory area'', ''free'',
    ''Free a given memory area'', ''info'', ''Print some information about system'', ''clear'', ''Clear the screen buffer'',
    ''hexdump'', ''Dump a memory zone'', ''next'', ''Switch to next screen buffer'', ''prev'',
    ''Switch to prev screen buffer'', ''help'', ''Print help'', ''interrupt'', ''Raise an interrupt'',
    ''KFS - available commands:\<newline>'', ''-> %s: %s\<newline>'', ''nsh$ '', ''nsh: %s: command not found\<newline>'',
    ''%s'', ''Welcome to nulix-2.0.1\<newline>'', [CHR 0x08]
    ]"

section \<open>A placement of the literals\<close>

definition slot_of :: "string list \<Rightarrow> string \<Rightarrow> nat" where
  "slot_of ss s = length (takeWhile (\<lambda>t. t \<noteq> s) ss)"

definition pool_lit :: "ptr \<Rightarrow> string list \<Rightarrow> string \<Rightarrow> ptr" where
  "pool_lit base ss s = base + of_nat (128 * slot_of ss s)"

definition pool_mem :: "ptr \<Rightarrow> string list \<Rightarrow> mem \<Rightarrow> mem" where
  "pool_mem base ss m a =
     (let o' = unat (a - base); s = ss ! (o' div 128) in
      if o' div 128 < length ss then (if o' mod 128 < length s then of_char (s ! (o' mod 128)) else 0) else m a)"

lemma slot_of_nth: "s \<in> set ss \<Longrightarrow> slot_of ss s < length ss \<and> ss ! slot_of ss s = s"
  unfolding slot_of_def by (induction ss) auto

definition storable :: "string \<Rightarrow> bool" where
  "storable s \<longleftrightarrow> length s < 128 \<and> list_all (\<lambda>c. (of_char c :: u8) \<noteq> 0) s"

lemma pool_cstr:
  assumes "s \<in> set ss" "storable s" "128 * length ss \<le> 4294967295"
  shows "cstr (pool_mem base ss m) (pool_lit base ss s) (bytes s)"
proof -
  let ?i = "slot_of ss s"
  have i: "?i < length ss" "ss ! ?i = s" using slot_of_nth [OF assms(1)] by auto
  have l: "length s < 128" using assms(2) by (simp add: storable_def)
  have *: "pool_mem base ss m (pool_lit base ss s + of_nat j) = (if j < length s then of_char (s ! j) else 0)" if "j \<le> length s" for j
  proof -
    have "128 * ?i + j < 4294967296" using i(1) l that assms(3) by linarith
    then have u: "unat (pool_lit base ss s + of_nat j - base) = 128 * ?i + j"
      by (simp add: pool_lit_def unat_of_nat_small flip: of_nat_add of_nat_mult)
    have "(128 * ?i + j) div 128 = ?i" "(128 * ?i + j) mod 128 = j" using l that by simp_all
    then show ?thesis using i unfolding pool_mem_def Let_def u by simp
  qed
  have z: "(of_char (s ! j) :: u8) \<noteq> 0" if "j < length s" for j using assms(2) that by (auto simp: storable_def list_all_length)
  have "pool_mem base ss m (pool_lit base ss s + of_nat j) = bytes s ! j" "bytes s ! j \<noteq> 0" if "j < length (bytes s)" for j
    using * [of j] z [of j] that by (simp_all add: bytes_def)
  moreover have "pool_mem base ss m (pool_lit base ss s + of_nat (length (bytes s))) = 0" using * [of "length s"] by (simp add: bytes_def)
  ultimately show ?thesis by (simp add: cstr_iff)
qed

lemma literals_storable: "list_all storable literals"
  unfolding literals_def list.pred_inject by (intro conjI TrueI) (simp_all add: storable_def)

lemma length_literals: "length literals = 140"
  by (simp add: literals_def)

lemma pool_slot:
  assumes "s \<in> set ss" "storable s" "128 * length ss \<le> 4294967296"
  shows "blk (pool_lit base ss s) (Suc (length s)) \<subseteq> blk base (128 * length ss)"
proof -
  have "128 * slot_of ss s + Suc (length s) \<le> 128 * length ss"
    using slot_of_nth [OF assms(1)] assms(2) by (simp add: storable_def)
  then show ?thesis unfolding pool_lit_def by (rule blk_subset) (rule assms(3))
qed

end
