(* ===== verification/Lib_Tests.thy ===== *)
theory Lib_Tests
  imports Lib_Std Literals
begin

text \<open>
  The test programs that lie beside the libraries, \<^verbatim>\<open>src/lib/string/test.c\<close> and
  \<^verbatim>\<open>src/lib/std/test.c\<close>, run on the models of the functions they test.  What the host's \<^verbatim>\<open>printf\<close>
  makes of its arguments is left out; the model keeps the values that are printed: the failed
  assertions by function and line, the counts, and the verdict of each row of a table.
\<close>

section \<open>src/lib/string/test.c\<close>

text \<open>The two counters of the file, and the lines \<^verbatim>\<open>[KO]: function l.line\<close> in the order of printing.\<close>

record tests =
  test_count :: int
  failed_tests :: int
  printed :: "(string \<times> nat) list"

text \<open>
  The macro \<^verbatim>\<open>ASSERT\<close>; \<^verbatim>\<open>__func__\<close> and \<^verbatim>\<open>__LINE__\<close> are arguments.  The tested condition is \<open>None\<close> when
  a call in it does not return.
\<close>

definition ASSERT :: "string \<Rightarrow> nat \<Rightarrow> bool option \<Rightarrow> tests \<Rightarrow> tests option" where
  "ASSERT func line x t =
     do { b \<leftarrow> x;
          let t1 = t\<lparr>test_count := test_count t + 1\<rparr>;
          Some (if \<not> b then t1\<lparr>printed := printed t1 @ [(func, line)], failed_tests := failed_tests t1 + 1\<rparr> else t1) }"

text \<open>
  The arrays are on the stack of the function: \<open>s i\<close> is the address of \<^verbatim>\<open>si\<close> in the memory \<open>m\<close> of
  that call.
\<close>

definition test_strlen :: "mem \<Rightarrow> (nat \<Rightarrow> ptr) \<Rightarrow> tests \<Rightarrow> tests option" where
  "test_strlen m s t =
     ASSERT ''test_strlen'' 32 (map_option (\<lambda>r. r = 11) (strlen m (s 1))) t
     \<bind> ASSERT ''test_strlen'' 33 (map_option (\<lambda>r. r = 0) (strlen m (s 2)))
     \<bind> ASSERT ''test_strlen'' 34 (map_option (\<lambda>r. r = 0) (strlen m (s 3)))
     \<bind> ASSERT ''test_strlen'' 35 (map_option (\<lambda>r. r = 3) (strlen m (s 4)))"

definition test_strchr :: "mem \<Rightarrow> (nat \<Rightarrow> ptr) \<Rightarrow> tests \<Rightarrow> tests option" where
  "test_strchr m s t =
     ASSERT ''test_strchr'' 43 (map_option (\<lambda>r. r = Some (s 1)) (strchr m (s 1) 65)) t
     \<bind> ASSERT ''test_strchr'' 44 (map_option (\<lambda>r. r = Some (s 1 + 1)) (strchr m (s 1) 66))
     \<bind> ASSERT ''test_strchr'' 45 (map_option (\<lambda>r. r = Some (s 1 + 4)) (strchr m (s 1) 0))
     \<bind> ASSERT ''test_strchr'' 46 (map_option (\<lambda>r. r = None) (strchr m (s 1) 67))"

definition test_strrchr :: "mem \<Rightarrow> (nat \<Rightarrow> ptr) \<Rightarrow> tests \<Rightarrow> tests option" where
  "test_strrchr m s t =
     ASSERT ''test_strrchr'' 54 (map_option (\<lambda>r. r = Some (s 1 + 3)) (strrchr m (s 1) 65)) t
     \<bind> ASSERT ''test_strrchr'' 55 (map_option (\<lambda>r. r = Some (s 1 + 2)) (strrchr m (s 1) 66))
     \<bind> ASSERT ''test_strrchr'' 56 (map_option (\<lambda>r. r = Some (s 1 + 4)) (strrchr m (s 1) 0))
     \<bind> ASSERT ''test_strrchr'' 57 (map_option (\<lambda>r. r = None) (strrchr m (s 1) 67))"

definition test_strcmp :: "mem \<Rightarrow> (nat \<Rightarrow> ptr) \<Rightarrow> tests \<Rightarrow> tests option" where
  "test_strcmp m s t =
     ASSERT ''test_strcmp'' 71 (map_option (\<lambda>r. r = 0) (strcmp m (s 1) (s 1))) t
     \<bind> ASSERT ''test_strcmp'' 72 (map_option (\<lambda>r. r = 0) (strcmp m (s 2) (s 2)))
     \<bind> ASSERT ''test_strcmp'' 73 (map_option (\<lambda>r. r = 0) (strcmp m (s 3) (s 3)))
     \<bind> ASSERT ''test_strcmp'' 74 (map_option (\<lambda>r. r = 0) (strcmp m (s 4) (s 4)))
     \<bind> ASSERT ''test_strcmp'' 75 (map_option (\<lambda>r. r = 0) (strcmp m (s 5) (s 5)))
     \<bind> ASSERT ''test_strcmp'' 76 (map_option (\<lambda>r. r = 0) (strcmp m (s 6) (s 6)))
     \<bind> ASSERT ''test_strcmp'' 79 (map_option (\<lambda>r. r = 0) (strcmp m (s 1) (s 2)))
     \<bind> ASSERT ''test_strcmp'' 80 (map_option (\<lambda>r. r = 0) (strcmp m (s 1) (s 3)))
     \<bind> ASSERT ''test_strcmp'' 81 (map_option (\<lambda>r. r = 0) (strcmp m (s 2) (s 1)))
     \<bind> ASSERT ''test_strcmp'' 82 (map_option (\<lambda>r. r = 0) (strcmp m (s 2) (s 3)))
     \<bind> ASSERT ''test_strcmp'' 83 (map_option (\<lambda>r. r = 0) (strcmp m (s 3) (s 1)))
     \<bind> ASSERT ''test_strcmp'' 84 (map_option (\<lambda>r. r = 0) (strcmp m (s 3) (s 2)))
     \<bind> ASSERT ''test_strcmp'' 87 (map_option (\<lambda>r. r \<noteq> 0) (strcmp m (s 4) (s 5)))
     \<bind> ASSERT ''test_strcmp'' 88 (map_option (\<lambda>r. r \<noteq> 0) (strcmp m (s 4) (s 5)))
     \<bind> ASSERT ''test_strcmp'' 89 (map_option (\<lambda>r. r \<noteq> 0) (strcmp m (s 5) (s 1)))"

definition test_strncmp :: "mem \<Rightarrow> (nat \<Rightarrow> ptr) \<Rightarrow> tests \<Rightarrow> tests option" where
  "test_strncmp m s t =
     ASSERT ''test_strncmp'' 100 (Some (strncmp m (s 1) (s 2) 0 = 0)) t
     \<bind> ASSERT ''test_strncmp'' 101 (Some (strncmp m (s 2) (s 3) 5 = 0))
     \<bind> ASSERT ''test_strncmp'' 102 (Some (strncmp m (s 2) (s 3) 6 \<noteq> 0))
     \<bind> ASSERT ''test_strncmp'' 103 (Some (strncmp m (s 3) (s 4) 2 = 0))
     \<bind> ASSERT ''test_strncmp'' 104 (Some (strncmp m (s 3) (s 4) 9 \<noteq> 0))
     \<bind> ASSERT ''test_strncmp'' 105 (Some (strncmp m (s 1) (s 4) 0 = 0))"

text \<open>
  \<^verbatim>\<open>main\<close>, with the memory and the addresses each of the functions runs on: the counters, the summary
  line \<^verbatim>\<open>-- All n tests passed --\<close> or \<^verbatim>\<open>-- k/n tests passed --\<close>, and the value it returns.
\<close>

datatype summary = All_passed int | Passed int int

type_synonym frames = "string \<Rightarrow> mem \<times> (nat \<Rightarrow> ptr)"

definition in_frame :: "frames \<Rightarrow> string \<Rightarrow> (mem \<Rightarrow> (nat \<Rightarrow> ptr) \<Rightarrow> tests \<Rightarrow> tests option) \<Rightarrow> tests \<Rightarrow> tests option" where
  "in_frame fr func test = (case fr func of (m, s) \<Rightarrow> test m s)"

definition string_main :: "frames \<Rightarrow> (tests \<times> summary \<times> int) option" where
  "string_main fr =
     do { t1 \<leftarrow> in_frame fr ''test_strlen'' test_strlen \<lparr>test_count = 0, failed_tests = 0, printed = []\<rparr>;
          t2 \<leftarrow> in_frame fr ''test_strchr'' test_strchr t1;
          t3 \<leftarrow> in_frame fr ''test_strrchr'' test_strrchr t2;
          t4 \<leftarrow> in_frame fr ''test_strncmp'' test_strncmp t3;
          t5 \<leftarrow> in_frame fr ''test_strcmp'' test_strcmp t4;
          let line = (if failed_tests t5 = 0 then All_passed (test_count t5)
                     else Passed (test_count t5 - failed_tests t5) (test_count t5));
          Some (t5, line, 0) }"

text \<open>The initial contents of the arrays, up to their first NUL.\<close>

definition string_arrays :: "(string \<times> string list) list" where
  "string_arrays =
     [(''test_strlen'', [''hello world'', '''', '''', ''0.0'']),
      (''test_strchr'', [''ABBA'']),
      (''test_strrchr'', [''ABBA'']),
      (''test_strcmp'', ['''', '''', '''', ''Hey'', ''Hey\<newline>How you doing?'', ''Hey'']),
      (''test_strncmp'', ['''', ''Hello'', ''Hello world'', ''Heppo world''])]"

definition frames_hold :: "frames \<Rightarrow> bool" where
  "frames_hold fr \<longleftrightarrow>
     list_all (\<lambda>(func, ss). list_all (\<lambda>(i, a). cstr (fst (fr func)) (snd (fr func) i) (bytes a)) (enumerate 1 ss)) string_arrays"

section \<open>src/lib/std/test.c\<close>

text \<open>The macro \<^verbatim>\<open>TEST\<close>: the verdict in green or red.\<close>

definition TEST :: "bool \<Rightarrow> string" where
  "TEST cmp = (if cmp then CHR 0x1B # ''[32mOK'' @ CHR 0x1B # ''[0m'' else CHR 0x1B # ''[31mKO'' @ CHR 0x1B # ''[0m'')"

text \<open>The loop over a table: the verdicts of its rows.\<close>

fun test_rows :: "('a \<Rightarrow> bool option) \<Rightarrow> 'a list \<Rightarrow> string list option" where
  "test_rows test [] = Some []"
| "test_rows test (x # xs) = do { b \<leftarrow> test x; r \<leftarrow> test_rows test xs; Some (TEST b # r) }"

definition t_abs :: "(32 word \<times> 32 word) list" where
  "t_abs = [(1, 1), (23656666, 23656666), (-1457459, 1457459), (-1, 1), (999482, 999482), (-123145564, 123145564), (0, 0)]"

definition t_strtol :: "(string \<times> 32 word \<times> u8 \<times> int) list" where
  "t_strtol =
     [(''1aze'', 1, 97, 10), (''23656666'', 23656666, 0, 10), (''-1457459'', -1457459, 0, 10), (''-1'', -1, 0, 10),
      (''999482'', 999482, 0, 10), (''-123145564'', -123145564, 0, 10), (''0x100'', 0, 120, 10), (''0x10'', 16, 0, 16),
      (''10'', 10, 0, 10), (''10'', 5, 0, 5), (''10'', 8, 0, 8), (''0'', 0, 0, 10)]"

definition t_atoi :: "(string \<times> 32 word) list" where
  "t_atoi = [(''1'', 1), (''23656666'', 23656666), (''-1457459'', -1457459), (''-1'', -1), (''999482'', 999482),
     (''-123145564'', -123145564), (''0'', 0)]"

text \<open>
  \<^verbatim>\<open>main\<close>: the verdicts of the three tables and the limits of the last line; \<open>lit\<close> gives the address of
  a literal.  \<^verbatim>\<open>long\<close> has 32 bits, as in the library.
\<close>

definition std_main :: "mem \<Rightarrow> (string \<Rightarrow> ptr) \<Rightarrow> (string list \<times> string list \<times> string list \<times> u32 \<times> u32 \<times> u32) option" where
  "std_main m lit =
     do { abs_rows \<leftarrow> test_rows (\<lambda>(a, b). Some (abs_int a = b)) t_abs;
          strtol_rows \<leftarrow> test_rows (\<lambda>(a, b, c, d). map_option (\<lambda>(tmp, ptr). tmp = b \<and> m ptr = c) (strtol m (lit a) d)) t_strtol;
          atoi_rows \<leftarrow> test_rows (\<lambda>(a, b). map_option (\<lambda>r. r = b) (atoi m (lit a))) t_atoi;
          Some (abs_rows, strtol_rows, atoi_rows, NOT 0, LONG_MAX, LONG_MIN) }"

definition std_literals :: "string list" where
  "std_literals = map fst t_strtol @ map fst t_atoi"

section \<open>The outcome of the tests\<close>

lemma ASSERT_Some [simp]:
  "ASSERT func line (Some b) t = Some (t\<lparr>test_count := test_count t + 1,
     printed := printed t @ (if b then [] else [(func, line)]), failed_tests := failed_tests t + (if b then 0 else 1)\<rparr>)"
  by (simp add: ASSERT_def Let_def)

lemma strchr_cstr:
  assumes "cstr m s xs" "sint c = n"
  shows "strchr m s n = Some (let k = length (takeWhile (\<lambda>x. x \<noteq> 0 \<and> x \<noteq> c) xs) in
     if zat xs k = c then Some (s + of_nat k) else None)"
  using scan_cstr [OF assms(1), of "\<lambda>x. x \<noteq> 0 \<and> x \<noteq> c"] cstr_zat [OF assms(1) length_takeWhile_le]
  by (simp add: strchr_def Let_def flip: assms(2))

lemma strcmp_test:
  assumes "cstr m p xs" "cstr m q ys"
  shows "map_option (\<lambda>r. r = 0) (strcmp m p q) = Some (xs = ys)"
    and "map_option (\<lambda>r. r \<noteq> 0) (strcmp m p q) = Some (xs \<noteq> ys)"
  using strcmp_eq_0 [OF assms] strcmp_cstr [OF assms] by auto

lemma strncmp_cstr:
  assumes "cstr m p xs" "cstr m q ys"
  shows "strncmp m p q n = (let k = min (unat n) (common xs ys) in
     if n - of_nat k - 1 = 0 then 0 else sint (zat xs k) - sint (zat ys k))"
  using strncmp_loop_cstr [OF assms refl] cstr_zat [OF assms(1)] cstr_zat [OF assms(2)] common_le [of xs ys]
  by (simp add: strncmp_def Let_def)

lemma test_strlen_passes:
  assumes "cstr m (s 1) (bytes ''hello world'')" "cstr m (s 2) []" "cstr m (s 3) []" "cstr m (s 4) (bytes ''0.0'')"
  shows "test_strlen m s t = Some (t\<lparr>test_count := test_count t + 4\<rparr>)"
  unfolding test_strlen_def strlen_cstr [OF assms(1)] strlen_cstr [OF assms(2)] strlen_cstr [OF assms(3)] strlen_cstr [OF assms(4)]
  by (simp add: bytes_def)

lemma test_strchr_passes:
  assumes "cstr m (s 1) (bytes ''ABBA'')"
  shows "test_strchr m s t = Some (t\<lparr>test_count := test_count t + 4\<rparr>)"
  using strchr_cstr [OF assms, of 65 65] strchr_cstr [OF assms, of 66 66] strchr_cstr [OF assms, of 67 67] strchr_cstr [OF assms, of 0 0]
  by (simp add: test_strchr_def bytes_def)

lemma test_strrchr_passes:
  assumes "cstr m (s 1) (bytes ''ABBA'')"
  shows "test_strrchr m s t = Some (t\<lparr>test_count := test_count t + 4\<rparr>)"
proof -
  define p where "p = s 1"
  have c: "cstr m p (bytes ''ABBA'')" using assms by (simp only: p_def)
  have len: "strlen m p = Some 4" using strlen_cstr [OF c] by (simp add: bytes_def)
  have a: "m p = 65" "m (p + 1) = 66" "m (p + 2) = 66" "m (p + 3) = 65" "m (p + 4) = 0"
    using cstr_zat [OF c, of 0] cstr_zat [OF c, of 1] cstr_zat [OF c, of 2] cstr_zat [OF c, of 3] cstr_zat [OF c, of 4]
    by (simp_all add: bytes_def)
  have down: "p + 4 - 1 = p + 3" "p + 3 - 1 = p + 2" "p + 2 - 1 = p + 1" "p + 1 - 1 = p" by simp_all
  have four: "(4 :: nat) = Suc (Suc (Suc (Suc 0)))" by simp
  have loop: "strrchr_loop m c 4 (p + 4) =
      (if c = 0 then p + 4 else if c = 65 then p + 3 else if c = 66 then p + 2 else p)" for c
    unfolding four by (simp only: strrchr_loop.simps a down) auto
  show ?thesis unfolding test_strrchr_def p_def [symmetric] by (simp add: strrchr_def len loop a)
qed

lemma test_strcmp_passes:
  assumes "cstr m (s 1) []" "cstr m (s 2) []" "cstr m (s 3) []" "cstr m (s 4) (bytes ''Hey'')"
    "cstr m (s 5) (bytes ''Hey\<newline>How you doing?'')" "cstr m (s 6) (bytes ''Hey'')"
  shows "test_strcmp m s t = Some (t\<lparr>test_count := test_count t + 15\<rparr>)"
proof -
  note same = strcmp_test(1) [OF assms(1) assms(1)] strcmp_test(1) [OF assms(2) assms(2)] strcmp_test(1) [OF assms(3) assms(3)]
    strcmp_test(1) [OF assms(4) assms(4)] strcmp_test(1) [OF assms(5) assms(5)] strcmp_test(1) [OF assms(6) assms(6)]
  note empty = strcmp_test(1) [OF assms(1) assms(2)] strcmp_test(1) [OF assms(1) assms(3)] strcmp_test(1) [OF assms(2) assms(1)]
    strcmp_test(1) [OF assms(2) assms(3)] strcmp_test(1) [OF assms(3) assms(1)] strcmp_test(1) [OF assms(3) assms(2)]
  note differ = strcmp_test(2) [OF assms(4) assms(5)] strcmp_test(2) [OF assms(5) assms(1)]
  show ?thesis unfolding test_strcmp_def same empty differ by (simp add: bytes_def)
qed

lemma test_strncmp_fails:
  assumes "cstr m (s 1) []" "cstr m (s 2) (bytes ''Hello'')" "cstr m (s 3) (bytes ''Hello world'')" "cstr m (s 4) (bytes ''Heppo world'')"
  shows "test_strncmp m s t = Some (t\<lparr>test_count := test_count t + 6, failed_tests := failed_tests t + 5,
     printed := printed t @ map (Pair ''test_strncmp'') [100, 101, 102, 103, 105]\<rparr>)"
  unfolding test_strncmp_def strncmp_cstr [OF assms(1,2)] strncmp_cstr [OF assms(2,3)] strncmp_cstr [OF assms(3,4)] strncmp_cstr [OF assms(1,4)]
  by (simp add: bytes_def)

lemma strtol_row:
  assumes "cstr m p (sign @ pre @ xs @ rest)" "sign \<in> {[], [45]}" "sign = [] \<longrightarrow> zat (pre @ xs @ rest) 0 \<notin> {32, 43, 45}"
    "radix base pre (xs @ rest) = Some b" "list_all2 (is_digit b) xs ds" "ends_number b (zat rest 0)"
    "ds \<noteq> []" "digits_val b 0 ds < 2 ^ 31"
  shows "strtol m p base = Some ((if sign = [45] then - of_nat (digits_val b 0 ds) else of_nat (digits_val b 0 ds)),
     p + of_nat (length sign + length pre + length xs)) \<and> m (p + of_nat (length sign + length pre + length xs)) = zat rest 0"
proof -
  have "numeral_text m p base 0 sign pre xs rest b ds" using assms by (simp add: numeral_text_def)
  moreover have "sign \<in> {[], [43], [45]}" using assms(2) by auto
  ultimately have "strtol m p base = Some ((if sign = [45] then - of_nat (digits_val b 0 ds) else of_nat (digits_val b 0 ds)),
     p + of_nat (length sign + length pre + length xs))"
    using strto_signed_value [of m p base 0 sign pre xs rest b ds, where 'a = 32] assms(7,8) by (simp add: strtol_def)
  moreover have "m (p + of_nat (length sign + length pre + length xs)) = zat rest 0"
    using cstr_zat [OF assms(1), of "length sign + length pre + length xs"] by (simp add: nth_append)
  ultimately show ?thesis by simp
qed

lemma strtol_rows:
  "cstr m p (bytes ''1aze'') \<Longrightarrow> \<exists>q. strtol m p 10 = Some (1, q) \<and> m q = 97"
  "cstr m p (bytes ''23656666'') \<Longrightarrow> \<exists>q. strtol m p 10 = Some (23656666, q) \<and> m q = 0"
  "cstr m p (bytes ''-1457459'') \<Longrightarrow> \<exists>q. strtol m p 10 = Some (-1457459, q) \<and> m q = 0"
  "cstr m p (bytes ''-1'') \<Longrightarrow> \<exists>q. strtol m p 10 = Some (-1, q) \<and> m q = 0"
  "cstr m p (bytes ''999482'') \<Longrightarrow> \<exists>q. strtol m p 10 = Some (999482, q) \<and> m q = 0"
  "cstr m p (bytes ''-123145564'') \<Longrightarrow> \<exists>q. strtol m p 10 = Some (-123145564, q) \<and> m q = 0"
  "cstr m p (bytes ''0x100'') \<Longrightarrow> \<exists>q. strtol m p 10 = Some (0, q) \<and> m q = 120"
  "cstr m p (bytes ''0x10'') \<Longrightarrow> \<exists>q. strtol m p 16 = Some (16, q) \<and> m q = 0"
  "cstr m p (bytes ''10'') \<Longrightarrow> \<exists>q. strtol m p 10 = Some (10, q) \<and> m q = 0"
  "cstr m p (bytes ''10'') \<Longrightarrow> \<exists>q. strtol m p 5 = Some (5, q) \<and> m q = 0"
  "cstr m p (bytes ''10'') \<Longrightarrow> \<exists>q. strtol m p 8 = Some (8, q) \<and> m q = 0"
  "cstr m p (bytes ''0'') \<Longrightarrow> \<exists>q. strtol m p 10 = Some (0, q) \<and> m q = 0"
  "cstr m p (bytes ''1'') \<Longrightarrow> \<exists>q. strtol m p 10 = Some (1, q) \<and> m q = 0"
  using strtol_row [of m p "[]" "[]" "bytes ''1''" "bytes ''aze''" 10 10 "[1]"]
    strtol_row [of m p "[]" "[]" "bytes ''23656666''" "[]" 10 10 "[2, 3, 6, 5, 6, 6, 6, 6]"]
    strtol_row [of m p "bytes ''-''" "[]" "bytes ''1457459''" "[]" 10 10 "[1, 4, 5, 7, 4, 5, 9]"]
    strtol_row [of m p "bytes ''-''" "[]" "bytes ''1''" "[]" 10 10 "[1]"]
    strtol_row [of m p "[]" "[]" "bytes ''999482''" "[]" 10 10 "[9, 9, 9, 4, 8, 2]"]
    strtol_row [of m p "bytes ''-''" "[]" "bytes ''123145564''" "[]" 10 10 "[1, 2, 3, 1, 4, 5, 5, 6, 4]"]
    strtol_row [of m p "[]" "[]" "bytes ''0''" "bytes ''x100''" 10 10 "[0]"]
    strtol_row [of m p "[]" "bytes ''0x''" "bytes ''10''" "[]" 16 16 "[1, 0]"]
    strtol_row [of m p "[]" "[]" "bytes ''10''" "[]" 10 10 "[1, 0]"]
    strtol_row [of m p "[]" "[]" "bytes ''10''" "[]" 5 5 "[1, 0]"]
    strtol_row [of m p "[]" "[]" "bytes ''10''" "[]" 8 8 "[1, 0]"]
    strtol_row [of m p "[]" "[]" "bytes ''0''" "[]" 10 10 "[0]"]
    strtol_row [of m p "[]" "[]" "bytes ''1''" "[]" 10 10 "[1]"]
  by (simp_all add: bytes_def is_digit_def ends_number_def digit_val_def)

lemma test_rows_pass: "list_all (\<lambda>x. test x = Some True) xs \<Longrightarrow> test_rows test xs = Some (replicate (length xs) (TEST True))"
  by (induction xs) auto

lemma std_rows:
  assumes "list_all (\<lambda>a. cstr m (lit a) (bytes a)) std_literals"
  shows "list_all (\<lambda>x. (\<lambda>(a, b, c, d). map_option (\<lambda>(tmp, ptr). tmp = b \<and> m ptr = c) (strtol m (lit a) d)) x = Some True) t_strtol"
    and "list_all (\<lambda>x. (\<lambda>(a, b). map_option (\<lambda>r. r = b) (atoi m (lit a))) x = Some True) t_atoi"
proof -
  have lits: "cstr m (lit a) (bytes a)" if "a \<in> set std_literals" for a using assms that by (simp add: list_all_iff)
  have row: "map_option (\<lambda>(tmp, ptr). tmp = b \<and> m ptr = c) (strtol m p d) = Some True"
    if "\<exists>q. strtol m p d = Some (b, q) \<and> m q = c" for p b c d using that by auto
  have val: "map_option (\<lambda>r. r = b) (atoi m p) = Some True"
    if "\<exists>q. strtol m p 10 = Some (b, q) \<and> m q = 0" for p b using that by (auto simp: atoi_def)
  show "list_all (\<lambda>x. (\<lambda>(a, b, c, d). map_option (\<lambda>(tmp, ptr). tmp = b \<and> m ptr = c) (strtol m (lit a) d)) x = Some True) t_strtol"
    unfolding t_strtol_def list.pred_inject case_prod_conv by (intro conjI TrueI row strtol_rows lits; simp add: std_literals_def t_strtol_def t_atoi_def)
  show "list_all (\<lambda>x. (\<lambda>(a, b). map_option (\<lambda>r. r = b) (atoi m (lit a))) x = Some True) t_atoi"
    unfolding t_atoi_def list.pred_inject case_prod_conv by (intro conjI TrueI val strtol_rows lits; simp add: std_literals_def t_strtol_def t_atoi_def)
qed

text \<open>What each of the functions does in its frame.\<close>

lemma frames_arrays:
  assumes "frames_hold fr" "fr func = (m, s)" "(func, ss) \<in> set string_arrays"
  shows "\<forall>i < length ss. cstr m (s (Suc i)) (bytes (ss ! i))"
proof -
  have "list_all (\<lambda>(i, a). cstr m (s i) (bytes a)) (enumerate 1 ss)"
    using assms unfolding frames_hold_def list_all_iff by fastforce
  then show ?thesis unfolding list_all_iff by (fastforce simp: in_set_enumerate_eq)
qed

lemma in_frame_arrays:
  assumes "frames_hold fr" "(func, ss) \<in> set string_arrays"
    and "\<And>m s. \<forall>i < length ss. cstr m (s (Suc i)) (bytes (ss ! i)) \<Longrightarrow> test m s t = r"
  shows "in_frame fr func test t = r"
proof (cases "fr func")
  case (Pair m s)
  then show ?thesis using assms(3) [OF frames_arrays [OF assms(1) Pair assms(2)]] by (simp add: in_frame_def)
qed

lemma string_frames:
  assumes "frames_hold fr"
  shows "in_frame fr ''test_strlen'' test_strlen t = Some (t\<lparr>test_count := test_count t + 4\<rparr>)"
    and "in_frame fr ''test_strchr'' test_strchr t = Some (t\<lparr>test_count := test_count t + 4\<rparr>)"
    and "in_frame fr ''test_strrchr'' test_strrchr t = Some (t\<lparr>test_count := test_count t + 4\<rparr>)"
    and "in_frame fr ''test_strcmp'' test_strcmp t = Some (t\<lparr>test_count := test_count t + 15\<rparr>)"
    and "in_frame fr ''test_strncmp'' test_strncmp t = Some (t\<lparr>test_count := test_count t + 6, failed_tests := failed_tests t + 5,
     printed := printed t @ map (Pair ''test_strncmp'') [100, 101, 102, 103, 105]\<rparr>)"
proof -
  note frame = in_frame_arrays [OF assms] and arr = string_arrays_def All_less_Suc2 eval_nat_numeral bytes_def
  show "in_frame fr ''test_strlen'' test_strlen t = Some (t\<lparr>test_count := test_count t + 4\<rparr>)"
    by (rule frame [of _ "[''hello world'', '''', '''', ''0.0'']"], simp add: string_arrays_def, rule test_strlen_passes)
      (simp_all add: arr del: cstr.simps)
  show "in_frame fr ''test_strchr'' test_strchr t = Some (t\<lparr>test_count := test_count t + 4\<rparr>)"
    by (rule frame [of _ "[''ABBA'']"], simp add: string_arrays_def, rule test_strchr_passes) (simp_all add: arr del: cstr.simps)
  show "in_frame fr ''test_strrchr'' test_strrchr t = Some (t\<lparr>test_count := test_count t + 4\<rparr>)"
    by (rule frame [of _ "[''ABBA'']"], simp add: string_arrays_def, rule test_strrchr_passes) (simp_all add: arr del: cstr.simps)
  show "in_frame fr ''test_strcmp'' test_strcmp t = Some (t\<lparr>test_count := test_count t + 15\<rparr>)"
    by (rule frame [of _ "['''', '''', '''', ''Hey'', ''Hey\<newline>How you doing?'', ''Hey'']"], simp add: string_arrays_def, rule test_strcmp_passes)
      (simp_all add: arr del: cstr.simps)
  show "in_frame fr ''test_strncmp'' test_strncmp t = Some (t\<lparr>test_count := test_count t + 6, failed_tests := failed_tests t + 5,
     printed := printed t @ map (Pair ''test_strncmp'') [100, 101, 102, 103, 105]\<rparr>)"
    by (rule frame [of _ "['''', ''Hello'', ''Hello world'', ''Heppo world'']"], simp add: string_arrays_def, rule test_strncmp_fails)
      (simp_all add: arr del: cstr.simps)
qed

section \<open>Placements of the strings\<close>

definition demo_frames :: frames where
  "demo_frames func = (pool_mem 0 (the (map_of string_arrays func)) (\<lambda>_. 0), \<lambda>i. of_nat (128 * (i - 1)))"

lemma demo_frames_hold: "frames_hold demo_frames"
  by code_simp

lemma demo_literals_hold:
  "list_all (\<lambda>a. cstr (pool_mem 128 std_literals (\<lambda>_. 0)) (pool_lit 128 std_literals a) (bytes a)) std_literals"
proof -
  have "list_all storable std_literals" by (simp add: std_literals_def t_strtol_def t_atoi_def storable_def)
  moreover have "length std_literals = 19" by (simp add: std_literals_def t_strtol_def t_atoi_def)
  ultimately show ?thesis by (auto simp: list_all_iff intro!: pool_cstr)
qed

section \<open>Correctness properties\<close>

text \<open>
  C33: the tests of the string library return and count 33 assertions.  Those on \<^verbatim>\<open>strlen\<close>, \<^verbatim>\<open>strchr\<close>,
  \<^verbatim>\<open>strrchr\<close> and \<^verbatim>\<open>strcmp\<close> hold; of the six on \<^verbatim>\<open>strncmp\<close> five fail, those of the lines 100 to 103 and 105, because
  \<^verbatim>\<open>strncmp\<close> miscounts by one; the summary is 28/33, and the program returns 0 all the same.
\<close>

theorem string_tests_outcome:
  assumes "frames_hold fr"
  shows "string_main fr = Some (\<lparr>test_count = 33, failed_tests = 5,
     printed = map (Pair ''test_strncmp'') [100, 101, 102, 103, 105]\<rparr>, Passed 28 33, 0)"
  by (simp add: string_main_def string_frames [OF assms])

theorem string_tests_outcome_witness:
  "string_main demo_frames = Some (\<lparr>test_count = 33, failed_tests = 5,
     printed = map (Pair ''test_strncmp'') [100, 101, 102, 103, 105]\<rparr>, Passed 28 33, 0)"
  by (rule string_tests_outcome [OF demo_frames_hold])

text \<open>
  The tests of the number conversions return and pass: every row of the three tables is reported as
  \<^verbatim>\<open>OK\<close>, and the limits printed last are those of a \<^verbatim>\<open>long\<close> of 32 bits.
\<close>

theorem std_tests_pass:
  assumes "list_all (\<lambda>a. cstr m (lit a) (bytes a)) std_literals"
  shows "std_main m lit = Some (replicate (length t_abs) (TEST True), replicate (length t_strtol) (TEST True), replicate (length t_atoi) (TEST True),
     0xFFFFFFFF, 0x7FFFFFFF, 0x80000000)"
proof -
  have "list_all (\<lambda>x. (\<lambda>(a, b). Some (abs_int a = b)) x = Some True) t_abs" by (simp add: t_abs_def abs_int_def word_sless_alt)
  note rows = test_rows_pass [OF this] test_rows_pass [OF std_rows(1) [OF assms]] test_rows_pass [OF std_rows(2) [OF assms]]
  show ?thesis unfolding std_main_def rows by (simp add: LONG_MAX_def LONG_MIN_def mask_eq_exp_minus_1)
qed

theorem std_tests_pass_witness:
  "\<exists>m lit. std_main m lit = Some (replicate (length t_abs) (TEST True), replicate (length t_strtol) (TEST True), replicate (length t_atoi) (TEST True),
     0xFFFFFFFF, 0x7FFFFFFF, 0x80000000)"
  using std_tests_pass [OF demo_literals_hold] by blast

end
