(* ===== verification/Machine.thy ===== *)
theory Machine
  imports Lib_Mem
begin

text \<open>
  What the C code assumes of the i386 when it overlays structures on memory: little-endian
  16-bit and 32-bit accesses to the flat byte memory, and the facts that a load sees the last
  store to the same place and none to another.
\<close>

unbundle bit_operations_syntax

section \<open>Definitions\<close>

definition load16 :: "mem \<Rightarrow> ptr \<Rightarrow> u16" where
  "load16 m p = ucast (m p) OR push_bit 8 (ucast (m (p + 1)))"

definition store16 :: "mem \<Rightarrow> ptr \<Rightarrow> u16 \<Rightarrow> mem" where
  "store16 m p v = m(p := ucast v, p + 1 := ucast (drop_bit 8 v))"

definition load32 :: "mem \<Rightarrow> ptr \<Rightarrow> u32" where
  "load32 m p = ucast (load16 m p) OR push_bit 16 (ucast (load16 m (p + 2)))"

definition store32 :: "mem \<Rightarrow> ptr \<Rightarrow> u32 \<Rightarrow> mem" where
  "store32 m p v = store16 (store16 m p (ucast v)) (p + 2) (ucast (drop_bit 16 v))"

section \<open>Loads after stores\<close>

named_theorems load_store \<open>loads from memory after stores to it\<close>

lemma fun_upd_add_u32 [load_store]: "(m(p + c := v)) (p + d) = (if (d :: u32) = c then v else m (p + d))"
  "(m(p := v)) (p + d) = (if d = 0 then v else m (p + d))"
  "(m(p + c := v)) p = (if c = 0 then v else m p)"
  by auto

lemma load16_store16_same [load_store]: "load16 (store16 m p v) p = v"
  by (rule bit_word_eqI) (auto simp: load16_def store16_def bit_simps)

lemma load32_store32_same [load_store]: "load32 (store32 m p v) p = v"
proof -
  have "load16 (store32 m p v) p = ucast v"
    by (rule bit_word_eqI) (auto simp: store32_def load16_def store16_def bit_simps add.assoc)
  moreover have "load16 (store32 m p v) (p + 2) = ucast (drop_bit 16 v)"
    by (simp add: store32_def load16_store16_same)
  ultimately show ?thesis
    by (intro bit_word_eqI) (auto simp: load32_def bit_simps)
qed

lemma store16_frame [load_store]: "a \<notin> blk p 2 \<Longrightarrow> store16 m p v a = m a"
  by (auto simp: store16_def blk_def)

lemma store32_frame [load_store]: "a \<notin> blk p 4 \<Longrightarrow> store32 m p v a = m a"
  using blk_subset [of 0 2 4 p] blk_subset [of 2 2 4 p]
  by (simp add: store32_def subset_iff) (metis store16_frame)

lemma load16_cong: "(\<And>a. a \<in> blk p 2 \<Longrightarrow> m a = m' a) \<Longrightarrow> load16 m p = load16 m' p"
  by (simp add: load16_def blk_def)

lemma load32_cong: "(\<And>a. a \<in> blk p 4 \<Longrightarrow> m a = m' a) \<Longrightarrow> load32 m p = load32 m' p"
  using blk_subset [of 0 2 4 p] blk_subset [of 2 2 4 p]
  by (auto simp: load32_def intro!: arg_cong2 [where f = "(OR)"] arg_cong [where f = "push_bit 16"]
      arg_cong [where f = ucast] load16_cong)

lemma load32_store32_other: "blk p 4 \<inter> blk q 4 = {} \<Longrightarrow> load32 (store32 m q v) p = load32 m p"
  by (rule load32_cong, rule store32_frame) blast

section \<open>Tables in memory\<close>

text \<open>
  The interface of a table of entries overlaid on memory: entries at disjoint places, a reader that depends on the bytes of its
  entry only, and a writer that changes no other byte.  Clients see a table as a map, whatever the layout
  of an entry is.
\<close>

locale memory_table =
  fixes at :: "'i \<Rightarrow> ptr" and width :: nat and index :: "'i set"
    and get :: "mem \<Rightarrow> 'i \<Rightarrow> 'e" and put :: "'i \<Rightarrow> 'x \<Rightarrow> mem \<Rightarrow> mem" and val :: "'x \<Rightarrow> 'e"
  assumes apart: "i \<in> index \<Longrightarrow> j \<in> index \<Longrightarrow> i \<noteq> j \<Longrightarrow> blk (at i) width \<inter> blk (at j) width = {}"
    and get_cong: "(\<And>a. a \<in> blk (at i) width \<Longrightarrow> m a = m' a) \<Longrightarrow> get m i = get m' i"
    and put_frame: "a \<notin> blk (at i) width \<Longrightarrow> put i x m a = m a"
    and get_put: "get (put i x m) i = val x"
begin

lemma get_put_other: "i \<in> index \<Longrightarrow> j \<in> index \<Longrightarrow> i \<noteq> j \<Longrightarrow> get (put j x m) i = get m i"
  using apart [of i j] by (intro get_cong put_frame) blast

text \<open>After a sequence of writes an entry holds the last one to its index, and no byte outside the entries written has changed.\<close>

lemma get_puts:
  assumes "i \<in> index" "set (map fst ws) \<subseteq> index"
  shows "get (fold (\<lambda>(j, x). put j x) ws m) i = (case map_of (rev ws) i of None \<Rightarrow> get m i | Some x \<Rightarrow> val x)"
  using assms(2)
proof (induction ws rule: rev_induct)
  case (snoc w ws)
  then show ?case using assms(1) get_put_other by (cases w) (auto simp: get_put)
qed simp

lemma puts_frame: "\<forall>j \<in> set (map fst ws). a \<notin> blk (at j) width \<Longrightarrow> fold (\<lambda>(j, x). put j x) ws m a = m a"
proof (induction ws arbitrary: m)
  case (Cons w ws)
  then show ?case by (cases w) (simp add: put_frame)
qed simp

end

end
