(* ===== verification/Paging.thy ===== *)
theory Paging
  imports Machine
begin

text \<open>
  Page entries and the boot mapping: \<^verbatim>\<open>src/kernel/memory/paging.c\<close>, \<^verbatim>\<open>src/include/kernel/paging.h\<close> and
  \<^verbatim>\<open>src/kernel/boot_init.c\<close>.  A page entry is a 32-bit word of the flat memory; an assignment to one
  of its bit-fields is a read-modify-write of that word.  The specification is the processor's own
  two-level walk from the directory register.
\<close>

unbundle bit_operations_syntax

section \<open>Definitions\<close>

definition PAGE_SIZE :: u32 where "PAGE_SIZE = 4096"
definition PAGE_DIRECTORY_LENGTH :: u32 where "PAGE_DIRECTORY_LENGTH = 1024"
definition PAGE_TABLE_LENGTH :: u32 where "PAGE_TABLE_LENGTH = PAGE_DIRECTORY_LENGTH"
definition LAST_PAGE_ENTRY :: u32 where "LAST_PAGE_ENTRY = PAGE_DIRECTORY_LENGTH - 1"
definition KERNEL_VIRT_OFFSET :: u32 where "KERNEL_VIRT_OFFSET = 0xC0000000"

text \<open>Assignment of \<open>v\<close> to the bit-field of width \<open>w\<close> at offset \<open>k\<close> of the word at \<open>p\<close>.\<close>

definition field :: "nat \<Rightarrow> nat \<Rightarrow> u32 \<Rightarrow> u32 \<Rightarrow> u32" where
  "field k w x v = (x AND NOT (push_bit k (mask w))) OR push_bit k (v AND mask w)"

definition set_field :: "nat \<Rightarrow> nat \<Rightarrow> mem \<Rightarrow> ptr \<Rightarrow> u32 \<Rightarrow> mem" where
  "set_field k w m p v = store32 m p (field k w (load32 m p) v)"

definition set_present :: "mem \<Rightarrow> ptr \<Rightarrow> u32 \<Rightarrow> mem" where "set_present = set_field 0 1"
definition set_writable :: "mem \<Rightarrow> ptr \<Rightarrow> u32 \<Rightarrow> mem" where "set_writable = set_field 1 1"
definition set_user :: "mem \<Rightarrow> ptr \<Rightarrow> u32 \<Rightarrow> mem" where "set_user = set_field 2 1"
definition set_address :: "mem \<Rightarrow> ptr \<Rightarrow> u32 \<Rightarrow> mem" where "set_address = set_field 12 20"

definition page_init :: "mem \<Rightarrow> ptr \<Rightarrow> ptr \<Rightarrow> u32 \<Rightarrow> u32 \<Rightarrow> mem" where
  "page_init m0 pe addr w u =
     (let m1 = store32 m0 pe 0;
          m2 = set_present m1 pe 1;
          m3 = set_writable m2 pe w;
          m4 = set_user m3 pe u
      in set_address m4 pe (drop_bit 12 addr))"

definition page_clear :: "mem \<Rightarrow> ptr \<Rightarrow> mem" where
  "page_clear m pe = store32 m pe 0"

text \<open>The \<^verbatim>\<open>for\<close> loop of \<^verbatim>\<open>boot_init\<close> after its first \<open>n\<close> rounds; a page entry is four bytes.\<close>

fun boot_table :: "mem \<Rightarrow> ptr \<Rightarrow> nat \<Rightarrow> mem" where
  "boot_table m page_table1 0 = m"
| "boot_table m page_table1 (Suc pindex) =
     page_init (boot_table m page_table1 pindex) (page_table1 + 4 * of_nat pindex) (of_nat pindex * PAGE_SIZE) 1 0"

text \<open>The result pairs the memory with the value loaded into \<^verbatim>\<open>cr3\<close>.\<close>

definition boot_init :: "mem \<Rightarrow> mem \<times> ptr" where
  "boot_init m0 =
     (let page_directory = 0x1000;
          page_table1 = 0x2000;
          m1 = fst (memset m0 page_directory 0 PAGE_DIRECTORY_LENGTH);
          m2 = page_init m1 (page_directory + 4 * LAST_PAGE_ENTRY) page_directory 1 0;
          m3 = fst (memset m2 page_directory 0 PAGE_DIRECTORY_LENGTH);
          m4 = boot_table m3 page_table1 (unat PAGE_TABLE_LENGTH);
          m5 = page_init m4 page_directory page_table1 1 0;
          m6 = page_init m5 (page_directory + 4 * drop_bit 22 KERNEL_VIRT_OFFSET) page_table1 1 0
      in (m6, page_directory))"

section \<open>The processor's page walk\<close>

definition walk :: "mem \<Rightarrow> u32 \<Rightarrow> u32 \<Rightarrow> u32 option" where
  "walk m table i =
     (let e = load32 m ((table AND NOT 0xFFF) + 4 * i) in if bit e 0 then Some e else None)"

definition translate :: "mem \<Rightarrow> u32 \<Rightarrow> u32 \<Rightarrow> ptr option" where
  "translate m cr3 va =
     do { pde \<leftarrow> walk m cr3 (drop_bit 22 va);
          pte \<leftarrow> walk m pde (drop_bit 12 va AND 0x3FF);
          Some ((pte AND NOT 0xFFF) + (va AND 0xFFF)) }"

section \<open>The word a page entry holds\<close>

lemma store32_store32 [load_store]: "store32 (store32 m p x) p y = store32 m p y"
  by (auto simp: store32_def store16_def fun_eq_iff add.assoc)

definition page_word :: "u32 \<Rightarrow> u32 \<Rightarrow> u32 \<Rightarrow> u32" where
  "page_word addr w u = (addr AND NOT 0xFFF) OR (if bit u 0 then 4 else 0) OR (if bit w 0 then 2 else 0) OR 1"

lemma masks: "(0xFFF :: u32) = mask 12" "(0x3FF :: u32) = mask 10" "(1 :: u32) = mask 1"
  by (simp_all add: mask_eq_exp_minus_1)

lemma bit_field: "n < 32 \<Longrightarrow> bit (field k w x v) n = (if k \<le> n \<and> n < k + w then bit v (n - k) else bit x n)"
  by (auto simp: field_def bit_simps)

lemma bit_page_word:
  "n < 32 \<Longrightarrow> bit (page_word addr w u) n =
     (if n = 0 then True else if n = 1 then bit w 0 else if n = 2 then bit u 0 else if n < 12 then False else bit addr n)"
  using bit_exp_iff [of 2 n, where ?'a = u32] bit_exp_iff [of 1 n, where ?'a = u32] bit_exp_iff [of 0 n, where ?'a = u32]
  by (auto simp: page_word_def masks(1) bit_or_iff bit_and_iff bit_not_iff bit_mask_iff possible_bit_word)

lemma page_init_word: "page_init m pe addr w u = store32 m pe (page_word addr w u)"
proof -
  have "field 12 20 (field 2 1 (field 1 1 (field 0 1 0 1) w) u) (drop_bit 12 addr) = page_word addr w u"
  proof (rule bit_word_eqI)
    fix n assume n: "n < LENGTH(32)"
    then consider "n = 0" | "n = 1" | "n = 2" | "2 < n" "n < 12" | "12 \<le> n" "n < 32" by force
    then show "bit (field 12 20 (field 2 1 (field 1 1 (field 0 1 0 1) w) u) (drop_bit 12 addr)) n = bit (page_word addr w u) n"
      by cases (simp_all add: bit_field bit_page_word bit_drop_bit_eq)
  qed
  then show ?thesis
    by (simp add: page_init_def Let_def set_present_def set_writable_def set_user_def set_address_def set_field_def load_store
        del: One_nat_def)
qed

section \<open>Entries of a table\<close>

text \<open>The \<open>i\<close>-th entry of the table at \<open>p\<close>.\<close>

definition entry :: "ptr \<Rightarrow> nat \<Rightarrow> ptr" where
  "entry p i = p + 4 * of_nat i"

lemma unat_entry: "unat p + 4 * i < 4294967296 \<Longrightarrow> unat (entry p i) = unat p + 4 * i"
  using unat_add_of_nat [of p "4 * i"] by (simp add: entry_def)

text \<open>The directory and the first page table make up one table in memory, indexed by the table and the entry.\<close>

definition page_index :: "(ptr \<times> nat) set" where
  "page_index = {0x1000, 0x2000} \<times> {..<1024}"

lemma entries_disjoint:
  assumes "(p, i) \<in> page_index" "(q, j) \<in> page_index" "(p, i) \<noteq> (q, j)"
  shows "blk (entry p i) 4 \<inter> blk (entry q j) 4 = {}"
proof -
  have u: "unat (entry p i) = unat p + 4 * i" "unat (entry q j) = unat q + 4 * j"
    using assms(1,2) by (auto simp: page_index_def intro!: unat_entry)
  have "unat p + 4 * i + 4 \<le> unat q + 4 * j \<or> unat q + 4 * j + 4 \<le> unat p + 4 * i"
    using assms by (auto simp: page_index_def)
  moreover have "unat p + 4 * i < 65536" "unat q + 4 * j < 65536" using assms by (auto simp: page_index_def)
  ultimately show ?thesis
    using blk_apart [of "entry p i" 4 "entry q j" 4] blk_apart [of "entry q j" 4 "entry p i" 4] by (auto simp: u Int_commute)
qed

interpretation page: memory_table "\<lambda>(p, i). entry p i" 4 page_index "\<lambda>m (p, i). load32 m (entry p i)"
    "\<lambda>(p, i) v m. store32 m (entry p i) v" "\<lambda>v. v"
proof unfold_locales
  show "blk (case i of (p, i) \<Rightarrow> entry p i) 4 \<inter> blk (case j of (p, i) \<Rightarrow> entry p i) 4 = {}" if "i \<in> page_index" "j \<in> page_index" "i \<noteq> j" for i j
    using that entries_disjoint [of "fst i" "snd i" "fst j" "snd j"] by (simp add: split_def prod_eq_iff)
qed (auto simp: store32_frame load32_store32_same intro!: load32_cong split: prod.splits)

lemma load32_other_entry:
  assumes "(p, i) \<in> page_index" "(q, j) \<in> page_index" "(p, i) \<noteq> (q, j)"
  shows "load32 (store32 m (entry q j) v) (entry p i) = load32 m (entry p i)"
  using page.get_put_other [OF assms, of v m] by simp

lemma load32_memset:
  assumes "unat p + 4 * i < 65536" "unat p + 4 * i + 4 \<le> unat q + unat n \<and> unat q \<le> unat p + 4 * i"
    "unat q + unat n < 65536"
  shows "load32 (fst (memset m q 0 n)) (entry p i) = 0"
proof -
  have "fst (memset m q 0 n) a = 0" if "a \<in> blk (entry p i) 4" for a
  proof -
    from that obtain k where k: "k < 4" "a = entry p i + of_nat k" by (rule in_blkE)
    have ua: "unat a = unat p + 4 * i + k" unfolding k(2) using assms k(1) by (subst unat_add_of_nat) (simp_all add: unat_entry)
    then have "unat (a - q) = unat a - unat q" using assms by (intro unat_sub_no_wrap) simp
    then have "a \<in> blk q (unat n)" using assms ua k(1) by (simp add: blk_def) linarith
    then show ?thesis by (simp add: memset_filled filled_def)
  qed
  then have "load32 (fst (memset m q 0 n)) (entry p i) = load32 (\<lambda>_. 0) (entry p i)" by (rule load32_cong)
  then show ?thesis by (simp add: load32_def load16_def)
qed

lemma load32_memset_other:
  assumes "unat p + 4 * i < 65536" "unat q + unat n \<le> unat p + 4 * i"
  shows "load32 (fst (memset m q 0 n)) (entry p i) = load32 m (entry p i)"
proof (rule load32_cong)
  fix a assume "a \<in> blk (entry p i) 4"
  moreover have "blk q (unat n) \<inter> blk (entry p i) 4 = {}" by (rule blk_apart) (use assms in \<open>simp_all add: unat_entry\<close>)
  ultimately have "a \<notin> blk q (unat n)" by blast
  then show "fst (memset m q 0 n) a = m a" by (simp add: memset_filled filled_def)
qed

text \<open>The loop over the page table as a sequence of writes.\<close>

lemma boot_table_puts:
  "boot_table m p n = fold (\<lambda>((q, i), v) m. store32 m (entry q i) v) (map (\<lambda>i. ((p, i), page_word (of_nat i * PAGE_SIZE) 1 0)) [0..<n]) m"
proof (induction n)
  case (Suc n)
  then show ?case by (simp add: page_init_word entry_def)
qed simp

lemma load32_boot_table:
  assumes "(q, i) \<in> page_index" "p \<in> {0x1000, 0x2000}" "n \<le> 1024"
  shows "load32 (boot_table m p n) (entry q i) = (if q = p \<and> i < n then page_word (of_nat i * PAGE_SIZE) 1 0 else load32 m (entry q i))"
proof -
  let ?ws = "map (\<lambda>i. ((p, i), page_word (of_nat i * PAGE_SIZE) 1 0)) [0..<n]"
  have "set (map fst ?ws) \<subseteq> page_index" using assms(2,3) by (auto simp: page_index_def)
  from page.get_puts [OF assms(1) this, of m]
  have "load32 (boot_table m p n) (entry q i) = (case map_of (rev ?ws) (q, i) of None \<Rightarrow> load32 m (entry q i) | Some v \<Rightarrow> v)"
    unfolding boot_table_puts by (simp add: split_def cong: option.case_cong)
  moreover have "map_of (rev ?ws) (q, i) = (if q = p \<and> i < n then Some (page_word (of_nat i * PAGE_SIZE) 1 0) else None)"
  proof (cases "q = p \<and> i < n")
    case True
    then show ?thesis by (auto simp: distinct_map inj_on_def comp_def intro!: map_of_is_SomeI)
  next
    case False
    then show ?thesis by (auto simp: map_of_eq_None_iff)
  qed
  ultimately show ?thesis by simp
qed

section \<open>The boot tables\<close>

lemma boot_init_eq:
  "fst (boot_init m) =
     store32 (store32 (boot_table (fst (memset (store32 (fst (memset m 0x1000 0 0x400)) (entry 0x1000 1023) (page_word 0x1000 1 0)) 0x1000 0 0x400))
       0x2000 1024) (entry 0x1000 0) (page_word 0x2000 1 0)) (entry 0x1000 768) (page_word 0x2000 1 0)"
  by (simp add: boot_init_def Let_def page_init_word PAGE_DIRECTORY_LENGTH_def PAGE_TABLE_LENGTH_def LAST_PAGE_ENTRY_def
      KERNEL_VIRT_OFFSET_def entry_def)

lemma boot_table_entries:
  "i < 1024 \<Longrightarrow> load32 (fst (boot_init m)) (entry 0x2000 i) = page_word (of_nat i * PAGE_SIZE) 1 0"
  unfolding boot_init_eq
  by (simp add: load32_other_entry load32_boot_table page_index_def del: boot_table.simps)

lemma boot_dir_entries:
  assumes "i < 1024"
  shows "load32 (fst (boot_init m)) (entry 0x1000 i) =
    (if i = 0 \<or> i = 768 then page_word 0x2000 1 0 else if i = 1023 then page_word 0x1000 1 0
     else if i < 256 then 0 else load32 m (entry 0x1000 i))"
proof -
  consider "i = 0" | "0 < i" "i < 256" | "256 \<le> i" "i < 768" | "768 < i" "i < 1023" | "i = 768" | "i = 1023"
    using assms by linarith
  then show ?thesis
    using assms unfolding boot_init_eq
    by cases (simp_all add: load32_other_entry load32_store32_same load32_boot_table page_index_def load32_memset load32_memset_other)
qed

lemma bit_page_word_0: "bit (page_word addr w u) 0"
  by (simp add: bit_page_word)

lemma page_word_frame: "page_word addr w u AND NOT 0xFFF = addr AND NOT 0xFFF"
proof (rule bit_word_eqI)
  fix n assume "n < LENGTH(32)"
  then show "bit (page_word addr w u AND NOT 0xFFF) n = bit (addr AND NOT 0xFFF) n"
    by (auto simp: masks(1) bit_and_iff bit_not_iff bit_mask_iff bit_page_word possible_bit_word)
qed

lemma walk_entry:
  "table AND NOT 0xFFF = p \<Longrightarrow> walk m table i = (let e = load32 m (entry p (unat i)) in if bit e 0 then Some e else None)"
  by (simp add: walk_def entry_def)

lemma page_split: "unat va < 0x400000 \<Longrightarrow> (of_nat (unat (drop_bit 12 va)) * PAGE_SIZE) AND NOT 0xFFF = va AND NOT 0xFFF"
proof -
  have "of_nat (unat (drop_bit 12 va)) * PAGE_SIZE = push_bit 12 (drop_bit 12 va)"
    by (simp add: PAGE_SIZE_def push_bit_eq_mult)
  moreover have "push_bit 12 (drop_bit 12 va) AND NOT 0xFFF = va AND NOT (0xFFF :: u32)"
    by (rule bit_word_eqI) (auto simp: masks(1) bit_simps)
  ultimately show ?thesis by simp
qed

lemma frame_plus_offset: "(va AND NOT 0xFFF) + (va AND 0xFFF) = (va :: u32)"
  by (simp add: masks(1) and_not_mask_eq flip: take_bit_eq_mask)

lemma translate_via:
  assumes dir: "cr3 AND NOT 0xFFF = d" "load32 m (entry d (unat (drop_bit 22 va))) = page_word t 1 0" "t AND NOT 0xFFF = t"
    and tab: "load32 m (entry t (unat (drop_bit 12 va AND 0x3FF))) = page_word f 1 0"
  shows "translate m cr3 va = Some ((f AND NOT 0xFFF) + (va AND 0xFFF))"
proof -
  have "walk m cr3 (drop_bit 22 va) = Some (page_word t 1 0)"
    by (simp add: walk_entry [OF dir(1)] dir bit_page_word_0 Let_def)
  moreover have "page_word t 1 0 AND NOT 0xFFF = t" by (simp only: page_word_frame dir(3))
  then have "walk m (page_word t 1 0) (drop_bit 12 va AND 0x3FF) = Some (page_word f 1 0)"
    by (simp only: walk_entry tab bit_page_word_0 Let_def if_True)
  ultimately show ?thesis by (simp only: translate_def bind.bind_lunit page_word_frame)
qed

lemma unat_masked: "unat (drop_bit 22 va) = unat va div 4194304" "unat (drop_bit 12 va AND 0x3FF) = unat va div 4096 mod 1024"
  "unat (va AND 0xFFF) = unat va mod 4096" for va :: u32
  by (simp_all add: masks word_nat)

lemma unat_high_half: "unat va < 0x400000 \<Longrightarrow> unat (va + KERNEL_VIRT_OFFSET) = unat va + 0xC0000000"
  by (subst unat_add_no_wrap) (simp_all add: KERNEL_VIRT_OFFSET_def)

lemma high_half_arith:
  fixes x :: nat
  assumes "x < 0x400000"
  shows "(x + 0xC0000000) div 4194304 = 768" "(x + 0xC0000000) mod 4096 = x mod 4096"
    "(x + 0xC0000000) div 4096 mod 1024 = x div 4096"
proof -
  show "(x + 0xC0000000) div 4194304 = 768" by (rule div_nat_eqI) (use assms in simp_all)
  show "(x + 0xC0000000) mod 4096 = x mod 4096"
    using mod_add_right_eq [of x "0xC0000000" 4096] by simp
  have "(x + 0xC0000000) div 4096 = x div 4096 + 786432"
    by (subst div_plus_div_distrib_dvd_right) simp_all
  moreover have "x div 4096 < 1024" using assms by simp
  ultimately show "(x + 0xC0000000) div 4096 mod 1024 = x div 4096"
    using mod_add_right_eq [of "x div 4096" 786432 1024] by simp
qed

lemma top_page_arith:
  assumes "k < 4096"
  shows "(0xFFFFF000 + k) div 4194304 = (1023 :: nat)" "(0xFFFFF000 + k) div 4096 mod 1024 = 1023" "(0xFFFFF000 + k) mod 4096 = k"
proof -
  show "(0xFFFFF000 + k) div 4194304 = (1023 :: nat)" by (rule div_nat_eqI) (use assms in simp_all)
  have "(0xFFFFF000 + k) div 4096 = 1048575" by (rule div_nat_eqI) (use assms in simp_all)
  then show "(0xFFFFF000 + k) div 4096 mod 1024 = 1023" by simp
  show "(0xFFFFF000 + k) mod 4096 = k"
    using mod_add_left_eq [of "0xFFFFF000" 4096 k] assms by simp
qed

lemma high_half_offset: "unat va < 0x400000 \<Longrightarrow> (va + KERNEL_VIRT_OFFSET) AND 0xFFF = va AND 0xFFF"
  by (rule word_unat_eq_iff [THEN iffD2]) (simp only: unat_masked unat_high_half high_half_arith)

lemma boot_translate_low:
  assumes "unat va < 0x400000" "i = 0 \<or> i = 768" "unat (drop_bit 22 v) = i"
    "unat (drop_bit 12 v AND 0x3FF) = unat (drop_bit 12 va)" "v AND 0xFFF = va AND 0xFFF"
  shows "translate (fst (boot_init m)) 0x1000 v = Some va"
proof -
  have k: "unat (drop_bit 12 va) < 1024" using assms(1) by (simp add: word_nat)
  have "translate (fst (boot_init m)) 0x1000 v = Some ((of_nat (unat (drop_bit 12 va)) * PAGE_SIZE AND NOT 0xFFF) + (v AND 0xFFF))"
  proof (rule translate_via)
    show "load32 (fst (boot_init m)) (entry 0x1000 (unat (drop_bit 22 v))) = page_word 0x2000 1 0"
      unfolding assms(3) using assms(2) by (subst boot_dir_entries) auto
    show "load32 (fst (boot_init m)) (entry 0x2000 (unat (drop_bit 12 v AND 0x3FF))) = page_word (of_nat (unat (drop_bit 12 va)) * PAGE_SIZE) 1 0"
      unfolding assms(4) by (rule boot_table_entries [OF k])
  qed simp_all
  also have "\<dots> = Some va" by (simp only: page_split [OF assms(1)] assms(5) frame_plus_offset)
  finally show ?thesis .
qed

lemma boot_translate:
  assumes "unat va < 0x400000"
  shows "translate (fst (boot_init m)) (snd (boot_init m)) va = Some va
     \<and> translate (fst (boot_init m)) (snd (boot_init m)) (va + KERNEL_VIRT_OFFSET) = Some va"
proof -
  have "snd (boot_init m) = 0x1000" by (simp add: boot_init_def Let_def)
  moreover have "translate (fst (boot_init m)) 0x1000 va = Some va"
    by (rule boot_translate_low [OF assms, of 0]) (use assms in \<open>simp_all add: unat_masked unat_drop_bit\<close>)
  moreover have "translate (fst (boot_init m)) 0x1000 (va + KERNEL_VIRT_OFFSET) = Some va"
    by (rule boot_translate_low [OF assms, of 768])
      (simp_all only: unat_masked unat_high_half [OF assms] high_half_arith [OF assms] high_half_offset [OF assms], simp_all add: unat_drop_bit)
  ultimately show ?thesis by simp
qed

section \<open>Correctness properties\<close>

text \<open>
  C19: after \<^verbatim>\<open>boot_init\<close>, whatever memory held before, the page walk from the directory it loads into
  \<^verbatim>\<open>cr3\<close> maps every address of the first 4 MiB to itself, and the same 4 MiB again at
  \<^verbatim>\<open>KERNEL_VIRT_OFFSET\<close>: the jump to the high half lands on the same code.
\<close>

theorem boot_init_maps:
  assumes "unat va < 0x400000"
  shows "translate (fst (boot_init m)) (snd (boot_init m)) va = Some va
     \<and> translate (fst (boot_init m)) (snd (boot_init m)) (va + KERNEL_VIRT_OFFSET) = Some va"
  by (rule boot_translate [OF assms])

theorem boot_init_maps_witness:
  "translate (fst (boot_init (\<lambda>_. 0xAA))) (snd (boot_init (\<lambda>_. 0xAA))) (0x123456 + KERNEL_VIRT_OFFSET) = Some 0x123456"
  using boot_init_maps [of "0x123456" "\<lambda>_. 0xAA"] by simp

text \<open>
  The rest of the directory \<^verbatim>\<open>boot_init\<close> leaves.  Its last slot maps the directory itself, so the
  page at 0xFFFFF000 is a window on it; slots 1 to 255 are absent; but \<^verbatim>\<open>memset\<close> is given the number
  of entries and not of bytes, so the slots 256 to 767 and 769 to 1022 keep the words that memory
  held before, present or not.
\<close>

theorem boot_init_directory:
  assumes "k < 4096"
  shows "translate (fst (boot_init m)) 0x1000 (0xFFFFF000 + of_nat k) = Some (0x1000 + of_nat k)
     \<and> (\<forall>va. 0x400000 \<le> unat va \<and> unat va < 0x40000000 \<longrightarrow> translate (fst (boot_init m)) 0x1000 va = None)
     \<and> (\<forall>i. 256 \<le> i \<and> i < 1023 \<and> i \<noteq> 768
            \<longrightarrow> load32 (fst (boot_init m)) (entry 0x1000 i) = load32 m (entry 0x1000 i))"
proof (intro conjI allI impI)
  let ?v = "0xFFFFF000 + of_nat k :: u32"
  have v: "unat ?v = 0xFFFFF000 + k" using assms by (subst unat_add_of_nat) simp_all
  have d: "unat (drop_bit 22 ?v) = 1023" "unat (drop_bit 12 ?v AND 0x3FF) = 1023"
    by (simp_all only: unat_masked v top_page_arith [OF assms])
  have "?v AND 0xFFF = of_nat k"
    by (rule word_unat_eq_iff [THEN iffD2]) (use assms in \<open>simp only: unat_masked(3) v top_page_arith [OF assms], simp add: unat_of_nat_small\<close>)
  moreover have "translate (fst (boot_init m)) 0x1000 ?v = Some ((0x1000 AND NOT 0xFFF) + (?v AND 0xFFF))"
  proof (rule translate_via [where t = "0x1000"])
    show "load32 (fst (boot_init m)) (entry 0x1000 (unat (drop_bit 22 ?v))) = page_word 0x1000 1 0"
      "load32 (fst (boot_init m)) (entry 0x1000 (unat (drop_bit 12 ?v AND 0x3FF))) = page_word 0x1000 1 0"
      unfolding d by (simp_all add: boot_dir_entries)
  qed simp_all
  ultimately show "translate (fst (boot_init m)) 0x1000 ?v = Some (0x1000 + of_nat k)" by simp
next
  fix va :: u32 assume "0x400000 \<le> unat va \<and> unat va < 0x40000000"
  then have "1 \<le> unat va div 4194304" "unat va div 4194304 < 256"
    using div_le_mono [of 4194304 "unat va" 4194304] by (simp_all add: less_mult_imp_div_less)
  then have "walk (fst (boot_init m)) 0x1000 (drop_bit 22 va) = None"
    by (subst walk_entry [where p = "0x1000"]) (simp_all add: boot_dir_entries unat_masked)
  then show "translate (fst (boot_init m)) 0x1000 va = None" by (simp add: translate_def)
next
  fix i :: nat assume "256 \<le> i \<and> i < 1023 \<and> i \<noteq> 768"
  then show "load32 (fst (boot_init m)) (entry 0x1000 i) = load32 m (entry 0x1000 i)"
    by (simp add: boot_dir_entries)
qed

theorem boot_init_directory_witness:
  "translate (fst (boot_init (\<lambda>_. 0xAA))) 0x1000 0xFFFFF004 = Some 0x1004
   \<and> load32 (fst (boot_init (\<lambda>_. 0xAA))) (entry 0x1000 300) = 0xAAAAAAAA"
  using boot_init_directory [of 4 "\<lambda>_. 0xAA"] by (auto simp: load32_def load16_def)

end
