(* ===== verification/Print.thy ===== *)
theory Print
  imports Lib_Std
begin

text \<open>
  The formatted output of \<^verbatim>\<open>src/kernel/print.c\<close> over the flat memory: \<^verbatim>\<open>basepow\<close>, \<^verbatim>\<open>snprintnum\<close>,
  \<^verbatim>\<open>vsnprintf\<close> and \<^verbatim>\<open>snprintf\<close>.  A \<^verbatim>\<open>va_list\<close> is the list of the 32-bit arguments that are left; reading
  past its end has no value and gives \<open>None\<close>, as does a loop that does not end.  \<^verbatim>\<open>kprintf\<close> is in
  \<^verbatim>\<open>Console\<close>, with the screens it writes to.
\<close>

unbundle bit_operations_syntax

section \<open>Definitions\<close>

text \<open>A division by 0 traps, so that base 0 has no result.\<close>

partial_function (option) basepow_loop :: "u32 \<Rightarrow> u32 \<Rightarrow> int \<Rightarrow> int option" where
  "basepow_loop n base len =
     (if base = 0 then None
      else let n' = n div base
           in if n' \<noteq> 0 then basepow_loop n' base (len + 1) else Some (len + 1))"

definition basepow :: "u32 \<Rightarrow> u32 \<Rightarrow> int option" where
  "basepow n base = basepow_loop n base 0"

definition digits :: "u8 list" where "digits = bytes ''0123456789abcdef''"

text \<open>\<^verbatim>\<open>for (int i = 0; i < padding; i++)\<close> with its break, for \<open>k\<close> iterations left.\<close>

fun snprintnum_pad :: "nat \<Rightarrow> mem \<Rightarrow> ptr \<Rightarrow> u32 \<Rightarrow> u32 \<Rightarrow> mem \<times> ptr \<times> u32" where
  "snprintnum_pad 0 m buf sz count = (m, buf, count)"
| "snprintnum_pad (Suc k) m buf sz count =
     (let m' = m(buf := 48)
      in if count + 1 = sz then (m', buf + 1, count + 1)
         else snprintnum_pad k m' (buf + 1) sz (count + 1))"

partial_function (option) snprintnum_digits ::
    "mem \<Rightarrow> ptr \<Rightarrow> u32 \<Rightarrow> u32 \<Rightarrow> u32 \<Rightarrow> int \<Rightarrow> u32 \<Rightarrow> (mem \<times> u32) option" where
  "snprintnum_digits m buf sz base un nl0 count =
     (let nl = nl0 - 1;
          (m', count') = (if count + of_int nl < sz
                          then (m(buf + of_int nl := digits ! unat (un mod base)), count + 1)
                          else (m, count));
          un' = un div base
      in if un' \<noteq> 0 then snprintnum_digits m' buf sz base un' nl count' else Some (m', count'))"

definition snprintnum :: "mem \<Rightarrow> ptr \<Rightarrow> u32 \<Rightarrow> 32 word \<Rightarrow> u32 \<Rightarrow> bool \<Rightarrow> int \<Rightarrow> (mem \<times> u32) option" where
  "snprintnum m buf sz n base issigned padding =
     (if base > 16 \<or> sz = 0 then Some (m, 0)
      else do {
        let neg = (issigned \<and> n <s 0);
        let (m1, buf1, count1) = (if neg then (m(buf := 45), buf + 1, 1) else (m, buf, 0));
        let un = (if neg then - n else n);
        nl \<leftarrow> basepow un base;
        let (m2, buf2, count2) = snprintnum_pad (nat (padding - nl)) m1 buf1 sz count1;
        snprintnum_digits m2 buf2 sz base un nl count2 })"

definition va_arg :: "u32 list \<Rightarrow> (u32 \<times> u32 list) option" where
  "va_arg ap = (case ap of [] \<Rightarrow> None | x # xs \<Rightarrow> Some (x, xs))"

text \<open>\<^verbatim>\<open>while (*s && count < size) buf[count++] = *s++;\<close>\<close>

partial_function (option) vsnprintf_str :: "mem \<Rightarrow> ptr \<Rightarrow> u32 \<Rightarrow> ptr \<Rightarrow> u32 \<Rightarrow> (mem \<times> u32) option" where
  "vsnprintf_str m buf sz s count =
     (if m s \<noteq> 0 \<and> count < sz
      then vsnprintf_str (m(buf + count := m s)) buf sz (s + 1) (count + 1)
      else Some (m, count))"

text \<open>
  One conversion, for the specifier \<open>c\<close>: the new memory, count and arguments, or \<open>Inl\<close> for the
  \<^verbatim>\<open>return count\<close> of the default case.
\<close>

definition vsnprintf_num ::
    "mem \<Rightarrow> ptr \<Rightarrow> u32 \<Rightarrow> u32 list \<Rightarrow> u32 \<Rightarrow> u32 \<Rightarrow> bool \<Rightarrow> int \<Rightarrow> (mem \<times> u32 \<times> u32 list) option" where
  "vsnprintf_num m buf sz ap count base issigned padding =
     do { (i, ap') \<leftarrow> va_arg ap;
          (m', k) \<leftarrow> snprintnum m (buf + count) (sz - count) i base issigned padding;
          Some (m', count + k, ap') }"

definition vsnprintf_spec ::
    "mem \<Rightarrow> ptr \<Rightarrow> u32 \<Rightarrow> u32 list \<Rightarrow> u32 \<Rightarrow> int \<Rightarrow> u8 \<Rightarrow> (mem \<times> u32 \<times> u32 list) option option" where
  "vsnprintf_spec m buf sz ap count padding c =
     (if c = 37 then Some (Some (m(buf + count := 37), count + 1, ap))
      else if c = 99 then
        do { (i, ap') \<leftarrow> va_arg ap; Some (Some (m(buf + count := ucast i), count + 1, ap')) }
      else if c = 115 then
        do { (s, ap') \<leftarrow> va_arg ap;
             (m', count') \<leftarrow> vsnprintf_str m buf sz s count;
             Some (Some (m', count', ap')) }
      else if c = 120 then map_option Some (vsnprintf_num m buf sz ap count 16 False padding)
      else if c = 112 then
        (if sz - count > 2 then
           do { (i, ap') \<leftarrow> va_arg ap;
                let m1 = m(buf + count := 48, buf + count + 1 := 120);
                (m', k) \<leftarrow> snprintnum m1 (buf + count + 2) (sz - (count + 2)) i 16 False padding;
                Some (Some (m', count + 2 + k, ap')) }
         else Some (Some (m, count, ap)))
      else if c = 98 then map_option Some (vsnprintf_num m buf sz ap count 2 False padding)
      else if c = 100 then map_option Some (vsnprintf_num m buf sz ap count 10 True padding)
      else if c = 117 then map_option Some (vsnprintf_num m buf sz ap count 10 False padding)
      else Some None)"

partial_function (option) vsnprintf_loop ::
    "mem \<Rightarrow> ptr \<Rightarrow> u32 \<Rightarrow> ptr \<Rightarrow> u32 list \<Rightarrow> u32 \<Rightarrow> int \<Rightarrow> (mem \<times> u32) option" where
  "vsnprintf_loop m buf sz fmt ap count padding =
     (if m fmt \<noteq> 0 \<and> count < sz
      then if m fmt = 37
        then let fmt1 = fmt + 1;
                 isd = (sint (m fmt1) \<ge> 48 \<and> sint (m fmt1) \<le> 57);
                 padding' = (if isd then sint (m fmt1) - 48 else padding);
                 fmt2 = (if isd then fmt1 + 1 else fmt1)
             in do { r \<leftarrow> vsnprintf_spec m buf sz ap count padding' (m fmt2);
                     case r of
                       None \<Rightarrow> Some (m, count)
                     | Some (m', count', ap') \<Rightarrow> vsnprintf_loop m' buf sz (fmt2 + 1) ap' count' padding' }
        else vsnprintf_loop (m(buf + count := m fmt)) buf sz (fmt + 1) ap (count + 1) padding
      else Some (m, count))"

definition vsnprintf :: "mem \<Rightarrow> ptr \<Rightarrow> u32 \<Rightarrow> ptr \<Rightarrow> u32 list \<Rightarrow> (mem \<times> u32) option" where
  "vsnprintf m buf sz fmt ap = vsnprintf_loop m buf sz fmt ap 0 0"

definition snprintf :: "mem \<Rightarrow> ptr \<Rightarrow> u32 \<Rightarrow> ptr \<Rightarrow> u32 list \<Rightarrow> (mem \<times> u32) option" where
  "snprintf m buf sz fmt args = vsnprintf m buf sz fmt args"

declare basepow_loop.simps [code] snprintnum_digits.simps [code] vsnprintf_str.simps [code] vsnprintf_loop.simps [code]

section \<open>Bytes written one after the other\<close>

fun mwrite :: "mem \<Rightarrow> ptr \<Rightarrow> u8 list \<Rightarrow> mem" where
  "mwrite m p [] = m"
| "mwrite m p (x # xs) = mwrite (m(p := x)) (p + 1) xs"

lemma mwrite_append: "mwrite m p (xs @ ys) = mwrite (mwrite m p xs) (p + of_nat (length xs)) ys"
  by (induction xs arbitrary: m p) (auto simp: add.assoc)

lemma mwrite_eq:
  "length xs \<le> 4294967296 \<Longrightarrow> mwrite m p xs = (\<lambda>a. if a \<in> blk p (length xs) then xs ! unat (a - p) else m a)"
proof (induction xs arbitrary: m p)
  case (Cons x xs)
  have n: "length xs < 4294967296" using Cons.prems by simp
  have "mwrite m p (x # xs) = (\<lambda>a. if a \<in> blk (p + 1) (length xs) then xs ! unat (a - (p + 1)) else (m(p := x)) a)"
    using Cons by simp
  also have "\<dots> = (\<lambda>a. if a \<in> blk p (length (x # xs)) then (x # xs) ! unat (a - p) else m a)"
  proof
    fix a
    have "unat (a - p) = Suc (unat (a - (p + 1)))" if "a \<noteq> p"
    proof -
      have "unat (a - p - 1) = unat (a - p) - 1" "unat (a - p) \<noteq> 0"
        using that by (simp_all add: unat_minus_one unat_eq_0)
      then show ?thesis by (simp add: diff_diff_eq)
    qed
    then show "(if a \<in> blk (p + 1) (length xs) then xs ! unat (a - (p + 1)) else (m(p := x)) a) =
      (if a \<in> blk p (length (x # xs)) then (x # xs) ! unat (a - p) else m a)"
      using base_notin_blk_Suc [OF n, of p] by (cases "a = p") (auto simp: blk_Suc [OF n])
  qed
  finally show ?case .
qed simp

lemma mwrite_snoc:
  assumes "length xs < 4294967296"
  shows "mwrite m p (xs @ [x]) = mwrite (m(p + of_nat (length xs) := x)) p xs"
proof -
  have "p + of_nat (length xs) \<notin> blk p (length xs)" using assms by (simp add: in_blk_iff unat_of_nat_small)
  then show ?thesis using assms by (auto simp: mwrite_append mwrite_eq fun_eq_iff)
qed

section \<open>Numbers as text\<close>

text \<open>The digits of a number, most significant first.\<close>

function digs :: "nat \<Rightarrow> nat \<Rightarrow> nat list" where
  "digs b n = (if b < 2 \<or> n < b then [n] else digs b (n div b) @ [n mod b])"
  by pat_completeness auto
termination
  by (relation "measure snd") auto

declare digs.simps [simp del]

lemma digs_step: "2 \<le> b \<Longrightarrow> digs b n = (if n < b then [n] else digs b (n div b) @ [n mod b])"
  by (subst digs.simps) simp

lemma digs_less: "2 \<le> b \<Longrightarrow> d \<in> set (digs b n) \<Longrightarrow> d < b"
proof (induction b n rule: digs.induct)
  case (1 b n)
  show ?case
  proof (cases "n < b")
    case True
    then show ?thesis using 1(2,3) digs_step [of b n] by simp
  next
    case False
    then have "d \<in> set (digs b (n div b)) \<or> d = n mod b" using 1(2,3) digs_step [of b n] by auto
    moreover have "n mod b < b" using 1(2) by simp
    moreover have "\<not> (b < 2 \<or> n < b)" using 1(2) False by simp
    ultimately show ?thesis using 1(1,2) by blast
  qed
qed

lemma digs_nonempty [simp]: "digs b n \<noteq> []"
  by (simp add: digs.simps [of b n])

lemma length_digs: "2 \<le> b \<Longrightarrow> n < 2 ^ Suc k \<Longrightarrow> length (digs b n) \<le> Suc k"
proof (induction k arbitrary: n)
  case 0
  then show ?case using digs_step [of b n] by simp
next
  case (Suc k)
  have "n div b \<le> n div 2" using Suc.prems(1) by (intro div_le_mono2) auto
  then have "n div b < 2 ^ Suc k" using Suc.prems(2) by simp
  then show ?case using Suc.IH [of "n div b"] Suc.prems(1) digs_step [of b n] by simp
qed

lemma digits_val_append: "digits_val b a (xs @ [d]) = digits_val b a xs * b + d"
  by (simp add: digits_val_def)

lemma digs_value: "2 \<le> b \<Longrightarrow> digits_val b 0 (digs b n) = n"
proof (induction b n rule: digs.induct)
  case (1 b n)
  show ?case
  proof (cases "n < b")
    case False
    then have "digits_val b 0 (digs b (n div b)) = n div b" using 1 by simp
    then show ?thesis using False digs_step [OF 1(2), of n] by (simp add: digits_val_append)
  qed (use digs_step [OF 1(2), of n] in simp)
qed

lemma unat_digs_step:
  assumes "2 \<le> unat b"
  shows "digs (unat b) (unat un) =
     (if un div b = 0 then [unat un] else digs (unat b) (unat (un div b)) @ [unat (un mod b)])"
proof -
  have "un div b = 0 \<longleftrightarrow> unat un < unat b"
    using assms by (simp add: word_unat_eq_iff unat_div div_eq_0_iff)
  then show ?thesis using digs_step [OF assms, of "unat un"] by (simp add: unat_div unat_mod)
qed

lemma word_div_decr:
  assumes "2 \<le> unat b" "un div b \<noteq> (0 :: u32)"
  shows "unat (un div b) < unat un"
proof -
  have "unat un \<noteq> 0" using assms(2) by (metis div_0 unat_0 unat_div unat_eq_0)
  then show ?thesis using assms(1) by (simp add: unat_div)
qed

lemma basepow_loop_digs:
  assumes "2 \<le> unat b"
  shows "basepow_loop un b len = Some (len + int (length (digs (unat b) (unat un))))"
proof (induction "unat un" arbitrary: un len rule: less_induct)
  case less
  have b0: "b \<noteq> 0" using assms by auto
  show ?case
  proof (cases "un div b = 0")
    case True
    then show ?thesis using b0 unat_digs_step [OF assms, of un] by (subst basepow_loop.simps) simp
  next
    case False
    have "unat (un div b) < unat un" by (rule word_div_decr [OF assms False])
    then have "basepow_loop (un div b) b (len + 1) = Some (len + 1 + int (length (digs (unat b) (unat (un div b)))))"
      by (rule less.hyps)
    then show ?thesis using b0 False unat_digs_step [OF assms, of un] by (subst basepow_loop.simps) (simp add: Let_def)
  qed
qed

lemma snprintnum_pad_writes:
  fixes k :: nat
  assumes "unat c < unat z"
  defines "j \<equiv> min k (unat z - unat c)"
  shows "snprintnum_pad k m p z c = (mwrite m p (replicate j 48), p + of_nat j, c + of_nat j)"
  unfolding j_def using assms(1)
proof (induction k arbitrary: m p c)
  case (Suc k)
  have c1: "unat (c + 1) = Suc (unat c)"
    using Suc.prems unat_u32_less [of z] unat_add_of_nat [of c 1] by simp
  show ?case
  proof (cases "c + 1 = z")
    case True
    then have "min (Suc k) (unat z - unat c) = 1" using c1 by auto
    then show ?thesis using True by (simp add: fun_upd_def)
  next
    case False
    then have lt: "unat (c + 1) < unat z" using c1 Suc.prems by (metis Suc_lessI word_unat_eq_iff)
    then have "min (Suc k) (unat z - unat c) = Suc (min k (unat z - unat (c + 1)))" using c1 by simp
    then show ?thesis using Suc.IH [OF lt, of "m(p := 48)" "p + 1"] False
      by (simp add: Let_def add.assoc fun_upd_def)
  qed
qed simp

definition num_chars :: "nat \<Rightarrow> nat \<Rightarrow> u8 list" where
  "num_chars b n = map ((!) digits) (digs b n)"

lemma snprintnum_digits_writes:
  assumes "2 \<le> unat b" "unat c \<le> unat z" "unat c + length (digs (unat b) (unat un)) < 4294967296"
  defines "t \<equiv> take (unat z - unat c) (num_chars (unat b) (unat un))"
  shows "snprintnum_digits m p z b un (int (length (digs (unat b) (unat un)))) c = Some (mwrite m p t, c + of_nat (length t))"
  unfolding t_def using assms(2,3)
proof (induction "unat un" arbitrary: un m c rule: less_induct)
  case less
  let ?b = "unat b" and ?n = "unat un"
  have mod: "unat (un mod b) = ?n mod ?b" by (simp add: unat_mod)
  define xs where "xs = (if un div b = 0 then [] else num_chars ?b (unat (un div b)))"
  let ?d = "digits ! unat (un mod b)"
  have nc: "num_chars ?b ?n = xs @ [?d]"
    using unat_digs_step [OF assms(1), of un] by (auto simp: num_chars_def xs_def mod word_unat_eq_iff unat_div div_eq_0_iff)
  have L: "length (digs ?b ?n) = Suc (length xs)"
    using arg_cong [OF nc, of length] by (simp add: num_chars_def)
  have small: "unat c + length xs < 4294967296" using less.prems(2) L by simp
  have cmp: "c + of_nat (length xs) < z \<longleftrightarrow> unat c + length xs < unat z"
    using small by (simp add: word_less_nat_alt unat_add_of_nat)
  show ?case
  proof (cases "unat c + length xs < unat z")
    case True
    have c1: "unat (c + 1) = Suc (unat c)" using True unat_u32_less [of z] unat_add_of_nat [of c 1] by simp
    have full: "take (unat z - unat c) (xs @ [?d]) = xs @ [?d]" using True by simp
    have w: "mwrite m p (xs @ [?d]) = mwrite (m(p + of_nat (length xs) := ?d)) p xs"
      using small by (intro mwrite_snoc) simp
    show ?thesis
    proof (cases "un div b = 0")
      case z0: True
      then have "xs = []" by (simp add: xs_def)
      then show ?thesis using z0 True cmp w full unfolding nc L by (subst snprintnum_digits.simps) simp
    next
      case nz: False
      then have xs: "xs = num_chars ?b (unat (un div b))" "length xs = length (digs ?b (unat (un div b)))"
        by (simp_all add: xs_def num_chars_def)
      have dec: "unat (un div b) < ?n" by (rule word_div_decr [OF assms(1) nz])
      have t2: "take (unat z - unat (c + 1)) xs = xs" using True c1 by simp
      have "snprintnum_digits (m(p + of_nat (length xs) := ?d)) p z b (un div b) (int (length xs)) (c + 1)
          = Some (mwrite (m(p + of_nat (length xs) := ?d)) p xs, c + 1 + of_nat (length xs))"
        using less.hyps [OF dec, of "c + 1" "m(p + of_nat (length xs) := ?d)"] True c1 t2 less.prems(2) L
        by (simp flip: xs)
      then show ?thesis using nz True cmp unfolding nc L full w by (subst snprintnum_digits.simps) (simp add: add.assoc)
    qed
  next
    case False
    have cut: "take (unat z - unat c) (xs @ [?d]) = take (unat z - unat c) xs" using False by simp
    show ?thesis
    proof (cases "un div b = 0")
      case z0: True
      then have "xs = []" by (simp add: xs_def)
      then show ?thesis using z0 False cmp cut unfolding nc L by (subst snprintnum_digits.simps) simp
    next
      case nz: False
      then have xs: "xs = num_chars ?b (unat (un div b))" "length xs = length (digs ?b (unat (un div b)))"
        by (simp_all add: xs_def num_chars_def)
      have dec: "unat (un div b) < ?n" by (rule word_div_decr [OF assms(1) nz])
      have "snprintnum_digits m p z b (un div b) (int (length xs)) c
          = Some (mwrite m p (take (unat z - unat c) xs), c + of_nat (length (take (unat z - unat c) xs)))"
        using less.hyps [OF dec, of c m] less.prems(1) small by (simp flip: xs)
      then show ?thesis using nz False cmp unfolding nc L cut by (subst snprintnum_digits.simps) simp
    qed
  qed
qed

text \<open>The text of a number: sign, zeros up to the padding, digits.\<close>

definition num_text :: "nat \<Rightarrow> bool \<Rightarrow> int \<Rightarrow> 32 word \<Rightarrow> u8 list" where
  "num_text b issigned padding n =
     (let neg = (issigned \<and> n <s 0); ds = num_chars b (unat (if neg then - n else n))
      in (if neg then [45] else []) @ replicate (nat (padding - int (length ds))) 48 @ ds)"

lemma snprintnum_writes:
  assumes b: "2 \<le> base" "base \<le> 16" and z: "0 < unat z" "unat z + 32 < 4294967296"
    and ok: "issigned \<and> n <s 0 \<longrightarrow> 1 < unat z \<or> padding \<le> int (length (num_chars (unat base) (unat (- n))))"
  defines "t \<equiv> take (unat z) (num_text (unat base) issigned padding n)"
  shows "snprintnum m p z n base issigned padding = Some (mwrite m p t, of_nat (length t))"
proof -
  define neg where "neg = (issigned \<and> n <s 0)"
  define un where "un = (if neg then - n else n)"
  define ds where "ds = num_chars (unat base) (unat un)"
  define c1 where "c1 = (if neg then 1 else 0 :: nat)"
  define k where "k = nat (padding - int (length ds))"
  define j where "j = min k (unat z - c1)"
  have b2: "2 \<le> unat base" using b(1) by (simp add: word_le_nat_alt)
  have len: "length ds = length (digs (unat base) (unat un))" "length ds \<le> 32"
    using length_digs [OF b2, of "unat un" 31] unat_u32_less [of un] by (simp_all add: ds_def num_chars_def)
  have bp: "basepow un base = Some (int (length ds))" using basepow_loop_digs [OF b2] by (simp add: basepow_def len)
  have c1z: "c1 \<le> unat z" using z(1) by (simp add: c1_def)
  have k0: "k = 0" if "\<not> c1 < unat z"
    using that ok z(1) by (auto simp: c1_def k_def neg_def ds_def un_def split: if_splits)
  have c1w: "unat (of_nat c1 :: u32) = c1" by (simp add: c1_def)
  let ?m1 = "if neg then m(p := 45) else m"
  have pad: "snprintnum_pad k ?m1 (p + of_nat c1) z (of_nat c1) =
      (mwrite ?m1 (p + of_nat c1) (replicate j 48), p + of_nat c1 + of_nat j, of_nat c1 + of_nat j)"
  proof (cases "c1 < unat z")
    case True
    then show ?thesis using snprintnum_pad_writes [of "of_nat c1" z k] by (simp add: c1w j_def)
  qed (simp add: k0 j_def)
  let ?c = "of_nat c1 + of_nat j :: u32"
  have c: "unat ?c = c1 + j"
    using unat_of_nat_small [of "c1 + j", where 'a = 32] z(2) c1z by (simp add: j_def)
  let ?m2 = "mwrite ?m1 (p + of_nat c1) (replicate j 48)"
  have dg: "snprintnum_digits ?m2 (p + of_nat c1 + of_nat j) z base un (int (length ds)) ?c =
      Some (mwrite ?m2 (p + of_nat c1 + of_nat j) (take (unat z - (c1 + j)) ds), ?c + of_nat (length (take (unat z - (c1 + j)) ds)))"
    using snprintnum_digits_writes [OF b2, of ?c z un ?m2 "p + of_nat c1 + of_nat j"] c1z z(2) len
    unfolding c ds_def [symmetric] by (simp add: j_def)
  have t: "t = (if neg then [45] else []) @ replicate j 48 @ take (unat z - (c1 + j)) ds"
  proof -
    have "num_text (unat base) issigned padding n = (if neg then [45] else []) @ replicate k 48 @ ds"
      by (simp add: num_text_def Let_def neg_def un_def ds_def k_def)
    moreover have "length (if neg then [45 :: u8] else []) = c1" by (simp add: c1_def)
    ultimately show ?thesis using c1z unfolding t_def
      by (simp add: take_append min_def j_def del: length_0_conv)
  qed
  have m1: "(if neg then (m(p := 45), p + 1, 1) else (m, p, 0)) = (?m1, p + of_nat c1, of_nat c1 :: u32)"
    by (simp add: c1_def)
  have nb: "\<not> (16 < base \<or> z = 0)" using b(2) z(1) by auto
  have "snprintnum m p z n base issigned padding =
      snprintnum_digits ?m2 (p + of_nat c1 + of_nat j) z base un (int (length ds)) ?c"
    unfolding snprintnum_def Let_def neg_def [symmetric] un_def [symmetric] m1
    using nb bp pad by (simp add: k_def)
  also have "\<dots> = Some (mwrite m p t, of_nat (length t))"
    unfolding dg t by (simp add: mwrite_append c1_def)
  finally show ?thesis .
qed

section \<open>Printing and reading back\<close>

lemma sint_32_cases: "sint (n :: 32 word) = (if uint n < 2 ^ 31 then uint n else uint n - 2 ^ 32)"
proof -
  have r: "0 \<le> uint n" "uint n < 2 ^ 32" using uint_lt2p [of n] by simp_all
  have "sint n = (uint n + 2 ^ 31) mod 2 ^ 32 - 2 ^ 31"
    by (simp add: sint_uint signed_take_bit_eq_take_bit_shift take_bit_eq_mod)
  then show ?thesis
    using r mod_pos_pos_trivial [of "uint n + 2 ^ 31" "2 ^ 32"] minus_mod_self2 [of "uint n + 2 ^ 31" "2 ^ 32"]
      mod_pos_pos_trivial [of "uint n + 2 ^ 31 - 2 ^ 32" "2 ^ 32"] by auto
qed

lemma unat_magnitude:
  fixes n :: "32 word"
  shows "n <s 0 \<Longrightarrow> int (unat (- n)) = - sint n" "\<not> n <s 0 \<Longrightarrow> int (unat n) = sint n"
proof -
  have r: "0 \<le> uint n" "uint n < 2 ^ 32" using uint_lt2p [of n] by simp_all
  show "int (unat n) = sint n" if "\<not> n <s 0"
    using that r by (auto simp: word_sless_alt sint_32_cases split: if_splits)
  assume "n <s 0"
  then have big: "2 ^ 31 \<le> uint n" "sint n = uint n - 2 ^ 32"
    using r by (auto simp: word_sless_alt sint_32_cases split: if_splits)
  have "int (unat (- n)) = (- uint n) mod 2 ^ 32" by (simp add: uint_word_ariths)
  also have "\<dots> = 2 ^ 32 - uint n" using big r mod_pos_pos_trivial [of "2 ^ 32 - uint n" "2 ^ 32"]
    minus_mod_self1 [of "2 ^ 32" "uint n"] by (simp add: mod_diff_left_eq)
  finally show "int (unat (- n)) = - sint n" using big by simp
qed

lemma digits_list: "digits = [48, 49, 50, 51, 52, 53, 54, 55, 56, 57, 97, 98, 99, 100, 101, 102]"
  by (simp add: digits_def bytes_def)

lemma digit_char: "d < b \<Longrightarrow> b \<le> 16 \<Longrightarrow> is_digit b (digits ! d) d \<and> digits ! d \<notin> {0, 32, 43, 45, 120, 88}"
proof -
  assume d: "d < b" "b \<le> 16"
  have "\<forall>d \<in> set [0..<16]. digit_val (sint (digits ! d)) = Some (int d) \<and> digits ! d \<notin> {0, 32, 43, 45, 120, 88}"
    by (simp add: upt_rec digits_list digit_val_def)
  moreover have "d \<in> set [0..<16]" using d by simp
  ultimately show ?thesis using d(1) unfolding is_digit_def by blast
qed

lemma num_chars_digits:
  assumes "2 \<le> b" "b \<le> 16"
  shows "list_all2 (is_digit b) (num_chars b n) (digs b n)" "set (num_chars b n) \<inter> {0, 32, 43, 45, 120, 88} = {}"
  using digs_less [OF assms(1), of _ n] digit_char [OF _ assms(2)]
  by (auto simp: num_chars_def list_all2_map1 list.rel_refl_strong)

lemma cstr_mwrite:
  assumes "length xs < 4294967296" "0 \<notin> set xs" "m (p + of_nat (length xs)) = 0"
  shows "cstr (mwrite m p xs) p xs"
proof -
  have "mwrite m p xs (p + of_nat i) = xs ! i" if "i < length xs" for i
    using that assms(1) blk_add_of_nat [of i "length xs" p] by (simp add: mwrite_eq unat_of_nat_small)
  moreover have "mwrite m p xs (p + of_nat (length xs)) = 0"
    using assms by (simp add: mwrite_eq in_blk_iff unat_of_nat_small)
  moreover have "xs ! i \<noteq> 0" if "i < length xs" for i using assms(2) nth_mem [OF that] by metis
  ultimately show ?thesis by (simp add: cstr_iff)
qed

lemma decimal_numeral_text:
  fixes n :: "32 word"
  assumes "cstr m p (num_text 10 True 0 n)"
  shows "numeral_text m p 10 0 (if n <s 0 then [45] else []) [] (num_chars 10 (unat (if n <s 0 then - n else n))) []
           10 (digs 10 (unat (if n <s 0 then - n else n)))"
proof -
  let ?u = "unat (if n <s 0 then - n else n)"
  note d = num_chars_digits [of 10 ?u]
  have ne: "num_chars 10 ?u \<noteq> []" by (simp add: num_chars_def)
  then have "zat (num_chars 10 ?u) 0 \<in> set (num_chars 10 ?u)" by (simp add: nth_append)
  then have "zat (num_chars 10 ?u) 0 \<notin> {32, 43, 45}" using d(2) by auto
  moreover have "cstr m p ((if n <s 0 then [45] else []) @ num_chars 10 ?u)"
    using assms by (simp add: num_text_def Let_def split: if_splits)
  moreover have "ends_number 10 (zat [] 0)" by (simp add: ends_number_def digit_val_def)
  ultimately show ?thesis using d(1) by (simp add: numeral_text_def)
qed

lemma num_text_decimal:
  fixes n :: "32 word"
  shows "0 \<notin> set (num_text 10 True 0 n)" "length (num_text 10 True 0 n) \<le> 33" "num_text 10 True 0 n \<noteq> []"
proof -
  let ?u = "unat (if n <s 0 then - n else n)"
  have "length (num_chars 10 ?u) \<le> 32"
    using length_digs [of 10 ?u 31] unat_u32_less [of "if n <s 0 then - n else n"] by (simp add: num_chars_def)
  then show "length (num_text 10 True 0 n) \<le> 33" by (simp add: num_text_def Let_def split: if_splits)
  show "0 \<notin> set (num_text 10 True 0 n)"
    using num_chars_digits(2) [of 10 ?u] by (auto simp: num_text_def Let_def split: if_splits)
  show "num_text 10 True 0 n \<noteq> []" by (simp add: num_text_def Let_def num_chars_def)
qed

text \<open>A format that is the single specifier \<^verbatim>\<open>%d\<close>.\<close>

lemma snprintf_decimal:
  fixes n :: "32 word"
  assumes fmt: "cstr m fmt [37, 100]" and z: "33 \<le> unat z" "unat z + 32 < 4294967296"
    and sep: "fmt + 2 \<notin> blk buf (length (num_text 10 True 0 n))"
  shows "snprintf m buf z fmt [n] = Some (mwrite m buf (num_text 10 True 0 n), of_nat (length (num_text 10 True 0 n)))"
proof -
  let ?t = "num_text 10 True 0 n"
  note t = num_text_decimal [of n]
  have full: "take (unat z) ?t = ?t" using t(2) z(1) by simp
  have num: "snprintnum m buf z n 10 True 0 = Some (mwrite m buf ?t, of_nat (length ?t))"
    using snprintnum_writes [of 10 z True n 0 m buf] z full by simp
  have f: "m fmt = 37" "m (fmt + 1) = 100" "m (fmt + 2) = 0" using fmt by (simp_all add: add.assoc)
  have f2: "mwrite m buf ?t (fmt + 2) = 0" using sep f(3) t(2) by (simp add: mwrite_eq)
  have z0: "0 < z" using z(1) by (simp add: word_less_nat_alt)
  have "vsnprintf_loop (mwrite m buf ?t) buf z (fmt + 2) [] (of_nat (length ?t)) 0 = Some (mwrite m buf ?t, of_nat (length ?t))"
    by (subst vsnprintf_loop.simps) (simp add: f2)
  then show ?thesis
    unfolding snprintf_def vsnprintf_def
    by (subst vsnprintf_loop.simps) (simp add: f z0 vsnprintf_spec_def vsnprintf_num_def va_arg_def num add.assoc)
qed

text \<open>A format without specifiers, away from the buffer.\<close>

lemma vsnprintf_plain:
  assumes "cstr m fmt xs" "37 \<notin> set xs" "unat c + length xs < 4294967296" "length xs < 4294967295"
    and "\<And>k. k < unat z \<Longrightarrow> buf + of_nat k \<notin> blk fmt (Suc (length xs))"
  shows "vsnprintf_loop m buf z fmt ap c pad =
     Some (mwrite m (buf + c) (take (unat z - unat c) xs), c + of_nat (length (take (unat z - unat c) xs)))"
  using assms
proof (induction xs arbitrary: m fmt c)
  case Nil
  then show ?case by (subst vsnprintf_loop.simps) simp
next
  case (Cons x xs)
  have x: "m fmt = x" "x \<noteq> 0" "x \<noteq> 37" "cstr m (fmt + 1) xs" using Cons.prems by auto
  show ?case
  proof (cases "unat c < unat z")
    case True
    have c1: "unat (c + 1) = Suc (unat c)" using True unat_u32_less [of z] unat_add_of_nat [of c 1] by simp
    have bc: "buf + c \<notin> blk fmt (Suc (Suc (length xs)))" using Cons.prems(5) [of "unat c"] True by simp
    have sub: "blk (fmt + 1) (Suc (length xs)) \<subseteq> blk fmt (Suc (Suc (length xs)))"
      using Cons.prems(4) by (subst blk_Suc [of "Suc (length xs)"]) auto
    have "cstr (m(buf + c := x)) (fmt + 1) xs = cstr m (fmt + 1) xs"
      using bc sub Cons.prems(4) by (intro cstr_cong) auto
    then have p1: "cstr (m(buf + c := x)) (fmt + 1) xs" using x(4) by simp
    have p2: "37 \<notin> set xs" "unat (c + 1) + length xs < 4294967296" "length xs < 4294967295"
      using Cons.prems(2-4) c1 by auto
    have p3: "buf + of_nat k \<notin> blk (fmt + 1) (Suc (length xs))" if "k < unat z" for k
      using Cons.prems(5) [OF that] sub by auto
    have IH: "vsnprintf_loop (m(buf + c := x)) buf z (fmt + 1) ap (c + 1) pad =
        Some (mwrite (m(buf + c := x)) (buf + (c + 1)) (take (unat z - unat (c + 1)) xs), c + 1 + of_nat (length (take (unat z - unat (c + 1)) xs)))"
      by (rule Cons.IH [OF p1 p2 p3])
    have tk: "take (unat z - unat c) (x # xs) = x # take (unat z - unat (c + 1)) xs"
      using True c1 by (cases "unat z - unat c") (simp_all, metis diff_Suc_Suc diff_Suc_1 Suc_diff_Suc)
    have "c < z" using True by (simp add: word_less_nat_alt)
    then show ?thesis unfolding tk using x IH by (subst vsnprintf_loop.simps) (simp add: add.assoc)
  next
    case False
    then have "\<not> c < z" by (simp add: word_less_nat_alt)
    then show ?thesis using False by (subst vsnprintf_loop.simps) simp
  qed
qed

section \<open>Correctness properties\<close>

text \<open>
  In bases 2 to 16 \<^verbatim>\<open>snprintnum\<close> returns and writes, at the buffer, the sign, the zeros up to the
  padding and the digits of the number, cut to the size it was given, and returns how many bytes
  it wrote.  The one exception is a negative number in a buffer of size 1 with padding to write.
\<close>

theorem snprintnum_correct:
  assumes "2 \<le> base" "base \<le> 16" "0 < unat z" "unat z + 32 < 4294967296"
    and "issigned \<and> n <s 0 \<longrightarrow> 1 < unat z \<or> padding \<le> int (length (num_chars (unat base) (unat (- n))))"
  shows "snprintnum m p z n base issigned padding =
     Some (mwrite m p (take (unat z) (num_text (unat base) issigned padding n)),
           of_nat (min (unat z) (length (num_text (unat base) issigned padding n))))"
  using snprintnum_writes [OF assms, of m p] by (simp add: min.commute)

theorem snprintnum_correct_witness:
  "snprintnum (\<lambda>_. 0) 64 100 (- 42) 10 True 5 = Some (mwrite (\<lambda>_. 0) 64 [45, 48, 48, 48, 52, 50], 6)
   \<and> snprintnum (\<lambda>_. 0) 64 2 255 16 False 0 = Some (mwrite (\<lambda>_. 0) 64 [102, 102], 2)"
proof -
  have t1: "num_text 10 True 5 (- 42) = [45, 48, 48, 48, 52, 50]"
    by (simp add: num_text_def num_chars_def digs_step digits_list word_sless_alt) (simp add: numeral_3_eq_3)
  have t2: "num_text 16 False 0 255 = [102, 102]"
    by (simp add: num_text_def num_chars_def digs_step digits_list)
  show ?thesis
    using snprintnum_correct [of 10 100 True "- 42" 5 "\<lambda>_. 0" 64] snprintnum_correct [of 16 2 False 255 0 "\<lambda>_. 0" 64]
    by (simp_all add: t1 t2 del: mwrite.simps)
qed

text \<open>
  C27: printing a number with \<^verbatim>\<open>%d\<close> into a zeroed buffer and reading the text back with \<^verbatim>\<open>strtol\<close> in base 10
  gives the number again, and \<^verbatim>\<open>strtol\<close> stops at the end of what was printed.
\<close>

theorem print_parse_roundtrip:
  fixes n :: "32 word"
  assumes "cstr m fmt [37, 100]" "33 \<le> unat z" "unat z + 32 < 4294967296"
    and "fmt + 2 \<notin> blk buf (length (num_text 10 True 0 n))" "m (buf + of_nat (length (num_text 10 True 0 n))) = 0"
  shows "\<exists>m' k. snprintf m buf z fmt [n] = Some (m', k) \<and> strtol m' buf 10 = Some (n, buf + k)"
proof -
  let ?t = "num_text 10 True 0 n" and ?u = "unat (if n <s 0 then - n else n)"
  note t = num_text_decimal [of n]
  have "cstr (mwrite m buf ?t) buf ?t" using t assms(5) by (intro cstr_mwrite) auto
  note rd = strto_signed_value [OF decimal_numeral_text [OF this], where 'a = 32]
  have len: "length ?t = length (if n <s 0 then [45 :: u8] else []) + length (num_chars 10 ?u)"
    by (simp add: num_text_def Let_def)
  have val: "digits_val 10 0 (digs 10 ?u) = ?u" by (rule digs_value) simp
  have s: "- (2 ^ 31) \<le> sint n" "sint n < 2 ^ 31" using sint_range_size [of n] by (simp_all add: word_size)
  have rng: "?u \<le> 2 ^ 31" if "n <s 0"
  proof -
    have "int ?u \<le> int (2 ^ 31)" using unat_magnitude(1) [OF that] s that by simp
    then show ?thesis by (simp only: of_nat_le_iff)
  qed
  have rng': "?u < 2 ^ 31" if "\<not> n <s 0"
  proof -
    have "int ?u < int (2 ^ 31)" using unat_magnitude(2) [OF that] s that by simp
    then show ?thesis by (simp only: of_nat_less_iff)
  qed
  have "strtol (mwrite m buf ?t) buf 10 = Some (n, buf + of_nat (length ?t))"
    unfolding strtol_def len using rd rng rng' unfolding val by (cases "n <s 0") simp_all
  then show ?thesis using snprintf_decimal [OF assms(1-4)] by blast
qed

theorem print_parse_roundtrip_witness:
  "\<exists>m' k. snprintf ((\<lambda>_. 0)(16 := 37, 17 := 100)) 64 4095 16 [- 7] = Some (m', k) \<and> strtol m' 64 10 = Some (- 7, 64 + k)"
proof -
  have t: "num_text 10 True 0 (- 7) = [45, 55]"
    by (simp add: num_text_def num_chars_def digs_step digits_list word_sless_alt)
  show ?thesis
    by (rule print_parse_roundtrip) (simp_all add: t in_blk_iff)
qed

text \<open>
  A format without specifiers that lies away from the buffer is copied, cut to the size of the
  buffer; nothing past the size is written and no NUL is added.
\<close>

theorem vsnprintf_text:
  assumes "cstr m fmt xs" "37 \<notin> set xs" "length xs < 4294967295"
    and "\<And>k. k < unat z \<Longrightarrow> buf + of_nat k \<notin> blk fmt (Suc (length xs))"
  shows "vsnprintf m buf z fmt ap =
     Some (mwrite m buf (take (unat z) xs), of_nat (min (unat z) (length xs)))"
  using vsnprintf_plain [OF assms(1,2) _ assms(3,4), where c = 0 and ap = ap and pad = 0] assms(3) by (simp add: vsnprintf_def min.commute)

theorem vsnprintf_text_witness:
  "vsnprintf ((\<lambda>_. 0)(16 := 72, 17 := 105)) 64 1 16 [] = Some (((\<lambda>_. 0)(16 := 72, 17 := 105))(64 := 72), 1)"
  using vsnprintf_text [where m = "(\<lambda>_. 0)(16 := 72, 17 := 105)" and fmt = 16 and xs = "[72, 105]" and z = 1 and buf = 64 and ap = "[]"]
  by (simp add: in_blk_iff)

end
