(* ===== verification/Print_Format.thy ===== *)
theory Print_Format
  imports Print
begin

text \<open>
  What \<^verbatim>\<open>vsnprintf\<close> prints.  The reference \<open>expand\<close> turns a format and its arguments into the text they stand
  for, with no buffer and no pointer; the main lemma shows that \<^verbatim>\<open>vsnprintf\<close> writes exactly that text
  whenever it fits.  The strings that \<^verbatim>\<open>%s\<close> may name are given by a map from addresses to contents.
\<close>

unbundle bit_operations_syntax

section \<open>The text of a format\<close>

definition spec_text :: "(ptr \<rightharpoonup> u8 list) \<Rightarrow> int \<Rightarrow> u8 \<Rightarrow> u32 list \<Rightarrow> (u8 list \<times> u32 list) option" where
  "spec_text strs padding c ap =
     (if c = 37 then Some ([37], ap)
      else do {
        (i, ap') \<leftarrow> va_arg ap;
        t \<leftarrow> (if c = 99 then Some [ucast i]
              else if c = 115 then strs i
              else if c = 120 then Some (num_text 16 False padding i)
              else if c = 112 then Some ([48, 120] @ num_text 16 False padding i)
              else if c = 98 then Some (num_text 2 False padding i)
              else if c = 100 then Some (num_text 10 True padding i)
              else if c = 117 then Some (num_text 10 False padding i)
              else None);
        Some (t, ap') })"

definition is_pad :: "u8 \<Rightarrow> bool" where
  "is_pad d \<longleftrightarrow> sint d \<ge> 48 \<and> sint d \<le> 57"

text \<open>\<open>None\<close> for a format the reference does not cover: an unknown specifier or a missing argument.\<close>

fun expand :: "(ptr \<rightharpoonup> u8 list) \<Rightarrow> int \<Rightarrow> u8 list \<Rightarrow> u32 list \<Rightarrow> u8 list option" where
  "expand strs padding [] ap = Some []"
| "expand strs padding [x] ap = (if x = 37 then None else Some [x])"
| "expand strs padding (x # d # ys) ap =
     (if x \<noteq> 37 then do { r \<leftarrow> expand strs padding (d # ys) ap; Some (x # r) }
      else if is_pad d then
        (case ys of
           [] \<Rightarrow> None
         | c # zs \<Rightarrow> do { (t, ap') \<leftarrow> spec_text strs (sint d - 48) c ap;
                         r \<leftarrow> expand strs (sint d - 48) zs ap';
                         Some (t @ r) })
      else do { (t, ap') \<leftarrow> spec_text strs padding d ap;
                r \<leftarrow> expand strs padding ys ap';
                Some (t @ r) })"

section \<open>Writes inside the buffer\<close>

text \<open>The strings of \<open>strs\<close> stand in memory, away from the buffer.\<close>

definition strs_ok :: "(ptr \<rightharpoonup> u8 list) \<Rightarrow> mem \<Rightarrow> ptr \<Rightarrow> u32 \<Rightarrow> bool" where
  "strs_ok strs m buf z \<longleftrightarrow>
     (\<forall>p xs. strs p = Some xs \<longrightarrow> cstr m p xs \<and> length xs < 4294967295 \<and> blk p (Suc (length xs)) \<inter> blk buf (unat z) = {})"

lemma mwrite_frame:
  assumes "unat c + length t \<le> unat (z :: u32)" "a \<notin> blk buf (unat z)"
  shows "mwrite m (buf + c) t a = m a"
proof -
  have "blk (buf + of_nat (unat c)) (length t) \<subseteq> blk buf (unat z)"
    using assms(1) unat_u32_less [of z] by (intro blk_subset) simp_all
  then show ?thesis using assms unat_u32_less [of z] by (auto simp: mwrite_eq)
qed

lemma cstr_mwrite_apart:
  assumes "cstr m p xs" "blk p (Suc (length xs)) \<inter> blk buf (unat (z :: u32)) = {}" "length xs < 4294967295"
    "unat c + length t \<le> unat z"
  shows "cstr (mwrite m (buf + c) t) p xs"
proof -
  have "cstr (mwrite m (buf + c) t) p xs = cstr m p xs"
    using assms by (intro cstr_cong mwrite_frame [of c t z]) auto
  then show ?thesis using assms(1) by simp
qed

lemma strs_ok_mwrite:
  "strs_ok strs m buf z \<Longrightarrow> unat c + length t \<le> unat z \<Longrightarrow> strs_ok strs (mwrite m (buf + c) t) buf z"
  unfolding strs_ok_def by (metis cstr_mwrite_apart)

lemma unat_add_le:
  assumes "unat (c :: u32) + n \<le> unat (z :: u32)"
  shows "unat (c + of_nat n) = unat c + n"
  using assms unat_u32_less [of z] by (intro unat_add_of_nat) simp

lemma blk_tail: "Suc n < 4294967296 \<Longrightarrow> blk (p + 1) (Suc n) \<subseteq> blk p (Suc (Suc n))"
  using blk_subset [of 1 "Suc n" "Suc (Suc n)" p] by simp

lemma cstr_ConsD:
  assumes "cstr m p (x # xs)" "length (x # xs) < 4294967295" "blk p (Suc (length (x # xs))) \<inter> B = {}"
  shows "m p = x" "x \<noteq> 0" "cstr m (p + 1) xs" "length xs < 4294967295" "blk (p + 1) (Suc (length xs)) \<inter> B = {}"
  using assms blk_tail [of "length xs" p] by auto

lemma vsnprintf_str_writes:
  assumes "cstr m s xs" "length xs < 4294967295" "blk s (Suc (length xs)) \<inter> blk buf (unat z) = {}" "unat c + length xs \<le> unat z"
  shows "vsnprintf_str m buf z s c = Some (mwrite m (buf + c) xs, c + of_nat (length xs))"
  using assms
proof (induction xs arbitrary: m s c)
  case Nil
  then show ?case by (subst vsnprintf_str.simps) simp
next
  case (Cons x xs)
  note x = cstr_ConsD [OF Cons.prems(1-3)]
  have c1: "unat (c + 1) = Suc (unat c)" using unat_add_le [of c 1 z] Cons.prems(4) by simp
  have cs: "cstr (m(buf + c := x)) (s + 1) xs"
    using cstr_mwrite_apart [OF x(3,5,4), of c "[x]"] Cons.prems(4) by (simp del: fun_upd_apply)
  have "vsnprintf_str (m(buf + c := x)) buf z (s + 1) (c + 1) =
      Some (mwrite (m(buf + c := x)) (buf + (c + 1)) xs, c + 1 + of_nat (length xs))"
    by (rule Cons.IH [OF cs x(4,5)]) (use Cons.prems(4) c1 in simp)
  moreover have "c < z" using Cons.prems(4) by (simp add: word_less_nat_alt)
  ultimately show ?case using x(1,2) by (subst vsnprintf_str.simps) (simp add: add.assoc)
qed

section \<open>One conversion\<close>

lemma length_num_text: "0 < length (num_text b sg pad n)" "sg \<and> n <s 0 \<Longrightarrow> 1 < length (num_text b sg pad n)"
  by (simp_all add: num_text_def Let_def num_chars_def)

lemma snprintnum_fits:
  assumes "2 \<le> base" "base \<le> 16" "unat c + length (num_text (unat base) sg pad n) \<le> unat z" "unat z + 32 < 4294967296"
  shows "snprintnum m (buf + c) (z - c) n base sg pad =
    Some (mwrite m (buf + c) (num_text (unat base) sg pad n), of_nat (length (num_text (unat base) sg pad n)))"
proof -
  have zc: "unat (z - c) = unat z - unat c" using assms(3) by (intro unat_sub_no_wrap) simp
  let ?t = "num_text (unat base) sg pad n"
  have full: "take (unat (z - c)) ?t = ?t" using assms(3) zc by simp
  have l: "0 < length ?t" "sg \<and> n <s 0 \<Longrightarrow> 1 < length ?t" by (rule length_num_text)+
  have "0 < unat (z - c)" "unat (z - c) + 32 < 4294967296" "sg \<and> n <s 0 \<longrightarrow> 1 < unat (z - c) \<or> pad \<le> int (length (num_chars (unat base) (unat (- n))))"
    unfolding zc using assms(3,4) l by linarith+
  from snprintnum_writes [OF assms(1,2) this, of m "buf + c"] show ?thesis unfolding full .
qed

lemma vsnprintf_spec_writes:
  assumes "spec_text strs pad ch ap = Some (t, ap')" "strs_ok strs m buf z" "unat c + length t \<le> unat z" "c < z"
    and "unat z + 32 < 4294967296"
  shows "vsnprintf_spec m buf z ap c pad ch = Some (Some (mwrite m (buf + c) t, c + of_nat (length t), ap'))"
proof (cases "ch = 37")
  case True
  then show ?thesis using assms(1) by (auto simp: spec_text_def vsnprintf_spec_def)
next
  case False
  then obtain i where i: "ap = i # ap'"
    using assms(1) by (auto simp: spec_text_def va_arg_def bind_eq_Some_conv split: list.splits)
  have num: "vsnprintf_num m buf z ap c base sg pad = Some (mwrite m (buf + c) t, c + of_nat (length t), ap')"
    if "2 \<le> base" "base \<le> 16" "t = num_text (unat base) sg pad i" for base sg
    using snprintnum_fits [OF that(1,2), of c sg pad i z m buf] that(3) assms(3,5) by (simp add: vsnprintf_num_def va_arg_def i)
  consider "ch = 99" | "ch = 115" | "ch = 120" | "ch = 112" | "ch = 98" | "ch = 100" | "ch = 117"
    using assms(1) False by (auto simp: spec_text_def i va_arg_def split: if_splits)
  then show ?thesis
  proof cases
    case 1
    then show ?thesis using assms(1) by (auto simp: spec_text_def vsnprintf_spec_def i va_arg_def)
  next
    case 2
    then have "strs i = Some t" using assms(1) by (auto simp: spec_text_def i va_arg_def bind_eq_Some_conv)
    with assms(2) have "vsnprintf_str m buf z i c = Some (mwrite m (buf + c) t, c + of_nat (length t))"
      unfolding strs_ok_def by (intro vsnprintf_str_writes assms(3)) blast+
    then show ?thesis using 2 by (simp add: vsnprintf_spec_def i va_arg_def)
  next
    case 4
    let ?n = "num_text 16 False pad i"
    have t: "t = [48, 120] @ ?n" using 4 assms(1) by (simp add: spec_text_def i va_arg_def)
    have l: "unat (c + 2) + length ?n \<le> unat z" "unat (z - c) > 2" "unat (c + 2) = unat c + 2"
    proof -
      have "unat c + 2 + length ?n \<le> unat z" "0 < length ?n" using assms(3) length_num_text(1) unfolding t by simp_all
      moreover from this have "unat (c + 2) = unat c + 2" "unat (z - c) = unat z - unat c"
        using unat_add_le [of c 2 z] unat_sub_no_wrap [of c z] by simp_all
      ultimately show "unat (c + 2) + length ?n \<le> unat z" "unat (z - c) > 2" "unat (c + 2) = unat c + 2" by linarith+
    qed
    have "snprintnum m1 (buf + (c + 2)) (z - (c + 2)) i 16 False pad = Some (mwrite m1 (buf + (c + 2)) ?n, of_nat (length ?n))" for m1
      using snprintnum_fits [of 16 "c + 2" False pad i z m1 buf] l(1) assms(5) by simp
    moreover have "z - c > 2" using l(2) by (simp add: word_less_nat_alt)
    ultimately show ?thesis using 4 by (simp add: vsnprintf_spec_def i va_arg_def t add.assoc)
  next
    case 3
    then show ?thesis using num [of 16 False] assms(1) by (simp add: spec_text_def vsnprintf_spec_def i va_arg_def)
  next
    case 5
    then show ?thesis using num [of 2 False] assms(1) by (simp add: spec_text_def vsnprintf_spec_def i va_arg_def)
  next
    case 6
    then show ?thesis using num [of 10 True] assms(1) by (simp add: spec_text_def vsnprintf_spec_def i va_arg_def)
  next
    case 7
    then show ?thesis using num [of 10 False] assms(1) by (simp add: spec_text_def vsnprintf_spec_def i va_arg_def)
  qed
qed

section \<open>The whole format\<close>

lemma vsnprintf_loop_expand:
  assumes "strs_ok strs m buf z" "cstr m fmt xs" "length xs < 4294967295" "blk fmt (Suc (length xs)) \<inter> blk buf (unat z) = {}"
    and "expand strs pad xs ap = Some t" "unat c + length t \<le> unat z" "unat z + 32 < 4294967296"
  shows "vsnprintf_loop m buf z fmt ap c pad = Some (mwrite m (buf + c) t, c + of_nat (length t))"
  using assms
proof (induction strs pad xs ap arbitrary: m fmt c t rule: expand.induct)
  case (1 strs pad ap)
  then show ?case by (subst vsnprintf_loop.simps) simp
next
  case (2 strs pad x ap)
  note x = cstr_ConsD [OF "2.prems"(2-4)]
  have t: "t = [x]" "x \<noteq> 37" using "2.prems"(5) by (simp_all split: if_splits)
  have c: "c < z" using "2.prems"(6) by (simp add: t word_less_nat_alt)
  have "vsnprintf_loop (m(buf + c := x)) buf z (fmt + 1) ap (c + 1) pad = Some (m(buf + c := x), c + 1)"
    using cstr_mwrite_apart [OF x(3,5,4), of c "[x]"] "2.prems"(6) t by (subst vsnprintf_loop.simps) simp
  then show ?case using x(1,2) t c by (subst vsnprintf_loop.simps) simp
next
  case (3 strs pad x d ys ap)
  note x = cstr_ConsD [OF "3.prems"(2-4)] and d = cstr_ConsD [OF cstr_ConsD(3-5) [OF "3.prems"(2-4)]]
  show ?case
  proof (cases "c < z")
    case False
    then have "length t = 0" using "3.prems"(6) unfolding word_less_nat_alt by linarith
    then have "t = []" by simp
    then show ?thesis using False by (subst vsnprintf_loop.simps) simp
  next
    case c: True
    consider (plain) "x \<noteq> 37" | (pad) e zs where "x = 37" "is_pad d" "ys = e # zs" | (spec) "x = 37" "\<not> is_pad d"
      using "3.prems"(5) by (auto split: list.splits if_splits)
    then show ?thesis
    proof cases
      case plain
      then obtain r where r: "expand strs pad (d # ys) ap = Some r" "t = x # r"
        using "3.prems"(5) by (auto simp: bind_eq_Some_conv)
      have c1: "unat (c + 1) = Suc (unat c)" using unat_add_le [of c 1 z] "3.prems"(6) by (simp add: r)
      have m1: "cstr (m(buf + c := x)) (fmt + 1) (d # ys)" "strs_ok strs (m(buf + c := x)) buf z"
        using cstr_mwrite_apart [OF x(3,5,4), of c "[x]"] strs_ok_mwrite [OF "3.prems"(1), of c "[x]"] "3.prems"(6)
        by (simp_all add: r del: fun_upd_apply cstr.simps)
      have "vsnprintf_loop (m(buf + c := x)) buf z (fmt + 1) ap (c + 1) pad =
          Some (mwrite (m(buf + c := x)) (buf + (c + 1)) r, c + 1 + of_nat (length r))"
        by (rule "3.IH"(1) [OF plain m1(2,1) x(4,5) r(1) _ "3.prems"(7)]) (use "3.prems"(6) c1 in \<open>simp add: r\<close>)
      then show ?thesis using x(1,2) plain c r(2) by (subst vsnprintf_loop.simps) (simp add: add.assoc)
    next
      case pad
      note e = cstr_ConsD [OF d(3-5) [unfolded pad(3)]]
      obtain t1 ap' r where r: "spec_text strs (sint d - 48) e ap = Some (t1, ap')" "expand strs (sint d - 48) zs ap' = Some r" "t = t1 @ r"
        using "3.prems"(5) pad by (auto simp: bind_eq_Some_conv)
      have l1: "unat c + length t1 \<le> unat z" using "3.prems"(6) r(3) by simp
      note w = vsnprintf_spec_writes [OF r(1) "3.prems"(1) l1 c "3.prems"(7)]
      have "vsnprintf_loop (mwrite m (buf + c) t1) buf z (fmt + 1 + 1 + 1) ap' (c + of_nat (length t1)) (sint d - 48) =
          Some (mwrite (mwrite m (buf + c) t1) (buf + (c + of_nat (length t1))) r, c + of_nat (length t1) + of_nat (length r))"
        by (rule "3.IH"(2) [OF _ pad(2,3) r(1) refl strs_ok_mwrite [OF "3.prems"(1) l1] cstr_mwrite_apart [OF e(3,5,4) l1] e(4,5) r(2) _ "3.prems"(7)])
          (use pad(1) unat_add_le [OF l1] "3.prems"(6) r(3) in simp_all)
      then show ?thesis
        using x(1,2) d(1,2) e(1,2) c pad w r(3) by (subst vsnprintf_loop.simps) (simp add: is_pad_def add.assoc mwrite_append)
    next
      case spec
      then obtain t1 ap' r where r: "spec_text strs pad d ap = Some (t1, ap')" "expand strs pad ys ap' = Some r" "t = t1 @ r"
        using "3.prems"(5) by (auto simp: bind_eq_Some_conv)
      have l1: "unat c + length t1 \<le> unat z" using "3.prems"(6) r(3) by simp
      note w = vsnprintf_spec_writes [OF r(1) "3.prems"(1) l1 c "3.prems"(7)]
      have "vsnprintf_loop (mwrite m (buf + c) t1) buf z (fmt + 1 + 1) ap' (c + of_nat (length t1)) pad =
          Some (mwrite (mwrite m (buf + c) t1) (buf + (c + of_nat (length t1))) r, c + of_nat (length t1) + of_nat (length r))"
        by (rule "3.IH"(3) [OF _ spec(2) r(1) refl strs_ok_mwrite [OF "3.prems"(1) l1] cstr_mwrite_apart [OF d(3,5,4) l1] d(4,5) r(2) _ "3.prems"(7)])
          (use spec(1) unat_add_le [OF l1] "3.prems"(6) r(3) in simp_all)
      moreover have "(48 \<le> sint d \<and> sint d \<le> 57) = False" using spec(2) unfolding is_pad_def by blast
      ultimately show ?thesis
        using x(1,2) d(1,2) c spec(1) w r(3) by (subst vsnprintf_loop.simps) (simp only: Let_def if_False, simp add: add.assoc mwrite_append)
    qed
  qed
qed

section \<open>Correctness properties\<close>

text \<open>
  C13: \<^verbatim>\<open>vsnprintf\<close> implements its reference.  If the format stands in memory away from the buffer, so do the
  strings its \<^verbatim>\<open>%s\<close> may read, and the text the format and arguments stand for fits the size, then the call returns,
  writes exactly that text at the buffer, changes nothing else and returns its length.
\<close>

theorem vsnprintf_correct:
  assumes "strs_ok strs m buf z" "cstr m fmt xs" "length xs < 4294967295" "blk fmt (Suc (length xs)) \<inter> blk buf (unat z) = {}"
    and "expand strs 0 xs ap = Some t" "length t \<le> unat z" "unat z + 32 < 4294967296"
  shows "vsnprintf m buf z fmt ap = Some (mwrite m buf t, of_nat (length t))"
  using vsnprintf_loop_expand [OF assms(1-5), of 0] assms(6,7) by (simp add: vsnprintf_def)

theorem vsnprintf_correct_witness:
  "vsnprintf ((\<lambda>_. 0)(16 := 37, 17 := 115, 18 := 58, 19 := 37, 20 := 52, 21 := 120, 32 := 104, 33 := 105)) 64 100 16 [32, 0xAB]
   = Some (mwrite ((\<lambda>_. 0)(16 := 37, 17 := 115, 18 := 58, 19 := 37, 20 := 52, 21 := 120, 32 := 104, 33 := 105)) 64 [104, 105, 58, 48, 48, 97, 98], 7)"
proof -
  let ?m = "(\<lambda>_. 0)(16 := 37, 17 := 115, 18 := 58, 19 := 37, 20 := 52, 21 := 120, 32 := 104, 33 := 105) :: mem"
  let ?s = "[32 \<mapsto> [104, 105]] :: ptr \<rightharpoonup> u8 list"
  have b: "blk (p :: ptr) n \<inter> blk 64 100 = {}" if "unat p + n \<le> 64" for p n using blk_apart [of p n 64 100] that by simp
  have "num_text 16 False 4 0xAB = [48, 48, 97, 98]"
    by (simp add: num_text_def num_chars_def digs_step digits_list) (simp add: numeral_2_eq_2)
  then have "expand ?s 0 [37, 115, 58, 37, 52, 120] [32, 0xAB] = Some [104, 105, 58, 48, 48, 97, 98]"
    by (simp add: spec_text_def va_arg_def is_pad_def)
  moreover have "strs_ok ?s ?m 64 100" by (simp add: strs_ok_def b)
  ultimately show ?thesis
    using vsnprintf_correct [of ?s ?m 64 100 16 "[37, 115, 58, 37, 52, 120]" "[32, 0xAB]" "[104, 105, 58, 48, 48, 97, 98]"]
    by (simp add: b del: mwrite.simps)
qed

end
