(* ===== verification/Port.thy ===== *)
theory Port
  imports Kfs_Prelude
begin

text \<open>
  Port input and output, \<^verbatim>\<open>src/kernel/port.c\<close>.  The four functions wrap one machine instruction
  each; what a device answers is a parameter \<open>dev\<close> of the model, a function of the accesses made so
  far.  The state is the trace of the accesses, in order.
\<close>

datatype port_event = In8 u16 u8 | In16 u16 u16 | Out8 u16 u8 | Out16 u16 u16

type_synonym ports = "port_event list"
type_synonym device = "ports \<Rightarrow> u16 \<Rightarrow> u16"

definition port_read_u8 :: "device \<Rightarrow> u16 \<Rightarrow> ports \<Rightarrow> u8 \<times> ports" where
  "port_read_u8 dev port tr = (let val = ucast (dev tr port) in (val, tr @ [In8 port val]))"

definition port_read_u16 :: "device \<Rightarrow> u16 \<Rightarrow> ports \<Rightarrow> u16 \<times> ports" where
  "port_read_u16 dev port tr = (let val = dev tr port in (val, tr @ [In16 port val]))"

definition port_write_u8 :: "u16 \<Rightarrow> u8 \<Rightarrow> ports \<Rightarrow> ports" where
  "port_write_u8 port val tr = tr @ [Out8 port val]"

definition port_write_u16 :: "u16 \<Rightarrow> u16 \<Rightarrow> ports \<Rightarrow> ports" where
  "port_write_u16 port val tr = tr @ [Out16 port val]"

text \<open>The bytes written to a port, in order.\<close>

definition outs :: "u16 \<Rightarrow> ports \<Rightarrow> u8 list" where
  "outs p tr = List.map_filter (\<lambda>e. case e of Out8 q v \<Rightarrow> if q = p then Some v else None | _ \<Rightarrow> None) tr"

lemma outs_append [simp]: "outs p (xs @ ys) = outs p xs @ outs p ys"
  by (simp add: outs_def List.map_filter_def)

lemma outs_simps [simp]:
  "outs p [] = []" "outs p [Out8 q v] = (if q = p then [v] else [])" "outs p [In8 q v] = []"
  by (simp_all add: outs_def List.map_filter_def)

lemma ucast_u16_u8: "ucast (ucast (x :: u8) :: u16) = x"
  by (rule bit_word_eqI) (simp add: bit_simps)

end
