(* ===== verification/Screenbuf.thy ===== *)
theory Screenbuf
  imports Port Lib_Mem "HOL-Library.Signed_Division"
begin

text \<open>
  The screen buffers, \<^verbatim>\<open>src/kernel/screenbuf.c\<close>: 200 lines of 80 cells used as a ring, of which 25
  lines from \<^verbatim>\<open>viewport\<close> on are shown in the VGA memory.

  Pointers into \<^verbatim>\<open>buf\<close> are their offsets from \<^verbatim>\<open>sb->buf\<close> in cells, as integers, so that a pointer that
  leaves the array is visible; \<open>cells\<close> maps every offset to a cell, and a write outside 0 to 15999
  is a write outside the array.  The VGA memory is a map of the same kind.  The loops of
  \<^verbatim>\<open>sb_addline\<close> step by the size of the ring and do not end when it is 0, so they are partial.
\<close>

unbundle bit_operations_syntax

section \<open>Constants and state (screenbuf.h)\<close>

definition VGA_WIDTH :: int where "VGA_WIDTH = 80"
definition VGA_HEIGHT :: int where "VGA_HEIGHT = 25"
definition SB_HEIGHT :: int where "SB_HEIGHT = VGA_HEIGHT * 8"
definition TABSIZE :: u16 where "TABSIZE = 4"
definition SB_CURSOR_PORT1 :: u16 where "SB_CURSOR_PORT1 = 0x3D4"
definition SB_CURSOR_PORT2 :: u16 where "SB_CURSOR_PORT2 = 0x3D5"

datatype sb_color =
    SB_COLOR_BLACK | SB_COLOR_BLUE | SB_COLOR_GREEN | SB_COLOR_CYAN | SB_COLOR_RED | SB_COLOR_MAGENTA
  | SB_COLOR_BROWN | SB_COLOR_LIGHT_GREY | SB_COLOR_DARK_GREY | SB_COLOR_LIGHT_BLUE | SB_COLOR_LIGHT_GREEN
  | SB_COLOR_LIGHT_CYAN | SB_COLOR_LIGHT_RED | SB_COLOR_LIGHT_MAGENTA | SB_COLOR_LIGHT_BROWN | SB_COLOR_WHITE

primrec color_val :: "sb_color \<Rightarrow> u8" where
  "color_val SB_COLOR_BLACK = 0" | "color_val SB_COLOR_BLUE = 1" | "color_val SB_COLOR_GREEN = 2"
| "color_val SB_COLOR_CYAN = 3" | "color_val SB_COLOR_RED = 4" | "color_val SB_COLOR_MAGENTA = 5"
| "color_val SB_COLOR_BROWN = 6" | "color_val SB_COLOR_LIGHT_GREY = 7" | "color_val SB_COLOR_DARK_GREY = 8"
| "color_val SB_COLOR_LIGHT_BLUE = 9" | "color_val SB_COLOR_LIGHT_GREEN = 10" | "color_val SB_COLOR_LIGHT_CYAN = 11"
| "color_val SB_COLOR_LIGHT_RED = 12" | "color_val SB_COLOR_LIGHT_MAGENTA = 13" | "color_val SB_COLOR_LIGHT_BROWN = 14"
| "color_val SB_COLOR_WHITE = 15"

definition SB_DFL_COLOR :: u8 where
  "SB_DFL_COLOR = push_bit 4 (color_val SB_COLOR_BLACK) OR color_val SB_COLOR_WHITE"

definition SB_WHITESPACE :: u16 where "SB_WHITESPACE = push_bit 8 (ucast SB_DFL_COLOR)"

record screenbuf =
  top :: int
  viewport :: int
  endbuf :: int
  cursor :: int
  cursor_offset :: u16
  color :: u8
  loaded :: bool
  cells :: "int \<Rightarrow> u16"

text \<open>The hardware the buffers share: the VGA memory, in cells from \<^verbatim>\<open>0xB8000\<close>, and the ports.\<close>

record video =
  vga :: "int \<Rightarrow> u16"
  ports :: ports

section \<open>Operations (screenbuf.c)\<close>

definition abs_sb :: "int \<Rightarrow> int" where "abs_sb x = (if x < 0 then - x else x)"

definition cursor_enable :: "device \<Rightarrow> ports \<Rightarrow> ports" where
  "cursor_enable dev tr0 =
     (let tr1 = port_write_u8 SB_CURSOR_PORT1 0x0a tr0;
          (r1, tr2) = port_read_u8 dev SB_CURSOR_PORT2 tr1;
          cstart = r1 AND 0xc0;
          tr3 = port_write_u8 SB_CURSOR_PORT2 (cstart OR 0) tr2;
          tr4 = port_write_u8 SB_CURSOR_PORT1 0x0b tr3;
          (r2, tr5) = port_read_u8 dev SB_CURSOR_PORT2 tr4;
          cend = r2 AND 0xe0
      in port_write_u8 SB_CURSOR_PORT2 (cend OR 15) tr5)"

definition cursor_disable :: "ports \<Rightarrow> ports" where
  "cursor_disable tr = port_write_u8 SB_CURSOR_PORT2 0x20 (port_write_u8 SB_CURSOR_PORT1 0x0a tr)"

definition cursor_update_pos :: "device \<Rightarrow> u32 \<Rightarrow> ports \<Rightarrow> ports" where
  "cursor_update_pos dev pos tr =
     (if uint pos < VGA_WIDTH * SB_HEIGHT
      then port_write_u8 SB_CURSOR_PORT2 (ucast (drop_bit 8 pos AND 0xff))
            (port_write_u8 SB_CURSOR_PORT1 0x0e
              (port_write_u8 SB_CURSOR_PORT2 (ucast (pos AND 0xff))
                (port_write_u8 SB_CURSOR_PORT1 0x0f (cursor_enable dev tr))))
      else cursor_disable tr)"

fun sb_memset :: "(int \<Rightarrow> u16) \<Rightarrow> int \<Rightarrow> u16 \<Rightarrow> nat \<Rightarrow> int \<Rightarrow> u16" where
  "sb_memset b p w 0 = b"
| "sb_memset b p w (Suc n) = sb_memset (b(p := w)) (p + 1) w n"

definition sb_diff :: "screenbuf \<Rightarrow> int \<Rightarrow> int \<Rightarrow> int" where
  "sb_diff s a b = (if a \<le> b then b - a else (endbuf s - a) + (b - 0))"

definition sb_ldiff :: "screenbuf \<Rightarrow> int \<Rightarrow> int \<Rightarrow> int" where
  "sb_ldiff s a b = sb_diff s a b sdiv VGA_WIDTH"

partial_function (option) sb_addline_down :: "int \<Rightarrow> int \<Rightarrow> int \<Rightarrow> int option" where
  "sb_addline_down e bufsize newpos =
     (if newpos \<ge> e then sb_addline_down e bufsize (newpos - bufsize) else Some newpos)"

partial_function (option) sb_addline_up :: "int \<Rightarrow> int \<Rightarrow> int option" where
  "sb_addline_up bufsize newpos =
     (if newpos < 0 then sb_addline_up bufsize (newpos + bufsize) else Some newpos)"

definition sb_addline :: "screenbuf \<Rightarrow> int \<Rightarrow> int \<Rightarrow> int option" where
  "sb_addline s a n =
     do { let bufsize = endbuf s - 0;
          newpos \<leftarrow> sb_addline_down (endbuf s) bufsize (a + n * VGA_WIDTH);
          sb_addline_up bufsize newpos }"

declare sb_addline_down.simps [code] sb_addline_up.simps [code]

definition sb_init :: "screenbuf \<Rightarrow> screenbuf" where
  "sb_init s =
     s\<lparr>top := 0, viewport := 0, cursor := 0, cursor_offset := 0,
       cells := sb_memset (sb_memset (cells s) 0 SB_WHITESPACE (nat (VGA_WIDTH * SB_HEIGHT)))
                  0 SB_WHITESPACE (nat (VGA_WIDTH * SB_HEIGHT)),
       color := SB_DFL_COLOR, endbuf := VGA_WIDTH * SB_HEIGHT, loaded := False\<rparr>"

text \<open>\<^verbatim>\<open>memcpy\<close> of \<open>n\<close> cells from the buffer to the VGA memory.\<close>

definition vga_copy :: "(int \<Rightarrow> u16) \<Rightarrow> int \<Rightarrow> (int \<Rightarrow> u16) \<Rightarrow> int \<Rightarrow> int \<Rightarrow> int \<Rightarrow> u16" where
  "vga_copy g dst b src n = (\<lambda>a. if dst \<le> a \<and> a < dst + n then b (src + (a - dst)) else g a)"

text \<open>\<^verbatim>\<open>for (uint16_t i = 0; i < VGA_HEIGHT; i++) memcpy(...)\<close>, from row \<open>i\<close> for \<open>k\<close> rows.\<close>

fun sb_sync_lines :: "screenbuf \<Rightarrow> int \<Rightarrow> nat \<Rightarrow> (int \<Rightarrow> u16) \<Rightarrow> (int \<Rightarrow> u16) option" where
  "sb_sync_lines s i 0 g = Some g"
| "sb_sync_lines s i (Suc k) g =
     do { p \<leftarrow> sb_addline s (viewport s) i;
          sb_sync_lines s (i + 1) k (vga_copy g (i * VGA_WIDTH) (cells s) p VGA_WIDTH) }"

definition sb_pos :: "screenbuf \<Rightarrow> u32" where
  "sb_pos s = of_int (sb_diff s (viewport s) (cursor s)) + ucast (cursor_offset s)"

definition sb_sync :: "device \<Rightarrow> screenbuf \<Rightarrow> video \<Rightarrow> video option" where
  "sb_sync dev s v =
     (if loaded s
      then do { g \<leftarrow> sb_sync_lines s 0 (nat VGA_HEIGHT) (vga v);
                Some (v\<lparr>vga := g, ports := cursor_update_pos dev (sb_pos s) (ports v)\<rparr>) }
      else Some v)"

definition sb_load :: "device \<Rightarrow> screenbuf \<Rightarrow> video \<Rightarrow> (screenbuf \<times> video) option" where
  "sb_load dev s v =
     do { let s1 = s\<lparr>loaded := True\<rparr>; v1 \<leftarrow> sb_sync dev s1 v; Some (s1, v1) }"

definition sb_unload :: "screenbuf \<Rightarrow> screenbuf" where "sb_unload s = s\<lparr>loaded := False\<rparr>"

definition sb_set_color :: "u8 \<Rightarrow> screenbuf \<Rightarrow> screenbuf" where "sb_set_color c s = s\<lparr>color := c\<rparr>"

definition sb_set_fg :: "u8 \<Rightarrow> screenbuf \<Rightarrow> screenbuf" where
  "sb_set_fg fg s = s\<lparr>color := (color s AND 0xf0) OR (fg AND 0x0f)\<rparr>"

definition sb_set_bg :: "u8 \<Rightarrow> screenbuf \<Rightarrow> screenbuf" where
  "sb_set_bg bg s = s\<lparr>color := (push_bit 4 bg AND 0xf0) OR (color s AND 0x0f)\<rparr>"

definition sb_get_color :: "screenbuf \<Rightarrow> u8" where "sb_get_color s = color s"

definition sb_scroll_top :: "device \<Rightarrow> screenbuf \<Rightarrow> video \<Rightarrow> (screenbuf \<times> video) option" where
  "sb_scroll_top dev s v =
     do { let s1 = s\<lparr>viewport := top s\<rparr>; v1 \<leftarrow> sb_sync dev s1 v; Some (s1, v1) }"

definition sb_scroll_down :: "device \<Rightarrow> screenbuf \<Rightarrow> video \<Rightarrow> (screenbuf \<times> video) option" where
  "sb_scroll_down dev s v =
     (if sb_ldiff s (viewport s) (cursor s) > VGA_HEIGHT
      then do { let s1 = s\<lparr>viewport := cursor s - VGA_WIDTH * (VGA_HEIGHT - 1)\<rparr>;
                v1 \<leftarrow> sb_sync dev s1 v; Some (s1, v1) }
      else Some (s, v))"

definition sb_scroll :: "device \<Rightarrow> int \<Rightarrow> screenbuf \<Rightarrow> video \<Rightarrow> (screenbuf \<times> video) option" where
  "sb_scroll dev n s v =
     (let lines_room = (if n < 0 then sb_ldiff s (top s) (viewport s)
                        else sb_ldiff s (viewport s) (cursor s) - (VGA_HEIGHT - 1))
      in if lines_room \<ge> abs_sb n
         then do { p \<leftarrow> sb_addline s (viewport s) n;
                   let s1 = s\<lparr>viewport := p\<rparr>;
                   v1 \<leftarrow> sb_sync dev s1 v; Some (s1, v1) }
         else if n < 0 then sb_scroll_top dev s v else sb_scroll_down dev s v)"

definition sb_write_word :: "u16 \<Rightarrow> screenbuf \<Rightarrow> video \<Rightarrow> screenbuf \<times> video" where
  "sb_write_word word s v =
     (let s1 = s\<lparr>cells := (cells s)(cursor s + uint (cursor_offset s) := word)\<rparr>;
          diff = sb_diff s1 (viewport s1) (cursor s1)
      in (s1, if loaded s1 \<and> diff sdiv VGA_WIDTH < VGA_HEIGHT
              then v\<lparr>vga := (vga v)(diff + uint (cursor_offset s1) := word)\<rparr> else v))"

text \<open>The move of the buffer top in \<^verbatim>\<open>sb_crlf\<close>, when the cursor line has caught up with it.\<close>

definition sb_crlf_top :: "device \<Rightarrow> screenbuf \<Rightarrow> video \<Rightarrow> (screenbuf \<times> video) option" where
  "sb_crlf_top dev s v =
     (if cursor s = top s
      then do { (s1, v1) \<leftarrow>
                  (if viewport s = top s
                   then do { p \<leftarrow> sb_addline s (top s) 1;
                             let s2 = s\<lparr>viewport := p\<rparr>;
                             v2 \<leftarrow> sb_sync dev s2 v; Some (s2, v2) }
                   else Some (s, v));
                t \<leftarrow> sb_addline s1 (top s1) 1;
                Some (s1\<lparr>top := t\<rparr>, v1) }
      else Some (s, v))"

definition sb_crlf :: "device \<Rightarrow> screenbuf \<Rightarrow> video \<Rightarrow> (screenbuf \<times> video) option" where
  "sb_crlf dev s v =
     do { c \<leftarrow> sb_addline s (cursor s) 1;
          let s1 = s\<lparr>cursor_offset := 0, cursor := c, cells := sb_memset (cells s) c SB_WHITESPACE (nat VGA_WIDTH)\<rparr>;
          (s2, v2) \<leftarrow> sb_crlf_top dev s1 v;
          if sb_ldiff s2 (viewport s2) (cursor s2) = VGA_HEIGHT then sb_scroll dev 1 s2 v2 else Some (s2, v2) }"

text \<open>\<^verbatim>\<open>while (offset < VGA_WIDTH && cursor[offset] != SB_WHITESPACE) offset++;\<close>\<close>

function sb_line_end :: "(int \<Rightarrow> u16) \<Rightarrow> int \<Rightarrow> u16 \<Rightarrow> u16" where
  "sb_line_end b c off =
     (if uint off < VGA_WIDTH \<and> b (c + uint off) \<noteq> SB_WHITESPACE then sb_line_end b c (off + 1) else off)"
  by pat_completeness auto
termination
proof (relation "measure (\<lambda>(b, c, off). nat (VGA_WIDTH - uint off))")
  fix b :: "int \<Rightarrow> u16" and c :: int and off :: u16
  assume "uint off < VGA_WIDTH \<and> b (c + uint off) \<noteq> SB_WHITESPACE"
  then have "uint off < 80" by (simp add: VGA_WIDTH_def)
  then have "uint (off + 1) = uint off + 1" by (simp add: uint_word_ariths)
  then show "((b, c, off + 1), b, c, off) \<in> measure (\<lambda>(b, c, off). nat (VGA_WIDTH - uint off))"
    using \<open>uint off < 80\<close> by (simp add: VGA_WIDTH_def)
qed simp

declare sb_line_end.simps [simp del]

definition sb_backspace :: "device \<Rightarrow> screenbuf \<Rightarrow> video \<Rightarrow> (screenbuf \<times> video) option" where
  "sb_backspace dev s v =
     (if cursor_offset s = 0 \<and> cursor s = top s then Some (s, v)
      else do {
        (s1, v1) \<leftarrow>
          (if cursor_offset s = 0
           then do { (s2, v2) \<leftarrow> (if viewport s = cursor s then sb_scroll dev (-1) s v else Some (s, v));
                     c \<leftarrow> sb_addline s2 (cursor s2) (-1);
                     Some (s2\<lparr>cursor := c, cursor_offset := sb_line_end (cells s2) c 0\<rparr>, v2) }
           else Some (s, v));
        Some (sb_write_word SB_WHITESPACE (s1\<lparr>cursor_offset := cursor_offset s1 - 1\<rparr>) v1) })"

partial_function (option) sb_tab_loop :: "screenbuf \<Rightarrow> video \<Rightarrow> (screenbuf \<times> video) option" where
  "sb_tab_loop s v =
     (let (s1, v1) = sb_write_word (push_bit 8 (ucast (color s)) OR 0) s v;
          s2 = s1\<lparr>cursor_offset := cursor_offset s1 + 1\<rparr>
      in if cursor_offset s2 mod TABSIZE \<noteq> 0 \<and> uint (cursor_offset s2) < VGA_WIDTH
         then sb_tab_loop s2 v1 else Some (s2, v1))"

declare sb_tab_loop.simps [code]

definition sb_tabulation :: "device \<Rightarrow> screenbuf \<Rightarrow> video \<Rightarrow> (screenbuf \<times> video) option" where
  "sb_tabulation dev s v =
     do { (s1, v1) \<leftarrow> sb_tab_loop s v;
          if uint (cursor_offset s1) = VGA_WIDTH then sb_crlf dev s1 v1 else Some (s1, v1) }"

definition sb_regular :: "device \<Rightarrow> u8 \<Rightarrow> screenbuf \<Rightarrow> video \<Rightarrow> (screenbuf \<times> video) option" where
  "sb_regular dev c s v =
     (let s1 = s\<lparr>cells := (cells s)(cursor s + uint (cursor_offset s) := scast c OR push_bit 8 (ucast (color s))),
                 cursor_offset := cursor_offset s + 1\<rparr>;
          diff = sb_diff s1 (viewport s1) (cursor s1);
          v1 = (if loaded s1
                then v\<lparr>vga := vga_copy (vga v) (diff + uint (cursor_offset s1) - 1)
                                (cells s1) (cursor s1 + uint (cursor_offset s1) - 1) 1\<rparr>
                else v)
      in if uint (cursor_offset s1) = VGA_WIDTH then sb_crlf dev s1 v1 else Some (s1, v1))"

definition sb_putchar :: "device \<Rightarrow> u8 \<Rightarrow> screenbuf \<Rightarrow> video \<Rightarrow> (screenbuf \<times> video) option" where
  "sb_putchar dev c s v =
     do { (s1, v1) \<leftarrow> (if c = 10 then sb_crlf dev s v
                       else if c = 9 then sb_tabulation dev s v
                       else if c = 8 then sb_backspace dev s v
                       else sb_regular dev c s v);
          Some (s1, v1\<lparr>ports := cursor_update_pos dev (sb_pos s1) (ports v1)\<rparr>) }"

partial_function (option) sb_putstr :: "device \<Rightarrow> mem \<Rightarrow> ptr \<Rightarrow> screenbuf \<Rightarrow> video \<Rightarrow> (screenbuf \<times> video) option" where
  "sb_putstr dev m p s v =
     (if m p \<noteq> 0
      then do { (s1, v1) \<leftarrow> sb_putchar dev (m p) s v; sb_putstr dev m (p + 1) s1 v1 }
      else Some (s, v))"

declare sb_putstr.simps [code]

definition sb_clear :: "device \<Rightarrow> screenbuf \<Rightarrow> video \<Rightarrow> (screenbuf \<times> video) option" where
  "sb_clear dev s v =
     do { let s1 = s\<lparr>top := 0, viewport := 0, cursor := 0, cursor_offset := 0,
                     cells := sb_memset (cells s) 0 SB_WHITESPACE (nat (VGA_WIDTH * SB_HEIGHT))\<rparr>;
          v1 \<leftarrow> sb_sync dev s1 v;
          Some (s1, v1) }"

section \<open>The ring of lines\<close>

named_theorems sb_consts \<open>the sizes of the screen and of the ring\<close>

lemmas sb_sizes [sb_consts] = VGA_WIDTH_def VGA_HEIGHT_def SB_HEIGHT_def

text \<open>Line \<open>k\<close> of the ring starts at cell \<open>80 * k\<close>; the distance between two lines going down.\<close>

definition rdist :: "int \<Rightarrow> int \<Rightarrow> int" where "rdist a b = (if a \<le> b then b - a else b - a + 200)"

definition radd :: "int \<Rightarrow> int \<Rightarrow> int" where "radd a n = (a + n) mod 200"

lemma radd_range: "0 \<le> radd a n" "radd a n < 200"
  by (simp_all add: radd_def)

lemma radd_1: "0 \<le> a \<Longrightarrow> a < 200 \<Longrightarrow> radd a 1 = (if a = 199 then 0 else a + 1)"
  by (auto simp: radd_def)

lemma radd_m1: "0 \<le> a \<Longrightarrow> a < 200 \<Longrightarrow> radd a (-1) = (if a = 0 then 199 else a - 1)"
  by (auto simp: radd_def zmod_minus1)

lemma sb_addline_down_ring:
  "0 \<le> k \<Longrightarrow> k < 400 \<Longrightarrow> sb_addline_down 16000 16000 (80 * k) = Some (if k < 200 then 80 * k else 80 * (k - 200))"
  by (subst sb_addline_down.simps, subst sb_addline_down.simps) (auto simp: algebra_simps)

lemma sb_addline_ring:
  assumes "endbuf s = 16000" "0 \<le> a" "a < 200" "- 200 < n" "n < 200"
  shows "sb_addline s (80 * a) n = Some (80 * radd a n)"
proof (cases "0 \<le> a + n")
  case True
  have "radd a n = (if a + n < 200 then a + n else a + n - 200)"
    using True assms mod_pos_pos_trivial [of "a + n - 200" 200] minus_mod_self2 [of "a + n" 200] by (auto simp: radd_def)
  then show ?thesis
    using sb_addline_down_ring [of "a + n"] True assms
    by (simp add: sb_addline_def VGA_WIDTH_def algebra_simps sb_addline_up.simps)
next
  case False
  have "radd a n = a + n + 200"
    using False assms mod_pos_pos_trivial [of "a + n + 200" 200] by (simp add: radd_def)
  then show ?thesis
    using False assms
    by (simp add: sb_addline_def VGA_WIDTH_def algebra_simps sb_addline_down.simps sb_addline_up.simps)
qed

lemma sb_diff_ring: "endbuf s = 16000 \<Longrightarrow> sb_diff s (80 * a) (80 * b) = 80 * rdist a b"
  by (auto simp: sb_diff_def rdist_def)

lemma rdist_range: "0 \<le> a \<Longrightarrow> a < 200 \<Longrightarrow> 0 \<le> b \<Longrightarrow> b < 200 \<Longrightarrow> 0 \<le> rdist a b \<and> rdist a b < 200"
  by (auto simp: rdist_def)

lemma sb_ldiff_ring:
  assumes "endbuf s = 16000" "0 \<le> a" "a < 200" "0 \<le> b" "b < 200"
  shows "sb_ldiff s (80 * a) (80 * b) = rdist a b"
  using rdist_range [of a b] assms 
  by (auto simp: sb_ldiff_def sb_diff_ring VGA_WIDTH_def signed_divide_int_def sgn_if)

text \<open>
  The invariant of an initialised buffer: the three pointers are lines of the ring, the viewport
  lies between the top and the cursor line, and the cursor column is inside the line.
\<close>

definition sb_at :: "int \<Rightarrow> int \<Rightarrow> int \<Rightarrow> screenbuf \<Rightarrow> bool" where
  "sb_at T V C s \<longleftrightarrow> endbuf s = 16000 \<and> top s = 80 * T \<and> viewport s = 80 * V \<and> cursor s = 80 * C
     \<and> T \<in> {0..<200} \<and> V \<in> {0..<200} \<and> C \<in> {0..<200} \<and> rdist T V \<le> rdist T C"

definition sb_inv :: "screenbuf \<Rightarrow> bool" where
  "sb_inv s \<longleftrightarrow> (\<exists>T V C. sb_at T V C s) \<and> uint (cursor_offset s) < 80"

text \<open>No cell outside the array changed.\<close>

definition inside :: "(int \<Rightarrow> u16) \<Rightarrow> (int \<Rightarrow> u16) \<Rightarrow> bool" where
  "inside f g \<longleftrightarrow> (\<forall>i. i < 0 \<or> 16000 \<le> i \<longrightarrow> g i = f i)"

lemma inside_refl [simp]: "inside f f"
  by (simp add: inside_def)

lemma inside_trans: "inside f g \<Longrightarrow> inside g h \<Longrightarrow> inside f h"
  by (simp add: inside_def)

lemma inside_upd: "inside f g \<Longrightarrow> 0 \<le> i \<Longrightarrow> i < 16000 \<Longrightarrow> inside f (g(i := x))"
  by (auto simp: inside_def)

lemma sb_memset_eq: "sb_memset b p w n = (\<lambda>i. if p \<le> i \<and> i < p + int n then w else b i)"
  by (induction n arbitrary: b p) (auto simp: fun_eq_iff)

lemma inside_memset: "inside f g \<Longrightarrow> 0 \<le> p \<Longrightarrow> p + int n \<le> 16000 \<Longrightarrow> inside f (sb_memset g p w n)"
  by (auto simp: inside_def sb_memset_eq)

text \<open>The window that the screen should show.\<close>

definition shows_window :: "screenbuf \<Rightarrow> (int \<Rightarrow> u16) \<Rightarrow> bool" where
  "shows_window s g \<longleftrightarrow>
     (\<forall>i \<in> {0..<25}. \<forall>k \<in> {0..<80}. g (80 * i + k) = cells s ((viewport s + 80 * i) mod 16000 + k))"

lemma sb_sync_lines_ring:
  assumes "endbuf s = 16000" "viewport s = 80 * V" "V \<in> {0..<200}" "0 \<le> i" "i + int k \<le> 200"
  shows "\<exists>g'. sb_sync_lines s i k g = Some g'
     \<and> (\<forall>j \<in> {i..<i + int k}. \<forall>c \<in> {0..<80}. g' (80 * j + c) = cells s (80 * radd V j + c))
     \<and> (\<forall>a. a < 80 * i \<or> 80 * (i + int k) \<le> a \<longrightarrow> g' a = g a)"
  using assms(4,5)
proof (induction k arbitrary: i g)
  case (Suc k)
  have p: "sb_addline s (viewport s) i = Some (80 * radd V i)"
    using assms(1-3) Suc.prems by (simp add: sb_addline_ring)
  let ?g = "vga_copy g (i * VGA_WIDTH) (cells s) (80 * radd V i) VGA_WIDTH"
  obtain g' where g': "sb_sync_lines s (i + 1) k ?g = Some g'"
      "\<forall>j \<in> {i + 1..<i + 1 + int k}. \<forall>c \<in> {0..<80}. g' (80 * j + c) = cells s (80 * radd V j + c)"
      "\<forall>a. a < 80 * (i + 1) \<or> 80 * (i + 1 + int k) \<le> a \<longrightarrow> g' a = ?g a"
    using Suc.IH [of "i + 1" ?g] Suc.prems by auto
  have row: "g' (80 * i + c) = cells s (80 * radd V i + c)" if "c \<in> {0..<80}" for c
    using g'(3) [rule_format, of "80 * i + c"] that by (simp add: vga_copy_def VGA_WIDTH_def)
  have "g' (80 * j + c) = cells s (80 * radd V j + c)" if "j \<in> {i..<i + int (Suc k)}" "c \<in> {0..<80}" for j c
    using g'(2) row that by (cases "j = i") auto
  moreover have "g' a = g a" if "a < 80 * i \<or> 80 * (i + int (Suc k)) \<le> a" for a
    using g'(3) [rule_format, of a] that by (auto simp: vga_copy_def VGA_WIDTH_def)
  ultimately show ?case using g'(1) p by auto
qed simp

lemma sb_sync_ring:
  assumes "endbuf s = 16000" "viewport s = 80 * V" "V \<in> {0..<200}"
  shows "\<exists>v'. sb_sync dev s v = Some v' \<and> inside (vga v) (vga v') \<and> (loaded s \<longrightarrow> shows_window s (vga v'))"
proof (cases "loaded s")
  case True
  obtain g where g: "sb_sync_lines s 0 25 (vga v) = Some g"
      "\<forall>j \<in> {0..<25}. \<forall>c \<in> {0..<80}. g (80 * j + c) = cells s (80 * radd V j + c)"
      "\<forall>a. a < 0 \<or> 2000 \<le> a \<longrightarrow> g a = vga v a"
    using sb_sync_lines_ring [OF assms, of 0 25 "vga v"] by auto
  have "(viewport s + 80 * i) mod 16000 = 80 * radd V i" for i
    using mult_mod_right [of 80 "V + i" 200] by (simp add: assms(2) radd_def algebra_simps)
  then have "shows_window s g" using g(2) by (simp add: shows_window_def)
  moreover have "inside (vga v) g" using g(3) by (auto simp: inside_def)
  ultimately show ?thesis using True g(1) by (simp add: sb_sync_def VGA_HEIGHT_def)
qed (simp add: sb_sync_def)

section \<open>The operations keep the invariant and stay inside the array\<close>

text \<open>What an operation has to give back: it returns, and nothing outside the two arrays changed.\<close>

definition sb_ok :: "screenbuf \<Rightarrow> video \<Rightarrow> (screenbuf \<times> video) option \<Rightarrow> (screenbuf \<Rightarrow> bool) \<Rightarrow> bool" where
  "sb_ok s v r P \<longleftrightarrow> (\<exists>s' v'. r = Some (s', v') \<and> P s' \<and> inside (cells s) (cells s') \<and> inside (vga v) (vga v'))"

lemma sb_okI: "r = Some (s', v') \<Longrightarrow> P s' \<Longrightarrow> inside (cells s) (cells s') \<Longrightarrow> inside (vga v) (vga v') \<Longrightarrow> sb_ok s v r P"
  by (auto simp: sb_ok_def)

lemma sb_ok_mono: "sb_ok s v r P \<Longrightarrow> (\<And>s'. P s' \<Longrightarrow> Q s') \<Longrightarrow> sb_ok s v r Q"
  by (auto simp: sb_ok_def)

text \<open>A change of the viewport followed by \<^verbatim>\<open>sb_sync\<close>.\<close>

lemma sync_viewport:
  assumes "endbuf s = 16000" "V \<in> {0..<200}"
  shows "\<exists>v'. sb_sync dev (s\<lparr>viewport := 80 * V\<rparr>) v = Some v' \<and> inside (vga v) (vga v')"
  using sb_sync_ring [of "s\<lparr>viewport := 80 * V\<rparr>" V dev v] assms by auto

lemma sb_scroll_one:
  assumes "sb_at T V C s" "rdist V C = 25"
  shows "sb_ok s v (sb_scroll dev 1 s v) (\<lambda>s'. s' = s\<lparr>viewport := 80 * radd V 1\<rparr>)"
proof -
  have a: "endbuf s = 16000" "viewport s = 80 * V" "cursor s = 80 * C" "V \<in> {0..<200}" "C \<in> {0..<200}"
    using assms(1) by (simp_all add: sb_at_def)
  have "sb_ldiff s (viewport s) (cursor s) = 25" using a assms(2) by (simp add: sb_ldiff_ring)
  moreover have "sb_addline s (viewport s) 1 = Some (80 * radd V 1)" using a by (simp add: sb_addline_ring)
  moreover obtain v' where "sb_sync dev (s\<lparr>viewport := 80 * radd V 1\<rparr>) v = Some v'" "inside (vga v) (vga v')"
    using sync_viewport [OF a(1), of "radd V 1" dev v] radd_range [of V 1] by auto
  ultimately show ?thesis
    by (intro sb_okI [of _ "s\<lparr>viewport := 80 * radd V 1\<rparr>" v']) (simp_all add: sb_scroll_def abs_sb_def VGA_HEIGHT_def)
qed

lemma ring_cases:
  assumes "T \<in> {0..<200}" "V \<in> {0..<200}" "C \<in> {0..<200}" "rdist T V \<le> rdist T C"
  defines "C' \<equiv> radd C 1"
  shows "C' \<noteq> T \<Longrightarrow> rdist T V \<le> rdist T C'"
    and "C' = T \<Longrightarrow> V \<noteq> T \<Longrightarrow> rdist (radd T 1) V \<le> rdist (radd T 1) C'"
    and "C' = T \<Longrightarrow> rdist (radd T 1) (radd T 1) \<le> rdist (radd T 1) C'"
    and "rdist T V \<le> rdist T C \<Longrightarrow> rdist V C = 25 \<Longrightarrow> rdist T (radd V 1) \<le> rdist T C"
    and "C' = T \<Longrightarrow> V = T \<Longrightarrow> rdist (radd T 1) C' = 199"
  using assms(1-4) by (auto simp: C'_def rdist_def radd_1 split: if_splits)

text \<open>The second half of \<^verbatim>\<open>sb_crlf\<close>: scroll by one line when the cursor left the screen.\<close>

lemma crlf_scroll:
  assumes "sb_at T V C s"
  shows "sb_ok s v (if sb_ldiff s (viewport s) (cursor s) = VGA_HEIGHT then sb_scroll dev 1 s v else Some (s, v))
           (\<lambda>s'. \<exists>V'. sb_at T V' C s' \<and> s' = s\<lparr>viewport := 80 * V'\<rparr>)"
proof -
  have a: "endbuf s = 16000" "viewport s = 80 * V" "cursor s = 80 * C" "V \<in> {0..<200}" "C \<in> {0..<200}" "T \<in> {0..<200}" "rdist T V \<le> rdist T C"
    using assms by (simp_all add: sb_at_def)
  have l: "sb_ldiff s (viewport s) (cursor s) = rdist V C" using a by (simp add: sb_ldiff_ring)
  show ?thesis
  proof (cases "rdist V C = 25")
    case True
    have "sb_at T (radd V 1) C (s\<lparr>viewport := 80 * radd V 1\<rparr>)"
      using assms ring_cases(4) [OF a(6,4,5,7,7) True] radd_range [of V 1] by (simp add: sb_at_def)
    then show ?thesis
      using sb_scroll_one [OF assms True, of v dev] True l by (auto simp: VGA_HEIGHT_def elim!: sb_ok_mono)
  next
    case False
    then show ?thesis using l assms a(2) by (intro sb_okI [of _ s v]) (auto simp: VGA_HEIGHT_def intro!: exI [of _ V])
  qed
qed

lemma sb_crlf_ok:
  assumes "\<exists>T V C. sb_at T V C s"
  shows "sb_ok s v (sb_crlf dev s v) (\<lambda>s'. sb_inv s' \<and> cursor_offset s' = 0 \<and> color s' = color s \<and> loaded s' = loaded s)"
proof -
  obtain T V C where at: "sb_at T V C s" using assms by blast
  then have a: "endbuf s = 16000" "top s = 80 * T" "viewport s = 80 * V" "cursor s = 80 * C"
      and r: "T \<in> {0..<200}" "V \<in> {0..<200}" "C \<in> {0..<200}" "rdist T V \<le> rdist T C"
    by (simp_all add: sb_at_def)
  define C' where "C' = radd C 1"
  note rc = ring_cases [OF r, folded C'_def]
  have C': "C' \<in> {0..<200}" using radd_range [of C 1] by (simp add: C'_def)
  have c: "sb_addline s (cursor s) 1 = Some (80 * C')" using a r by (simp add: sb_addline_ring C'_def)
  define s1 where "s1 = s\<lparr>cursor_offset := 0, cursor := 80 * C', cells := sb_memset (cells s) (80 * C') SB_WHITESPACE 80\<rparr>"
  have in1: "inside (cells s) (cells s1)" using C' by (simp add: s1_def inside_memset)
  have s1: "endbuf s1 = 16000" "top s1 = 80 * T" "viewport s1 = 80 * V" "cursor s1 = 80 * C'" by (simp_all add: s1_def a)
  obtain s2 v2 T2 V2 where mid: "sb_crlf_top dev s1 v = Some (s2, v2)"
      and at2: "sb_at T2 V2 C' s2" and in2: "inside (vga v) (vga v2)" "cells s2 = cells s1"
      and keep: "cursor_offset s2 = 0" "color s2 = color s" "loaded s2 = loaded s"
  proof (cases "C' = T")
    case False
    then have "sb_at T V C' s1" using s1 r C' rc(1) by (simp add: sb_at_def)
    then show ?thesis using False s1 by (intro that [of s1 v T V]) (auto simp: s1_def sb_crlf_top_def)
  next
    case True
    have t: "sb_addline s1 (top s1) 1 = Some (80 * radd T 1)" "radd T 1 \<in> {0..<200}"
      using s1 r radd_range [of T 1] by (simp_all add: sb_addline_ring)
    show ?thesis
    proof (cases "V = T")
      case VT: True
      obtain v4 where v4: "sb_sync dev (s1\<lparr>viewport := 80 * radd T 1\<rparr>) v = Some v4" "inside (vga v) (vga v4)"
        using sync_viewport [OF s1(1) t(2)] by blast
      let ?s2 = "s1\<lparr>viewport := 80 * radd T 1, top := 80 * radd T 1\<rparr>"
      have "sb_addline (s1\<lparr>viewport := 80 * radd T 1\<rparr>) (80 * T) 1 = Some (80 * radd T 1)"
        using s1 r by (simp add: sb_addline_ring)
      moreover have "sb_at (radd T 1) (radd T 1) C' ?s2" using s1 C' t(2) rc(3) True by (simp add: sb_at_def)
      ultimately show ?thesis
        using True VT s1 t v4 by (intro that [of ?s2 v4 "radd T 1" "radd T 1"]) (simp_all add: s1_def sb_crlf_top_def)
    next
      case VT: False
      let ?s2 = "s1\<lparr>top := 80 * radd T 1\<rparr>"
      have "sb_at (radd T 1) V C' ?s2" using s1 C' t(2) r rc(2) True VT by (simp add: sb_at_def)
      then show ?thesis
        using True VT s1 t by (intro that [of ?s2 v "radd T 1" V]) (simp_all add: s1_def sb_crlf_top_def)
    qed
  qed
  have eq: "sb_crlf dev s v = (if sb_ldiff s2 (viewport s2) (cursor s2) = VGA_HEIGHT then sb_scroll dev 1 s2 v2 else Some (s2, v2))"
    using mid by (simp add: sb_crlf_def c s1_def VGA_WIDTH_def Let_def)
  obtain s' v' V' where fin: "sb_crlf dev s v = Some (s', v')" "sb_at T2 V' C' s'" "s' = s2\<lparr>viewport := 80 * V'\<rparr>"
      "inside (cells s2) (cells s')" "inside (vga v2) (vga v')"
    using crlf_scroll [OF at2, of v2 dev] unfolding eq sb_ok_def by blast
  have "sb_inv s'" using fin(2,3) keep(1) unfolding sb_inv_def by auto
  moreover have "inside (vga v) (vga v')" using in2(1) fin(5) by (rule inside_trans)
  moreover have "inside (cells s) (cells s')" using in1 fin(3) in2(2) by simp
  ultimately show ?thesis using fin(1,3) keep by (intro sb_okI [of _ s' v']) simp_all
qed

lemma sb_write_word_ok:
  assumes "sb_at T V C s" "uint (cursor_offset s) < 80"
  shows "sb_ok s v (Some (sb_write_word w s v))
           (\<lambda>s'. s' = s\<lparr>cells := (cells s)(80 * C + uint (cursor_offset s) := w)\<rparr>)"
proof -
  have a: "endbuf s = 16000" "viewport s = 80 * V" "cursor s = 80 * C" "V \<in> {0..<200}" "C \<in> {0..<200}"
    using assms(1) by (simp_all add: sb_at_def)
  have d: "0 \<le> rdist V C" "rdist V C < 200" using a rdist_range [of V C] by auto
  show ?thesis
    using a d assms(2) uint_ge_0 [of "cursor_offset s"]
    by (auto simp: sb_ok_def sb_write_word_def Let_def sb_diff_ring sb_diff_def rdist_def intro!: inside_upd)
qed

lemma uint_inc_u16: "uint (x :: u16) < 65535 \<Longrightarrow> uint (x + 1) = uint x + 1"
  using uint_ge_0 [of x] by (simp add: uint_word_ariths)

lemma sb_at_update [simp]:
  "sb_at T V C (s\<lparr>cells := f\<rparr>) = sb_at T V C s" "sb_at T V C (s\<lparr>cursor_offset := k\<rparr>) = sb_at T V C s"
  "sb_at T V C (s\<lparr>color := c\<rparr>) = sb_at T V C s" "sb_at T V C (s\<lparr>loaded := l\<rparr>) = sb_at T V C s"
  by (simp_all add: sb_at_def)

lemma sb_regular_ok:
  assumes "sb_inv s"
  shows "sb_ok s v (sb_regular dev c s v) sb_inv"
proof -
  obtain T V C where at: "sb_at T V C s" and off: "uint (cursor_offset s) < 80" using assms by (auto simp: sb_inv_def)
  have a: "endbuf s = 16000" "viewport s = 80 * V" "cursor s = 80 * C" "V \<in> {0..<200}" "C \<in> {0..<200}"
    using at by (simp_all add: sb_at_def)
  have d: "0 \<le> rdist V C" "rdist V C < 200" using a rdist_range [of V C] by auto
  have inc: "uint (cursor_offset s + 1) = uint (cursor_offset s) + 1" using off by (simp add: uint_inc_u16)
  define s1 where "s1 = s\<lparr>cells := (cells s)(cursor s + uint (cursor_offset s) := scast c OR push_bit 8 (ucast (color s))),
                 cursor_offset := cursor_offset s + 1\<rparr>"
  define v1 where "v1 = (if loaded s1 then v\<lparr>vga := vga_copy (vga v) (sb_diff s1 (viewport s1) (cursor s1) + uint (cursor_offset s1) - 1)
                                (cells s1) (cursor s1 + uint (cursor_offset s1) - 1) 1\<rparr> else v)"
  have eq: "sb_regular dev c s v = (if uint (cursor_offset s1) = VGA_WIDTH then sb_crlf dev s1 v1 else Some (s1, v1))"
    by (simp add: sb_regular_def s1_def v1_def Let_def)
  have at1: "sb_at T V C s1" using at by (simp add: s1_def)
  have ic: "inside (cells s) (cells s1)" using a off uint_ge_0 [of "cursor_offset s"] by (auto simp: s1_def intro!: inside_upd)
  have "sb_diff s1 (viewport s1) (cursor s1) = 80 * rdist V C" using a by (simp add: s1_def sb_diff_ring)
  moreover have "0 \<le> 80 * rdist V C + uint (cursor_offset s)" "80 * rdist V C + uint (cursor_offset s) < 16000"
    using d off uint_ge_0 [of "cursor_offset s"] by linarith+
  ultimately have iv: "inside (vga v) (vga v1)"
    by (auto simp: v1_def s1_def inc inside_def vga_copy_def)
  show ?thesis
  proof (cases "uint (cursor_offset s1) = VGA_WIDTH")
    case True
    obtain s' v' where "sb_crlf dev s1 v1 = Some (s', v')" "sb_inv s'" "inside (cells s1) (cells s')" "inside (vga v1) (vga v')"
      using sb_crlf_ok [of s1 v1 dev] at1 unfolding sb_ok_def by blast
    then show ?thesis using True eq ic iv by (auto simp: sb_ok_def intro: inside_trans)
  next
    case False
    then have "uint (cursor_offset s1) < 80" using off by (simp add: s1_def inc VGA_WIDTH_def)
    then show ?thesis using False eq ic iv at1 by (auto simp: sb_ok_def sb_inv_def)
  qed
qed

text \<open>The tabulation loop stops at a multiple of 4 columns, at most at the end of the line.\<close>

lemma sb_tab_loop_ok:
  assumes "sb_at T V C s" "uint (cursor_offset s) < 80"
  shows "sb_ok s v (sb_tab_loop s v) (\<lambda>s'. sb_at T V C s' \<and> uint (cursor_offset s') \<le> 80)"
  using assms
proof (induction "nat (80 - uint (cursor_offset s))" arbitrary: s v rule: less_induct)
  case less
  let ?w = "push_bit 8 (ucast (color s)) OR 0 :: u16"
  define s1 where "s1 = s\<lparr>cells := (cells s)(80 * C + uint (cursor_offset s) := ?w)\<rparr>"
  obtain v1 where w: "sb_write_word ?w s v = (s1, v1)" and i1: "inside (cells s) (cells s1)" "inside (vga v) (vga v1)"
    using sb_write_word_ok [OF less.prems, of v ?w] unfolding sb_ok_def s1_def by auto
  define s2 where "s2 = s1\<lparr>cursor_offset := cursor_offset s1 + 1\<rparr>"
  have off: "uint (cursor_offset s2) = uint (cursor_offset s) + 1"
    using less.prems(2) by (simp add: s2_def s1_def uint_inc_u16)
  have at2: "sb_at T V C s2" using less.prems(1) by (simp add: s2_def s1_def)
  have eq: "sb_tab_loop s v = (if cursor_offset s2 mod TABSIZE \<noteq> 0 \<and> uint (cursor_offset s2) < VGA_WIDTH then sb_tab_loop s2 v1 else Some (s2, v1))"
    using w by (subst sb_tab_loop.simps) (simp add: s2_def Let_def)
  have c2: "cells s2 = cells s1" by (simp add: s2_def)
  show ?case
  proof (cases "cursor_offset s2 mod TABSIZE \<noteq> 0 \<and> uint (cursor_offset s2) < VGA_WIDTH")
    case True
    then have lt: "uint (cursor_offset s2) < 80" by (simp add: VGA_WIDTH_def)
    obtain s' v' where "sb_tab_loop s2 v1 = Some (s', v')" "sb_at T V C s'" "uint (cursor_offset s') \<le> 80"
        "inside (cells s2) (cells s')" "inside (vga v1) (vga v')"
      using less.hyps [of s2 v1] at2 lt off less.prems(2) unfolding sb_ok_def by auto
    then show ?thesis using True eq i1 c2 by (auto simp: sb_ok_def intro: inside_trans)
  next
    case False
    then have "sb_tab_loop s v = Some (s2, v1)" unfolding eq by (rule if_not_P)
    then show ?thesis using i1 c2 at2 off less.prems(2) by (intro sb_okI [of _ s2 v1]) simp_all
  qed
qed

lemma sb_tabulation_ok:
  assumes "sb_inv s"
  shows "sb_ok s v (sb_tabulation dev s v) sb_inv"
proof -
  obtain T V C where at: "sb_at T V C s" "uint (cursor_offset s) < 80" using assms by (auto simp: sb_inv_def)
  obtain s1 v1 where 1: "sb_tab_loop s v = Some (s1, v1)" "sb_at T V C s1" "uint (cursor_offset s1) \<le> 80"
      "inside (cells s) (cells s1)" "inside (vga v) (vga v1)"
    using sb_tab_loop_ok [OF at, of v] unfolding sb_ok_def by blast
  show ?thesis
  proof (cases "uint (cursor_offset s1) = VGA_WIDTH")
    case True
    obtain s' v' where "sb_crlf dev s1 v1 = Some (s', v')" "sb_inv s'" "inside (cells s1) (cells s')" "inside (vga v1) (vga v')"
      using sb_crlf_ok [of s1 v1 dev] 1(2) unfolding sb_ok_def by blast
    then show ?thesis using True 1 by (auto simp: sb_ok_def sb_tabulation_def intro: inside_trans)
  next
    case False
    then have "uint (cursor_offset s1) < 80" using 1(3) by (simp add: VGA_WIDTH_def)
    then show ?thesis using False 1 by (auto simp: sb_ok_def sb_tabulation_def sb_inv_def)
  qed
qed

text \<open>
  Scrolling up by one line, and \<^verbatim>\<open>sb_backspace\<close> where it has a character to erase: in the line of the
  cursor, or in a line above it that is not empty.
\<close>

lemma sb_scroll_up_ok:
  assumes "sb_at T V C s"
  shows "sb_ok s v (sb_scroll dev (-1) s v) (\<lambda>s'. \<exists>V'. s' = s\<lparr>viewport := 80 * V'\<rparr> \<and> sb_at T V' C s' \<and> (V' = (if V = T then T else radd V (-1))))"
proof -
  have a: "endbuf s = 16000" "top s = 80 * T" "viewport s = 80 * V" "cursor s = 80 * C"
    and r: "T \<in> {0..<200}" "V \<in> {0..<200}" "C \<in> {0..<200}" "rdist T V \<le> rdist T C"
    using assms by (simp_all add: sb_at_def)
  define V' where "V' = (if V = T then T else radd V (-1))"
  have V': "V' \<in> {0..<200}" using r radd_range [of V "-1"] by (auto simp: V'_def)
  obtain v' where v': "sb_sync dev (s\<lparr>viewport := 80 * V'\<rparr>) v = Some v'" "inside (vga v) (vga v')"
    using sync_viewport [OF a(1) V'] by blast
  have room: "sb_ldiff s (top s) (viewport s) = rdist T V" using a r by (simp add: sb_ldiff_ring)
  have ne: "1 \<le> rdist T V \<longleftrightarrow> V \<noteq> T" using r by (auto simp: rdist_def)
  have add: "sb_addline s (viewport s) (-1) = Some (80 * radd V (-1))" using a r by (simp add: sb_addline_ring)
  have "sb_scroll dev (-1) s v = Some (s\<lparr>viewport := 80 * V'\<rparr>, v')"
    using room ne add v' a by (auto simp: sb_scroll_def abs_sb_def V'_def sb_scroll_top_def Let_def)
  moreover have "sb_at T V' C (s\<lparr>viewport := 80 * V'\<rparr>)"
    using a r V' by (auto simp: sb_at_def V'_def radd_m1 rdist_def split: if_splits)
  ultimately show ?thesis using v' by (intro sb_okI [of _ "s\<lparr>viewport := 80 * V'\<rparr>" v']) (auto simp: V'_def)
qed

lemma sb_line_end_bounds: "uint off \<le> 80 \<Longrightarrow> uint off \<le> uint (sb_line_end b c off) \<and> uint (sb_line_end b c off) \<le> 80"
proof (induction b c off rule: sb_line_end.induct)
  case (1 b c off)
  show ?case
  proof (cases "uint off < VGA_WIDTH \<and> b (c + uint off) \<noteq> SB_WHITESPACE")
    case True
    have "uint (off + 1) = uint off + 1" using True by (simp add: uint_inc_u16 VGA_WIDTH_def)
    then show ?thesis using 1(1) [OF True] True by (subst (1 2) sb_line_end.simps) (simp add: VGA_WIDTH_def)
  next
    case False
    then show ?thesis using 1(2) by (subst (1 2) sb_line_end.simps) auto
  qed
qed

lemma sb_line_end_pos: "b c \<noteq> SB_WHITESPACE \<Longrightarrow> 0 < uint (sb_line_end b c 0)"
  using sb_line_end_bounds [of 1 b c] by (subst sb_line_end.simps) (simp add: VGA_WIDTH_def)

text \<open>When \<^verbatim>\<open>sb_backspace\<close> finds a character to erase.\<close>

definition erasable :: "screenbuf \<Rightarrow> bool" where
  "erasable s \<longleftrightarrow> cursor_offset s \<noteq> 0 \<or> cursor s = top s \<or> cells s ((cursor s - 80) mod 16000) \<noteq> SB_WHITESPACE"

lemma line_before:
  assumes "C \<in> {0..<200}"
  shows "(80 * C - 80) mod 16000 = 80 * radd C (-1)"
  using mult_mod_right [of 80 "C - 1" 200] by (simp add: radd_def algebra_simps)

lemma sb_backspace_line:
  assumes "sb_inv s" "cursor_offset s = 0" "cursor s \<noteq> top s"
  shows "\<exists>s1 v1 T V C. (do { (s2, v2) \<leftarrow> (if viewport s = cursor s then sb_scroll dev (-1) s v else Some (s, v));
                     c \<leftarrow> sb_addline s2 (cursor s2) (-1);
                     Some (s2\<lparr>cursor := c, cursor_offset := sb_line_end (cells s2) c 0\<rparr>, v2) }) = Some (s1, v1)
     \<and> sb_at T V C s1 \<and> cells s1 = cells s \<and> inside (vga v) (vga v1)
     \<and> cursor_offset s1 = sb_line_end (cells s) ((cursor s - 80) mod 16000) 0"
proof -
  obtain T V C where at: "sb_at T V C s" using assms(1) by (auto simp: sb_inv_def)
  have a: "endbuf s = 16000" "top s = 80 * T" "viewport s = 80 * V" "cursor s = 80 * C"
    and r: "T \<in> {0..<200}" "V \<in> {0..<200}" "C \<in> {0..<200}" "rdist T V \<le> rdist T C"
    using at by (simp_all add: sb_at_def)
  have CT: "C \<noteq> T" using assms(3) a by simp
  define V2 where "V2 = (if V = C then radd V (-1) else V)"
  obtain v2 where 2: "(if viewport s = cursor s then sb_scroll dev (-1) s v else Some (s, v)) = Some (s\<lparr>viewport := 80 * V2\<rparr>, v2)"
      "inside (vga v) (vga v2)"
  proof (cases "V = C")
    case True
    then show ?thesis
      using sb_scroll_up_ok [OF at, of v dev] CT a that unfolding sb_ok_def V2_def by auto
  next
    case False
    then show ?thesis using a that [of v] by (simp add: V2_def)
  qed
  let ?s2 = "s\<lparr>viewport := 80 * V2\<rparr>"
  have c: "sb_addline ?s2 (cursor ?s2) (-1) = Some (80 * radd C (-1))" using a r by (simp add: sb_addline_ring)
  let ?s1 = "?s2\<lparr>cursor := 80 * radd C (-1), cursor_offset := sb_line_end (cells s) (80 * radd C (-1)) 0\<rparr>"
  have "sb_at T V2 (radd C (-1)) ?s1"
    using a r CT by (auto simp: sb_at_def V2_def radd_m1 rdist_def split: if_splits)
  then show ?thesis
    using 2 c a line_before [OF r(3)] by (intro exI [of _ ?s1] exI [of _ v2] exI [of _ T] exI [of _ V2] exI [of _ "radd C (-1)"]) simp
qed

lemma uint_dec_u16: "(x :: u16) \<noteq> 0 \<Longrightarrow> uint (x - 1) = uint x - 1"
proof -
  assume "x \<noteq> 0"
  then have "0 < uint x" using uint_ge_0 [of x] by (simp add: order_less_le word_uint_eq_iff)
  then show ?thesis using uint_lt2p [of x] by (simp add: uint_word_ariths)
qed

lemma sb_backspace_ok:
  assumes "sb_inv s" "erasable s"
  shows "sb_ok s v (sb_backspace dev s v) sb_inv"
proof (cases "cursor_offset s = 0 \<and> cursor s = top s")
  case True
  then show ?thesis using assms by (intro sb_okI [of _ s v]) (simp_all add: sb_backspace_def)
next
  case False
  obtain s1 v1 T V C where 1: "(if cursor_offset s = 0
           then do { (s2, v2) \<leftarrow> (if viewport s = cursor s then sb_scroll dev (-1) s v else Some (s, v));
                     c \<leftarrow> sb_addline s2 (cursor s2) (-1);
                     Some (s2\<lparr>cursor := c, cursor_offset := sb_line_end (cells s2) c 0\<rparr>, v2) }
           else Some (s, v)) = Some (s1, v1)" "sb_at T V C s1" "cells s1 = cells s" "inside (vga v) (vga v1)"
      "cursor_offset s1 \<noteq> 0" "uint (cursor_offset s1) \<le> 80"
  proof (cases "cursor_offset s = 0")
    case True
    then have "cursor s \<noteq> top s" "cells s ((cursor s - 80) mod 16000) \<noteq> SB_WHITESPACE"
      using False assms(2) by (auto simp: erasable_def)
    moreover have "sb_line_end (cells s) ((cursor s - 80) mod 16000) 0 \<noteq> 0"
      using sb_line_end_pos [of "cells s" "(cursor s - 80) mod 16000"] calculation(2) by auto
    ultimately show ?thesis
      using sb_backspace_line [OF assms(1) True, of dev v] that True
        sb_line_end_bounds [of 0 "cells s" "(cursor s - 80) mod 16000"] by fastforce
  next
    case False
    then show ?thesis using assms(1) that [of s v] by (auto simp: sb_inv_def)
  qed
  let ?s2 = "s1\<lparr>cursor_offset := cursor_offset s1 - 1\<rparr>"
  have at2: "sb_at T V C ?s2" using 1(2) by simp
  have off: "uint (cursor_offset ?s2) < 80" using 1(5,6) by (simp add: uint_dec_u16)
  obtain s' v' where w: "sb_write_word SB_WHITESPACE ?s2 v1 = (s', v')" "inside (cells ?s2) (cells s')" "inside (vga v1) (vga v')"
      "s' = ?s2\<lparr>cells := (cells ?s2)(80 * C + uint (cursor_offset ?s2) := SB_WHITESPACE)\<rparr>"
    using sb_write_word_ok [OF at2 off, of v1 SB_WHITESPACE] unfolding sb_ok_def by auto
  have "sb_inv s'" using at2 off unfolding w(4) sb_inv_def by auto
  moreover have "sb_backspace dev s v = Some (s', v')"
    using 1(1) w(1) unfolding sb_backspace_def if_not_P [OF False] by simp
  ultimately show ?thesis using w(2,3) 1(3,4) by (intro sb_okI [of _ s' v']) (auto intro: inside_trans)
qed

lemma sb_putchar_ok:
  assumes "sb_inv s" "c = 8 \<longrightarrow> erasable s"
  shows "sb_ok s v (sb_putchar dev c s v) sb_inv"
proof -
  let ?op = "if c = 10 then sb_crlf dev s v else if c = 9 then sb_tabulation dev s v
             else if c = 8 then sb_backspace dev s v else sb_regular dev c s v"
  have "sb_ok s v (sb_crlf dev s v) sb_inv"
    by (rule sb_ok_mono [OF sb_crlf_ok]) (use assms in \<open>auto simp: sb_inv_def\<close>)
  then have "sb_ok s v ?op sb_inv"
    using assms sb_tabulation_ok sb_backspace_ok sb_regular_ok by simp
  then show ?thesis unfolding sb_ok_def sb_putchar_def by auto
qed

lemma sb_putstr_ok:
  assumes "cstr m p xs" "8 \<notin> set xs" "sb_inv s"
  shows "sb_ok s v (sb_putstr dev m p s v) sb_inv"
  using assms
proof (induction xs arbitrary: p s v)
  case Nil
  then show ?case by (subst sb_putstr.simps) (auto intro!: sb_okI)
next
  case (Cons x xs)
  obtain s1 v1 where 1: "sb_putchar dev x s v = Some (s1, v1)" "sb_inv s1" "inside (cells s) (cells s1)" "inside (vga v) (vga v1)"
    using sb_putchar_ok [of s x v dev] Cons.prems unfolding sb_ok_def by auto
  obtain s' v' where "sb_putstr dev m (p + 1) s1 v1 = Some (s', v')" "sb_inv s'" "inside (cells s1) (cells s')" "inside (vga v1) (vga v')"
    using Cons.IH [of "p + 1" s1 v1] Cons.prems 1(2) unfolding sb_ok_def by auto
  then show ?case using 1 Cons.prems(1) by (subst sb_putstr.simps) (auto simp: sb_ok_def intro: inside_trans)
qed

lemma sb_init_inv: "sb_inv (sb_init s)"
proof -
  have "sb_at 0 0 0 (sb_init s)" by (simp add: sb_at_def sb_init_def sb_consts rdist_def)
  then show ?thesis by (auto simp: sb_inv_def sb_init_def)
qed

lemma sb_load_window:
  assumes "sb_inv s"
  shows "\<exists>v'. sb_load dev s v = Some (s\<lparr>loaded := True\<rparr>, v') \<and> sb_inv (s\<lparr>loaded := True\<rparr>) \<and> shows_window s (vga v')"
proof -
  obtain T V C where at: "sb_at T V C s" using assms by (auto simp: sb_inv_def)
  have "endbuf (s\<lparr>loaded := True\<rparr>) = 16000" "viewport (s\<lparr>loaded := True\<rparr>) = 80 * V" "V \<in> {0..<200}"
    using at by (simp_all add: sb_at_def)
  from sb_sync_ring [OF this, of dev v] obtain v' where
    "sb_sync dev (s\<lparr>loaded := True\<rparr>) v = Some v'" "shows_window (s\<lparr>loaded := True\<rparr>) (vga v')" by auto
  then show ?thesis using assms by (auto simp: sb_load_def sb_inv_def shows_window_def)
qed

text \<open>Without something to erase, a backspace in the first column leaves the line.\<close>

lemma sb_backspace_underflows:
  assumes "sb_inv s" "\<not> erasable s"
  shows "\<exists>s' v' c. sb_backspace dev s v = Some (s', v') \<and> cursor_offset s' = 65535
     \<and> cells s' = (cells s)(c := SB_WHITESPACE) \<and> 16000 \<le> c"
proof -
  have ne: "cursor_offset s = 0" "cursor s \<noteq> top s" "cells s ((cursor s - 80) mod 16000) = SB_WHITESPACE"
    using assms(2) by (auto simp: erasable_def)
  have le: "sb_line_end (cells s) ((cursor s - 80) mod 16000) 0 = 0"
    using ne(3) by (subst sb_line_end.simps) simp
  obtain s1 v1 T V C where 1: "(do { (s2, v2) \<leftarrow> (if viewport s = cursor s then sb_scroll dev (-1) s v else Some (s, v));
                     c \<leftarrow> sb_addline s2 (cursor s2) (-1);
                     Some (s2\<lparr>cursor := c, cursor_offset := sb_line_end (cells s2) c 0\<rparr>, v2) }) = Some (s1, v1)"
      "sb_at T V C s1" "cells s1 = cells s" "cursor_offset s1 = 0"
    using sb_backspace_line [OF assms(1) ne(1,2), of dev v] le by auto
  have c: "cursor s1 = 80 * C" "C \<in> {0..<200}" using 1(2) by (simp_all add: sb_at_def)
  let ?w = "sb_write_word SB_WHITESPACE (s1\<lparr>cursor_offset := cursor_offset s1 - 1\<rparr>) v1"
  have "sb_backspace dev s v = Some ?w" using ne(1,2) 1(1) unfolding sb_backspace_def by simp
  moreover have "cursor_offset (fst ?w) = 65535" "cells (fst ?w) = (cells s)(80 * C + 65535 := SB_WHITESPACE)"
    using c 1(3,4) by (simp_all add: sb_write_word_def Let_def unsigned_minus_1_eq_mask mask_eq_exp_minus_1)
  ultimately show ?thesis using c(2)
    by (intro exI [of _ "fst ?w"] exI [of _ "snd ?w"] exI [of _ "80 * C + 65535"]) simp
qed

section \<open>Correctness properties\<close>

text \<open>
  C16: \<^verbatim>\<open>sb_putchar\<close> on a buffer with the invariant returns, whatever the character.  Unless the character is a backspace with nothing to erase
  (the first column, below a line whose first cell is blank: not \<open>erasable\<close>), it keeps the invariant (cursor, viewport and
  top are lines of the ring with the viewport between top and cursor, the column is inside the
  line) and writes no cell outside the buffer or past the VGA cells that mirror it.  In that one case the invariant is lost and a cell behind the buffer is
  written.
\<close>

theorem sb_putchar_safe:
  assumes "sb_inv s"
  shows "\<exists>s' v'. sb_putchar dev c s v = Some (s', v')
    \<and> (if c = 8 \<and> \<not> erasable s then \<not> sb_inv s' \<and> (\<exists>a \<ge> 16000. cells s' = (cells s)(a := SB_WHITESPACE))
       else sb_inv s' \<and> inside (cells s) (cells s') \<and> inside (vga v) (vga v'))"
proof (cases "c = 8 \<and> \<not> erasable s")
  case True
  then obtain s' v' a where b: "sb_backspace dev s v = Some (s', v')" "cursor_offset s' = 65535" "cells s' = (cells s)(a := SB_WHITESPACE)" "16000 \<le> a"
    using sb_backspace_underflows [OF assms, of dev v] by blast
  moreover have "\<not> sb_inv s'" using b(2) by (auto simp: sb_inv_def)
  ultimately show ?thesis using True by (auto simp: sb_putchar_def)
next
  case False
  then show ?thesis using sb_putchar_ok [OF assms, of c v dev] by (auto simp: sb_ok_def)
qed

definition demo_sb :: screenbuf where
  "demo_sb = sb_init \<lparr>top = 0, viewport = 0, endbuf = 0, cursor = 0, cursor_offset = 0, color = 0, loaded = False, cells = (\<lambda>_. 0)\<rparr>"

definition demo_video :: video where "demo_video = \<lparr>vga = (\<lambda>_. 0), ports = []\<rparr>"

theorem sb_putchar_safe_witness:
  "\<exists>s' v'. sb_putchar (\<lambda>_ _. 0) 65 demo_sb demo_video = Some (s', v') \<and> sb_inv s'"
  using sb_putchar_safe [of demo_sb "\<lambda>_ _. 0" 65 demo_video] sb_init_inv by (auto simp: demo_sb_def)

text \<open>
  \<^verbatim>\<open>sb_putstr\<close> of a string without backspaces returns and is safe in the same sense.
\<close>

theorem sb_putstr_safe:
  assumes "cstr m p xs" "8 \<notin> set xs" "sb_inv s"
  shows "\<exists>s' v'. sb_putstr dev m p s v = Some (s', v') \<and> sb_inv s' \<and> inside (cells s) (cells s') \<and> inside (vga v) (vga v')"
  using sb_putstr_ok [OF assms, of v dev] by (simp add: sb_ok_def)

theorem sb_putstr_safe_witness:
  "\<exists>s' v'. sb_putstr (\<lambda>_ _. 0) ((\<lambda>_. 0)(16 := 72, 17 := 10)) 16 demo_sb demo_video = Some (s', v') \<and> sb_inv s'"
  using sb_putstr_safe [of "(\<lambda>_. 0)(16 := 72, 17 := 10)" 16 "[72, 10]" demo_sb "\<lambda>_ _. 0" demo_video] sb_init_inv
  by (auto simp: demo_sb_def)

text \<open>
  \<^verbatim>\<open>sb_load\<close> leaves the buffer loaded and the 25 rows of the screen equal to the 25 lines of the
  ring from the viewport on, and keeps the invariant.
\<close>

theorem sb_load_shows:
  assumes "sb_inv s"
  shows "\<exists>v'. sb_load dev s v = Some (s\<lparr>loaded := True\<rparr>, v') \<and> sb_inv (s\<lparr>loaded := True\<rparr>) \<and> shows_window s (vga v')"
  using assms by (rule sb_load_window)

theorem sb_load_shows_witness:
  "\<exists>v'. sb_load (\<lambda>_ _. 0) demo_sb demo_video = Some (demo_sb\<lparr>loaded := True\<rparr>, v') \<and> shows_window demo_sb (vga v')"
  using sb_load_shows [of demo_sb "\<lambda>_ _. 0" demo_video] sb_init_inv by (auto simp: demo_sb_def)

text \<open>
  C39: a backspace in the first column, below a line whose first cell is blank, makes the column
  underflow: it becomes 65535 and the blank is written 65535 cells after the start of the line,
  far outside the buffer.
\<close>

theorem sb_backspace_underflow:
  assumes "sb_inv s" "\<not> erasable s"
  shows "\<exists>s' v' c. sb_backspace dev s v = Some (s', v') \<and> cursor_offset s' = 65535
     \<and> cells s' = (cells s)(c := SB_WHITESPACE) \<and> 16000 \<le> c"
  by (rule sb_backspace_underflows [OF assms])

theorem sb_backspace_underflow_witness:
  "\<exists>s' v'. sb_backspace (\<lambda>_ _. 0) (demo_sb\<lparr>cursor := 80\<rparr>) demo_video = Some (s', v') \<and> cursor_offset s' = 65535"
proof -
  have "sb_at 0 0 1 (demo_sb\<lparr>cursor := 80\<rparr>)" by (simp add: demo_sb_def sb_at_def sb_init_def sb_consts rdist_def)
  then have "sb_inv (demo_sb\<lparr>cursor := 80\<rparr>)" by (auto simp: sb_inv_def demo_sb_def sb_init_def)
  moreover have "\<not> erasable (demo_sb\<lparr>cursor := 80\<rparr>)"
    by (simp add: erasable_def demo_sb_def sb_init_def sb_memset_eq sb_consts)
  ultimately show ?thesis using sb_backspace_underflow [of "demo_sb\<lparr>cursor := 80\<rparr>" "\<lambda>_ _. 0" demo_video] by blast
qed

end
