(* ===== verification/Keycodes.thy ===== *)
theory Keycodes
  imports Kfs_Prelude
begin

text \<open>
  The tables of the keyboard driver: the key codes of \<^verbatim>\<open>src/include/kernel/keyboard.h\<close>, the two
  scan code tables of \<^verbatim>\<open>src/kernel/keyboard/scancodes.c\<close> and the two layouts under
  \<^verbatim>\<open>src/kernel/keyboard/keymaps/\<close>.  A key code is the number of its enumerator, because the code stores it
  in \<^verbatim>\<open>char\<close> tables and indexes the layouts with it.
\<close>

unbundle bit_operations_syntax

section \<open>Key codes\<close>

type_synonym kbd_keycode = nat

definition UNKNOWN :: kbd_keycode where "UNKNOWN = 0"
definition KEY_ESCAPE :: kbd_keycode where "KEY_ESCAPE = 1"
definition KEY_1 :: kbd_keycode where "KEY_1 = 2"
definition KEY_2 :: kbd_keycode where "KEY_2 = 3"
definition KEY_3 :: kbd_keycode where "KEY_3 = 4"
definition KEY_4 :: kbd_keycode where "KEY_4 = 5"
definition KEY_5 :: kbd_keycode where "KEY_5 = 6"
definition KEY_6 :: kbd_keycode where "KEY_6 = 7"
definition KEY_7 :: kbd_keycode where "KEY_7 = 8"
definition KEY_8 :: kbd_keycode where "KEY_8 = 9"
definition KEY_9 :: kbd_keycode where "KEY_9 = 10"
definition KEY_0 :: kbd_keycode where "KEY_0 = 11"
definition KEY_DASH :: kbd_keycode where "KEY_DASH = 12"
definition KEY_EQUAL :: kbd_keycode where "KEY_EQUAL = 13"
definition KEY_BACKSPACE :: kbd_keycode where "KEY_BACKSPACE = 14"
definition KEY_TAB :: kbd_keycode where "KEY_TAB = 15"
definition KEY_Q :: kbd_keycode where "KEY_Q = 16"
definition KEY_W :: kbd_keycode where "KEY_W = 17"
definition KEY_E :: kbd_keycode where "KEY_E = 18"
definition KEY_R :: kbd_keycode where "KEY_R = 19"
definition KEY_T :: kbd_keycode where "KEY_T = 20"
definition KEY_Y :: kbd_keycode where "KEY_Y = 21"
definition KEY_U :: kbd_keycode where "KEY_U = 22"
definition KEY_I :: kbd_keycode where "KEY_I = 23"
definition KEY_O :: kbd_keycode where "KEY_O = 24"
definition KEY_P :: kbd_keycode where "KEY_P = 25"
definition KEY_OPENING_SQUARE_BRACKET :: kbd_keycode where "KEY_OPENING_SQUARE_BRACKET = 26"
definition KEY_CLOSING_SQUARE_BRACKET :: kbd_keycode where "KEY_CLOSING_SQUARE_BRACKET = 27"
definition KEY_ENTER :: kbd_keycode where "KEY_ENTER = 28"
definition KEY_LEFT_CTRL :: kbd_keycode where "KEY_LEFT_CTRL = 29"
definition KEY_A :: kbd_keycode where "KEY_A = 30"
definition KEY_S :: kbd_keycode where "KEY_S = 31"
definition KEY_D :: kbd_keycode where "KEY_D = 32"
definition KEY_F :: kbd_keycode where "KEY_F = 33"
definition KEY_G :: kbd_keycode where "KEY_G = 34"
definition KEY_H :: kbd_keycode where "KEY_H = 35"
definition KEY_J :: kbd_keycode where "KEY_J = 36"
definition KEY_K :: kbd_keycode where "KEY_K = 37"
definition KEY_L :: kbd_keycode where "KEY_L = 38"
definition KEY_COLON :: kbd_keycode where "KEY_COLON = 39"
definition KEY_SINGLE_QUOTE :: kbd_keycode where "KEY_SINGLE_QUOTE = 40"
definition KEY_BACKTICK :: kbd_keycode where "KEY_BACKTICK = 41"
definition KEY_LEFT_SHIFT :: kbd_keycode where "KEY_LEFT_SHIFT = 42"
definition KEY_BACKSLASH :: kbd_keycode where "KEY_BACKSLASH = 43"
definition KEY_Z :: kbd_keycode where "KEY_Z = 44"
definition KEY_X :: kbd_keycode where "KEY_X = 45"
definition KEY_C :: kbd_keycode where "KEY_C = 46"
definition KEY_V :: kbd_keycode where "KEY_V = 47"
definition KEY_B :: kbd_keycode where "KEY_B = 48"
definition KEY_N :: kbd_keycode where "KEY_N = 49"
definition KEY_M :: kbd_keycode where "KEY_M = 50"
definition KEY_COMMA :: kbd_keycode where "KEY_COMMA = 51"
definition KEY_DOT :: kbd_keycode where "KEY_DOT = 52"
definition KEY_SLASH :: kbd_keycode where "KEY_SLASH = 53"
definition KEY_RIGHT_SHIFT :: kbd_keycode where "KEY_RIGHT_SHIFT = 54"
definition KEY_KEYPAD_WILDCARD :: kbd_keycode where "KEY_KEYPAD_WILDCARD = 55"
definition KEY_LEFT_ALT :: kbd_keycode where "KEY_LEFT_ALT = 56"
definition KEY_SPACE :: kbd_keycode where "KEY_SPACE = 57"
definition KEY_CAPS_LOCK :: kbd_keycode where "KEY_CAPS_LOCK = 58"
definition KEY_F1 :: kbd_keycode where "KEY_F1 = 59"
definition KEY_F2 :: kbd_keycode where "KEY_F2 = 60"
definition KEY_F3 :: kbd_keycode where "KEY_F3 = 61"
definition KEY_F4 :: kbd_keycode where "KEY_F4 = 62"
definition KEY_F5 :: kbd_keycode where "KEY_F5 = 63"
definition KEY_F6 :: kbd_keycode where "KEY_F6 = 64"
definition KEY_F7 :: kbd_keycode where "KEY_F7 = 65"
definition KEY_F8 :: kbd_keycode where "KEY_F8 = 66"
definition KEY_F9 :: kbd_keycode where "KEY_F9 = 67"
definition KEY_F10 :: kbd_keycode where "KEY_F10 = 68"
definition KEY_NUMLOCK :: kbd_keycode where "KEY_NUMLOCK = 69"
definition KEY_SCROLLLOCK :: kbd_keycode where "KEY_SCROLLLOCK = 70"
definition KEY_KEYPAD_7 :: kbd_keycode where "KEY_KEYPAD_7 = 71"
definition KEY_KEYPAD_8 :: kbd_keycode where "KEY_KEYPAD_8 = 72"
definition KEY_KEYPAD_9 :: kbd_keycode where "KEY_KEYPAD_9 = 73"
definition KEY_KEYPAD_DASH :: kbd_keycode where "KEY_KEYPAD_DASH = 74"
definition KEY_KEYPAD_4 :: kbd_keycode where "KEY_KEYPAD_4 = 75"
definition KEY_KEYPAD_5 :: kbd_keycode where "KEY_KEYPAD_5 = 76"
definition KEY_KEYPAD_6 :: kbd_keycode where "KEY_KEYPAD_6 = 77"
definition KEY_KEYPAD_PLUS :: kbd_keycode where "KEY_KEYPAD_PLUS = 78"
definition KEY_KEYPAD_1 :: kbd_keycode where "KEY_KEYPAD_1 = 79"
definition KEY_KEYPAD_2 :: kbd_keycode where "KEY_KEYPAD_2 = 80"
definition KEY_KEYPAD_3 :: kbd_keycode where "KEY_KEYPAD_3 = 81"
definition KEY_KEYPAD_0 :: kbd_keycode where "KEY_KEYPAD_0 = 82"
definition KEY_KEYPAD_DOT :: kbd_keycode where "KEY_KEYPAD_DOT = 83"
definition KEY_F11 :: kbd_keycode where "KEY_F11 = 84"
definition KEY_F12 :: kbd_keycode where "KEY_F12 = 85"
definition KEY_MULTIMEDIA_PREVIOUS_TRACK :: kbd_keycode where "KEY_MULTIMEDIA_PREVIOUS_TRACK = 86"
definition KEY_MULTIMEDIA_NEXT_TRACK :: kbd_keycode where "KEY_MULTIMEDIA_NEXT_TRACK = 87"
definition KEY_KEYPAD_ENTER :: kbd_keycode where "KEY_KEYPAD_ENTER = 88"
definition KEY_RIGHT_CTRL :: kbd_keycode where "KEY_RIGHT_CTRL = 89"
definition KEY_MULTIMEDIA_MUTE :: kbd_keycode where "KEY_MULTIMEDIA_MUTE = 90"
definition KEY_MULTIMEDIA_CALCULATOR :: kbd_keycode where "KEY_MULTIMEDIA_CALCULATOR = 91"
definition KEY_MULTIMEDIA_PLAY :: kbd_keycode where "KEY_MULTIMEDIA_PLAY = 92"
definition KEY_MULTIMEDIA_STOP :: kbd_keycode where "KEY_MULTIMEDIA_STOP = 93"
definition KEY_MULTIMEDIA_VOLUME_DOWN :: kbd_keycode where "KEY_MULTIMEDIA_VOLUME_DOWN = 94"
definition KEY_MULTIMEDIA_VOLUME_UP :: kbd_keycode where "KEY_MULTIMEDIA_VOLUME_UP = 95"
definition KEY_MULTIMEDIA_HOME_WWW :: kbd_keycode where "KEY_MULTIMEDIA_HOME_WWW = 96"
definition KEY_KEYPAD_SLASH :: kbd_keycode where "KEY_KEYPAD_SLASH = 97"
definition KEY_RIGHT_ALT :: kbd_keycode where "KEY_RIGHT_ALT = 98"
definition KEY_HOME :: kbd_keycode where "KEY_HOME = 99"
definition KEY_CURSOR_UP :: kbd_keycode where "KEY_CURSOR_UP = 100"
definition KEY_PAGE_UP :: kbd_keycode where "KEY_PAGE_UP = 101"
definition KEY_CURSOR_LEFT :: kbd_keycode where "KEY_CURSOR_LEFT = 102"
definition KEY_CURSOR_RIGHT :: kbd_keycode where "KEY_CURSOR_RIGHT = 103"
definition KEY_END :: kbd_keycode where "KEY_END = 104"
definition KEY_CURSOR_DOWN :: kbd_keycode where "KEY_CURSOR_DOWN = 105"
definition KEY_PAGE_DOWN :: kbd_keycode where "KEY_PAGE_DOWN = 106"
definition KEY_INSERT :: kbd_keycode where "KEY_INSERT = 107"
definition KEY_DELETE :: kbd_keycode where "KEY_DELETE = 108"
definition KEY_LEFT_GUI :: kbd_keycode where "KEY_LEFT_GUI = 109"
definition KEY_RIGHT_GUI :: kbd_keycode where "KEY_RIGHT_GUI = 110"
definition KEY_APPS :: kbd_keycode where "KEY_APPS = 111"
definition KEY_ACPI_POWER :: kbd_keycode where "KEY_ACPI_POWER = 112"
definition KEY_ACPI_SLEEP :: kbd_keycode where "KEY_ACPI_SLEEP = 113"
definition KEY_ACPI_WAKE :: kbd_keycode where "KEY_ACPI_WAKE = 114"
definition KEY_MULTIMEDIA_WWW_SEARCH :: kbd_keycode where "KEY_MULTIMEDIA_WWW_SEARCH = 115"
definition KEY_MULTIMEDIA_WWW_FAVORITES :: kbd_keycode where "KEY_MULTIMEDIA_WWW_FAVORITES = 116"
definition KEY_MULTIMEDIA_WWW_REFRESH :: kbd_keycode where "KEY_MULTIMEDIA_WWW_REFRESH = 117"
definition KEY_MULTIMEDIA_WWW_STOP :: kbd_keycode where "KEY_MULTIMEDIA_WWW_STOP = 118"
definition KEY_MULTIMEDIA_WWW_FORWARD :: kbd_keycode where "KEY_MULTIMEDIA_WWW_FORWARD = 119"
definition KEY_MULTIMEDIA_WWW_BACK :: kbd_keycode where "KEY_MULTIMEDIA_WWW_BACK = 120"
definition KEY_MULTIMEDIA_MY_COMPUTER :: kbd_keycode where "KEY_MULTIMEDIA_MY_COMPUTER = 121"
definition KEY_MULTIMEDIA_EMAIL :: kbd_keycode where "KEY_MULTIMEDIA_EMAIL = 122"
definition KEY_MULTIMEDIA_MEDIA_SELECT :: kbd_keycode where "KEY_MULTIMEDIA_MEDIA_SELECT = 123"

lemmas keycode_defs =
  UNKNOWN_def KEY_ESCAPE_def KEY_1_def KEY_2_def KEY_3_def KEY_4_def KEY_5_def KEY_6_def KEY_7_def KEY_8_def
    KEY_9_def KEY_0_def KEY_DASH_def KEY_EQUAL_def KEY_BACKSPACE_def KEY_TAB_def KEY_Q_def KEY_W_def
    KEY_E_def KEY_R_def KEY_T_def KEY_Y_def KEY_U_def KEY_I_def KEY_O_def KEY_P_def
    KEY_OPENING_SQUARE_BRACKET_def KEY_CLOSING_SQUARE_BRACKET_def KEY_ENTER_def KEY_LEFT_CTRL_def KEY_A_def
    KEY_S_def KEY_D_def KEY_F_def KEY_G_def KEY_H_def KEY_J_def KEY_K_def KEY_L_def KEY_COLON_def
    KEY_SINGLE_QUOTE_def KEY_BACKTICK_def KEY_LEFT_SHIFT_def KEY_BACKSLASH_def KEY_Z_def KEY_X_def KEY_C_def
    KEY_V_def KEY_B_def KEY_N_def KEY_M_def KEY_COMMA_def KEY_DOT_def KEY_SLASH_def KEY_RIGHT_SHIFT_def
    KEY_KEYPAD_WILDCARD_def KEY_LEFT_ALT_def KEY_SPACE_def KEY_CAPS_LOCK_def KEY_F1_def KEY_F2_def KEY_F3_def
    KEY_F4_def KEY_F5_def KEY_F6_def KEY_F7_def KEY_F8_def KEY_F9_def KEY_F10_def KEY_NUMLOCK_def
    KEY_SCROLLLOCK_def KEY_KEYPAD_7_def KEY_KEYPAD_8_def KEY_KEYPAD_9_def KEY_KEYPAD_DASH_def
    KEY_KEYPAD_4_def KEY_KEYPAD_5_def KEY_KEYPAD_6_def KEY_KEYPAD_PLUS_def KEY_KEYPAD_1_def KEY_KEYPAD_2_def
    KEY_KEYPAD_3_def KEY_KEYPAD_0_def KEY_KEYPAD_DOT_def KEY_F11_def KEY_F12_def
    KEY_MULTIMEDIA_PREVIOUS_TRACK_def KEY_MULTIMEDIA_NEXT_TRACK_def KEY_KEYPAD_ENTER_def KEY_RIGHT_CTRL_def
    KEY_MULTIMEDIA_MUTE_def KEY_MULTIMEDIA_CALCULATOR_def KEY_MULTIMEDIA_PLAY_def KEY_MULTIMEDIA_STOP_def
    KEY_MULTIMEDIA_VOLUME_DOWN_def KEY_MULTIMEDIA_VOLUME_UP_def KEY_MULTIMEDIA_HOME_WWW_def
    KEY_KEYPAD_SLASH_def KEY_RIGHT_ALT_def KEY_HOME_def KEY_CURSOR_UP_def KEY_PAGE_UP_def KEY_CURSOR_LEFT_def
    KEY_CURSOR_RIGHT_def KEY_END_def KEY_CURSOR_DOWN_def KEY_PAGE_DOWN_def KEY_INSERT_def KEY_DELETE_def
    KEY_LEFT_GUI_def KEY_RIGHT_GUI_def KEY_APPS_def KEY_ACPI_POWER_def KEY_ACPI_SLEEP_def KEY_ACPI_WAKE_def
    KEY_MULTIMEDIA_WWW_SEARCH_def KEY_MULTIMEDIA_WWW_FAVORITES_def KEY_MULTIMEDIA_WWW_REFRESH_def
    KEY_MULTIMEDIA_WWW_STOP_def KEY_MULTIMEDIA_WWW_FORWARD_def KEY_MULTIMEDIA_WWW_BACK_def
    KEY_MULTIMEDIA_MY_COMPUTER_def KEY_MULTIMEDIA_EMAIL_def KEY_MULTIMEDIA_MEDIA_SELECT_def

section \<open>Scan code tables\<close>

text \<open>
  A C array initialiser with designators: each designator restarts the position, the elements
  after it follow in order, and what is not mentioned is zero.
\<close>

fun fill_from :: "kbd_keycode list \<Rightarrow> nat \<Rightarrow> kbd_keycode list \<Rightarrow> kbd_keycode list" where
  "fill_from t i [] = t"
| "fill_from t i (k # ks) = fill_from (t[i := k]) (Suc i) ks"

definition designated :: "nat \<Rightarrow> (nat \<times> kbd_keycode list) list \<Rightarrow> kbd_keycode list" where
  "designated len inits = foldl (\<lambda>t (i, ks). fill_from t i ks) (replicate len UNKNOWN) inits"

definition kbd_reg_keycodes :: "kbd_keycode list" where
  "kbd_reg_keycodes = designated 0x59 [
     (0x01, [KEY_ESCAPE, KEY_1, KEY_2, KEY_3, KEY_4, KEY_5, KEY_6, KEY_7, KEY_8, KEY_9, KEY_0, KEY_DASH,
        KEY_EQUAL, KEY_BACKSPACE, KEY_TAB, KEY_Q, KEY_W, KEY_E, KEY_R, KEY_T, KEY_Y, KEY_U, KEY_I, KEY_O,
        KEY_P, KEY_OPENING_SQUARE_BRACKET, KEY_CLOSING_SQUARE_BRACKET, KEY_ENTER, KEY_LEFT_CTRL, KEY_A, KEY_S,
        KEY_D, KEY_F, KEY_G, KEY_H, KEY_J, KEY_K, KEY_L, KEY_COLON, KEY_SINGLE_QUOTE, KEY_BACKTICK,
        KEY_LEFT_SHIFT, KEY_BACKSLASH, KEY_Z, KEY_X, KEY_C, KEY_V, KEY_B, KEY_N, KEY_M, KEY_COMMA, KEY_DOT,
        KEY_SLASH, KEY_RIGHT_SHIFT, KEY_KEYPAD_WILDCARD, KEY_LEFT_ALT, KEY_SPACE, KEY_CAPS_LOCK, KEY_F1,
        KEY_F2, KEY_F3, KEY_F4, KEY_F5, KEY_F6, KEY_F7, KEY_F8, KEY_F9, KEY_F10, KEY_NUMLOCK, KEY_SCROLLLOCK,
        KEY_KEYPAD_7, KEY_KEYPAD_8, KEY_KEYPAD_9, KEY_KEYPAD_DASH, KEY_KEYPAD_4, KEY_KEYPAD_5, KEY_KEYPAD_6,
        KEY_KEYPAD_PLUS, KEY_KEYPAD_1, KEY_KEYPAD_2, KEY_KEYPAD_3, KEY_KEYPAD_0, KEY_KEYPAD_DOT]),
     (0x57, [KEY_F11, KEY_F12])]"

definition kbd_ext_keycodes :: "kbd_keycode list" where
  "kbd_ext_keycodes = designated 0x6e [
     (0x10, [KEY_MULTIMEDIA_PREVIOUS_TRACK]),
     (0x19, [KEY_MULTIMEDIA_NEXT_TRACK]),
     (0x1C, [KEY_KEYPAD_ENTER, KEY_RIGHT_CTRL]),
     (0x20, [KEY_MULTIMEDIA_MUTE, KEY_MULTIMEDIA_CALCULATOR, KEY_MULTIMEDIA_PLAY]),
     (0x24, [KEY_MULTIMEDIA_STOP]),
     (0x2E, [KEY_MULTIMEDIA_VOLUME_DOWN]),
     (0x30, [KEY_MULTIMEDIA_VOLUME_UP]),
     (0x32, [KEY_MULTIMEDIA_HOME_WWW]),
     (0x35, [KEY_KEYPAD_SLASH]),
     (0x38, [KEY_RIGHT_ALT]),
     (0x47, [KEY_HOME, KEY_CURSOR_UP, KEY_PAGE_UP]),
     (0x4B, [KEY_CURSOR_LEFT]),
     (0x4D, [KEY_CURSOR_RIGHT]),
     (0x4F, [KEY_END, KEY_CURSOR_DOWN, KEY_PAGE_DOWN, KEY_INSERT, KEY_DELETE]),
     (0x5B, [KEY_LEFT_GUI, KEY_RIGHT_GUI, KEY_APPS, KEY_ACPI_POWER, KEY_ACPI_SLEEP]),
     (0x63, [KEY_ACPI_WAKE]),
     (0x65, [KEY_MULTIMEDIA_WWW_SEARCH, KEY_MULTIMEDIA_WWW_FAVORITES, KEY_MULTIMEDIA_WWW_REFRESH,
        KEY_MULTIMEDIA_WWW_STOP, KEY_MULTIMEDIA_WWW_FORWARD, KEY_MULTIMEDIA_WWW_BACK,
        KEY_MULTIMEDIA_MY_COMPUTER, KEY_MULTIMEDIA_EMAIL, KEY_MULTIMEDIA_MEDIA_SELECT])]"

section \<open>Layouts\<close>

record kbd_keymap_entry =
  flags :: u8
  reg :: u8
  shift :: u8
  altgr :: u8

definition NO_MOD :: u8 where "NO_MOD = 4"
definition CAPSLOCK :: u8 where "CAPSLOCK = 2"
definition NUMLOCK :: u8 where "NUMLOCK = 1"

definition entry4 :: "u8 \<Rightarrow> char \<Rightarrow> char \<Rightarrow> char \<Rightarrow> kbd_keymap_entry" where
  "entry4 f r s a = \<lparr>flags = f, reg = of_char r, shift = of_char s, altgr = of_char a\<rparr>"

text \<open>The rows that name the regular form only leave the other two zero.\<close>

definition entry2 :: "u8 \<Rightarrow> char \<Rightarrow> kbd_keymap_entry" where
  "entry2 f r = entry4 f r (CHR 0x00) (CHR 0x00)"

definition empty_entry :: kbd_keymap_entry where
  "empty_entry = entry2 0 (CHR 0x00)"

text \<open>\<^verbatim>\<open>keymap[kc]\<close> in a table given by designators: zero where nothing is designated.\<close>

definition keymap_get :: "(kbd_keycode \<times> kbd_keymap_entry) list \<Rightarrow> kbd_keycode \<Rightarrow> kbd_keymap_entry" where
  "keymap_get t kc = (case map_of t kc of Some e \<Rightarrow> e | None \<Rightarrow> empty_entry)"

definition US104_keymap :: "(kbd_keycode \<times> kbd_keymap_entry) list" where
  "US104_keymap = [
     (KEY_ESCAPE, entry2 NO_MOD (CHR 0x1B)),
     (KEY_1, entry4 0 (CHR ''1'') (CHR ''!'') (CHR ''1'')),
     (KEY_2, entry4 0 (CHR ''2'') (CHR ''@'') (CHR ''2'')),
     (KEY_3, entry4 0 (CHR ''3'') (CHR ''#'') (CHR ''3'')),
     (KEY_4, entry4 0 (CHR ''4'') (CHR ''$'') (CHR ''4'')),
     (KEY_5, entry4 0 (CHR ''5'') (CHR ''%'') (CHR ''5'')),
     (KEY_6, entry4 0 (CHR ''6'') (CHR ''^'') (CHR ''6'')),
     (KEY_7, entry4 0 (CHR ''7'') (CHR ''&'') (CHR ''7'')),
     (KEY_8, entry4 0 (CHR ''8'') (CHR ''*'') (CHR ''8'')),
     (KEY_9, entry4 0 (CHR ''9'') (CHR ''('') (CHR ''9'')),
     (KEY_0, entry4 0 (CHR ''0'') (CHR '')'') (CHR ''0'')),
     (KEY_DASH, entry4 0 (CHR ''-'') (CHR ''_'') (CHR 0x00)),
     (KEY_EQUAL, entry4 0 (CHR ''='') (CHR ''+'') (CHR 0x00)),
     (KEY_BACKSPACE, entry2 NO_MOD (CHR 0x08)),
     (KEY_TAB, entry2 NO_MOD (CHR 0x09)),
     (KEY_Q, entry4 CAPSLOCK (CHR ''q'') (CHR ''Q'') (CHR 0x00)),
     (KEY_W, entry4 CAPSLOCK (CHR ''w'') (CHR ''W'') (CHR 0x00)),
     (KEY_E, entry4 CAPSLOCK (CHR ''e'') (CHR ''E'') (CHR 0x00)),
     (KEY_R, entry4 CAPSLOCK (CHR ''r'') (CHR ''R'') (CHR 0x00)),
     (KEY_T, entry4 CAPSLOCK (CHR ''t'') (CHR ''T'') (CHR 0x00)),
     (KEY_Y, entry4 CAPSLOCK (CHR ''y'') (CHR ''Y'') (CHR 0x00)),
     (KEY_U, entry4 CAPSLOCK (CHR ''u'') (CHR ''U'') (CHR 0x00)),
     (KEY_I, entry4 CAPSLOCK (CHR ''i'') (CHR ''I'') (CHR 0x00)),
     (KEY_O, entry4 CAPSLOCK (CHR ''o'') (CHR ''O'') (CHR 0x00)),
     (KEY_P, entry4 CAPSLOCK (CHR ''p'') (CHR ''P'') (CHR 0x00)),
     (KEY_OPENING_SQUARE_BRACKET, entry4 0 (CHR ''['') (CHR ''{'') (CHR 0x00)),
     (KEY_CLOSING_SQUARE_BRACKET, entry4 0 (CHR '']'') (CHR ''}'') (CHR 0x00)),
     (KEY_ENTER, entry2 NO_MOD (CHR 0x0A)),
     (KEY_A, entry4 CAPSLOCK (CHR ''a'') (CHR ''A'') (CHR 0x00)),
     (KEY_S, entry4 CAPSLOCK (CHR ''s'') (CHR ''S'') (CHR 0x00)),
     (KEY_D, entry4 CAPSLOCK (CHR ''d'') (CHR ''D'') (CHR 0x00)),
     (KEY_F, entry4 CAPSLOCK (CHR ''f'') (CHR ''F'') (CHR 0x00)),
     (KEY_G, entry4 CAPSLOCK (CHR ''g'') (CHR ''G'') (CHR 0x00)),
     (KEY_H, entry4 CAPSLOCK (CHR ''h'') (CHR ''H'') (CHR 0x00)),
     (KEY_J, entry4 CAPSLOCK (CHR ''j'') (CHR ''J'') (CHR 0x00)),
     (KEY_K, entry4 CAPSLOCK (CHR ''k'') (CHR ''K'') (CHR 0x00)),
     (KEY_L, entry4 CAPSLOCK (CHR ''l'') (CHR ''L'') (CHR 0x00)),
     (KEY_COLON, entry4 0 (CHR '';'') (CHR '':'') (CHR 0x00)),
     (KEY_SINGLE_QUOTE, entry4 0 (CHR 0x27) (CHR 0x22) (CHR 0x00)),
     (KEY_BACKTICK, entry4 0 (CHR 0x60) (CHR ''~'') (CHR 0x00)),
     (KEY_BACKSLASH, entry4 0 (CHR 0x5C) (CHR ''|'') (CHR 0x00)),
     (KEY_Z, entry4 CAPSLOCK (CHR ''z'') (CHR ''Z'') (CHR 0x00)),
     (KEY_X, entry4 CAPSLOCK (CHR ''x'') (CHR ''X'') (CHR 0x00)),
     (KEY_C, entry4 CAPSLOCK (CHR ''c'') (CHR ''C'') (CHR 0x00)),
     (KEY_V, entry4 CAPSLOCK (CHR ''v'') (CHR ''V'') (CHR 0x00)),
     (KEY_B, entry4 CAPSLOCK (CHR ''b'') (CHR ''B'') (CHR 0x00)),
     (KEY_N, entry4 CAPSLOCK (CHR ''n'') (CHR ''N'') (CHR 0x00)),
     (KEY_M, entry4 CAPSLOCK (CHR ''m'') (CHR ''M'') (CHR 0x00)),
     (KEY_COMMA, entry4 0 (CHR '','') (CHR ''<'') (CHR 0x00)),
     (KEY_DOT, entry4 0 (CHR ''.'') (CHR ''>'') (CHR 0x00)),
     (KEY_SLASH, entry4 0 (CHR ''/'') (CHR ''?'') (CHR 0x00)),
     (KEY_KEYPAD_WILDCARD, entry2 NO_MOD (CHR ''*'')),
     (KEY_SPACE, entry2 NO_MOD (CHR 0x20)),
     (KEY_KEYPAD_7, entry2 (NUMLOCK OR NO_MOD) (CHR ''7'')),
     (KEY_KEYPAD_8, entry2 (NUMLOCK OR NO_MOD) (CHR ''8'')),
     (KEY_KEYPAD_9, entry2 (NUMLOCK OR NO_MOD) (CHR ''9'')),
     (KEY_KEYPAD_DASH, entry2 NO_MOD (CHR ''-'')),
     (KEY_KEYPAD_4, entry2 (NUMLOCK OR NO_MOD) (CHR ''4'')),
     (KEY_KEYPAD_5, entry2 (NUMLOCK OR NO_MOD) (CHR ''5'')),
     (KEY_KEYPAD_6, entry2 (NUMLOCK OR NO_MOD) (CHR ''6'')),
     (KEY_KEYPAD_PLUS, entry2 NO_MOD (CHR ''+'')),
     (KEY_KEYPAD_1, entry2 (NUMLOCK OR NO_MOD) (CHR ''1'')),
     (KEY_KEYPAD_2, entry2 (NUMLOCK OR NO_MOD) (CHR ''2'')),
     (KEY_KEYPAD_3, entry2 (NUMLOCK OR NO_MOD) (CHR ''3'')),
     (KEY_KEYPAD_0, entry2 (NUMLOCK OR NO_MOD) (CHR ''0'')),
     (KEY_KEYPAD_DOT, entry2 NO_MOD (CHR ''.'')),
     (KEY_KEYPAD_ENTER, entry2 NO_MOD (CHR 0x0A)),
     (KEY_KEYPAD_SLASH, entry2 NO_MOD (CHR ''/''))]"

definition US104_getkeymapentry :: "kbd_keycode \<Rightarrow> kbd_keymap_entry" where
  "US104_getkeymapentry kc = keymap_get US104_keymap kc"

definition FR_keymap :: "(kbd_keycode \<times> kbd_keymap_entry) list" where
  "FR_keymap = [
     (KEY_ESCAPE, entry2 NO_MOD (CHR 0x1B)),
     (KEY_1, entry4 0 (CHR ''&'') (CHR ''1'') (CHR 0x00)),
     (KEY_2, entry4 0 (CHR ''e'') (CHR ''2'') (CHR ''~'')),
     (KEY_3, entry4 0 (CHR 0x22) (CHR ''3'') (CHR ''#'')),
     (KEY_4, entry4 0 (CHR 0x27) (CHR ''4'') (CHR ''{'')),
     (KEY_5, entry4 0 (CHR ''('') (CHR ''5'') (CHR ''['')),
     (KEY_6, entry4 0 (CHR ''-'') (CHR ''6'') (CHR ''|'')),
     (KEY_7, entry4 0 (CHR ''e'') (CHR ''7'') (CHR 0x60)),
     (KEY_8, entry4 0 (CHR ''_'') (CHR ''8'') (CHR 0x5C)),
     (KEY_9, entry4 0 (CHR ''c'') (CHR ''9'') (CHR ''^'')),
     (KEY_0, entry4 0 (CHR ''a'') (CHR ''0'') (CHR ''@'')),
     (KEY_DASH, entry4 0 (CHR '')'') (CHR 0x00) (CHR '']'')),
     (KEY_EQUAL, entry4 0 (CHR ''='') (CHR ''+'') (CHR ''}'')),
     (KEY_BACKSPACE, entry2 NO_MOD (CHR 0x08)),
     (KEY_TAB, entry2 NO_MOD (CHR 0x09)),
     (KEY_Q, entry4 CAPSLOCK (CHR ''a'') (CHR ''A'') (CHR 0x00)),
     (KEY_W, entry4 CAPSLOCK (CHR ''z'') (CHR ''Z'') (CHR 0x00)),
     (KEY_E, entry4 CAPSLOCK (CHR ''e'') (CHR ''E'') (CHR 0x00)),
     (KEY_R, entry4 CAPSLOCK (CHR ''r'') (CHR ''R'') (CHR 0x00)),
     (KEY_T, entry4 CAPSLOCK (CHR ''t'') (CHR ''T'') (CHR 0x00)),
     (KEY_Y, entry4 CAPSLOCK (CHR ''y'') (CHR ''Y'') (CHR 0x00)),
     (KEY_U, entry4 CAPSLOCK (CHR ''u'') (CHR ''U'') (CHR 0x00)),
     (KEY_I, entry4 CAPSLOCK (CHR ''i'') (CHR ''I'') (CHR 0x00)),
     (KEY_O, entry4 CAPSLOCK (CHR ''o'') (CHR ''O'') (CHR 0x00)),
     (KEY_P, entry4 CAPSLOCK (CHR ''p'') (CHR ''P'') (CHR 0x00)),
     (KEY_OPENING_SQUARE_BRACKET, empty_entry),
     (KEY_CLOSING_SQUARE_BRACKET, entry4 0 (CHR ''$'') (CHR 0x00) (CHR 0x00)),
     (KEY_ENTER, entry2 NO_MOD (CHR 0x0A)),
     (KEY_A, entry4 CAPSLOCK (CHR ''q'') (CHR ''Q'') (CHR 0x00)),
     (KEY_S, entry4 CAPSLOCK (CHR ''s'') (CHR ''S'') (CHR 0x00)),
     (KEY_D, entry4 CAPSLOCK (CHR ''d'') (CHR ''D'') (CHR 0x00)),
     (KEY_F, entry4 CAPSLOCK (CHR ''f'') (CHR ''F'') (CHR 0x00)),
     (KEY_G, entry4 CAPSLOCK (CHR ''g'') (CHR ''G'') (CHR 0x00)),
     (KEY_H, entry4 CAPSLOCK (CHR ''h'') (CHR ''H'') (CHR 0x00)),
     (KEY_J, entry4 CAPSLOCK (CHR ''j'') (CHR ''J'') (CHR 0x00)),
     (KEY_K, entry4 CAPSLOCK (CHR ''k'') (CHR ''K'') (CHR 0x00)),
     (KEY_L, entry4 CAPSLOCK (CHR ''l'') (CHR ''L'') (CHR 0x00)),
     (KEY_COLON, entry4 0 (CHR ''m'') (CHR ''M'') (CHR 0x00)),
     (KEY_SINGLE_QUOTE, entry4 0 (CHR 0x00) (CHR ''%'') (CHR 0x00)),
     (KEY_BACKTICK, empty_entry),
     (KEY_BACKSLASH, entry4 0 (CHR 0x00) (CHR ''*'') (CHR 0x00)),
     (KEY_Z, entry4 CAPSLOCK (CHR ''w'') (CHR ''W'') (CHR 0x00)),
     (KEY_X, entry4 CAPSLOCK (CHR ''x'') (CHR ''X'') (CHR 0x00)),
     (KEY_C, entry4 CAPSLOCK (CHR ''c'') (CHR ''C'') (CHR 0x00)),
     (KEY_V, entry4 CAPSLOCK (CHR ''v'') (CHR ''V'') (CHR 0x00)),
     (KEY_B, entry4 CAPSLOCK (CHR ''b'') (CHR ''B'') (CHR 0x00)),
     (KEY_N, entry4 CAPSLOCK (CHR ''n'') (CHR ''N'') (CHR 0x00)),
     (KEY_M, entry4 CAPSLOCK (CHR '','') (CHR ''?'') (CHR 0x00)),
     (KEY_COMMA, entry4 0 (CHR '';'') (CHR ''.'') (CHR 0x00)),
     (KEY_DOT, entry4 0 (CHR '':'') (CHR ''/'') (CHR 0x00)),
     (KEY_SLASH, entry4 0 (CHR ''!'') (CHR 0x00) (CHR 0x00)),
     (KEY_KEYPAD_WILDCARD, entry2 NO_MOD (CHR ''*'')),
     (KEY_SPACE, entry2 NO_MOD (CHR 0x20)),
     (KEY_KEYPAD_7, entry2 (NUMLOCK OR NO_MOD) (CHR ''7'')),
     (KEY_KEYPAD_8, entry2 (NUMLOCK OR NO_MOD) (CHR ''8'')),
     (KEY_KEYPAD_9, entry2 (NUMLOCK OR NO_MOD) (CHR ''9'')),
     (KEY_KEYPAD_DASH, entry2 NO_MOD (CHR ''-'')),
     (KEY_KEYPAD_4, entry2 (NUMLOCK OR NO_MOD) (CHR ''4'')),
     (KEY_KEYPAD_5, entry2 (NUMLOCK OR NO_MOD) (CHR ''5'')),
     (KEY_KEYPAD_6, entry2 (NUMLOCK OR NO_MOD) (CHR ''6'')),
     (KEY_KEYPAD_PLUS, entry2 NO_MOD (CHR ''+'')),
     (KEY_KEYPAD_1, entry2 (NUMLOCK OR NO_MOD) (CHR ''1'')),
     (KEY_KEYPAD_2, entry2 (NUMLOCK OR NO_MOD) (CHR ''2'')),
     (KEY_KEYPAD_3, entry2 (NUMLOCK OR NO_MOD) (CHR ''3'')),
     (KEY_KEYPAD_0, entry2 (NUMLOCK OR NO_MOD) (CHR ''0'')),
     (KEY_KEYPAD_DOT, entry2 NO_MOD (CHR ''.'')),
     (KEY_KEYPAD_ENTER, entry2 NO_MOD (CHR 0x0A)),
     (KEY_KEYPAD_SLASH, entry2 NO_MOD (CHR ''/''))]"

definition FR_getkeymapentry :: "kbd_keycode \<Rightarrow> kbd_keymap_entry" where
  "FR_getkeymapentry kc = keymap_get FR_keymap kc"

end
