(* ===== verification/Keyboard.thy ===== *)
theory Keyboard
  imports Port Keycodes
begin

text \<open>
  The keyboard driver, \<^verbatim>\<open>src/kernel/keyboard/keyboard.c\<close>: the scan code state machine, the modifier
  state, and the translation of key events to characters through the current layout.  A read past
  the end of a scan code table, which the driver does not guard against, is the result \<open>None\<close>.
\<close>

unbundle bit_operations_syntax

section \<open>Definitions\<close>

definition PS2_DATA_PORT :: u16 where "PS2_DATA_PORT = 0x60"
definition PS2_STATUS_REGISTER_PORT :: u16 where "PS2_STATUS_REGISTER_PORT = 0x64"
definition PS2_STATUS_COMMAND_PORT :: u16 where "PS2_STATUS_COMMAND_PORT = 0x64"

datatype kbd_eventtype = KEY_PRESSED | KEY_RELEASED

record kbd_event =
  evt_type :: kbd_eventtype
  key :: kbd_keycode

text \<open>One-bit fields, only ever assigned from comparisons and tested for being nonzero.\<close>

record kbd_modifiers =
  lshift :: bool
  rshift :: bool
  capslock :: bool
  lctrl :: bool
  rctrl :: bool
  lalt :: bool
  ralt :: bool
  numlock :: bool

text \<open>The layout function pointer is \<open>None\<close> while it is NULL.\<close>

record kbd_state =
  getkeymapentry :: "(kbd_keycode \<Rightarrow> kbd_keymap_entry) option"
  modifiers :: kbd_modifiers
  ext :: bool

definition kbd_st_zero :: kbd_state where
  "kbd_st_zero = \<lparr>getkeymapentry = None,
     modifiers = \<lparr>lshift = False, rshift = False, capslock = False, lctrl = False, rctrl = False, lalt = False,
       ralt = False, numlock = False\<rparr>, ext = False\<rparr>"

definition HAS_CAPSLOCK_EFFECT :: "kbd_keymap_entry \<Rightarrow> bool" where
  "HAS_CAPSLOCK_EFFECT x \<longleftrightarrow> flags x AND 0b010 \<noteq> 0"
definition HAS_NUMLOCK_EFFECT :: "kbd_keymap_entry \<Rightarrow> bool" where
  "HAS_NUMLOCK_EFFECT x \<longleftrightarrow> flags x AND 0b001 \<noteq> 0"
definition HAS_NO_MODIFIERS :: "kbd_keymap_entry \<Rightarrow> bool" where
  "HAS_NO_MODIFIERS x \<longleftrightarrow> flags x AND 0b100 \<noteq> 0"

definition KBD_setkeymap :: "(kbd_keycode \<Rightarrow> kbd_keymap_entry) \<Rightarrow> kbd_state \<Rightarrow> kbd_state" where
  "KBD_setkeymap kmfn st = st\<lparr>getkeymapentry := Some kmfn\<rparr>"

text \<open>The two functions that set the keyboard's lights are empty in the source.\<close>

definition KBD_initialize :: "kbd_state \<Rightarrow> kbd_state" where
  "KBD_initialize st = KBD_setkeymap US104_getkeymapentry st"

definition KBD_poll :: "device \<Rightarrow> ports \<Rightarrow> bool \<times> ports" where
  "KBD_poll dev tr = (let (status, tr1) = port_read_u8 dev PS2_STATUS_REGISTER_PORT tr in (status AND 1 \<noteq> 0, tr1))"

definition set_modifiers :: "kbd_event \<Rightarrow> kbd_modifiers \<Rightarrow> kbd_modifiers" where
  "set_modifiers evt mo =
     (let pressed = (evt_type evt = KEY_PRESSED) in
      if key evt = KEY_LEFT_SHIFT then mo\<lparr>lshift := pressed\<rparr>
      else if key evt = KEY_RIGHT_SHIFT then mo\<lparr>rshift := pressed\<rparr>
      else if key evt = KEY_CAPS_LOCK then
        (if evt_type evt = KEY_RELEASED then mo\<lparr>capslock := \<not> capslock mo\<rparr> else mo)
      else if key evt = KEY_NUMLOCK then
        (if evt_type evt = KEY_RELEASED then mo\<lparr>numlock := \<not> numlock mo\<rparr> else mo)
      else if key evt = KEY_LEFT_CTRL then mo\<lparr>lctrl := pressed\<rparr>
      else if key evt = KEY_RIGHT_CTRL then mo\<lparr>rctrl := pressed\<rparr>
      else if key evt = KEY_LEFT_ALT then mo\<lparr>lalt := pressed\<rparr>
      else if key evt = KEY_RIGHT_ALT then mo\<lparr>ralt := pressed\<rparr>
      else mo)"

definition table_read :: "kbd_keycode list \<Rightarrow> u8 \<Rightarrow> kbd_keycode option" where
  "table_read t sc = (if unat sc < length t then Some (t ! unat sc) else None)"

text \<open>The body of \<^verbatim>\<open>KBD_getevent\<close> once the scan code has been read.\<close>

definition kbd_scancode :: "u8 \<Rightarrow> kbd_event \<Rightarrow> kbd_state \<Rightarrow> (int \<times> kbd_event \<times> kbd_state) option" where
  "kbd_scancode sc evt st =
     (if sc = 0xE0 then
        (if ext st then Some (-1, evt, st) else Some (-2, evt, st\<lparr>ext := True\<rparr>))
      else do {
        let (ty, sc1) = (if sc > 0x80 then (KEY_RELEASED, sc - 0x80) else (KEY_PRESSED, sc));
        k \<leftarrow> table_read (if ext st then kbd_ext_keycodes else kbd_reg_keycodes) sc1;
        let evt1 = \<lparr>evt_type = ty, key = k\<rparr>;
        let st1 = st\<lparr>modifiers := set_modifiers evt1 (modifiers st), ext := False\<rparr>;
        Some (if k = UNKNOWN then -1 else 0, evt1, st1) })"

definition KBD_getevent :: "device \<Rightarrow> kbd_event \<Rightarrow> kbd_state \<Rightarrow> ports \<Rightarrow> (int \<times> kbd_event \<times> kbd_state \<times> ports) option" where
  "KBD_getevent dev evt st tr =
     (let (sc, tr1) = port_read_u8 dev PS2_DATA_PORT tr
      in do { (r, evt1, st1) \<leftarrow> kbd_scancode sc evt st; Some (r, evt1, st1, tr1) })"

text \<open>The polling loop, which need not end, and the loop around it.\<close>

partial_function (option) KBD_wait :: "device \<Rightarrow> ports \<Rightarrow> ports option" where
  "KBD_wait dev tr = (let (ready, tr1) = KBD_poll dev tr in if ready then Some tr1 else KBD_wait dev tr1)"

partial_function (option) KBD_geteventbytype ::
    "device \<Rightarrow> kbd_eventtype \<Rightarrow> kbd_event \<Rightarrow> kbd_state \<Rightarrow> ports \<Rightarrow> (kbd_event \<times> kbd_state \<times> ports) option" where
  "KBD_geteventbytype dev ty evt st tr =
     do { tr1 \<leftarrow> KBD_wait dev tr;
          (r, evt1, st1, tr2) \<leftarrow> KBD_getevent dev evt st tr1;
          if r = 0 \<and> evt_type evt1 = ty then Some (evt1, st1, tr2)
          else KBD_geteventbytype dev ty evt1 st1 tr2 }"

definition KBD_getchar :: "kbd_event \<Rightarrow> kbd_state \<Rightarrow> u8" where
  "KBD_getchar evt st =
     (case getkeymapentry st of
        None \<Rightarrow> 0
      | Some f \<Rightarrow>
          let ent = f (key evt); mo = modifiers st in
          if reg ent = 0 then 0
          else if HAS_NO_MODIFIERS ent then reg ent
          else if ralt mo then altgr ent
          else if capslock mo \<and> HAS_CAPSLOCK_EFFECT ent then
            (if lshift mo \<or> rshift mo then reg ent else shift ent)
          else if lshift mo \<or> rshift mo then shift ent else reg ent)"

definition KBD_flush :: "device \<Rightarrow> ports \<Rightarrow> ports" where
  "KBD_flush dev tr =
     (let (status, tr1) = port_read_u8 dev PS2_STATUS_REGISTER_PORT tr
      in port_write_u8 PS2_STATUS_COMMAND_PORT (status AND ucast (push_bit 2 0xff :: u32)) tr1)"

section \<open>Strokes and their bytes\<close>

text \<open>
  What a set 1 keyboard sends: a stroke is an extended flag, a make code and a direction; its bytes
  are the optional prefix 0xE0 and the code, with the top bit set on release.
\<close>

type_synonym stroke = "bool \<times> u8 \<times> kbd_eventtype"

definition stroke_table :: "bool \<Rightarrow> kbd_keycode list" where
  "stroke_table x = (if x then kbd_ext_keycodes else kbd_reg_keycodes)"

definition stroke_code :: "stroke \<Rightarrow> u8" where
  "stroke_code = (\<lambda>(x, c, t). if t = KEY_RELEASED then c + 0x80 else c)"

definition stroke_bytes :: "stroke \<Rightarrow> u8 list" where
  "stroke_bytes s = (if fst s then [0xE0] else []) @ [stroke_code s]"

definition stroke_event :: "stroke \<Rightarrow> kbd_event" where
  "stroke_event = (\<lambda>(x, c, t). \<lparr>evt_type = t, key = stroke_table x ! unat c\<rparr>)"

text \<open>The strokes of the keys the driver has a key code for.\<close>

definition known_stroke :: "stroke \<Rightarrow> bool" where
  "known_stroke = (\<lambda>(x, c, t). unat c < length (stroke_table x) \<and> stroke_table x ! unat c \<noteq> UNKNOWN)"

lemma length_fill_from [simp]: "length (fill_from t i ks) = length t"
  by (induction ks arbitrary: t i) simp_all

lemma length_designated [simp]: "length (designated n inits) = n"
proof -
  have "length (foldl (\<lambda>t (i, ks). fill_from t i ks) t inits) = length t" for t
    by (induction inits arbitrary: t) (auto split: prod.splits)
  then show ?thesis by (simp add: designated_def)
qed

lemma length_stroke_table [simp]: "length (stroke_table x) = (if x then 0x6E else 0x59)"
  by (simp add: stroke_table_def kbd_ext_keycodes_def kbd_reg_keycodes_def)

lemma table_0: "stroke_table x ! 0 = UNKNOWN"
  by (simp add: stroke_table_def kbd_ext_keycodes_def kbd_reg_keycodes_def designated_def)

lemma ext_0x60: "kbd_ext_keycodes ! 0x60 = UNKNOWN"
  by (simp add: kbd_ext_keycodes_def designated_def)

lemma known_strokeD:
  assumes "known_stroke (x, c, t)"
  shows "0 < unat c" "unat c < 0x6E" "unat c \<noteq> 0x60" "unat c < length (stroke_table x)"
    "stroke_table x ! unat c \<noteq> UNKNOWN"
proof -
  have k: "unat c < length (stroke_table x)" "stroke_table x ! unat c \<noteq> UNKNOWN"
    using assms unfolding known_stroke_def prod.case by blast+
  show "0 < unat c" using k(2) table_0 [of x] by (metis gr0I)
  show "unat c < 0x6E" using k(1) by (simp split: if_splits)
  show "unat c \<noteq> 0x60"
  proof
    assume c: "unat c = 0x60"
    with k(1) have "x" by (simp split: if_splits)
    with k(2) c show False using ext_0x60 by (simp add: stroke_table_def)
  qed
qed (use assms in \<open>unfold known_stroke_def prod.case, blast+\<close>)

text \<open>How the driver takes the last byte of a stroke.\<close>

lemma stroke_code_cases:
  assumes "known_stroke (x, c, t)"
  shows "stroke_code (x, c, t) \<noteq> 0xE0"
    and "(if stroke_code (x, c, t) > 0x80 then (KEY_RELEASED, stroke_code (x, c, t) - 0x80) else (KEY_PRESSED, stroke_code (x, c, t))) = (t, c)"
proof -
  note k = known_strokeD [OF assms]
  have u: "unat (c + 0x80) = unat c + 0x80" using k by (intro trans [OF unat_add_no_wrap]) simp_all
  have n: "c \<noteq> 0xE0" "\<not> c > 0x80" using k by (auto simp: word_less_nat_alt)
  have r: "c + 0x80 \<noteq> 0xE0" using k u by (auto dest: arg_cong [where f = unat])
  have g: "c + 0x80 > 0x80" using u k by (simp add: word_less_nat_alt)
  show "stroke_code (x, c, t) \<noteq> 0xE0" using n r by (simp add: stroke_code_def)
  show "(if stroke_code (x, c, t) > 0x80 then (KEY_RELEASED, stroke_code (x, c, t) - 0x80) else (KEY_PRESSED, stroke_code (x, c, t))) = (t, c)"
    using n g by (cases t) (simp_all add: stroke_code_def)
qed

definition after :: "kbd_event list \<Rightarrow> kbd_state \<Rightarrow> kbd_state" where
  "after es st = st\<lparr>modifiers := fold set_modifiers es (modifiers st), ext := False\<rparr>"

lemma kbd_scancode_stroke:
  assumes "known_stroke (x, c, t)" "ext st = x"
  shows "kbd_scancode (stroke_code (x, c, t)) evt st = Some (0, stroke_event (x, c, t), after [stroke_event (x, c, t)] st)"
proof -
  note k = known_strokeD [OF assms(1)]
  have "table_read (if ext st then kbd_ext_keycodes else kbd_reg_keycodes) c = Some (stroke_table x ! unat c)"
    using k(4) assms(2) by (simp add: table_read_def stroke_table_def)
  then show ?thesis
    using k(5) stroke_code_cases [OF assms(1)]
    by (simp add: kbd_scancode_def stroke_event_def after_def) (simp add: Let_def)
qed

lemma kbd_scancode_prefix: "\<not> ext st \<Longrightarrow> kbd_scancode 0xE0 evt st = Some (-2, evt, st\<lparr>ext := True\<rparr>)"
  by (simp add: kbd_scancode_def)

lemma after_ext [simp]: "\<not> ext (after es st)" "after es (st\<lparr>ext := x\<rparr>) = after es st"
  by (simp_all add: after_def)

section \<open>Reading a byte sequence\<close>

text \<open>The events the driver reports for a sequence of bytes.\<close>

fun kbd_feed :: "u8 list \<Rightarrow> kbd_event \<Rightarrow> kbd_state \<Rightarrow> (kbd_event list \<times> kbd_state) option" where
  "kbd_feed [] evt st = Some ([], st)"
| "kbd_feed (b # bs) evt st =
     do { (r, evt1, st1) \<leftarrow> kbd_scancode b evt st;
          (es, st2) \<leftarrow> kbd_feed bs evt1 st1;
          Some (if r = 0 then evt1 # es else es, st2) }"

lemma kbd_feed_stroke:
  assumes "known_stroke s" "\<not> ext st"
  shows "kbd_feed (stroke_bytes s @ bs) evt st =
    do { (es, st2) \<leftarrow> kbd_feed bs (stroke_event s) (after [stroke_event s] st); Some (stroke_event s # es, st2) }"
proof -
  obtain x c t where s: "s = (x, c, t)" by (metis prod_cases3)
  have "kbd_scancode (stroke_code s) evt (st\<lparr>ext := x\<rparr>) = Some (0, stroke_event s, after [stroke_event s] (st\<lparr>ext := x\<rparr>))"
    using kbd_scancode_stroke [of x c t "st\<lparr>ext := x\<rparr>" evt] assms(1) s by simp
  moreover have "st\<lparr>ext := False\<rparr> = st" using assms(2) by (cases st) simp
  ultimately show ?thesis
    using assms(2) by (cases x) (simp_all add: stroke_bytes_def s kbd_scancode_prefix)
qed

section \<open>Reading from the controller\<close>

definition data_reads :: "ports \<Rightarrow> nat" where
  "data_reads tr = length (filter (\<lambda>e. case e of In8 p v \<Rightarrow> p = PS2_DATA_PORT | _ \<Rightarrow> False) tr)"

text \<open>
  The controller's documented behaviour on a pending input \<open>bs\<close>: the status bit is set while bytes
  are left, and each read of the data port takes the next one.
\<close>

definition ps2_delivers :: "device \<Rightarrow> u8 list \<Rightarrow> bool" where
  "ps2_delivers dev bs \<longleftrightarrow>
     (\<forall>tr. data_reads tr < length bs \<longrightarrow>
        bit (dev tr PS2_STATUS_REGISTER_PORT) 0 \<and> ucast (dev tr PS2_DATA_PORT) = bs ! data_reads tr)"

lemma data_reads_simps [simp]:
  "data_reads [] = 0" "data_reads (xs @ ys) = data_reads xs + data_reads ys"
  "data_reads [In8 PS2_STATUS_REGISTER_PORT v] = 0" "data_reads [In8 PS2_DATA_PORT v] = 1"
  by (simp_all add: data_reads_def PS2_STATUS_REGISTER_PORT_def PS2_DATA_PORT_def)

lemma KBD_geteventbytype_byte:
  assumes dev: "ps2_delivers dev bs" and next_byte: "drop (data_reads tr) bs = b # rest"
  obtains tr' where "drop (data_reads tr') bs = rest"
    "KBD_geteventbytype dev ty evt st tr =
       do { (r, evt1, st1) \<leftarrow> kbd_scancode b evt st;
            if r = 0 \<and> evt_type evt1 = ty then Some (evt1, st1, tr') else KBD_geteventbytype dev ty evt1 st1 tr' }"
proof -
  have n: "data_reads tr < length bs" "bs ! data_reads tr = b" "drop (Suc (data_reads tr)) bs = rest"
    using next_byte by (metis drop_all linorder_not_less list.discI, metis hd_drop_conv_nth list.discI list.sel(1) drop_all linorder_not_less,
        metis drop_Suc list.sel(3) tl_drop)
  define v :: u8 where "v = ucast (dev tr PS2_STATUS_REGISTER_PORT)"
  define tr1 where "tr1 = tr @ [In8 PS2_STATUS_REGISTER_PORT v]"
  have "bit v 0" using dev n(1) by (simp add: ps2_delivers_def v_def bit_simps)
  then have "v AND 1 \<noteq> 0" by (metis and_one_eq bit_0 odd_one odd_iff_mod_2_eq_one zero_neq_one)
  then have wait: "KBD_wait dev tr = Some tr1"
    by (subst KBD_wait.simps) (simp add: KBD_poll_def port_read_u8_def Let_def tr1_def flip: v_def)
  have d: "data_reads tr1 = data_reads tr" by (simp add: tr1_def)
  then have get: "KBD_getevent dev evt st tr1 =
      do { (r, evt1, st1) \<leftarrow> kbd_scancode b evt st; Some (r, evt1, st1, tr1 @ [In8 PS2_DATA_PORT b]) }"
    using dev n(1,2) by (simp add: KBD_getevent_def port_read_u8_def Let_def ps2_delivers_def)
  show thesis
  proof
    show "drop (data_reads (tr1 @ [In8 PS2_DATA_PORT b])) bs = rest" using n(3) d by simp
    show "KBD_geteventbytype dev ty evt st tr =
       do { (r, evt1, st1) \<leftarrow> kbd_scancode b evt st;
            if r = 0 \<and> evt_type evt1 = ty then Some (evt1, st1, tr1 @ [In8 PS2_DATA_PORT b])
            else KBD_geteventbytype dev ty evt1 st1 (tr1 @ [In8 PS2_DATA_PORT b]) }"
      by (subst KBD_geteventbytype.simps) (simp add: wait get split: Option.bind_splits prod.splits)
  qed
qed

lemma KBD_geteventbytype_stroke:
  assumes dev: "ps2_delivers dev bs" and next_stroke: "drop (data_reads tr) bs = stroke_bytes s @ rest"
    and s: "known_stroke s" and st: "\<not> ext st"
  obtains tr' where "drop (data_reads tr') bs = rest"
    "KBD_geteventbytype dev ty evt st tr =
       (if evt_type (stroke_event s) = ty then Some (stroke_event s, after [stroke_event s] st, tr')
        else KBD_geteventbytype dev ty (stroke_event s) (after [stroke_event s] st) tr')"
proof -
  obtain x c t where sx: "s = (x, c, t)" by (metis prod_cases3)
  have sc: "kbd_scancode (stroke_code s) evt (st\<lparr>ext := x\<rparr>) = Some (0, stroke_event s, after [stroke_event s] st)" for evt
    using kbd_scancode_stroke [of x c t "st\<lparr>ext := x\<rparr>" evt] s sx by simp
  show thesis
  proof (cases x)
    case False
    then have "drop (data_reads tr) bs = stroke_code s # rest" using next_stroke by (simp add: stroke_bytes_def sx)
    from KBD_geteventbytype_byte [OF dev this, of ty evt st] obtain tr' where tr': "drop (data_reads tr') bs = rest"
      "KBD_geteventbytype dev ty evt st tr = do { (r, evt1, st1) \<leftarrow> kbd_scancode (stroke_code s) evt st;
            if r = 0 \<and> evt_type evt1 = ty then Some (evt1, st1, tr') else KBD_geteventbytype dev ty evt1 st1 tr' }" by blast
    moreover have "st\<lparr>ext := x\<rparr> = st" using st False by (cases st) simp
    ultimately show thesis using that sc by simp
  next
    case True
    then have "drop (data_reads tr) bs = 0xE0 # stroke_code s # rest" using next_stroke by (simp add: stroke_bytes_def sx)
    from KBD_geteventbytype_byte [OF dev this, of ty evt st] obtain tr1 where tr1: "drop (data_reads tr1) bs = stroke_code s # rest"
      "KBD_geteventbytype dev ty evt st tr = do { (r, evt1, st1) \<leftarrow> kbd_scancode 0xE0 evt st;
            if r = 0 \<and> evt_type evt1 = ty then Some (evt1, st1, tr1) else KBD_geteventbytype dev ty evt1 st1 tr1 }" by blast
    from KBD_geteventbytype_byte [OF dev tr1(1), of ty evt "st\<lparr>ext := True\<rparr>"] obtain tr' where "drop (data_reads tr') bs = rest"
      "KBD_geteventbytype dev ty evt (st\<lparr>ext := True\<rparr>) tr1 = do { (r, evt1, st1) \<leftarrow> kbd_scancode (stroke_code s) evt (st\<lparr>ext := True\<rparr>);
            if r = 0 \<and> evt_type evt1 = ty then Some (evt1, st1, tr') else KBD_geteventbytype dev ty evt1 st1 tr' }" by blast
    then show thesis using that tr1(2) kbd_scancode_prefix [OF st, of evt] sc True by simp
  qed
qed

lemma geteventbytype_strokes:
  assumes "ps2_delivers dev bs" "drop (data_reads tr) bs = concat (map stroke_bytes rs) @ stroke_bytes k @ rest"
    and "\<forall>s \<in> set rs. known_stroke s \<and> evt_type (stroke_event s) \<noteq> ty" "known_stroke k" "evt_type (stroke_event k) = ty" "\<not> ext st"
  shows "\<exists>tr'. KBD_geteventbytype dev ty evt st tr = Some (stroke_event k, after (map stroke_event (rs @ [k])) st, tr')
    \<and> drop (data_reads tr') bs = rest"
  using assms
proof (induction rs arbitrary: evt st tr)
  case Nil
  then have "drop (data_reads tr) bs = stroke_bytes k @ rest" by simp
  from KBD_geteventbytype_stroke [OF Nil.prems(1) this Nil.prems(4,6), of ty evt] Nil.prems(5) show ?case by auto
next
  case (Cons s rs)
  then have d: "drop (data_reads tr) bs = stroke_bytes s @ (concat (map stroke_bytes rs) @ stroke_bytes k @ rest)"
    and s: "known_stroke s" "evt_type (stroke_event s) \<noteq> ty" by simp_all
  from KBD_geteventbytype_stroke [OF Cons.prems(1) d s(1) Cons.prems(6), of ty evt] obtain tr' where
    tr': "drop (data_reads tr') bs = concat (map stroke_bytes rs) @ stroke_bytes k @ rest"
      "KBD_geteventbytype dev ty evt st tr = KBD_geteventbytype dev ty (stroke_event s) (after [stroke_event s] st) tr'"
    using s(2) by metis
  have eq: "after (map stroke_event ((s # rs) @ [k])) st = after (map stroke_event (rs @ [k])) (after [stroke_event s] st)"
    by (simp add: after_def)
  show ?case unfolding tr'(2) eq
    by (rule Cons.IH [OF Cons.prems(1) tr'(1) _ Cons.prems(4,5)]) (use Cons.prems(3) in simp_all)
qed

section \<open>Modifiers and layouts\<close>

lemma keys_distinct:
  "distinct [KEY_LEFT_SHIFT, KEY_RIGHT_SHIFT, KEY_CAPS_LOCK, KEY_NUMLOCK, KEY_LEFT_CTRL, KEY_RIGHT_CTRL, KEY_LEFT_ALT, KEY_RIGHT_ALT]"
  by (simp add: keycode_defs)

lemma set_modifiers_fields:
  "lshift (set_modifiers e mo) = (if key e = KEY_LEFT_SHIFT then evt_type e = KEY_PRESSED else lshift mo)"
  "rshift (set_modifiers e mo) = (if key e = KEY_RIGHT_SHIFT then evt_type e = KEY_PRESSED else rshift mo)"
  "lctrl (set_modifiers e mo) = (if key e = KEY_LEFT_CTRL then evt_type e = KEY_PRESSED else lctrl mo)"
  "rctrl (set_modifiers e mo) = (if key e = KEY_RIGHT_CTRL then evt_type e = KEY_PRESSED else rctrl mo)"
  "lalt (set_modifiers e mo) = (if key e = KEY_LEFT_ALT then evt_type e = KEY_PRESSED else lalt mo)"
  "ralt (set_modifiers e mo) = (if key e = KEY_RIGHT_ALT then evt_type e = KEY_PRESSED else ralt mo)"
  "numlock (set_modifiers e mo) = (numlock mo \<noteq> (e = \<lparr>evt_type = KEY_RELEASED, key = KEY_NUMLOCK\<rparr>))"
  "capslock (set_modifiers e mo) = (capslock mo \<noteq> (e = \<lparr>evt_type = KEY_RELEASED, key = KEY_CAPS_LOCK\<rparr>))"
  using keys_distinct by (cases e; auto simp: set_modifiers_def Let_def)+

text \<open>The direction of the last event of a key, if there was one.\<close>

definition last_dir :: "kbd_keycode \<Rightarrow> kbd_event list \<Rightarrow> bool \<Rightarrow> bool" where
  "last_dir k es d = (let fs = filter (\<lambda>e. key e = k) es in if fs = [] then d else evt_type (last fs) = KEY_PRESSED)"

lemma last_dir_snoc: "last_dir k (es @ [e]) d = (if key e = k then evt_type e = KEY_PRESSED else last_dir k es d)"
  by (simp add: last_dir_def Let_def)

lemma us_letters:
  "map (\<lambda>k. (reg (US104_getkeymapentry k), shift (US104_getkeymapentry k), flags (US104_getkeymapentry k)))
     [KEY_A, KEY_B, KEY_C, KEY_D, KEY_E, KEY_F, KEY_G, KEY_H, KEY_I, KEY_J, KEY_K, KEY_L, KEY_M,
      KEY_N, KEY_O, KEY_P, KEY_Q, KEY_R, KEY_S, KEY_T, KEY_U, KEY_V, KEY_W, KEY_X, KEY_Y, KEY_Z]
   = map (\<lambda>i. (of_nat (97 + i), of_nat (65 + i), 2)) [0..<26]"
  by code_simp

section \<open>The characters of the layouts\<close>

text \<open>The characters of a layout: NUL, the control characters of the editing keys and escape, and printable ASCII.\<close>

definition typable :: "u8 \<Rightarrow> bool" where
  "typable c \<longleftrightarrow> c \<in> {0, 8, 9, 10, 27} \<or> 32 \<le> c \<and> c \<le> 126"

definition typable_entry :: "kbd_keymap_entry \<Rightarrow> bool" where
  "typable_entry e \<longleftrightarrow> typable (reg e) \<and> typable (shift e) \<and> typable (altgr e)"

lemma layouts_typable: "typable_entry (US104_getkeymapentry kc)" "typable_entry (FR_getkeymapentry kc)"
proof -
  have e: "typable_entry empty_entry" by code_simp
  have get: "typable_entry (keymap_get m kc)" if "list_all (\<lambda>(_, e). typable_entry e) m" for m
  proof (cases "map_of m kc")
    case (Some e)
    then show ?thesis using that map_of_SomeD [OF Some] by (auto simp: keymap_get_def list_all_iff)
  qed (use e in \<open>simp add: keymap_get_def\<close>)
  have "list_all (\<lambda>(_, e). typable_entry e) US104_keymap" "list_all (\<lambda>(_, e). typable_entry e) FR_keymap" by code_simp+
  then show "typable_entry (US104_getkeymapentry kc)" "typable_entry (FR_getkeymapentry kc)"
    unfolding US104_getkeymapentry_def FR_getkeymapentry_def by (auto intro: get)
qed

section \<open>Correctness properties\<close>

text \<open>
  C18: the scan code state machine inverts the keyboard's encoding.  Fed the bytes of any sequence of
  known strokes (regular or extended, presses and releases), the driver reports exactly the events
  of those strokes, in order, ends outside the extended state, and has applied the
  modifier effect of each event.
\<close>

theorem kbd_decode_roundtrip:
  assumes "\<forall>s \<in> set ks. known_stroke s" "\<not> ext st"
  shows "kbd_feed (concat (map stroke_bytes ks)) evt st =
     Some (map stroke_event ks, st\<lparr>modifiers := fold set_modifiers (map stroke_event ks) (modifiers st)\<rparr>)"
  using assms
proof (induction ks arbitrary: evt st)
  case (Cons s ks)
  then have "kbd_feed (concat (map stroke_bytes ks)) (stroke_event s) (after [stroke_event s] st)
      = Some (map stroke_event ks, (after [stroke_event s] st)\<lparr>modifiers := fold set_modifiers (map stroke_event ks) (modifiers (after [stroke_event s] st))\<rparr>)"
    by (intro Cons.IH) simp_all
  moreover have "(after [stroke_event s] st)\<lparr>modifiers := m\<rparr> = st\<lparr>modifiers := m\<rparr>" for m
    using Cons.prems(2) by (cases st) (simp add: after_def)
  ultimately show ?case
    using Cons.prems by (simp add: kbd_feed_stroke) (simp add: after_def)
qed simp

theorem kbd_decode_roundtrip_witness:
  "kbd_feed [0x1E, 0xE0, 0x48, 0x9E] \<lparr>evt_type = KEY_PRESSED, key = UNKNOWN\<rparr> kbd_st_zero
   = Some ([\<lparr>evt_type = KEY_PRESSED, key = KEY_A\<rparr>, \<lparr>evt_type = KEY_PRESSED, key = KEY_CURSOR_UP\<rparr>,
            \<lparr>evt_type = KEY_RELEASED, key = KEY_A\<rparr>], kbd_st_zero)"
proof -
  let ?ks = "[(False, 0x1E, KEY_PRESSED), (True, 0x48, KEY_PRESSED), (False, 0x1E, KEY_RELEASED)] :: stroke list"
  have t: "kbd_reg_keycodes ! 0x1E = KEY_A" "kbd_ext_keycodes ! 0x48 = KEY_CURSOR_UP" by code_simp+
  have k: "\<forall>s \<in> set ?ks. known_stroke s" unfolding known_stroke_def by (simp add: stroke_table_def t keycode_defs) (simp add: kbd_reg_keycodes_def kbd_ext_keycodes_def)
  have "concat (map stroke_bytes ?ks) = [0x1E, 0xE0, 0x48, 0x9E]" by (simp add: stroke_bytes_def stroke_code_def)
  moreover have "map stroke_event ?ks = [\<lparr>evt_type = KEY_PRESSED, key = KEY_A\<rparr>, \<lparr>evt_type = KEY_PRESSED, key = KEY_CURSOR_UP\<rparr>,
            \<lparr>evt_type = KEY_RELEASED, key = KEY_A\<rparr>]" by (simp add: stroke_event_def stroke_table_def t)
  moreover have "kbd_st_zero\<lparr>modifiers := fold set_modifiers [\<lparr>evt_type = KEY_PRESSED, key = KEY_A\<rparr>, \<lparr>evt_type = KEY_PRESSED, key = KEY_CURSOR_UP\<rparr>,
            \<lparr>evt_type = KEY_RELEASED, key = KEY_A\<rparr>] (modifiers kbd_st_zero)\<rparr> = kbd_st_zero"
    by (simp add: kbd_st_zero_def set_modifiers_def keycode_defs)
  moreover have "\<not> ext kbd_st_zero" by (simp add: kbd_st_zero_def)
  ultimately show ?thesis using kbd_decode_roundtrip [OF k, of kbd_st_zero] by metis
qed

text \<open>
  \<^verbatim>\<open>KBD_geteventbytype\<close> returns.  If the controller delivers the bytes of some strokes of the other
  direction and then of a stroke \<open>k\<close> of the wanted one, all of known keys, the call ends with the event of
  \<open>k\<close>, with the modifiers updated by every stroke it consumed, and with the bytes after \<open>k\<close> still to be read.
\<close>

theorem kbd_geteventbytype_returns:
  assumes "ps2_delivers dev bs" "drop (data_reads tr) bs = concat (map stroke_bytes rs) @ stroke_bytes k @ rest"
    and "\<forall>s \<in> set rs. known_stroke s \<and> evt_type (stroke_event s) \<noteq> ty" "known_stroke k" "evt_type (stroke_event k) = ty" "\<not> ext st"
  shows "\<exists>tr'. KBD_geteventbytype dev ty evt st tr =
      Some (stroke_event k, st\<lparr>modifiers := fold set_modifiers (map stroke_event (rs @ [k])) (modifiers st)\<rparr>, tr')
    \<and> drop (data_reads tr') bs = rest"
proof -
  have "after es st = st\<lparr>modifiers := fold set_modifiers es (modifiers st)\<rparr>" for es
    using assms(6) by (cases st) (simp add: after_def)
  then show ?thesis using geteventbytype_strokes [OF assms, of evt] by simp
qed

definition demo_ps2 :: "u8 list \<Rightarrow> device" where
  "demo_ps2 bs tr p = (if p = PS2_DATA_PORT then ucast (bs ! data_reads tr) else if data_reads tr < length bs then 1 else 0)"

theorem kbd_geteventbytype_returns_witness:
  "\<exists>tr'. KBD_geteventbytype (demo_ps2 [0x9E, 0xE0, 0x48, 0x1C]) KEY_PRESSED \<lparr>evt_type = KEY_PRESSED, key = UNKNOWN\<rparr> kbd_st_zero [] =
      Some (\<lparr>evt_type = KEY_PRESSED, key = KEY_CURSOR_UP\<rparr>, kbd_st_zero, tr') \<and> drop (data_reads tr') [0x9E, 0xE0, 0x48, 0x1C :: u8] = [0x1C]"
proof -
  let ?bs = "[0x9E, 0xE0, 0x48, 0x1C] :: u8 list"
  let ?r = "(False, 0x1E, KEY_RELEASED) :: stroke" and ?k = "(True, 0x48, KEY_PRESSED) :: stroke"
  have t: "kbd_reg_keycodes ! 0x1E = KEY_A" "kbd_ext_keycodes ! 0x48 = KEY_CURSOR_UP" by code_simp+
  have k: "known_stroke ?r" "known_stroke ?k"
    unfolding known_stroke_def by (simp_all add: stroke_table_def t keycode_defs) (simp_all add: kbd_reg_keycodes_def kbd_ext_keycodes_def)
  have e: "stroke_event ?r = \<lparr>evt_type = KEY_RELEASED, key = KEY_A\<rparr>" "stroke_event ?k = \<lparr>evt_type = KEY_PRESSED, key = KEY_CURSOR_UP\<rparr>"
    by (simp_all add: stroke_event_def stroke_table_def t)
  have "ps2_delivers (demo_ps2 ?bs) ?bs"
    unfolding ps2_delivers_def demo_ps2_def by (simp add: PS2_DATA_PORT_def PS2_STATUS_REGISTER_PORT_def ucast_u16_u8)
  moreover have "drop (data_reads []) ?bs = concat (map stroke_bytes [?r]) @ stroke_bytes ?k @ [0x1C]"
    by (simp add: stroke_bytes_def stroke_code_def)
  moreover have "\<forall>s \<in> set [?r]. known_stroke s \<and> evt_type (stroke_event s) \<noteq> KEY_PRESSED" using k(1) by (simp add: e)
  moreover have "kbd_st_zero\<lparr>modifiers := fold set_modifiers (map stroke_event ([?r] @ [?k])) (modifiers kbd_st_zero)\<rparr> = kbd_st_zero"
    by (simp add: e kbd_st_zero_def set_modifiers_def keycode_defs)
  moreover have "\<not> ext kbd_st_zero" by (simp add: kbd_st_zero_def)
  ultimately show ?thesis
    using kbd_geteventbytype_returns [of "demo_ps2 ?bs" ?bs "[]" "[?r]" ?k "[0x1C]" KEY_PRESSED kbd_st_zero "\<lparr>evt_type = KEY_PRESSED, key = UNKNOWN\<rparr>"] k(2)
    by (simp only: e kbd_event.simps simp_thms)
qed

text \<open>
  C31: the modifier state is a function of the event history, in all of its eight fields.  After any events, each shift, control and alt key
  counts as held exactly if its last event was a press, and caps lock and num lock are each on exactly if
  their key was released an odd number of times since they were off.
\<close>

theorem kbd_modifiers_track:
  "lshift (fold set_modifiers es mo) = last_dir KEY_LEFT_SHIFT es (lshift mo)
   \<and> rshift (fold set_modifiers es mo) = last_dir KEY_RIGHT_SHIFT es (rshift mo)
   \<and> lctrl (fold set_modifiers es mo) = last_dir KEY_LEFT_CTRL es (lctrl mo)
   \<and> rctrl (fold set_modifiers es mo) = last_dir KEY_RIGHT_CTRL es (rctrl mo)
   \<and> lalt (fold set_modifiers es mo) = last_dir KEY_LEFT_ALT es (lalt mo)
   \<and> ralt (fold set_modifiers es mo) = last_dir KEY_RIGHT_ALT es (ralt mo)
   \<and> numlock (fold set_modifiers es mo) =
       (numlock mo \<noteq> odd (count_list es \<lparr>evt_type = KEY_RELEASED, key = KEY_NUMLOCK\<rparr>))
   \<and> capslock (fold set_modifiers es mo) =
       (capslock mo \<noteq> odd (count_list es \<lparr>evt_type = KEY_RELEASED, key = KEY_CAPS_LOCK\<rparr>))"
proof (induction es rule: rev_induct)
  case Nil
  then show ?case by (simp add: last_dir_def)
next
  case (snoc e es)
  then show ?case by (simp add: set_modifiers_fields last_dir_snoc)
qed

text \<open>
  On the US layout with the right alt key up, the key of the \<open>i\<close>-th letter gives that letter, in upper
  case exactly if caps lock and shift disagree.
\<close>

definition us_letter :: "nat \<Rightarrow> kbd_keycode" where
  "us_letter i = [KEY_A, KEY_B, KEY_C, KEY_D, KEY_E, KEY_F, KEY_G, KEY_H, KEY_I, KEY_J, KEY_K, KEY_L, KEY_M,
     KEY_N, KEY_O, KEY_P, KEY_Q, KEY_R, KEY_S, KEY_T, KEY_U, KEY_V, KEY_W, KEY_X, KEY_Y, KEY_Z] ! i"

theorem kbd_getchar_us_letters:
  assumes "i < 26" "getkeymapentry st = getkeymapentry (KBD_initialize st)" "key evt = us_letter i" "\<not> ralt (modifiers st)"
  shows "KBD_getchar evt st =
     (if capslock (modifiers st) \<noteq> (lshift (modifiers st) \<or> rshift (modifiers st)) then of_nat (65 + i) else of_nat (97 + i))"
proof -
  let ?e = "US104_getkeymapentry (us_letter i)"
  have "reg ?e = of_nat (97 + i) \<and> shift ?e = of_nat (65 + i) \<and> flags ?e = 2"
    using arg_cong [OF us_letters, of "\<lambda>xs. xs ! i"] assms(1) by (simp add: us_letter_def del: map_map list.map)
  moreover have "(of_nat (97 + i) :: u8) \<noteq> 0"
    using assms(1) of_nat_word_inj [of "97 + i" 0, where ?'a = 8] by simp
  ultimately show ?thesis
    using assms by (auto simp: KBD_getchar_def KBD_initialize_def KBD_setkeymap_def HAS_NO_MODIFIERS_def HAS_CAPSLOCK_EFFECT_def Let_def)
qed

theorem kbd_getchar_us_letters_witness:
  "KBD_getchar \<lparr>evt_type = KEY_PRESSED, key = KEY_K\<rparr> (KBD_initialize kbd_st_zero) = of_char (CHR ''k'')"
  using kbd_getchar_us_letters [of 10 "KBD_initialize kbd_st_zero" "\<lparr>evt_type = KEY_PRESSED, key = KEY_K\<rparr>"]
  by (simp add: us_letter_def KBD_initialize_def KBD_setkeymap_def kbd_st_zero_def)

text \<open>
  On the French layout the characters percent and star on the shifted quote and backslash keys
  cannot be typed: \<^verbatim>\<open>KBD_getchar\<close> gives up when the regular form is 0 and never looks at the shifted
  one.  And caps lock does not act on the letter m, whose entry lacks the flag, but does act on the
  comma key.
\<close>

theorem kbd_getchar_fr_gaps:
  "shift (FR_getkeymapentry KEY_SINGLE_QUOTE) = of_char (CHR ''%'')
   \<and> shift (FR_getkeymapentry KEY_BACKSLASH) = of_char (CHR ''*'')
   \<and> KBD_getchar \<lparr>evt_type = ty, key = KEY_SINGLE_QUOTE\<rparr> (KBD_setkeymap FR_getkeymapentry st) = 0
   \<and> KBD_getchar \<lparr>evt_type = ty, key = KEY_BACKSLASH\<rparr> (KBD_setkeymap FR_getkeymapentry st) = 0
   \<and> (let caps = KBD_setkeymap FR_getkeymapentry (kbd_st_zero\<lparr>modifiers := (modifiers kbd_st_zero)\<lparr>capslock := True\<rparr>\<rparr>) in
        KBD_getchar \<lparr>evt_type = ty, key = KEY_COLON\<rparr> caps = of_char (CHR ''m'')
        \<and> KBD_getchar \<lparr>evt_type = ty, key = KEY_M\<rparr> caps = of_char (CHR ''?''))"
proof -
  have e: "FR_getkeymapentry KEY_SINGLE_QUOTE = entry4 0 (CHR 0x00) (CHR ''%'') (CHR 0x00)"
    "FR_getkeymapentry KEY_BACKSLASH = entry4 0 (CHR 0x00) (CHR ''*'') (CHR 0x00)"
    "FR_getkeymapentry KEY_COLON = entry4 0 (CHR ''m'') (CHR ''M'') (CHR 0x00)"
    "FR_getkeymapentry KEY_M = entry4 CAPSLOCK (CHR '','') (CHR ''?'') (CHR 0x00)"
    by (simp_all add: FR_getkeymapentry_def keymap_get_def FR_keymap_def keycode_defs)
  show ?thesis
    by (simp add: e entry4_def KBD_getchar_def KBD_setkeymap_def kbd_st_zero_def HAS_NO_MODIFIERS_def HAS_CAPSLOCK_EFFECT_def CAPSLOCK_def Let_def)
qed

text \<open>
  C40: the scan codes for which \<^verbatim>\<open>KBD_getevent\<close> reads past its table are exactly the ones whose code, less
  the release bit, is 0x59 or more (0x6E or more in the extended state).  They include the
  controller's own replies, such as the acknowledgement 0xFA.
\<close>

theorem kbd_scancode_out_of_range:
  "kbd_scancode sc evt st = None \<longleftrightarrow>
     sc \<noteq> 0xE0 \<and> (if ext st then 0x6E else 0x59) \<le> unat (if sc > 0x80 then sc - 0x80 else sc)"
proof -
  have l: "length (if ext st then kbd_ext_keycodes else kbd_reg_keycodes) = (if ext st then 0x6E else 0x59)"
    using length_stroke_table [of "ext st"] by (simp only: stroke_table_def)
  show ?thesis
    by (cases "sc > 0x80") (auto simp: kbd_scancode_def table_read_def l Let_def not_less split: if_splits)
qed

text \<open>
  C36: the type of the characters.  Whatever key is pressed and whatever modifiers are held, with either layout or none installed, \<^verbatim>\<open>KBD_getchar\<close> gives NUL, one of backspace,
  tabulation, newline and escape, or a printable ASCII character: the shell never sees any other control character, nor a byte of the upper half, which
  \<^verbatim>\<open>char\<close> would make negative.
\<close>

theorem kbd_getchar_typable:
  assumes "getkeymapentry st \<in> {None, Some US104_getkeymapentry, Some FR_getkeymapentry}"
  shows "typable (KBD_getchar evt st)"
proof (cases "getkeymapentry st")
  case None
  then show ?thesis by (simp add: KBD_getchar_def typable_def)
next
  case (Some f)
  then have "typable_entry (f (key evt))" using assms layouts_typable by auto
  moreover have "typable 0" by (simp add: typable_def)
  ultimately show ?thesis using Some by (simp add: KBD_getchar_def typable_entry_def Let_def)
qed

theorem kbd_getchar_typable_witness: "typable (KBD_getchar \<lparr>evt_type = KEY_PRESSED, key = KEY_K\<rparr> (KBD_initialize kbd_st_zero))"
  using kbd_getchar_typable [of "KBD_initialize kbd_st_zero"] by (simp add: KBD_initialize_def KBD_setkeymap_def)

end
