(* ===== verification/Kpm.thy ===== *)
theory Kpm
  imports Lib_Mem
begin

text \<open>
  The kernel physical memory manager, \<^verbatim>\<open>src/kernel/memory/kpm.c\<close> with the structures and
  macros of \<^verbatim>\<open>src/include/kernel/kpm.h\<close>: a buddy allocator whose eleven orders are bitmaps
  in memory.  This theory holds the definitions and the lemmas on single bits and on
  \<^verbatim>\<open>kpm_update_order\<close>; \<^verbatim>\<open>Kpm_Correct\<close> proves the operations correct.

  The \<^verbatim>\<open>buddy_t\<close> structure is a record; its \<^verbatim>\<open>bitmap_t *\<close> fields stay addresses into the flat
  memory, so that bitmaps alias wherever their addresses do.  \<^verbatim>\<open>kpm_update_order\<close> advances an
  address that can wrap around at 4 GiB, so it is partial: \<open>None\<close> means it never returns.
\<close>

unbundle bit_operations_syntax

section \<open>Constants, macros and structures (kpm.h)\<close>

definition PAGE_SIZE :: u32 where "PAGE_SIZE = 4096"

definition KPM_NORDERS :: nat where "KPM_NORDERS = 11"

definition ALIGN :: "u32 \<Rightarrow> u32 \<Rightarrow> u32" where
  "ALIGN x align = x AND (0xffffffff XOR (align - 1))"

definition ALIGNNEXT :: "u32 \<Rightarrow> u32 \<Rightarrow> u32" where
  "ALIGNNEXT x align = (x + (align - 1)) AND (0xffffffff XOR (align - 1))"

definition ALIGNNEXTFORCE :: "u32 \<Rightarrow> u32 \<Rightarrow> u32" where
  "ALIGNNEXTFORCE x align = (x + align) AND (0xffffffff XOR (align - 1))"

definition ISALIGNED :: "u32 \<Rightarrow> u32 \<Rightarrow> bool" where
  "ISALIGNED x align \<longleftrightarrow> x AND (align - 1) = 0"

definition KPM_NBYTES_FROM_NBITS :: "u32 \<Rightarrow> u32" where
  "KPM_NBYTES_FROM_NBITS n = ALIGNNEXT n 8 div 8"

record order_t =
  bitmap :: ptr
  order_size :: u32

record buddy_t =
  nframes :: u32
  buddy_size :: u32
  enabled_frames :: ptr
  orders :: "order_t list"

record kpm_chunk =
  chunk_addr :: ptr
  chunk_size :: u32

text \<open>The global \<^verbatim>\<open>buddy\<close> pointer, the structure it points to and the memory of the bitmaps.\<close>

record kpm =
  buddy_addr :: ptr
  buddy :: buddy_t
  kmem :: mem

text \<open>The \<^verbatim>\<open>multiboot_mmap_entry\<close> of \<^verbatim>\<open>multiboot.h\<close>.\<close>

record mmap_entry =
  entry_size :: u32
  entry_addr :: u64
  entry_len :: u64
  entry_type :: u32

definition MULTIBOOT_MEMORY_AVAILABLE :: u32 where "MULTIBOOT_MEMORY_AVAILABLE = 1"

definition KERNEL_VIRT_OFFSET :: u32 where "KERNEL_VIRT_OFFSET = 0xC0000000"

text \<open>\<^verbatim>\<open>sizeof(buddy_t)\<close> on i386: three words and eleven pairs of words.\<close>

definition sizeof_buddy_t :: u32 where "sizeof_buddy_t = 100"

definition KPM_ALLOC :: "nat \<Rightarrow> u32 \<Rightarrow> kpm \<Rightarrow> kpm" where
  "KPM_ALLOC n i s =
     (let a = bitmap (orders (buddy s) ! n) + i div 8
      in s\<lparr>kmem := (kmem s)(a := kmem s a OR push_bit (unat (i mod 8)) 1)\<rparr>)"

definition KPM_FREE :: "nat \<Rightarrow> u32 \<Rightarrow> kpm \<Rightarrow> kpm" where
  "KPM_FREE n i s =
     (let a = bitmap (orders (buddy s) ! n) + i div 8
      in s\<lparr>kmem := (kmem s)(a := kmem s a AND NOT (push_bit (unat (i mod 8)) 1))\<rparr>)"

definition KPM_GET :: "nat \<Rightarrow> u32 \<Rightarrow> kpm \<Rightarrow> u8" where
  "KPM_GET n i s =
     kmem s (bitmap (orders (buddy s) ! n) + i div 8) AND push_bit (unat (i mod 8)) 1"

definition KPM_IS_ALLOCATED :: "nat \<Rightarrow> u32 \<Rightarrow> kpm \<Rightarrow> bool" where
  "KPM_IS_ALLOCATED n i s \<longleftrightarrow> KPM_GET n i s \<noteq> 0"

definition KPM_ENABLE :: "u32 \<Rightarrow> kpm \<Rightarrow> kpm" where
  "KPM_ENABLE i s =
     (let a = enabled_frames (buddy s) + i div 8
      in s\<lparr>kmem := (kmem s)(a := kmem s a OR push_bit (unat (i mod 8)) 1)\<rparr>)"

definition KPM_DISABLE :: "u32 \<Rightarrow> kpm \<Rightarrow> kpm" where
  "KPM_DISABLE i s =
     (let a = enabled_frames (buddy s) + i div 8
      in s\<lparr>kmem := (kmem s)(a := kmem s a AND NOT (push_bit (unat (i mod 8)) 1))\<rparr>)"

definition KPM_IS_ENABLED :: "u32 \<Rightarrow> kpm \<Rightarrow> bool" where
  "KPM_IS_ENABLED i s \<longleftrightarrow>
     kmem s (enabled_frames (buddy s) + i div 8) AND push_bit (unat (i mod 8)) 1 \<noteq> 0"

section \<open>Operations (kpm.c)\<close>

text \<open>
  The body and the loop of \<^verbatim>\<open>kpm_update_order\<close>; \<open>base\<close> moves to the next block boundary,
  modulo the size of the address space.
\<close>

definition kpm_update_block :: "nat \<Rightarrow> ptr \<Rightarrow> kpm \<Rightarrow> kpm" where
  "kpm_update_block n base s =
     (let index = drop_bit n base div PAGE_SIZE;
          lchild_index = index * 2;
          rchild_index = lchild_index + 1
      in if KPM_IS_ALLOCATED (n - 1) lchild_index s \<or> KPM_IS_ALLOCATED (n - 1) rchild_index s
         then KPM_ALLOC n index s
         else KPM_FREE n index s)"

partial_function (option) kpm_update_order_loop ::
    "nat \<Rightarrow> u32 \<Rightarrow> ptr \<Rightarrow> ptr \<Rightarrow> kpm \<Rightarrow> kpm option" where
  "kpm_update_order_loop n order_block_size e base s =
     (if base < e
      then kpm_update_order_loop n order_block_size e (ALIGNNEXTFORCE base order_block_size)
             (kpm_update_block n base s)
      else Some s)"

declare kpm_update_order_loop.simps [code]

definition kpm_update_order :: "nat \<Rightarrow> ptr \<Rightarrow> u32 \<Rightarrow> kpm \<Rightarrow> kpm option" where
  "kpm_update_order n base limit s =
     kpm_update_order_loop n (PAGE_SIZE * push_bit n 1) (base + limit) base s"

text \<open>\<^verbatim>\<open>for (size_t n = 1; n < KPM_NORDERS; n++) kpm_update_order(n, base, limit);\<close>\<close>

fun kpm_update_orders :: "nat list \<Rightarrow> ptr \<Rightarrow> u32 \<Rightarrow> kpm \<Rightarrow> kpm option" where
  "kpm_update_orders [] base limit s = Some s"
| "kpm_update_orders (n # ns) base limit s =
     do { s' \<leftarrow> kpm_update_order n base limit s; kpm_update_orders ns base limit s' }"

definition kpm_enable :: "ptr \<Rightarrow> u32 \<Rightarrow> kpm \<Rightarrow> kpm option" where
  "kpm_enable base limit0 s =
     (if \<not> ISALIGNED base PAGE_SIZE then Some s
      else
        let limit1 = ALIGN limit0 PAGE_SIZE;
            base_index = base div PAGE_SIZE;
            limit = (if (base + limit1) div PAGE_SIZE > nframes (buddy s)
                     then nframes (buddy s) * PAGE_SIZE - base else limit1);
            s1 = fold (\<lambda>i s. KPM_FREE 0 (base_index + of_nat i) (KPM_ENABLE (base_index + of_nat i) s))
                   [0..<unat (limit div PAGE_SIZE)] s
        in kpm_update_orders [1..<KPM_NORDERS] base limit s1)"

definition kpm_disable :: "ptr \<Rightarrow> u32 \<Rightarrow> kpm \<Rightarrow> kpm option" where
  "kpm_disable base limit0 s =
     (if \<not> ISALIGNED base PAGE_SIZE then Some s
      else
        let limit1 = (if \<not> ISALIGNED limit0 PAGE_SIZE then ALIGNNEXT limit0 PAGE_SIZE else limit0);
            base_index = base div PAGE_SIZE;
            limit = (if (base + limit1) div PAGE_SIZE > nframes (buddy s)
                     then nframes (buddy s) * PAGE_SIZE - base else limit1);
            s1 = fold (\<lambda>i s. KPM_ALLOC 0 (base_index + of_nat i) (KPM_DISABLE (base_index + of_nat i) s))
                   [0..<unat (limit div PAGE_SIZE)] s
        in kpm_update_orders [1..<KPM_NORDERS] base limit s1)"

definition kpm_isenabled :: "ptr \<Rightarrow> kpm \<Rightarrow> bool" where
  "kpm_isenabled addr s = KPM_IS_ENABLED (addr div PAGE_SIZE) s"

definition kpm_isalloc :: "ptr \<Rightarrow> kpm \<Rightarrow> bool" where
  "kpm_isalloc addr s = KPM_IS_ALLOCATED 0 (addr div PAGE_SIZE) s"

definition find_best_fit_order :: "u32 \<Rightarrow> nat" where
  "find_best_fit_order sz =
     (let n = unat (ALIGNNEXT sz PAGE_SIZE div PAGE_SIZE)
      in case find (\<lambda>k. 2 ^ k \<ge> n) [0..<KPM_NORDERS] of
           Some k \<Rightarrow> k
         | None \<Rightarrow> KPM_NORDERS - 1)"

text \<open>\<^verbatim>\<open>__builtin_ffs\<close>: one plus the index of the lowest set bit, 0 for a zero argument.\<close>

definition builtin_ffs :: "u8 \<Rightarrow> nat" where
  "builtin_ffs x = (case find (bit x) [0..<8] of None \<Rightarrow> 0 | Some k \<Rightarrow> Suc k)"

fun bitmap_ffu_loop :: "mem \<Rightarrow> ptr \<Rightarrow> nat \<Rightarrow> nat \<Rightarrow> int" where
  "bitmap_ffu_loop m bm i 0 = -1"
| "bitmap_ffu_loop m bm i (Suc k) =
     (let ffu = builtin_ffs (NOT (m (bm + of_nat i)))
      in if ffu \<noteq> 0 then int ffu + int i * 8 - 1 else bitmap_ffu_loop m bm (Suc i) k)"

definition bitmap_ffu :: "mem \<Rightarrow> ptr \<Rightarrow> u32 \<Rightarrow> int" where
  "bitmap_ffu m bm sz = bitmap_ffu_loop m bm 0 (unat sz)"

text \<open>
  The order loop of \<^verbatim>\<open>kpm_alloc\<close>, from order \<open>Suc o'\<close> - 1 down to 0.  The result is the C return
  value, the chunk the caller passed (filled on success) and the new state.
\<close>

fun kpm_alloc_loop :: "nat \<Rightarrow> kpm_chunk \<Rightarrow> kpm \<Rightarrow> (int \<times> kpm_chunk \<times> kpm) option" where
  "kpm_alloc_loop 0 chunk s = Some (-1, chunk, s)"
| "kpm_alloc_loop (Suc n) chunk s =
     (let i = bitmap_ffu (kmem s) (bitmap (orders (buddy s) ! n)) (order_size (orders (buddy s) ! n))
      in if i \<ge> 0 then
           let frames_per_block = push_bit n (1 :: u32);
               base_index = of_int i * frames_per_block;
               s1 = fold (\<lambda>j. KPM_ALLOC 0 (base_index + of_nat j)) [0..<unat frames_per_block] s;
               chunk' = \<lparr>chunk_addr = of_int i * PAGE_SIZE * frames_per_block,
                         chunk_size = PAGE_SIZE * frames_per_block\<rparr>
           in do { s2 \<leftarrow> kpm_update_orders [1..<KPM_NORDERS] (chunk_addr chunk') (chunk_size chunk') s1;
                   Some (0, chunk', s2) }
         else kpm_alloc_loop n chunk s)"

definition kpm_alloc :: "kpm_chunk \<Rightarrow> u32 \<Rightarrow> kpm \<Rightarrow> (int \<times> kpm_chunk \<times> kpm) option" where
  "kpm_alloc chunk sz s = kpm_alloc_loop (Suc (find_best_fit_order sz)) chunk s"

definition kpm_free :: "kpm_chunk \<Rightarrow> kpm \<Rightarrow> kpm option" where
  "kpm_free chunk s =
     (if \<not> ISALIGNED (chunk_addr chunk) PAGE_SIZE then Some s
      else
        let first_frame_index = chunk_addr chunk div PAGE_SIZE;
            n = ALIGNNEXT (chunk_size chunk) PAGE_SIZE div PAGE_SIZE;
            s1 = fold (\<lambda>i s. if KPM_IS_ENABLED (of_nat i) s then KPM_FREE 0 (of_nat i) s else s)
                   [unat first_frame_index..<unat (first_frame_index + n)] s
        in kpm_update_orders [1..<KPM_NORDERS] (chunk_addr chunk) (chunk_size chunk) s1)"

text \<open>The two layout loops of \<^verbatim>\<open>kpm_init\<close>: order sizes and bitmap addresses.\<close>

fun kpm_order_sizes :: "nat \<Rightarrow> u32 \<Rightarrow> u32 list" where
  "kpm_order_sizes 0 nblocks = []"
| "kpm_order_sizes (Suc k) nblocks =
     KPM_NBYTES_FROM_NBITS nblocks # kpm_order_sizes k (nblocks div 2)"

fun kpm_order_bitmaps :: "nat \<Rightarrow> ptr \<Rightarrow> u32 \<Rightarrow> ptr list" where
  "kpm_order_bitmaps 0 p nblocks = []"
| "kpm_order_bitmaps (Suc k) p nblocks =
     p # kpm_order_bitmaps k (p + KPM_NBYTES_FROM_NBITS nblocks) (nblocks div 2)"

text \<open>
  The walk over the boot loader's memory map.  It stops at an entry of size 0; a map with no
  such entry leaves the list, and the model returns \<open>None\<close> there.
\<close>

fun kpm_init_entries :: "mmap_entry list \<Rightarrow> kpm \<Rightarrow> kpm option" where
  "kpm_init_entries [] s = None"
| "kpm_init_entries (e # es) s =
     (if entry_size e = 0 then Some s
      else if entry_type e = MULTIBOOT_MEMORY_AVAILABLE
      then do { s' \<leftarrow> kpm_enable (ucast (entry_addr e)) (ucast (entry_len e)) s;
                kpm_init_entries es s' }
      else kpm_init_entries es s)"

text \<open>The structure and the bitmaps right after the two \<^verbatim>\<open>memset\<close> calls.\<close>

definition kpm_init_layout :: "ptr \<Rightarrow> u32 \<Rightarrow> mem \<Rightarrow> kpm" where
  "kpm_init_layout ek memkb m =
     (let b = ALIGNNEXT ek PAGE_SIZE;
          nf = ALIGN (memkb * 1024 div PAGE_SIZE) 1024;
          enabled_frames_size = KPM_NBYTES_FROM_NBITS nf;
          sizes = kpm_order_sizes KPM_NORDERS nf;
          total_orders_size = sum_list sizes;
          ef = b + sizeof_buddy_t;
          bitmaps = kpm_order_bitmaps KPM_NORDERS (ef + enabled_frames_size) nf;
          m1 = fst (memset m ef 0 enabled_frames_size);
          m2 = fst (memset m1 (bitmaps ! 0) 0xff total_orders_size)
      in \<lparr>buddy_addr = b,
          buddy = \<lparr>nframes = nf,
                   buddy_size = sizeof_buddy_t + enabled_frames_size + total_orders_size,
                   enabled_frames = ef,
                   orders = map2 (\<lambda>p z. \<lparr>bitmap = p, order_size = z\<rparr>) bitmaps sizes\<rparr>,
          kmem = m2\<rparr>)"

definition kpm_init :: "ptr \<Rightarrow> ptr \<Rightarrow> mmap_entry list \<Rightarrow> u32 \<Rightarrow> mem \<Rightarrow> kpm option" where
  "kpm_init sk ek entries memkb m =
     do { s1 \<leftarrow> kpm_init_entries entries (kpm_init_layout ek memkb m);
          s2 \<leftarrow> kpm_disable 0 PAGE_SIZE s1;
          s3 \<leftarrow> kpm_disable sk ((ek - KERNEL_VIRT_OFFSET) - sk) s2;
          kpm_disable (buddy_addr s3 - KERNEL_VIRT_OFFSET) (buddy_size (buddy s3)) s3 }"

end
