(* ===== verification/Descriptors.thy ===== *)
theory Descriptors
  imports Machine
begin

text \<open>
  The segment and interrupt descriptor tables, \<^verbatim>\<open>src/kernel/gdt.c\<close> with \<^verbatim>\<open>gdt_internal.h\<close> and
  \<^verbatim>\<open>src/kernel/idt.c\<close> with \<^verbatim>\<open>idt_internal.h\<close>.  Both tables are packed structures at fixed addresses
  of the flat memory (the interrupt table at 0, the segment table at 0x800), so the model writes
  their fields through 16-bit and 8-bit stores and the properties read them back the way the
  processor does.  The addresses of the interrupt handlers are parameters: the linker chooses them.
\<close>

unbundle bit_operations_syntax

section \<open>Definitions\<close>

subsection \<open>The segment table\<close>

definition GDT_BASE_ADDRESS :: u32 where "GDT_BASE_ADDRESS = 0x800"
definition GDT_SIZE :: u32 where "GDT_SIZE = 6"
definition GDT_KERNEL_LIMIT :: u32 where "GDT_KERNEL_LIMIT = 0xFFFF"
definition GDT_USER_LIMIT :: u32 where "GDT_USER_LIMIT = 0xFFFF"
definition GDT_GRAN_BASE :: u8 where "GDT_GRAN_BASE = 0xCF"
definition GDT_ENTRY_NULL :: u32 where "GDT_ENTRY_NULL = 0"
definition GDT_KERNEL_CODE :: u32 where "GDT_KERNEL_CODE = 1"
definition GDT_KERNEL_DATA :: u32 where "GDT_KERNEL_DATA = 2"
definition GDT_KERNEL_STACK :: u32 where "GDT_KERNEL_STACK = 3"
definition GDT_USER_CODE :: u32 where "GDT_USER_CODE = 4"
definition GDT_USER_DATA :: u32 where "GDT_USER_DATA = 5"
definition GDT_USER_STACK :: u32 where "GDT_USER_STACK = 6"
definition GDT_BASE_SEGMENT :: u32 where "GDT_BASE_SEGMENT = 0"

definition SEG_DESCTYPE :: "u32 \<Rightarrow> u32" where "SEG_DESCTYPE x = push_bit 4 x"
definition SEG_PRES :: "u32 \<Rightarrow> u32" where "SEG_PRES x = push_bit 7 x"
definition SEG_SAVL :: "u32 \<Rightarrow> u32" where "SEG_SAVL x = push_bit 0xC x"
definition SEG_LONG :: "u32 \<Rightarrow> u32" where "SEG_LONG x = push_bit 0xD x"
definition SEG_SIZE :: "u32 \<Rightarrow> u32" where "SEG_SIZE x = push_bit 0xE x"
definition SEG_GRAN :: "u32 \<Rightarrow> u32" where "SEG_GRAN x = push_bit 0xF x"
definition SEG_PRIV :: "u32 \<Rightarrow> u32" where "SEG_PRIV x = push_bit 5 (x AND 3)"
definition SEG_DATA_RDWR :: u32 where "SEG_DATA_RDWR = 0x02"
definition SEG_DATA_RDWREXPD :: u32 where "SEG_DATA_RDWREXPD = 0x06"
definition SEG_CODE_EXRD :: u32 where "SEG_CODE_EXRD = 0x0A"

text \<open>The six access macros differ in the privilege and the segment type only.\<close>

definition seg_access :: "u32 \<Rightarrow> u32 \<Rightarrow> u32" where
  "seg_access priv kind = SEG_DESCTYPE 1 OR SEG_PRES 1 OR SEG_SAVL 0 OR SEG_LONG 0 OR SEG_SIZE 1
     OR SEG_GRAN 1 OR SEG_PRIV priv OR kind"

definition GDT_KERNEL_CODE_ACCESS :: u32 where "GDT_KERNEL_CODE_ACCESS = seg_access 0 SEG_CODE_EXRD"
definition GDT_KERNEL_DATA_ACCESS :: u32 where "GDT_KERNEL_DATA_ACCESS = seg_access 0 SEG_DATA_RDWR"
definition GDT_KERNEL_STACK_ACCESS :: u32 where "GDT_KERNEL_STACK_ACCESS = seg_access 0 SEG_DATA_RDWREXPD"
definition GDT_USER_CODE_ACCESS :: u32 where "GDT_USER_CODE_ACCESS = seg_access 3 SEG_CODE_EXRD"
definition GDT_USER_DATA_ACCESS :: u32 where "GDT_USER_DATA_ACCESS = seg_access 3 SEG_DATA_RDWR"
definition GDT_USER_STACK_ACCESS :: u32 where "GDT_USER_STACK_ACCESS = seg_access 3 SEG_DATA_RDWREXPD"

text \<open>A packed entry as it lies in memory, field by field.\<close>

record t_gdt_entry =
  limit_low :: u16
  base_low :: u16
  base_middle :: u8
  access :: u8
  granularity :: u8
  base_high :: u8

definition gdt_at :: "u32 \<Rightarrow> ptr" where
  "gdt_at num = GDT_BASE_ADDRESS + 8 * num"

definition gdt_entry :: "mem \<Rightarrow> u32 \<Rightarrow> t_gdt_entry" where
  "gdt_entry m num =
     \<lparr>limit_low = load16 m (gdt_at num), base_low = load16 m (gdt_at num + 2),
      base_middle = m (gdt_at num + 4), access = m (gdt_at num + 5),
      granularity = m (gdt_at num + 6), base_high = m (gdt_at num + 7)\<rparr>"

record t_gdt_ptr =
  gdt_limit :: u16
  gdt_base :: u32

definition gdt_set_gate :: "u32 \<Rightarrow> u32 \<Rightarrow> u32 \<Rightarrow> u8 \<Rightarrow> u8 \<Rightarrow> mem \<Rightarrow> mem" where
  "gdt_set_gate num base limit acc gran m0 =
     (let p = gdt_at num;
          m1 = store16 m0 (p + 2) (ucast (base AND 0xFFFF));
          m2 = m1(p + 4 := ucast (drop_bit 16 base AND 0xFF));
          m3 = m2(p + 7 := ucast (drop_bit 24 base AND 0xFF));
          m4 = store16 m3 p (ucast (limit AND 0xFFFF));
          m5 = m4(p + 6 := ucast (drop_bit 16 limit AND 0x0F));
          m6 = m5(p + 6 := m5 (p + 6) OR (gran AND 0xFF))
      in m6(p + 5 := acc))"

text \<open>
  \<^verbatim>\<open>gdt_flush\<close> (assembly) loads the table register from \<^verbatim>\<open>gdtp\<close>, the data segment registers
  with 0x10 and, by a far jump, the code segment register with 0x08.
\<close>

record segments =
  gdtr :: t_gdt_ptr
  seg_cs :: u16
  seg_ds :: u16
  seg_es :: u16
  seg_fs :: u16
  seg_gs :: u16
  seg_ss :: u16

definition gdt_flush :: "t_gdt_ptr \<Rightarrow> segments" where
  "gdt_flush p = \<lparr>gdtr = p, seg_cs = 0x08, seg_ds = 0x10, seg_es = 0x10, seg_fs = 0x10, seg_gs = 0x10, seg_ss = 0x10\<rparr>"

definition gdt_init :: "mem \<Rightarrow> mem \<times> t_gdt_ptr \<times> segments" where
  "gdt_init m0 =
     (let gdtp = \<lparr>gdt_limit = ucast (8 * GDT_SIZE), gdt_base = GDT_BASE_ADDRESS\<rparr>;
          m1 = gdt_set_gate GDT_ENTRY_NULL GDT_ENTRY_NULL GDT_ENTRY_NULL (ucast GDT_ENTRY_NULL) (ucast GDT_ENTRY_NULL) m0;
          m2 = gdt_set_gate GDT_KERNEL_CODE GDT_BASE_SEGMENT GDT_KERNEL_LIMIT (ucast GDT_KERNEL_CODE_ACCESS) GDT_GRAN_BASE m1;
          m3 = gdt_set_gate GDT_KERNEL_DATA GDT_BASE_SEGMENT GDT_KERNEL_LIMIT (ucast GDT_KERNEL_DATA_ACCESS) GDT_GRAN_BASE m2;
          m4 = gdt_set_gate GDT_KERNEL_STACK GDT_BASE_SEGMENT GDT_KERNEL_LIMIT (ucast GDT_KERNEL_STACK_ACCESS) GDT_GRAN_BASE m3;
          m5 = gdt_set_gate GDT_USER_CODE GDT_BASE_SEGMENT GDT_USER_LIMIT (ucast GDT_USER_CODE_ACCESS) GDT_GRAN_BASE m4;
          m6 = gdt_set_gate GDT_USER_DATA GDT_BASE_SEGMENT GDT_USER_LIMIT (ucast GDT_USER_DATA_ACCESS) GDT_GRAN_BASE m5;
          m7 = gdt_set_gate GDT_USER_STACK GDT_BASE_SEGMENT GDT_USER_LIMIT (ucast GDT_USER_STACK_ACCESS) GDT_GRAN_BASE m6
      in (m7, gdtp, gdt_flush gdtp))"

subsection \<open>The interrupt table\<close>

definition TRAP_GATE_FLAGS :: u8 where "TRAP_GATE_FLAGS = 0x8F"
definition INT_GATE_FLAGS :: u8 where "INT_GATE_FLAGS = 0x8E"
definition INT_GATE_FLAGS_USER :: u8 where "INT_GATE_FLAGS_USER = 0xEE"
definition ISR_DE :: u8 where "ISR_DE = 0"
definition ISR_OF :: u8 where "ISR_OF = 4"
definition ISR_DF :: u8 where "ISR_DF = 8"
definition ISR_TM :: u8 where "ISR_TM = 32"
definition ISR_KB :: u8 where "ISR_KB = 33"

record t_idt_entry =
  idt_base_low :: u16
  idt_selector :: u16
  idt_zero :: u8
  idt_type_attributes :: u8
  idt_base_high :: u16

definition idt_at :: "u8 \<Rightarrow> ptr" where
  "idt_at i = 0 + 8 * ucast i"

definition idt_entry :: "mem \<Rightarrow> u8 \<Rightarrow> t_idt_entry" where
  "idt_entry m i =
     \<lparr>idt_base_low = load16 m (idt_at i), idt_selector = load16 m (idt_at i + 2), idt_zero = m (idt_at i + 4),
      idt_type_attributes = m (idt_at i + 5), idt_base_high = load16 m (idt_at i + 6)\<rparr>"

record t_idt_ptr =
  idt_limit :: u16
  idt_base :: u32

text \<open>The linked addresses of the five service routines.\<close>

record isr_table =
  divide_error_addr :: ptr
  overflow_addr :: ptr
  double_fault_addr :: ptr
  timer_addr :: ptr
  keyboard_addr :: ptr

definition idt_set_descriptor :: "u8 \<Rightarrow> ptr \<Rightarrow> u8 \<Rightarrow> mem \<Rightarrow> mem" where
  "idt_set_descriptor idt_index isr_addr flags m0 =
     (let d = idt_at idt_index;
          m1 = store16 m0 d (ucast (isr_addr AND 0xFFFF));
          m2 = store16 m1 (d + 2) 0x08;
          m3 = m2(d + 4 := 0);
          m4 = m3(d + 5 := flags)
      in store16 m4 (d + 6) (ucast (drop_bit 16 isr_addr)))"

text \<open>The register loaded by \<^verbatim>\<open>lidt\<close> and the interrupt flag set by \<^verbatim>\<open>sti\<close>.\<close>

record interrupts =
  idtr :: t_idt_ptr
  if_flag :: bool

definition idt_init :: "isr_table \<Rightarrow> mem \<Rightarrow> mem \<times> interrupts" where
  "idt_init isr m0 =
     (let idtp = \<lparr>idt_limit = 8 * 256, idt_base = 0\<rparr>;
          m1 = idt_set_descriptor ISR_DE (divide_error_addr isr) TRAP_GATE_FLAGS m0;
          m2 = idt_set_descriptor ISR_OF (overflow_addr isr) TRAP_GATE_FLAGS m1;
          m3 = idt_set_descriptor ISR_DF (double_fault_addr isr) TRAP_GATE_FLAGS m2;
          m4 = idt_set_descriptor ISR_TM (timer_addr isr) INT_GATE_FLAGS m3;
          m5 = idt_set_descriptor ISR_KB (keyboard_addr isr) INT_GATE_FLAGS m4
      in (m5, \<lparr>idtr = idtp, if_flag = True\<rparr>))"

section \<open>How the processor reads a descriptor\<close>

definition seg_base :: "t_gdt_entry \<Rightarrow> u32" where
  "seg_base e = ucast (base_low e) OR push_bit 16 (ucast (base_middle e)) OR push_bit 24 (ucast (base_high e))"

definition seg_limit :: "t_gdt_entry \<Rightarrow> u32" where
  "seg_limit e = ucast (limit_low e) OR push_bit 16 (ucast (granularity e AND 0x0F))"

text \<open>With the granularity bit set the limit counts 4 KiB units.\<close>

definition seg_limit_bytes :: "t_gdt_entry \<Rightarrow> u32" where
  "seg_limit_bytes e = (if bit (granularity e) 7 then push_bit 12 (seg_limit e) OR 0xFFF else seg_limit e)"

text \<open>
  The offsets a segment admits.  The type of a data segment (bits 4 and 3 of the access byte are 1 and 0) has the expand-down bit 2: then the
  offsets above the limit are the valid ones, up to the end that the size bit 6 of the granularity byte selects.
\<close>

definition seg_expand_down :: "t_gdt_entry \<Rightarrow> bool" where
  "seg_expand_down e \<longleftrightarrow> bit (access e) 4 \<and> \<not> bit (access e) 3 \<and> bit (access e) 2"

definition seg_admits :: "t_gdt_entry \<Rightarrow> u32 \<Rightarrow> bool" where
  "seg_admits e off \<longleftrightarrow>
     (if seg_expand_down e then seg_limit_bytes e < off \<and> off \<le> (if bit (granularity e) 6 then 0xFFFFFFFF else 0xFFFF)
      else off \<le> seg_limit_bytes e)"

definition gate_target :: "t_idt_entry \<Rightarrow> ptr" where
  "gate_target e = ucast (idt_base_low e) OR push_bit 16 (ucast (idt_base_high e))"

definition seg_dpl :: "t_gdt_entry \<Rightarrow> u8" where
  "seg_dpl e = drop_bit 5 (access e) AND 3"

section \<open>Fields after a write\<close>

lemma gdt_set_gate_entry:
  "gdt_entry (gdt_set_gate num base limit acc gran m) num =
     \<lparr>limit_low = ucast (limit AND 0xFFFF), base_low = ucast (base AND 0xFFFF), base_middle = ucast (drop_bit 16 base AND 0xFF),
      access = acc, granularity = ucast (drop_bit 16 limit AND 0x0F) OR (gran AND 0xFF), base_high = ucast (drop_bit 24 base AND 0xFF)\<rparr>"
proof -
  have l16: "load16 (store16 m p v) q = (if q = p then v else load16 (store16 m p v) q)" for m p v q
    by (simp add: load16_store16_same)
  have upd: "load16 (f(p + c := v)) (p + d) = load16 f (p + d)" if "c \<noteq> d" "c \<noteq> d + 1" for f :: mem and p c d v
    using that by (auto simp: load16_def add.assoc)
  have upd0: "load16 (f(p + c := v)) p = load16 f p" if "c \<noteq> 0" "c \<noteq> 1" for f :: mem and p c v
    using that by (auto simp: load16_def)
  have st: "load16 (store16 f p v) (p + 2) = load16 f (p + 2)" for f p v
    by (simp add: load16_def store16_def add.assoc)
  show ?thesis
    by (simp add: gdt_entry_def gdt_set_gate_def Let_def upd upd0 st load16_store16_same del: fun_upd_apply)
      (simp add: store16_def)
qed

lemma notin_blk_add: "a \<notin> blk p n \<Longrightarrow> unat d < n \<Longrightarrow> a \<noteq> p + d"
  by (auto simp: blk_def)

lemma gdt_set_gate_frame: "a \<notin> blk (gdt_at num) 8 \<Longrightarrow> gdt_set_gate num base limit acc gran m a = m a"
  using notin_blk_add [of a "gdt_at num" 8 0] notin_blk_add [of a "gdt_at num" 8 1] notin_blk_add [of a "gdt_at num" 8 2]
    notin_blk_add [of a "gdt_at num" 8 3] notin_blk_add [of a "gdt_at num" 8 4] notin_blk_add [of a "gdt_at num" 8 5]
    notin_blk_add [of a "gdt_at num" 8 6] notin_blk_add [of a "gdt_at num" 8 7]
  by (simp add: gdt_set_gate_def Let_def store16_def add.assoc)

lemma idt_set_descriptor_entry:
  "idt_entry (idt_set_descriptor i addr flags m) i =
     \<lparr>idt_base_low = ucast (addr AND 0xFFFF), idt_selector = 8, idt_zero = 0, idt_type_attributes = flags,
      idt_base_high = ucast (drop_bit 16 addr)\<rparr>"
proof -
  have l: "load16 (f(p := x, p + 1 := y)) p = ucast x OR push_bit 8 (ucast y)" for f :: mem and p x y
    by (simp add: load16_def)
  have st: "load16 (store16 m p v) p = v" for m p v by (rule load16_store16_same)
  have far: "load16 (store16 f (p + 6) v) (p + 2) = load16 f (p + 2)" "load16 (store16 f (p + 6) v) p = load16 f p"
    "load16 (store16 f (p + 2) v) p = load16 f p" for f p v
    by (simp_all add: load16_def store16_def add.assoc)
  have upd: "load16 (f(p + 4 := v)) (p + 2) = load16 f (p + 2)" "load16 (f(p + 5 := v)) (p + 2) = load16 f (p + 2)"
    "load16 (f(p + 4 := v)) p = load16 f p" "load16 (f(p + 5 := v)) p = load16 f p" for f :: mem and p v
    by (auto simp: load16_def add.assoc)
  show ?thesis
    by (simp add: idt_entry_def idt_set_descriptor_def Let_def st far upd del: fun_upd_apply) (simp add: store16_def add.assoc)
qed

lemma idt_set_descriptor_frame: "a \<notin> blk (idt_at i) 8 \<Longrightarrow> idt_set_descriptor i addr flags m a = m a"
  using notin_blk_add [of a "idt_at i" 8 0] notin_blk_add [of a "idt_at i" 8 1] notin_blk_add [of a "idt_at i" 8 2]
    notin_blk_add [of a "idt_at i" 8 3] notin_blk_add [of a "idt_at i" 8 4] notin_blk_add [of a "idt_at i" 8 5]
    notin_blk_add [of a "idt_at i" 8 6] notin_blk_add [of a "idt_at i" 8 7]
  by (simp add: idt_set_descriptor_def Let_def store16_def add.assoc)

text \<open>An entry depends on its own eight bytes only.\<close>

lemma entry_cong:
  assumes "\<And>a. a \<in> blk p 8 \<Longrightarrow> m a = m' a"
  shows "load16 m p = load16 m' p" "load16 m (p + 2) = load16 m' (p + 2)" "load16 m (p + 6) = load16 m' (p + 6)"
    "m (p + 4) = m' (p + 4)" "m (p + 5) = m' (p + 5)" "m (p + 6) = m' (p + 6)" "m (p + 7) = m' (p + 7)"
  using assms by (simp_all add: load16_def blk_def add.assoc)

lemma gdt_entry_cong:
  assumes "\<And>a. a \<in> blk (gdt_at num) 8 \<Longrightarrow> m a = m' a"
  shows "gdt_entry m num = gdt_entry m' num"
  unfolding gdt_entry_def by (simp only: entry_cong [of "gdt_at num" m m', OF assms])

lemma idt_entry_cong:
  assumes "\<And>a. a \<in> blk (idt_at i) 8 \<Longrightarrow> m a = m' a"
  shows "idt_entry m i = idt_entry m' i"
  unfolding idt_entry_def by (simp only: entry_cong [of "idt_at i" m m', OF assms])

lemma unat_u8_less: "unat (x :: u8) < 256"
  using unsigned_less [of x, where ?'a = nat] by simp

lemma unat_idt_at: "unat (idt_at i) = 8 * unat i"
proof -
  have u: "unat (ucast i :: u32) = unat i" using unat_u8_less [of i] by (simp add: unsigned_ucast_eq take_bit_nat_eq_self)
  show ?thesis unfolding idt_at_def add_0
    by (subst unat_mult_no_wrap) (use unat_u8_less [of i] u in simp_all)
qed

lemma unat_gdt_at: "unat num \<le> 6 \<Longrightarrow> unat (gdt_at num) = 0x800 + 8 * unat num"
proof -
  assume n: "unat num \<le> 6"
  then have m: "unat (8 * num) = 8 * unat num" by (subst unat_mult_no_wrap) simp_all
  show ?thesis unfolding gdt_at_def GDT_BASE_ADDRESS_def
    by (subst unat_add_no_wrap) (use n m in simp_all)
qed

lemma gate_blocks_disjoint:
  assumes "unat p + 8 \<le> unat q \<or> unat q + 8 \<le> unat p" "unat p < 4096" "unat q < 4096"
  shows "blk p 8 \<inter> blk q 8 = {}"
  using blk_apart [of p 8 q 8] blk_apart [of q 8 p 8] assms by (auto simp: Int_commute)

lemmas gdt_consts = GDT_ENTRY_NULL_def GDT_KERNEL_CODE_def GDT_KERNEL_DATA_def GDT_KERNEL_STACK_def GDT_USER_CODE_def
  GDT_USER_DATA_def GDT_USER_STACK_def GDT_BASE_SEGMENT_def GDT_KERNEL_LIMIT_def GDT_USER_LIMIT_def GDT_GRAN_BASE_def

lemmas idt_consts = ISR_DE_def ISR_OF_def ISR_DF_def ISR_TM_def ISR_KB_def TRAP_GATE_FLAGS_def INT_GATE_FLAGS_def

lemma gdt_blocks_disjoint: "unat i \<le> 6 \<Longrightarrow> unat j \<le> 6 \<Longrightarrow> i \<noteq> j \<Longrightarrow> blk (gdt_at i) 8 \<inter> blk (gdt_at j) 8 = {}"
  using word_unat_eq_iff [of i j] by (intro gate_blocks_disjoint) (auto simp: unat_gdt_at)

lemma idt_blocks_disjoint: "i \<noteq> j \<Longrightarrow> blk (idt_at i) 8 \<inter> blk (idt_at j) 8 = {}"
  using word_unat_eq_iff [of i j] unat_u8_less [of i] unat_u8_less [of j] by (intro gate_blocks_disjoint) (auto simp: unat_idt_at)

text \<open>Both tables are tables in memory: segments by base, limit, access and granularity, gates by target and flags.\<close>

interpretation gdt: memory_table gdt_at 8 "{num. unat num \<le> 6}" gdt_entry
    "\<lambda>num (base, limit, acc, gran). gdt_set_gate num base limit acc gran"
    "\<lambda>(base, limit, acc, gran).
       \<lparr>limit_low = ucast (limit AND 0xFFFF), base_low = ucast (base AND 0xFFFF), base_middle = ucast (drop_bit 16 base AND 0xFF),
        access = acc, granularity = ucast (drop_bit 16 limit AND 0x0F) OR (gran AND 0xFF), base_high = ucast (drop_bit 24 base AND 0xFF)\<rparr>"
  by unfold_locales (auto simp: gdt_blocks_disjoint gdt_set_gate_frame gdt_set_gate_entry intro!: gdt_entry_cong split: prod.splits)

interpretation idt: memory_table idt_at 8 UNIV idt_entry "\<lambda>i (addr, flags). idt_set_descriptor i addr flags"
    "\<lambda>(addr, flags). \<lparr>idt_base_low = ucast (addr AND 0xFFFF), idt_selector = 8, idt_zero = 0, idt_type_attributes = flags,
       idt_base_high = ucast (drop_bit 16 addr)\<rparr>"
  by unfold_locales (auto simp: idt_blocks_disjoint idt_set_descriptor_frame idt_set_descriptor_entry intro!: idt_entry_cong split: prod.splits)

lemma gdt_set_gate_other:
  "num \<noteq> num' \<Longrightarrow> unat num \<le> 6 \<Longrightarrow> unat num' \<le> 6 \<Longrightarrow> gdt_entry (gdt_set_gate num' base limit acc gran m) num = gdt_entry m num"
  using gdt.get_put_other [of num num' "(base, limit, acc, gran)" m] by simp

lemma idt_set_descriptor_other: "i \<noteq> j \<Longrightarrow> idt_entry (idt_set_descriptor j addr flags m) i = idt_entry m i"
  using idt.get_put_other [of i j "(addr, flags)" m] by simp

text \<open>The two initialisations as sequences of writes.\<close>

lemma gdt_init_puts:
  "fst (gdt_init m) = fold (\<lambda>(num, base, limit, acc, gran). gdt_set_gate num base limit acc gran)
     [(0, 0, 0, 0, 0), (1, 0, 0xFFFF, ucast GDT_KERNEL_CODE_ACCESS, 0xCF), (2, 0, 0xFFFF, ucast GDT_KERNEL_DATA_ACCESS, 0xCF),
      (3, 0, 0xFFFF, ucast GDT_KERNEL_STACK_ACCESS, 0xCF), (4, 0, 0xFFFF, ucast GDT_USER_CODE_ACCESS, 0xCF),
      (5, 0, 0xFFFF, ucast GDT_USER_DATA_ACCESS, 0xCF), (6, 0, 0xFFFF, ucast GDT_USER_STACK_ACCESS, 0xCF)] m"
  by (simp add: gdt_init_def Let_def gdt_consts)

lemma idt_init_puts:
  "fst (idt_init isr m) = fold (\<lambda>(i, addr, flags). idt_set_descriptor i addr flags)
     [(0, divide_error_addr isr, 0x8F), (4, overflow_addr isr, 0x8F), (8, double_fault_addr isr, 0x8F), (32, timer_addr isr, 0x8E),
      (33, keyboard_addr isr, 0x8E)] m"
  by (simp add: idt_init_def Let_def idt_consts)

lemma idt_gdt_apart:
  assumes "unat num \<le> 6"
  shows "gdt_entry (idt_set_descriptor j addr flags m) num = gdt_entry m num"
    and "idt_entry (gdt_set_gate num base limit acc gran m) j = idt_entry m j"
proof -
  have "blk (gdt_at num) 8 \<inter> blk (idt_at j) 8 = {}"
    using assms unat_u8_less [of j] by (intro gate_blocks_disjoint) (auto simp: unat_idt_at unat_gdt_at)
  then show "gdt_entry (idt_set_descriptor j addr flags m) num = gdt_entry m num"
    and "idt_entry (gdt_set_gate num base limit acc gran m) j = idt_entry m j"
    by (intro gdt_entry_cong idt_set_descriptor_frame idt_entry_cong gdt_set_gate_frame; blast)+
qed

text \<open>What a processor sees of a gate: the fields put together again.\<close>

lemma gate_join:
  "gate_target \<lparr>idt_base_low = ucast (addr AND 0xFFFF), idt_selector = s, idt_zero = z, idt_type_attributes = f, idt_base_high = ucast (drop_bit 16 addr)\<rparr> = addr"
proof -
  have m: "(0xFFFF :: u32) = mask 16" by (simp add: mask_eq_exp_minus_1)
  show ?thesis by (rule bit_word_eqI) (auto simp: gate_target_def m bit_simps)
qed

lemma gate_fields:
  "seg_base (gdt_entry (gdt_set_gate num base limit acc gran m) num) = base"
  "seg_limit (gdt_entry (gdt_set_gate num base limit acc gran m) num) = (limit AND 0xFFFFF) OR push_bit 16 (ucast (gran AND 0x0F))"
  "gate_target (idt_entry (idt_set_descriptor i addr flags m) i) = addr"
proof -
  have m: "(0xFFFF :: u32) = mask 16" "(0xFF :: u32) = mask 8" "(0x0F :: u32) = mask 4" "(0xFFFFF :: u32) = mask 20"
    "(0xFF :: u8) = mask 8" "(0x0F :: u8) = mask 4"
    by (simp_all add: mask_eq_exp_minus_1)
  show "seg_base (gdt_entry (gdt_set_gate num base limit acc gran m) num) = base"
  proof (rule bit_word_eqI)
    fix n assume "n < LENGTH(32)"
    moreover have "24 \<le> n \<Longrightarrow> 24 + (n - 24) = n" "16 \<le> n \<Longrightarrow> 16 + (n - 16) = n" by simp_all
    ultimately show "bit (seg_base (gdt_entry (gdt_set_gate num base limit acc gran m) num)) n = bit base n"
      by (cases "24 \<le> n"; cases "16 \<le> n") (auto simp: gdt_set_gate_entry seg_base_def m bit_simps)
  qed
  show "seg_limit (gdt_entry (gdt_set_gate num base limit acc gran m) num) = (limit AND 0xFFFFF) OR push_bit 16 (ucast (gran AND 0x0F))"
    by (rule bit_word_eqI) (auto simp: gdt_set_gate_entry seg_limit_def m bit_simps)
  show "gate_target (idt_entry (idt_set_descriptor i addr flags m) i) = addr"
    by (simp only: idt_set_descriptor_entry gate_join)
qed

section \<open>Correctness properties\<close>

lemma access_values:
  "ucast GDT_KERNEL_CODE_ACCESS = (0x9A :: u8)" "ucast GDT_KERNEL_DATA_ACCESS = (0x92 :: u8)"
  "ucast GDT_KERNEL_STACK_ACCESS = (0x96 :: u8)" "ucast GDT_USER_CODE_ACCESS = (0xFA :: u8)"
  "ucast GDT_USER_DATA_ACCESS = (0xF2 :: u8)" "ucast GDT_USER_STACK_ACCESS = (0xF6 :: u8)"
  by code_simp+

lemma access_bits:
  "\<not> bit (0x9A :: u8) 2" "bit (0x9A :: u8) 3" "\<not> bit (0x92 :: u8) 2" "bit (0x96 :: u8) 4 \<and> \<not> bit (0x96 :: u8) 3 \<and> bit (0x96 :: u8) 2"
  "\<not> bit (0xFA :: u8) 2" "bit (0xFA :: u8) 3" "\<not> bit (0xF2 :: u8) 2" "bit (0xF6 :: u8) 4 \<and> \<not> bit (0xF6 :: u8) 3 \<and> bit (0xF6 :: u8) 2"
  by code_simp+

lemma word_le_all_ones: "(x :: u32) \<le> 0xFFFFFFFF" "\<not> (0xFFFFFFFF :: u32) < x"
proof -
  show le: "x \<le> 0xFFFFFFFF" unfolding word_le_nat_alt using unat_u32_less [of x] by simp
  then show "\<not> 0xFFFFFFFF < x" by (simp add: not_less)
qed

definition seg_view :: "mem \<Rightarrow> u32 \<Rightarrow> u32 \<times> u32 \<times> u8 \<times> u8" where
  "seg_view m n = (let e = gdt_entry m n in (seg_base e, seg_limit_bytes e, access e, seg_dpl e))"

lemma seg_view_set_gate:
  "seg_view (gdt_set_gate num 0 0xFFFF acc 0xCF m) num = (0, 0xFFFFFFFF, acc, drop_bit 5 acc AND 3)"
  by (simp add: seg_view_def Let_def seg_limit_bytes_def gate_fields seg_dpl_def) (simp add: gdt_set_gate_entry)

lemma seg_view_other:
  assumes "num \<noteq> num'" "unat num \<le> 6" "unat num' \<le> 6"
  shows "seg_view (gdt_set_gate num' base limit acc gran m) num = seg_view m num"
  by (simp add: seg_view_def gdt_set_gate_other [OF assms])

lemma gdt_init_frame: "a \<notin> blk 0x800 56 \<Longrightarrow> fst (gdt_init m) a = m a"
proof -
  assume a: "a \<notin> blk 0x800 56"
  have "a \<notin> blk (gdt_at num) 8" if "unat num \<le> 6" for num
  proof -
    have "gdt_at num = 0x800 + of_nat (8 * unat num)" by (simp add: gdt_at_def GDT_BASE_ADDRESS_def)
    with a blk_subset [of "8 * unat num" 8 56 "0x800"] that show ?thesis by auto
  qed
  then show ?thesis unfolding gdt_init_puts by (intro gdt.puts_frame) simp
qed

lemma idt_init_frame: "a \<notin> blk 0 2048 \<Longrightarrow> fst (idt_init t m) a = m a"
proof -
  assume a: "a \<notin> blk 0 2048"
  have "a \<notin> blk (idt_at i) 8" for i
    using blk_subset [of "unat (idt_at i)" 8 2048 0] unat_u8_less [of i] a by (auto simp: unat_idt_at) (auto simp: idt_at_def)
  then show ?thesis unfolding idt_init_puts by (intro idt.puts_frame) simp
qed

text \<open>
  C21: the segments \<^verbatim>\<open>gdt_init\<close> builds.  The six entries after the null entry all have base 0 and the limit 0xFFFFFFFF; their access bytes
  are the ones the header announces, three at privilege 0 and three at privilege 3.  The code and data segments (entries 1, 2, 4 and 5) are
  flat: they admit every offset.  The two stack segments (3 and 6) expand down, so that this limit leaves them no valid offset at all; the kernel
  runs because the flush loads the data selector into \<^verbatim>\<open>ss\<close>.  No byte outside the seven entries changes, and the selectors the
  flush loads (8 and 0x10) name the kernel code and data entries.  The table limit covers entries 0 to 5 only: the user stack entry starts where the table ends.
\<close>

theorem gdt_init_correct:
  "let (m', gdtp, sg) = gdt_init m in
     map (seg_view m') [1, 2, 3, 4, 5, 6] =
       [(0, 0xFFFFFFFF, 0x9A, 0), (0, 0xFFFFFFFF, 0x92, 0), (0, 0xFFFFFFFF, 0x96, 0),
        (0, 0xFFFFFFFF, 0xFA, 3), (0, 0xFFFFFFFF, 0xF2, 3), (0, 0xFFFFFFFF, 0xF6, 3)]
     \<and> seg_view m' 0 = (0, 0, 0, 0)
     \<and> (\<forall>off. list_all (\<lambda>n. seg_admits (gdt_entry m' n) off) [1, 2, 4, 5] \<and> \<not> seg_admits (gdt_entry m' 3) off \<and> \<not> seg_admits (gdt_entry m' 6) off)
     \<and> (\<forall>a. a \<in> blk 0x800 56 \<or> m' a = m a)
     \<and> gdtr sg = gdtp \<and> seg_cs sg = 8 * ucast GDT_KERNEL_CODE \<and> seg_ds sg = 8 * ucast GDT_KERNEL_DATA \<and> seg_ss sg = seg_ds sg
     \<and> gdt_base gdtp + ucast (gdt_limit gdtp) = gdt_at GDT_USER_STACK"
proof -
  have v: "map (seg_view (fst (gdt_init m))) [1, 2, 3, 4, 5, 6] =
       [(0, 0xFFFFFFFF, 0x9A, 0), (0, 0xFFFFFFFF, 0x92, 0), (0, 0xFFFFFFFF, 0x96, 0),
        (0, 0xFFFFFFFF, 0xFA, 3), (0, 0xFFFFFFFF, 0xF2, 3), (0, 0xFFFFFFFF, 0xF6, 3)]"
    by (simp add: gdt_init_def Let_def gdt_consts access_values seg_view_set_gate seg_view_other)
  have z: "seg_view (fst (gdt_init m)) 0 = (0, 0, 0, 0)"
  proof -
    have "seg_view (fst (gdt_init m)) 0 = seg_view (gdt_set_gate 0 0 0 0 0 m) 0"
      by (simp add: gdt_init_def Let_def gdt_consts seg_view_other)
    also have "\<dots> = (0, 0, 0, 0)"
      by (simp add: seg_view_def Let_def seg_limit_bytes_def gate_fields seg_dpl_def) (simp add: gdt_set_gate_entry)
    finally show ?thesis .
  qed
  have "access (gdt_entry (fst (gdt_init m)) n) = (fst \<circ> snd \<circ> snd) (seg_view (fst (gdt_init m)) n)"
    "seg_limit_bytes (gdt_entry (fst (gdt_init m)) n) = (fst \<circ> snd) (seg_view (fst (gdt_init m)) n)" for n
    by (simp_all add: seg_view_def Let_def)
  then have reach: "list_all (\<lambda>n. seg_admits (gdt_entry (fst (gdt_init m)) n) off) [1, 2, 4, 5]
      \<and> \<not> seg_admits (gdt_entry (fst (gdt_init m)) 3) off \<and> \<not> seg_admits (gdt_entry (fst (gdt_init m)) 6) off" for off
    using v by (simp add: seg_admits_def seg_expand_down_def access_bits word_le_all_ones)
  have r: "snd (gdt_init m) = (\<lparr>gdt_limit = 48, gdt_base = 0x800\<rparr>, gdt_flush \<lparr>gdt_limit = 48, gdt_base = 0x800\<rparr>)"
    by (simp add: gdt_init_def Let_def GDT_SIZE_def GDT_BASE_ADDRESS_def)
  obtain m' where g: "gdt_init m = (m', \<lparr>gdt_limit = 48, gdt_base = 0x800\<rparr>, gdt_flush \<lparr>gdt_limit = 48, gdt_base = 0x800\<rparr>)"
    using r by (metis prod.collapse)
  show ?thesis
    using v z reach gdt_init_frame [of _ m] unfolding g
    by (auto simp: gdt_flush_def GDT_KERNEL_CODE_def GDT_KERNEL_DATA_def gdt_at_def GDT_BASE_ADDRESS_def GDT_USER_STACK_def)
qed

text \<open>
  C20: after \<^verbatim>\<open>gdt_init\<close> and \<^verbatim>\<open>idt_init\<close>, in the order of \<^verbatim>\<open>init_descriptor_tables\<close>, each of the five vectors
  leads to its handler through the kernel code selector (the exceptions as trap gates, the
  hardware interrupts as interrupt gates), every other gate keeps its bytes, the segment table is
  as \<^verbatim>\<open>gdt_init\<close> left it, the table register covers all 256 gates and interrupts are enabled.
\<close>

theorem idt_init_correct:
  "let m1 = fst (gdt_init m); (m2, st) = idt_init isr m1 in
     map (gate_target \<circ> idt_entry m2) [0, 4, 8, 32, 33] =
       [divide_error_addr isr, overflow_addr isr, double_fault_addr isr, timer_addr isr, keyboard_addr isr]
     \<and> map (idt_type_attributes \<circ> idt_entry m2) [0, 4, 8, 32, 33] = [0x8F, 0x8F, 0x8F, 0x8E, 0x8E]
     \<and> map (idt_selector \<circ> idt_entry m2) [0, 4, 8, 32, 33] = [8, 8, 8, 8, 8] \<and> 8 * ucast GDT_KERNEL_CODE = (8 :: u16)
     \<and> (\<forall>i. i \<in> {0, 4, 8, 32, 33} \<or> idt_entry m2 i = idt_entry m i)
     \<and> map (gdt_entry m2) [0, 1, 2, 3, 4, 5, 6] = map (gdt_entry m1) [0, 1, 2, 3, 4, 5, 6]
     \<and> idt_limit (idtr st) = 8 * 256 \<and> idt_base (idtr st) = idt_at 0 \<and> if_flag st"
proof -
  define m1 where "m1 = fst (gdt_init m)"
  obtain m2 st where i: "idt_init isr m1 = (m2, st)" by (metis prod.exhaust)
  have m2: "m2 = fst (idt_init isr m1)" using i by simp
  have old: "idt_entry m1 i = idt_entry m i" for i
    by (simp add: m1_def gdt_init_puts idt_gdt_apart)
  have e: "idt_entry m2 i = (case map_of [(33, keyboard_addr isr, 0x8E), (32, timer_addr isr, 0x8E), (8, double_fault_addr isr, 0x8F),
        (4, overflow_addr isr, 0x8F), (0, divide_error_addr isr, 0x8F)] i of None \<Rightarrow> idt_entry m i
      | Some (addr, flags) \<Rightarrow> \<lparr>idt_base_low = ucast (addr AND 0xFFFF), idt_selector = 8, idt_zero = 0, idt_type_attributes = flags,
          idt_base_high = ucast (drop_bit 16 addr)\<rparr>)" for i
    unfolding m2 idt_init_puts by (subst idt.get_puts) (simp_all add: old)
  have "map (gate_target \<circ> idt_entry m2) [0, 4, 8, 32, 33] =
       [divide_error_addr isr, overflow_addr isr, double_fault_addr isr, timer_addr isr, keyboard_addr isr]"
    by (simp add: e gate_join)
  moreover have "map (idt_type_attributes \<circ> idt_entry m2) [0, 4, 8, 32, 33] = [0x8F, 0x8F, 0x8F, 0x8E, 0x8E]"
    "map (idt_selector \<circ> idt_entry m2) [0, 4, 8, 32, 33] = [8, 8, 8, 8, 8]"
    by (simp_all add: e)
  moreover have "\<forall>i. i \<in> {0, 4, 8, 32, 33} \<or> idt_entry m2 i = idt_entry m i" by (simp add: e)
  moreover have "map (gdt_entry m2) [0, 1, 2, 3, 4, 5, 6] = map (gdt_entry m1) [0, 1, 2, 3, 4, 5, 6]"
    by (simp add: m2 idt_init_puts idt_gdt_apart)
  moreover have "idt_limit (idtr st) = 8 * 256 \<and> idt_base (idtr st) = idt_at 0 \<and> if_flag st"
    using i by (auto simp: idt_init_def Let_def idt_at_def)
  ultimately show ?thesis
    unfolding m1_def [symmetric] Let_def i by (simp add: GDT_KERNEL_CODE_def)
qed

end
