(* ===== verification/Console.thy ===== *)
theory Console
  imports Literals Print_Format Screenbuf Keyboard Kpm Descriptors
begin

text \<open>
  The kernel's global state, \<^verbatim>\<open>kprintf\<close> of \<^verbatim>\<open>src/kernel/print.c\<close>, and the screen builtins of
  \<^verbatim>\<open>src/kernel/nsh/builtins/utils.c\<close>.  The state collects the globals of \<^verbatim>\<open>kernel.c\<close>, \<^verbatim>\<open>keyboard.c\<close>, \<^verbatim>\<open>kpm.c\<close> and \<^verbatim>\<open>nsh.c\<close>.

  The addresses that the linker, the loader or the stack choose are the fields of an \<open>image\<close>: the
  buffer on the stack of \<^verbatim>\<open>kprintf\<close>, the shell's line buffer and the string literals, named by their text.

  The buffer of \<^verbatim>\<open>kprintf\<close> is an automatic array of 4096 bytes, and the stack that \<^verbatim>\<open>boot.s\<close> reserves has 4096 bytes in all.  So the array
  does not fit: it begins below \<^verbatim>\<open>stack_bottom\<close>, over the end of \<^verbatim>\<open>.bss\<close>, which the linker places there, and every call of \<^verbatim>\<open>kprintf\<close> clears those bytes.  The model does
  not say which objects they are.  It has the array at the address \<open>kbuf\<close> and writes to it as the code does; that it meets none of the objects
  the kernel goes on using is a hypothesis on the layout (\<open>lit_ok\<close> here, \<open>layout_ok\<close> for the running kernel), and what happens where it fails is not covered.
\<close>

unbundle bit_operations_syntax

section \<open>Definitions\<close>

record t_int_frame =
  frame_eip :: u32
  frame_cs :: u32
  frame_flags :: u32
  frame_sp :: u32
  frame_ss :: u32

record image =
  dev :: device
  kbuf :: ptr
  nsh_buf :: ptr
  lit :: "string \<Rightarrow> ptr"
  isr :: isr_table
  int_frame :: "ptr \<times> t_int_frame"
  errcode :: u32
  wakes :: "ports \<Rightarrow> u8 option"
  regs :: "string \<Rightarrow> u32"
  stack_top :: ptr
  stack_bottom :: ptr
  stack_chunk :: kpm_chunk
  mapped :: "ptr \<Rightarrow> bool"

record kernel =
  phys :: kpm
  sb :: "screenbuf list"
  sb_current :: int
  sb_nbscreen :: int
  hw :: video
  kbd :: kbd_state
  gdtp :: t_gdt_ptr
  idtp :: t_idt_ptr
  nsh_cmd :: "nat \<Rightarrow> ptr"
  nsh_cmdnarg :: int
  nsh_bufindex :: int

definition BUFSIZE :: u32 where "BUFSIZE = 4096"
definition NBSCREENBUF :: nat where "NBSCREENBUF = 2"

text \<open>The one memory of the machine is the memory the allocator's bitmaps live in.\<close>

abbreviation ram :: "kernel \<Rightarrow> mem" where "ram k \<equiv> kmem (phys k)"

text \<open>
  A read through a pointer that the code has not made itself.  \<open>mapped\<close> says which addresses the page tables map; a read of another
  one raises a page fault, for which \<^verbatim>\<open>idt_init\<close> installs no gate, so that it ends in the handler of the double fault, which never
  returns: the read has no result.  \<open>boot_mapped\<close> is the part that \<^verbatim>\<open>boot_init\<close> maps in any case, the first 4 MiB and their copy at
  \<^verbatim>\<open>KERNEL_VIRT_OFFSET\<close>; the objects of the kernel lie there.
\<close>

definition load_u8 :: "image \<Rightarrow> kernel \<Rightarrow> ptr \<Rightarrow> u8 option" where
  "load_u8 im k a = (if mapped im a then Some (ram k a) else None)"

definition boot_mapped :: "ptr \<Rightarrow> bool" where
  "boot_mapped a \<longleftrightarrow> a < 0x400000 \<or> 0xC0000000 \<le> a \<and> a < 0xC0400000"

definition set_ram :: "mem \<Rightarrow> kernel \<Rightarrow> kernel" where
  "set_ram m k = k\<lparr>phys := (phys k)\<lparr>kmem := m\<rparr>\<rparr>"

text \<open>
  A call \<^verbatim>\<open>f(sb_current, ...)\<close>.  A pointer outside the array \<^verbatim>\<open>sb\<close> has no screen buffer behind it.
\<close>

definition cur_ok :: "kernel \<Rightarrow> bool" where
  "cur_ok k \<longleftrightarrow> 0 \<le> sb_current k \<and> nat (sb_current k) < length (sb k)"

definition cur :: "kernel \<Rightarrow> screenbuf" where
  "cur k = sb k ! nat (sb_current k)"

definition set_cur :: "screenbuf \<Rightarrow> kernel \<Rightarrow> kernel" where
  "set_cur s k = k\<lparr>sb := (sb k)[nat (sb_current k) := s]\<rparr>"

definition on_screen :: "(screenbuf \<Rightarrow> video \<Rightarrow> (screenbuf \<times> video) option) \<Rightarrow> kernel \<Rightarrow> kernel option" where
  "on_screen f k =
     (if cur_ok k then do { (s, v) \<leftarrow> f (cur k) (hw k); Some ((set_cur s k)\<lparr>hw := v\<rparr>) } else None)"

text \<open>The functions of a screen buffer that touch neither the screen nor the ports.\<close>

definition on_cur :: "(screenbuf \<Rightarrow> screenbuf) \<Rightarrow> kernel \<Rightarrow> kernel option" where
  "on_cur f k = (if cur_ok k then Some (set_cur (f (cur k)) k) else None)"

definition kprintf :: "image \<Rightarrow> string \<Rightarrow> u32 list \<Rightarrow> kernel \<Rightarrow> (u32 \<times> kernel) option" where
  "kprintf im fmt args k =
     do { let m1 = fst (memset (ram k) (kbuf im) 0 BUFSIZE);
          (m2, ret) \<leftarrow> vsnprintf m1 (kbuf im) (BUFSIZE - 1) (lit im fmt) args;
          k1 \<leftarrow> on_screen (sb_putstr (dev im) m2 (kbuf im)) (set_ram m2 k);
          Some (ret, k1) }"

text \<open>A call whose result is not used.\<close>

definition kprint :: "image \<Rightarrow> string \<Rightarrow> u32 list \<Rightarrow> kernel \<Rightarrow> kernel option" where
  "kprint im fmt args k = map_option snd (kprintf im fmt args k)"

section \<open>Screen builtins\<close>

definition blt_clear :: "image \<Rightarrow> kernel \<Rightarrow> kernel option" where
  "blt_clear im k = on_screen (sb_clear (dev im)) k"

definition blt_next :: "image \<Rightarrow> kernel \<Rightarrow> kernel option" where
  "blt_next im k =
     do { k1 \<leftarrow> on_cur sb_unload k;
          let k2 = k1\<lparr>sb_current := sb_current k1 + 1\<rparr>;
          let k3 = (if sb_current k2 - 0 = sb_nbscreen k2 then k2\<lparr>sb_current := 0\<rparr> else k2);
          on_screen (sb_load (dev im)) k3 }"

definition blt_prev :: "image \<Rightarrow> kernel \<Rightarrow> kernel option" where
  "blt_prev im k =
     do { k1 \<leftarrow> on_cur sb_unload k;
          let k2 = k1\<lparr>sb_current := sb_current k1 - 1\<rparr>;
          let k3 = (if sb_current k2 < 0 then k2\<lparr>sb_current := 0 + (sb_nbscreen k2 - 1)\<rparr> else k2);
          on_screen (sb_load (dev im)) k3 }"

section \<open>Writing a text to a screen\<close>

text \<open>\<^verbatim>\<open>sb_putstr\<close> without the memory the string stands in.\<close>

fun sb_puts :: "device \<Rightarrow> u8 list \<Rightarrow> screenbuf \<Rightarrow> video \<Rightarrow> (screenbuf \<times> video) option" where
  "sb_puts d [] s v = Some (s, v)"
| "sb_puts d (c # cs) s v = do { (s1, v1) \<leftarrow> sb_putchar d c s v; sb_puts d cs s1 v1 }"

lemma sb_putstr_puts: "cstr m p xs \<Longrightarrow> sb_putstr d m p s v = sb_puts d xs s v"
proof (induction xs arbitrary: p s v)
  case Nil
  then show ?case by (subst sb_putstr.simps) simp
next
  case (Cons x xs)
  then have "sb_putstr d m (p + 1) = sb_puts d xs" by (intro ext) simp
  with Cons.prems show ?case by (subst sb_putstr.simps) simp
qed

lemma sb_puts_ok:
  assumes "8 \<notin> set xs" "sb_inv s"
  shows "sb_ok s v (sb_puts d xs s v) sb_inv"
  using assms
proof (induction xs arbitrary: s v)
  case Nil
  then show ?case by (auto intro!: sb_okI)
next
  case (Cons x xs)
  obtain s1 v1 where 1: "sb_putchar d x s v = Some (s1, v1)" "sb_inv s1" "inside (cells s) (cells s1)" "inside (vga v) (vga v1)"
    using sb_putchar_ok [of s x v d] Cons.prems unfolding sb_ok_def by auto
  then show ?case using Cons.IH [of s1 v1] Cons.prems unfolding sb_ok_def by (auto intro: inside_trans)
qed

text \<open>Writing changes neither whether a buffer is loaded nor its colour.\<close>

named_theorems keeps_loaded \<open>operations that keep the loaded flag and the colour\<close>

lemma sb_scroll_loaded [keeps_loaded]: "sb_scroll d n s v = Some (s', v') \<Longrightarrow> loaded s' = loaded s \<and> color s' = color s"
  by (auto simp: sb_scroll_def sb_scroll_top_def sb_scroll_down_def Let_def bind_eq_Some_conv split: if_splits)

lemma sb_crlf_loaded [keeps_loaded]: "sb_crlf d s v = Some (s', v') \<Longrightarrow> loaded s' = loaded s \<and> color s' = color s"
  by (auto simp: sb_crlf_def sb_crlf_top_def Let_def bind_eq_Some_conv dest!: sb_scroll_loaded split: if_splits)

lemma sb_write_word_loaded: "loaded (fst (sb_write_word w s v)) = loaded s \<and> color (fst (sb_write_word w s v)) = color s"
  by (simp add: sb_write_word_def Let_def)

lemma sb_tab_loop_loaded [keeps_loaded]: "sb_tab_loop s v = Some (s', v') \<Longrightarrow> loaded s' = loaded s \<and> color s' = color s"
proof -
  have "loaded (fst r) = loaded s \<and> color (fst r) = color s" if "sb_tab_loop s v = Some r" for r
  proof (rule sb_tab_loop.raw_induct [where P = "\<lambda>s v r. loaded (fst r) = loaded s \<and> color (fst r) = color s", OF _ that])
    fix f s v r
    assume IH: "\<And>s v r. f s v = Some r \<Longrightarrow> loaded (fst r) = loaded s \<and> color (fst r) = color s"
      and step: "(let (s1, v1) = sb_write_word (push_bit 8 (ucast (color s)) OR 0) s v; s2 = s1\<lparr>cursor_offset := cursor_offset s1 + 1\<rparr>
        in if cursor_offset s2 mod TABSIZE \<noteq> 0 \<and> uint (cursor_offset s2) < VGA_WIDTH then f s2 v1 else Some (s2, v1)) = Some r"
    obtain s1 v1 where w: "sb_write_word (push_bit 8 (ucast (color s)) OR 0) s v = (s1, v1)" by (metis prod.exhaust)
    have "loaded s1 = loaded s \<and> color s1 = color s" using sb_write_word_loaded [of "push_bit 8 (ucast (color s)) OR 0" s v] w by simp
    then show "loaded (fst r) = loaded s \<and> color (fst r) = color s"
      using step IH [of "s1\<lparr>cursor_offset := cursor_offset s1 + 1\<rparr>" v1 r] unfolding w by (auto simp: Let_def split: if_splits)
  qed
  then show "sb_tab_loop s v = Some (s', v') \<Longrightarrow> loaded s' = loaded s \<and> color s' = color s" by force
qed

lemma sb_backspace_loaded [keeps_loaded]: "sb_backspace d s v = Some (s', v') \<Longrightarrow> loaded s' = loaded s \<and> color s' = color s"
  by (auto simp: sb_backspace_def bind_eq_Some_conv sb_write_word_def Let_def dest!: sb_scroll_loaded split: if_splits)

lemma sb_putchar_loaded: "sb_putchar d c s v = Some (s', v') \<Longrightarrow> loaded s' = loaded s \<and> color s' = color s"
  by (auto simp: sb_putchar_def sb_regular_def sb_tabulation_def Let_def bind_eq_Some_conv dest!: keeps_loaded split: if_splits)

lemma sb_puts_loaded: "sb_puts d cs s v = Some (s', v') \<Longrightarrow> loaded s' = loaded s \<and> color s' = color s"
  by (induction cs arbitrary: s v) (auto simp: bind_eq_Some_conv dest: sb_putchar_loaded)

section \<open>The screens of the kernel\<close>

text \<open>Every screen has its invariant, the current one is a screen, and it alone is loaded.\<close>

definition con_inv :: "kernel \<Rightarrow> bool" where
  "con_inv k \<longleftrightarrow> length (sb k) = NBSCREENBUF \<and> sb_nbscreen k = int NBSCREENBUF \<and> 0 \<le> sb_current k \<and> sb_current k < int NBSCREENBUF
     \<and> (\<forall>i < NBSCREENBUF. sb_inv (sb k ! i) \<and> (loaded (sb k ! i) \<longleftrightarrow> int i = sb_current k))"

lemma con_invD:
  assumes "con_inv k"
  shows "cur_ok k" "sb_inv (cur k)" "loaded (cur k)" "nat (sb_current k) < length (sb k)"
proof -
  have i: "nat (sb_current k) < NBSCREENBUF" "int (nat (sb_current k)) = sb_current k"
    using assms by (auto simp: con_inv_def nat_less_iff)
  then show "cur_ok k" "nat (sb_current k) < length (sb k)" using assms by (simp_all add: con_inv_def cur_ok_def)
  show "sb_inv (cur k)" "loaded (cur k)" using i assms unfolding con_inv_def cur_def by auto
qed

lemma con_inv_set_cur:
  assumes "con_inv k" "sb_inv s" "loaded s"
  shows "con_inv ((set_cur s k)\<lparr>hw := v\<rparr>)" "con_inv (set_cur s k)"
  using assms by (auto simp: con_inv_def set_cur_def nth_list_update NBSCREENBUF_def)

lemma con_inv_set_ram [simp]: "con_inv (set_ram m k) = con_inv k"
  by (simp add: con_inv_def set_ram_def)

lemma set_cur_simps [simp]:
  "sb_current (set_cur s k) = sb_current k" "hw (set_cur s k) = hw k" "phys (set_cur s k) = phys k" "kbd (set_cur s k) = kbd k"
  "gdtp (set_cur s k) = gdtp k" "idtp (set_cur s k) = idtp k" "sb_nbscreen (set_cur s k) = sb_nbscreen k"
  "nsh_cmd (set_cur s k) = nsh_cmd k" "nsh_cmdnarg (set_cur s k) = nsh_cmdnarg k" "nsh_bufindex (set_cur s k) = nsh_bufindex k"
  by (simp_all add: set_cur_def)

lemma set_ram_simps [simp]:
  "kmem (phys (set_ram m k)) = m" "sb (set_ram m k) = sb k" "sb_current (set_ram m k) = sb_current k" "hw (set_ram m k) = hw k"
  "cur (set_ram m k) = cur k" "cur_ok (set_ram m k) = cur_ok k" "kbd (set_ram m k) = kbd k"
  "gdtp (set_ram m k) = gdtp k" "idtp (set_ram m k) = idtp k" "sb_nbscreen (set_ram m k) = sb_nbscreen k"
  "buddy (phys (set_ram m k)) = buddy (phys k)" "buddy_addr (phys (set_ram m k)) = buddy_addr (phys k)"
  "nsh_cmd (set_ram m k) = nsh_cmd k"
  "nsh_cmdnarg (set_ram m k) = nsh_cmdnarg k" "nsh_bufindex (set_ram m k) = nsh_bufindex k"
  by (simp_all add: set_ram_def cur_def cur_ok_def)

section \<open>kprintf\<close>

text \<open>A string literal stands in memory, away from the buffer of \<^verbatim>\<open>kprintf\<close>.\<close>

definition lit_ok :: "image \<Rightarrow> mem \<Rightarrow> string \<Rightarrow> bool" where
  "lit_ok im m s \<longleftrightarrow> cstr m (lit im s) (bytes s) \<and> length s < 4294967295 \<and> blk (lit im s) (Suc (length s)) \<inter> blk (kbuf im) 4096 = {}"

text \<open>All the literals of the console code are in place.\<close>

definition lits_ok :: "image \<Rightarrow> mem \<Rightarrow> bool" where
  "lits_ok im m \<longleftrightarrow> (\<forall>s \<in> set literals. lit_ok im m s)"

lemma lits_okD: "lits_ok im m \<Longrightarrow> s \<in> set literals \<Longrightarrow> lit_ok im m s"
  by (simp add: lits_ok_def)

text \<open>What \<^verbatim>\<open>kprintf\<close> does with the text its format stands for.\<close>

definition kputs :: "image \<Rightarrow> u8 list \<Rightarrow> kernel \<Rightarrow> kernel option" where
  "kputs im t k =
     on_screen (sb_puts (dev im) t) (set_ram (mwrite (filled (ram k) (kbuf im) 0 4096) (kbuf im) t) k)"

lemma blk_4095: "blk p 4095 \<subseteq> blk p 4096"
  by (auto simp: blk_def)

lemma filled_cstr:
  assumes "cstr m p xs" "length xs < 4294967295" "blk p (Suc (length xs)) \<inter> blk q 4096 = {}"
  shows "cstr (filled m q 0 4096) p xs"
proof -
  have "cstr (filled m q 0 4096) p xs = cstr m p xs"
    using assms(2,3) by (intro cstr_cong) (auto simp: filled_def)
  then show ?thesis using assms(1) by simp
qed

lemma kprintf_kputs:
  assumes "lit_ok im (ram k) fmt" "strs_ok strs (ram k) (kbuf im) 4096" "expand strs 0 (bytes fmt) args = Some t"
    and "length t < 4096" "0 \<notin> set t"
  shows "kprintf im fmt args k = map_option (Pair (of_nat (length t))) (kputs im t k)"
proof -
  let ?m = "filled (ram k) (kbuf im) 0 4096" and ?b = "kbuf im"
  have lit: "cstr (ram k) (lit im fmt) (bytes fmt)" "length (bytes fmt) < 4294967295"
    "blk (lit im fmt) (Suc (length (bytes fmt))) \<inter> blk ?b 4096 = {}"
    using assms(1) by (simp_all add: lit_ok_def bytes_def)
  have st: "strs_ok strs ?m ?b 4095"
    using assms(2) blk_4095 [of ?b] unfolding strs_ok_def by (auto intro!: filled_cstr)
  have dj: "blk (lit im fmt) (Suc (length (bytes fmt))) \<inter> blk ?b (unat (4095 :: u32)) = {}" using lit(3) blk_4095 [of ?b] by auto
  have v: "vsnprintf ?m ?b 4095 (lit im fmt) args = Some (mwrite ?m ?b t, of_nat (length t))"
    using vsnprintf_loop_expand [OF st filled_cstr [OF lit] lit(2) dj assms(3), of 0] assms(4) by (simp add: vsnprintf_def)
  have "?m (?b + of_nat (length t)) = 0" using assms(4) blk_add_of_nat [of "length t" 4096 ?b] by (simp add: filled_def)
  then have "cstr (mwrite ?m ?b t) ?b t" using assms(4,5) by (intro cstr_mwrite) simp_all
  then have "sb_putstr (dev im) (mwrite ?m ?b t) ?b = sb_puts (dev im) t" by (intro ext) (rule sb_putstr_puts)
  then show ?thesis
    unfolding kprintf_def Let_def kputs_def memset_filled BUFSIZE_def
    by (simp add: v map_conv_bind_option comp_def)
qed

lemma kputs_ok:
  assumes "con_inv k" "8 \<notin> set t"
  obtains s v where "sb_puts (dev im) t (cur k) (hw k) = Some (s, v)" "sb_inv s" "loaded s"
    "kputs im t k = Some ((set_cur s (set_ram (mwrite (filled (ram k) (kbuf im) 0 4096) (kbuf im) t) k))\<lparr>hw := v\<rparr>)"
proof -
  obtain s v where sv: "sb_puts (dev im) t (cur k) (hw k) = Some (s, v)" "sb_inv s"
    using sb_puts_ok [OF assms(2) con_invD(2) [OF assms(1)], of "hw k" "dev im"] by (auto simp: sb_ok_def)
  moreover have "loaded s" using sb_puts_loaded [OF sv(1)] con_invD(3) [OF assms(1)] by simp
  ultimately show thesis
    using that con_invD(1) [OF assms(1)] by (simp add: kputs_def on_screen_def)
qed

section \<open>Switching screens\<close>

lemma switch_screen:
  assumes "con_inv k" "0 \<le> c" "c < int NBSCREENBUF"
  shows "\<exists>k'. on_screen (sb_load d) ((set_cur (sb_unload (cur k)) k)\<lparr>sb_current := c\<rparr>) = Some k'
    \<and> con_inv k' \<and> sb_current k' = c \<and> shows_window (cur k') (vga (hw k'))
    \<and> (\<forall>i < NBSCREENBUF. sb k' ! i = (sb k ! i)\<lparr>loaded := (int i = c)\<rparr>)"
proof -
  let ?k = "(set_cur (sb_unload (cur k)) k)\<lparr>sb_current := c\<rparr>"
  have n: "nat c < NBSCREENBUF" "length (sb k) = NBSCREENBUF" "nat (sb_current k) < NBSCREENBUF"
    using assms by (auto simp: con_inv_def nat_less_iff)
  have sbk: "sb ?k ! i = (sb k ! i)\<lparr>loaded := False\<rparr>" if "i < NBSCREENBUF" for i
  proof (cases "i = nat (sb_current k)")
    case True
    then show ?thesis using n by (simp add: set_cur_def sb_unload_def cur_def)
  next
    case False
    then have "\<not> loaded (sb k ! i)" using assms(1) that by (auto simp: con_inv_def)
    then have "(sb k ! i)\<lparr>loaded := False\<rparr> = sb k ! i" by (cases "sb k ! i") simp
    then show ?thesis using False n that by (simp add: set_cur_def)
  qed
  have inv: "sb_inv ((sb k ! i)\<lparr>loaded := l\<rparr>)" if "i < NBSCREENBUF" for i l
    using assms(1) that by (auto simp: con_inv_def sb_inv_def sb_at_def)
  have "sb_inv (sb ?k ! nat c)" using inv [OF n(1)] sbk [OF n(1)] by simp
  from sb_load_window [OF this, of d "hw ?k"] obtain v where v:
    "sb_load d (sb ?k ! nat c) (hw ?k) = Some ((sb ?k ! nat c)\<lparr>loaded := True\<rparr>, v)" "shows_window (sb ?k ! nat c) (vga v)" by auto
  let ?k' = "(set_cur ((sb ?k ! nat c)\<lparr>loaded := True\<rparr>) ?k)\<lparr>hw := v\<rparr>"
  have l: "length (sb ?k) = NBSCREENBUF" using n by (simp add: set_cur_def)
  have "cur_ok ?k" using assms(2) n(1) l by (simp add: cur_ok_def)
  then have "on_screen (sb_load d) ?k = Some ?k'" using v(1) by (simp add: on_screen_def cur_def)
  moreover have all: "sb ?k' ! i = (sb k ! i)\<lparr>loaded := (int i = c)\<rparr>" if "i < NBSCREENBUF" for i
  proof -
    have "sb ?k' ! i = (if i = nat c then (sb ?k ! nat c)\<lparr>loaded := True\<rparr> else sb ?k ! i)"
      using l n(1) that unfolding set_cur_def [of _ ?k] by (simp add: nth_list_update)
    then show ?thesis using sbk [OF that] assms(2) by auto
  qed
  moreover have "con_inv ?k'"
    using assms l all inv n(2) by (simp add: con_inv_def) (simp add: set_cur_def)
  moreover have "shows_window (cur ?k') (vga (hw ?k'))"
    using v(2) all [OF n(1)] sbk [OF n(1)] by (simp add: cur_def shows_window_def)
  ultimately show ?thesis by (intro exI [of _ ?k']) simp
qed

lemma screens_switch:
  assumes "con_inv k"
  shows "\<exists>k1 k2. blt_next im k = Some k1 \<and> blt_prev im k = Some k2 \<and> con_inv k1 \<and> con_inv k2
    \<and> sb_current k1 = (sb_current k + 1) mod int NBSCREENBUF \<and> sb_current k2 = (sb_current k - 1) mod int NBSCREENBUF
    \<and> shows_window (cur k1) (vga (hw k1)) \<and> shows_window (cur k2) (vga (hw k2))
    \<and> (\<forall>i < NBSCREENBUF. sb k1 ! i = (sb k ! i)\<lparr>loaded := (int i = sb_current k1)\<rparr> \<and> sb k2 ! i = (sb k ! i)\<lparr>loaded := (int i = sb_current k2)\<rparr>)"
proof -
  let ?u = "set_cur (sb_unload (cur k)) k"
  let ?n = "(sb_current k + 1) mod int NBSCREENBUF" and ?p = "(sb_current k - 1) mod int NBSCREENBUF"
  have c: "sb_current k = 0 \<or> sb_current k = 1" "sb_nbscreen k = 2" using assms by (auto simp: con_inv_def NBSCREENBUF_def)
  have u: "on_cur sb_unload k = Some ?u" using con_invD(1) [OF assms] by (simp add: on_cur_def)
  have nb: "sb_nbscreen ?u = 2" using c(2) by (simp add: set_cur_def)
  have "blt_next im k = on_screen (sb_load (dev im)) (?u\<lparr>sb_current := ?n\<rparr>)"
    using c nb unfolding blt_next_def u by (auto simp: Let_def NBSCREENBUF_def)
  moreover have "blt_prev im k = on_screen (sb_load (dev im)) (?u\<lparr>sb_current := ?p\<rparr>)"
    using c nb unfolding blt_prev_def u by (auto simp: Let_def NBSCREENBUF_def)
  moreover have "0 \<le> ?n" "?n < int NBSCREENBUF" "0 \<le> ?p" "?p < int NBSCREENBUF" by (simp_all add: NBSCREENBUF_def)
  ultimately show ?thesis
    using switch_screen [OF assms, of ?n "dev im"] switch_screen [OF assms, of ?p "dev im"] by auto
qed

section \<open>Correctness properties\<close>

text \<open>
  C15: \<^verbatim>\<open>kprintf\<close> prints.  With its format in memory away from the buffer, and a text without NUL or backspace that
  fits the buffer, the call returns the length of the text, has written it character by character
  on the current screen, keeps the invariant of the screens, and changes no byte of memory outside its own
  buffer.
\<close>

theorem kprintf_correct:
  assumes "lit_ok im (ram k) fmt" "strs_ok strs (ram k) (kbuf im) 4096" "expand strs 0 (bytes fmt) args = Some t"
    and "length t < 4096" "0 \<notin> set t" "8 \<notin> set t" "con_inv k"
  shows "\<exists>k'. kprintf im fmt args k = Some (of_nat (length t), k') \<and> con_inv k'
    \<and> sb_puts (dev im) t (cur k) (hw k) = Some (cur k', hw k')
    \<and> (\<forall>a. a \<notin> blk (kbuf im) 4096 \<longrightarrow> ram k' a = ram k a)"
proof -
  obtain s v where sv: "sb_puts (dev im) t (cur k) (hw k) = Some (s, v)" "sb_inv s" "loaded s"
    "kputs im t k = Some ((set_cur s (set_ram (mwrite (filled (ram k) (kbuf im) 0 4096) (kbuf im) t) k))\<lparr>hw := v\<rparr>)"
    using kputs_ok [OF assms(7,6)] by metis
  let ?k = "(set_cur s (set_ram (mwrite (filled (ram k) (kbuf im) 0 4096) (kbuf im) t) k))\<lparr>hw := v\<rparr>"
  have "kprintf im fmt args k = Some (of_nat (length t), ?k)" using kprintf_kputs [OF assms(1-5)] sv(4) by simp
  moreover have "con_inv ?k" using con_inv_set_cur(1) [OF _ sv(2,3)] assms(7) by simp
  moreover have "cur ?k = s" using con_invD(4) [OF assms(7)] by (simp add: cur_def set_cur_def)
  moreover have "ram ?k a = ram k a" if "a \<notin> blk (kbuf im) 4096" for a
    using that mwrite_frame [of 0 t 4096 a "kbuf im"] assms(4) by (simp add: filled_def)
  ultimately show ?thesis using sv(1) by (intro exI [of _ ?k]) simp
qed

definition demo_image :: image where
  "demo_image = \<lparr>dev = (\<lambda>_ _. 0), kbuf = 0x10000, nsh_buf = 0x8000, lit = pool_lit 0x20000 literals,
     isr = \<lparr>divide_error_addr = 0xC0101000, overflow_addr = 0xC0101100, double_fault_addr = 0xC0101200, timer_addr = 0xC0101300,
       keyboard_addr = 0xC0101400\<rparr>,
     int_frame = (0x9000, \<lparr>frame_eip = 0xC0102000, frame_cs = 8, frame_flags = 0x202, frame_sp = 0, frame_ss = 0\<rparr>), errcode = 0,
     wakes = (\<lambda>_. None), regs = (\<lambda>_. 0), stack_top = 0xC0110000, stack_bottom = 0xC010C000,
     stack_chunk = \<lparr>chunk_addr = 0, chunk_size = 0\<rparr>, mapped = boot_mapped\<rparr>"

definition demo_kernel :: "mem \<Rightarrow> kernel" where
  "demo_kernel m =
     \<lparr>phys = \<lparr>buddy_addr = 0, buddy = \<lparr>nframes = 0, buddy_size = 0, enabled_frames = 0, orders = []\<rparr>, kmem = m\<rparr>,
      sb = [demo_sb\<lparr>loaded := True\<rparr>, demo_sb], sb_current = 0, sb_nbscreen = 2, hw = demo_video, kbd = kbd_st_zero,
      gdtp = \<lparr>gdt_limit = 48, gdt_base = 0x800\<rparr>, idtp = \<lparr>idt_limit = 2048, idt_base = 0\<rparr>,
      nsh_cmd = (\<lambda>_. 0), nsh_cmdnarg = 0, nsh_bufindex = 0\<rparr>"

lemma demo_sb_inv: "sb_inv (demo_sb\<lparr>loaded := l\<rparr>)" "\<not> loaded demo_sb"
  using sb_init_inv unfolding demo_sb_def by (auto simp: sb_inv_def sb_at_def) (simp_all add: sb_init_def)

lemma demo_kernel_inv: "con_inv (demo_kernel m)"
proof -
  have "demo_sb\<lparr>loaded := False\<rparr> = demo_sb" using demo_sb_inv(2) by (cases demo_sb) simp
  then have "sb_inv demo_sb" using demo_sb_inv(1) [of False] by simp
  then show ?thesis
    using demo_sb_inv by (auto simp: con_inv_def demo_kernel_def NBSCREENBUF_def less_Suc_eq numeral_2_eq_2)
qed

text \<open>A memory with the literals in the slots from 0x20000.\<close>

definition demo_ram :: "mem \<Rightarrow> mem" where
  "demo_ram = pool_mem 0x20000 literals"

lemma demo_lits_ok: "lits_ok demo_image (demo_ram m)"
  unfolding lits_ok_def
proof
  fix s assume s: "s \<in> set literals"
  have st: "storable s" using literals_storable s by (simp add: list_all_iff)
  have "blk (pool_lit 0x20000 literals s) (Suc (length s)) \<subseteq> blk 0x20000 (128 * length literals)"
    by (rule pool_slot [OF s st]) (simp add: length_literals)
  moreover have "blk 0x20000 (128 * length literals) \<inter> blk 0x10000 4096 = {}"
    by (subst Int_commute, rule blk_apart) (simp_all add: length_literals)
  moreover have "cstr (demo_ram m) (pool_lit 0x20000 literals s) (bytes s)"
    unfolding demo_ram_def by (rule pool_cstr [OF s st]) (simp add: length_literals)
  ultimately show "lit_ok demo_image (demo_ram m) s"
    using st by (auto simp: lit_ok_def demo_image_def storable_def)
qed

theorem kprintf_correct_witness:
  "\<exists>k'. kprintf demo_image ''%c'' [65] (demo_kernel (demo_ram (\<lambda>_. 0))) = Some (1, k') \<and> con_inv k'"
proof -
  let ?m = "demo_ram (\<lambda>_. 0)"
  have "''%c'' \<in> set literals" by (simp add: literals_def)
  with demo_lits_ok [of "\<lambda>_. 0"] have "lit_ok demo_image (ram (demo_kernel ?m)) ''%c''"
    by (simp add: lits_okD demo_kernel_def)
  moreover have "strs_ok Map.empty (ram (demo_kernel ?m)) (kbuf demo_image) 4096" by (simp add: strs_ok_def)
  moreover have "expand Map.empty 0 (bytes ''%c'') [65] = Some [65]"
    by (simp add: bytes_def spec_text_def va_arg_def is_pad_def)
  ultimately show ?thesis
    using kprintf_correct [of demo_image "demo_kernel ?m" "''%c''" Map.empty "[65]" "[65]"] demo_kernel_inv [of ?m] by auto
qed

text \<open>
  \<^verbatim>\<open>next\<close> and \<^verbatim>\<open>prev\<close> walk around the screens.  From a state with the screen invariant each returns, keeps it,
  moves the current screen by one modulo the number of screens, unloads the old and loads the new one, leaves the contents of
  every buffer alone, and makes the display show the new screen.
\<close>

theorem screens_cycle:
  assumes "con_inv k"
  shows "\<exists>k1 k2. blt_next im k = Some k1 \<and> blt_prev im k = Some k2 \<and> con_inv k1 \<and> con_inv k2
    \<and> sb_current k1 = (sb_current k + 1) mod int NBSCREENBUF \<and> sb_current k2 = (sb_current k - 1) mod int NBSCREENBUF
    \<and> shows_window (cur k1) (vga (hw k1)) \<and> shows_window (cur k2) (vga (hw k2))
    \<and> (\<forall>i < NBSCREENBUF. sb k1 ! i = (sb k ! i)\<lparr>loaded := (int i = sb_current k1)\<rparr> \<and> sb k2 ! i = (sb k ! i)\<lparr>loaded := (int i = sb_current k2)\<rparr>)"
  by (rule screens_switch [OF assms])

theorem screens_cycle_witness:
  "\<exists>k1. blt_next demo_image (demo_kernel (\<lambda>_. 0)) = Some k1 \<and> sb_current k1 = 1"
  using screens_cycle [OF demo_kernel_inv, of demo_image "\<lambda>_. 0"] by (auto simp: demo_kernel_def NBSCREENBUF_def)

end
