(* ===== verification/Screen_Text.thy ===== *)
theory Screen_Text
  imports Console
begin

text \<open>
  What a screen buffer is for: a list of at most 200 lines of at most 80 cells, of which the last 25 are on display.  The ring of
  \<^verbatim>\<open>src/kernel/screenbuf.c\<close> refines that list, and the display, which \<^verbatim>\<open>sb_putchar\<close> updates cell by cell, always equals the window
  that a full redraw with \<^verbatim>\<open>sb_sync\<close> would give.
\<close>

unbundle bit_operations_syntax

section \<open>Operations on lists of lines\<close>

type_synonym page = "u16 list list"

definition new_line :: "page \<Rightarrow> page" where
  "new_line ls = (if length ls = 200 then tl ls else ls) @ [[]]"

definition add_cell :: "u16 \<Rightarrow> page \<Rightarrow> page" where
  "add_cell w ls =
     (let ls' = butlast ls @ [last ls @ [w]] in if length (last ls') = 80 then new_line ls' else ls')"

definition erase_cell :: "page \<Rightarrow> page" where
  "erase_cell ls =
     (if last ls = [] \<and> length ls = 1 then ls
      else let ls' = (if last ls = [] then butlast ls else ls) in butlast ls' @ [butlast (last ls')])"

definition cell :: "u8 \<Rightarrow> u8 \<Rightarrow> u16" where
  "cell col c = scast c OR push_bit 8 (ucast col)"

definition type_char :: "u8 \<Rightarrow> u8 \<Rightarrow> page \<Rightarrow> page" where
  "type_char col c ls = (if c = 10 then new_line ls else if c = 8 then erase_cell ls else add_cell (cell col c) ls)"

text \<open>A backspace at the start of a line below an empty line has nothing to erase.\<close>

definition can_erase :: "page \<Rightarrow> bool" where
  "can_erase ls \<longleftrightarrow> last ls \<noteq> [] \<or> length ls = 1 \<or> last (butlast ls) \<noteq> []"

section \<open>Arithmetic of the ring\<close>

lemma radd_radd: "radd (radd a m) n = radd a (m + n)"
  by (simp add: radd_def mod_simps add.assoc)

lemma radd_0: "a \<in> {0..<200} \<Longrightarrow> radd a 0 = a"
  by (simp add: radd_def)

declare radd_range [simp]

lemma radd_in: "radd a n \<in> {0..<200}"
  by simp

lemma rdist_in: "a \<in> {0..<200} \<Longrightarrow> b \<in> {0..<200} \<Longrightarrow> rdist a b \<in> {0..<200}"
  using rdist_range [of a b] by simp

lemma rdist_mod: "a \<in> {0..<200} \<Longrightarrow> b \<in> {0..<200} \<Longrightarrow> rdist a b = (b - a) mod 200"
proof (cases "a \<le> b")
  case False
  assume r: "a \<in> {0..<200}" "b \<in> {0..<200}"
  have "(b - a) mod 200 = (b - a + 200) mod 200" by simp
  also have "\<dots> = b - a + 200" using r False by (intro mod_pos_pos_trivial) auto
  finally show ?thesis using False by (simp add: rdist_def)
qed (simp add: rdist_def)

lemma radd_rdist: "a \<in> {0..<200} \<Longrightarrow> b \<in> {0..<200} \<Longrightarrow> radd a (rdist a b) = b"
  by (simp add: rdist_mod radd_def mod_simps)

lemma rdist_radd: "a \<in> {0..<200} \<Longrightarrow> n \<in> {0..<200} \<Longrightarrow> rdist a (radd a n) = n"
  using radd_range [of a n] by (simp add: rdist_mod, simp add: radd_def mod_simps)

lemma radd_eq_iff: "m \<in> {0..<200} \<Longrightarrow> n \<in> {0..<200} \<Longrightarrow> radd a m = radd a n \<longleftrightarrow> m = n"
proof -
  assume mn: "m \<in> {0..<200}" "n \<in> {0..<200}"
  have "radd (radd a 0) k = radd a k" for k by (simp add: radd_radd)
  then show ?thesis using rdist_radd [of "radd a 0" m] rdist_radd [of "radd a 0" n] mn by (metis radd_in)
qed

lemma cell_eq: "j < 80 \<Longrightarrow> j' < 80 \<Longrightarrow> 80 * L + int j = 80 * L' + int j' \<longleftrightarrow> L = L' \<and> j = j'"
proof
  assume j: "j < 80" "j' < 80" and e: "80 * L + int j = 80 * L' + int j'"
  have "(80 * L + int j) div 80 = L" "(80 * L' + int j') div 80 = L'" using j by simp_all
  then show "L = L' \<and> j = j'" using e by auto
qed simp

section \<open>The text of a buffer\<close>

text \<open>The cells \<open>xs\<close> stand in line \<open>L\<close> of the ring, with blanks behind them.\<close>

definition line_shows :: "(int \<Rightarrow> u16) \<Rightarrow> int \<Rightarrow> u16 list \<Rightarrow> bool" where
  "line_shows b L xs \<longleftrightarrow> length xs \<le> 80 \<and> SB_WHITESPACE \<notin> set xs
     \<and> (\<forall>j < 80. b (80 * L + int j) = (if j < length xs then xs ! j else SB_WHITESPACE))"

text \<open>
  The lines \<open>ls\<close> fill the ring from the top to the cursor line, the cursor line is on display, and the lines on display below it
  are blank.
\<close>

definition lines_at :: "int \<Rightarrow> int \<Rightarrow> int \<Rightarrow> page \<Rightarrow> screenbuf \<Rightarrow> bool" where
  "lines_at T V C ls s \<longleftrightarrow> sb_at T V C s \<and> int (length ls) = rdist T C + 1
     \<and> (\<forall>i < length ls. line_shows (cells s) (radd T (int i)) (ls ! i))
     \<and> rdist V C < 25 \<and> (\<forall>i. 0 < i \<and> rdist V C + i < 25 \<longrightarrow> line_shows (cells s) (radd C i) [])"

definition has_text :: "screenbuf \<Rightarrow> page \<Rightarrow> bool" where
  "has_text s ls \<longleftrightarrow> (\<exists>T V C. lines_at T V C ls s) \<and> uint (cursor_offset s) = int (length (last ls)) \<and> length (last ls) < 80"

text \<open>The display shows the window of a loaded buffer.\<close>

definition synced :: "screenbuf \<Rightarrow> video \<Rightarrow> bool" where
  "synced s v \<longleftrightarrow> (loaded s \<longrightarrow> shows_window s (vga v))"

lemma lines_atD:
  assumes "lines_at T V C ls s"
  shows "endbuf s = 16000" "top s = 80 * T" "viewport s = 80 * V" "cursor s = 80 * C"
    and "T \<in> {0..<200}" "V \<in> {0..<200}" "C \<in> {0..<200}" "rdist T V \<le> rdist T C"
    and "ls \<noteq> []" "length ls \<le> 200" "radd T (int (length ls - 1)) = C" "line_shows (cells s) C (last ls)" "sb_at T V C s"
proof -
  show at: "sb_at T V C s" using assms by (simp add: lines_at_def)
  then show r: "endbuf s = 16000" "top s = 80 * T" "viewport s = 80 * V" "cursor s = 80 * C"
    "T \<in> {0..<200}" "V \<in> {0..<200}" "C \<in> {0..<200}" "rdist T V \<le> rdist T C" by (simp_all add: sb_at_def)
  have n: "int (length ls) = rdist T C + 1" using assms by (simp add: lines_at_def)
  have d: "0 \<le> rdist T C" "rdist T C < 200" using rdist_in [OF r(5,7)] by simp_all
  show ne: "ls \<noteq> []" "length ls \<le> 200" using n d by auto
  have i: "int (length ls - 1) = rdist T C" using n d by simp
  show t: "radd T (int (length ls - 1)) = C" unfolding i by (rule radd_rdist [OF r(5,7)])
  have "line_shows (cells s) (radd T (int (length ls - 1))) (ls ! (length ls - 1))" using assms ne(1) by (simp add: lines_at_def)
  then show "line_shows (cells s) C (last ls)" using t ne(1) by (simp add: last_conv_nth)
qed

lemma shows_window_iff:
  assumes "viewport s = 80 * V"
  shows "shows_window s g \<longleftrightarrow> (\<forall>i \<in> {0..<25}. \<forall>j < 80. g (80 * i + int j) = cells s (80 * radd V i + int j))"
proof -
  have "(viewport s + 80 * i) mod 16000 = 80 * radd V i" for i
    using mult_mod_right [of 80 "V + i" 200] by (simp add: assms radd_def algebra_simps)
  moreover have "(\<forall>k \<in> {0..<80}. P k) \<longleftrightarrow> (\<forall>j < 80. P (int j))" for P :: "int \<Rightarrow> bool"
    by (metis atLeastLessThan_iff nat_less_iff of_nat_0_le_iff of_nat_less_iff of_nat_numeral zero_le_imp_eq_int)
  ultimately show ?thesis by (simp add: shows_window_def)
qed

section \<open>Writing one cell\<close>

text \<open>A cell of the cursor line, changed in the buffer and on the display.\<close>

lemma window_cell:
  assumes "lines_at T V C ls s" "shows_window s g" "j < 80"
  shows "shows_window (s\<lparr>cells := (cells s)(80 * C + int j := w)\<rparr>) (g(80 * rdist V C + int j := w))"
proof -
  note r = lines_atD [OF assms(1)]
  have vis: "rdist V C \<in> {0..<25}" using assms(1) rdist_in [OF r(6,7)] by (simp add: lines_at_def)
  have "radd V i = C \<longleftrightarrow> i = rdist V C" if "i \<in> {0..<25}" for i
    using radd_eq_iff [of i "rdist V C" V] radd_rdist [OF r(6,7)] that vis by auto
  then show ?thesis
    using assms(2,3) r(3) by (simp add: shows_window_iff [where V = V] cell_eq)
qed

lemma line_shows_other: "L \<noteq> L' \<Longrightarrow> j < 80 \<Longrightarrow> line_shows (b(80 * L' + int j := w)) L xs = line_shows b L xs"
  by (simp add: line_shows_def cell_eq)

text \<open>Changing a cell of the cursor line changes the last line of the text only.\<close>

lemma lines_cell:
  assumes "lines_at T V C ls s" "j < 80" "line_shows ((cells s)(80 * C + int j := w)) C xs"
  shows "lines_at T V C (butlast ls @ [xs]) (s\<lparr>cells := (cells s)(80 * C + int j := w)\<rparr>)"
proof -
  note r = lines_atD [OF assms(1)]
  let ?b = "(cells s)(80 * C + int j := w)" and ?n = "length ls - 1"
  have len: "int (length ls) = rdist T C + 1" "0 < length ls" using assms(1) r(9) by (auto simp: lines_at_def)
  have old: "line_shows (cells s) (radd T (int i)) (ls ! i)" if "i < length ls" for i using assms(1) that by (simp add: lines_at_def)
  have "line_shows ?b (radd T (int i)) ((butlast ls @ [xs]) ! i)" if "i < length ls" for i
  proof (cases "i = ?n")
    case True
    then show ?thesis using assms(3) r(11) by (simp add: nth_append)
  next
    case False
    then have i: "i < ?n" using that by linarith
    then have "radd T (int i) \<noteq> radd T (int ?n)" using radd_eq_iff [of "int i" "int ?n" T] r(9,10) by auto
    then show ?thesis using old [OF that] i r(11) assms(2) by (simp add: nth_append nth_butlast line_shows_other)
  qed
  moreover have "line_shows ?b (radd C i) []" if "0 < i" "rdist V C + i < 25" for i
  proof -
    have "0 \<le> rdist V C" using rdist_in [OF r(6,7)] by simp
    then have "radd C i \<noteq> C" using radd_eq_iff [of i 0 C] radd_0 [OF r(7)] that by auto
    then show ?thesis using assms(1) that by (simp add: lines_at_def line_shows_other [OF _ assms(2)])
  qed
  ultimately show ?thesis using assms(1) len by (simp add: lines_at_def)
qed

lemma line_shows_append:
  assumes "line_shows b L xs" "length xs < 80" "w \<noteq> SB_WHITESPACE"
  shows "line_shows (b(80 * L + int (length xs) := w)) L (xs @ [w])"
  using assms by (auto simp: line_shows_def nth_append cell_eq)

lemma line_shows_butlast:
  assumes "line_shows b L xs" "xs \<noteq> []"
  shows "line_shows (b(80 * L + int (length xs - 1) := SB_WHITESPACE)) L (butlast xs)"
  using assms in_set_butlastD [of SB_WHITESPACE xs] by (auto simp: line_shows_def nth_butlast cell_eq)

section \<open>Starting a new line\<close>

text \<open>The buffer once the line below the cursor has been cleared and the top has made room for it.\<close>

lemma new_line_page:
  assumes "lines_at T V C ls s"
  defines "C' \<equiv> radd C 1"
  defines "T' \<equiv> (if C' = T then radd T 1 else T)"
  defines "b \<equiv> sb_memset (cells s) (80 * C') SB_WHITESPACE 80"
  shows "int (length (new_line ls)) = rdist T' C' + 1" "\<forall>i < length (new_line ls). line_shows b (radd T' (int i)) (new_line ls ! i)"
    and "C' = T \<longleftrightarrow> length ls = 200" "L \<noteq> C' \<Longrightarrow> line_shows b L xs = line_shows (cells s) L xs"
    and "rdist V C < 24 \<Longrightarrow> j < 80 \<Longrightarrow> b (80 * L + int j) = cells s (80 * L + int j)"
proof -
  note r = lines_atD [OF assms(1)]
  have len: "int (length ls) = rdist T C + 1" using assms(1) by (simp add: lines_at_def)
  have d: "rdist T C \<in> {0..<200}" by (rule rdist_in [OF r(5,7)])
  have C': "C' = radd T (int (length ls))" using radd_radd [of T "rdist T C" 1] radd_rdist [OF r(5,7)] len by (simp add: C'_def)
  have bj: "b (80 * L + int j) = (if L = C' then SB_WHITESPACE else cells s (80 * L + int j))" if "j < 80" for L j
  proof -
    have "80 * C' \<le> 80 * L + int j \<and> 80 * L + int j < 80 * C' + 80 \<longleftrightarrow> L = C'" using that by auto
    then show ?thesis by (simp add: b_def sb_memset_eq)
  qed
  show full: "C' = T \<longleftrightarrow> length ls = 200"
  proof (cases "length ls = 200")
    case True
    then show ?thesis using C' r(5) by (simp add: radd_def)
  next
    case False
    then show ?thesis using C' radd_eq_iff [of "int (length ls)" 0 T] radd_0 [OF r(5)] r(9,10) by auto
  qed
  show keep: "line_shows b L xs = line_shows (cells s) L xs" if "L \<noteq> C'" for L xs using that by (simp add: line_shows_def bj)
  have blank: "line_shows b C' []" by (simp add: line_shows_def bj)
  have old: "line_shows b (radd T (int i)) (ls ! i)" if "i < length ls" "0 < i \<or> length ls \<noteq> 200" for i
  proof -
    have "radd T (int i) \<noteq> C'"
    proof (cases "length ls = 200")
      case True
      then show ?thesis using full radd_eq_iff [of "int i" 0 T] radd_0 [OF r(5)] that by auto
    next
      case False
      then show ?thesis using C' radd_eq_iff [of "int i" "int (length ls)" T] that r(10) by auto
    qed
    then show ?thesis using keep assms(1) that(1) by (simp add: lines_at_def)
  qed
  show "int (length (new_line ls)) = rdist T' C' + 1"
  proof (cases "length ls = 200")
    case True
    then have "C' = radd (radd T 1) 199" using full r(5) by (simp add: radd_radd) (simp add: radd_def)
    then show ?thesis using True full rdist_radd [of "radd T 1" 199] by (simp add: new_line_def T'_def)
  next
    case False
    then show ?thesis using full C' rdist_radd [OF r(5), of "int (length ls)"] r(10) by (auto simp: new_line_def T'_def)
  qed
  show "\<forall>i < length (new_line ls). line_shows b (radd T' (int i)) (new_line ls ! i)"
  proof (intro allI impI)
    fix i assume i: "i < length (new_line ls)"
    show "line_shows b (radd T' (int i)) (new_line ls ! i)"
    proof (cases "length ls = 200")
      case True
      have T': "radd T' (int i) = radd T (int (Suc i))" using full True by (simp add: T'_def radd_radd algebra_simps)
      show ?thesis
      proof (cases "i < 199")
        case lt: True
        then have "new_line ls ! i = ls ! Suc i" using True by (simp add: new_line_def nth_append nth_tl)
        then show ?thesis using old [of "Suc i"] lt True T' by simp
      next
        case False
        then have "new_line ls ! i = []" "i = 199" using i True by (simp_all add: new_line_def nth_append)
        then show ?thesis using T' blank C' True by simp
      qed
    next
      case False
      then have T': "T' = T" "new_line ls = ls @ [[]]" using full by (simp_all add: T'_def new_line_def)
      then show ?thesis using old [of i] blank C' False i by (cases "i = length ls") (auto simp: nth_append)
    qed
  qed
  show "b (80 * L + int j) = cells s (80 * L + int j)" if "rdist V C < 24" "j < 80"
  proof -
    have "line_shows (cells s) C' []" using assms(1) that(1) by (simp add: lines_at_def C'_def)
    then show ?thesis using that(2) by (auto simp: bj line_shows_def)
  qed
qed

lemma crlf_text:
  assumes "lines_at T V C ls s" "synced s v"
  shows "\<exists>s' v'. sb_crlf d s v = Some (s', v') \<and> has_text s' (new_line ls) \<and> synced s' v'"
proof -
  note r = lines_atD [OF assms(1)]
  define C' where "C' = radd C 1"
  define T' where "T' = (if C' = T then radd T 1 else T)"
  define b where "b = sb_memset (cells s) (80 * C') SB_WHITESPACE 80"
  note pg = new_line_page [OF assms(1), folded C'_def, folded T'_def b_def]
  have C': "C' \<in> {0..<200}" and T': "T' \<in> {0..<200}" using r(5) by (simp_all add: C'_def T'_def)
  have vis: "0 \<le> rdist V C" "rdist V C < 25" using assms(1) rdist_in [OF r(6,7)] by (simp_all add: lines_at_def)
  have "C' = radd V (rdist V C + 1)" using radd_radd [of V "rdist V C" 1] radd_rdist [OF r(6,7)] by (simp add: C'_def)
  then have dV: "rdist V C' = rdist V C + 1" using rdist_radd [OF r(6)] vis by simp
  have VT: "V \<noteq> T" if "C' = T"
    using that pg(3) vis assms(1) by (auto simp: lines_at_def)
  define s2 where "s2 = s\<lparr>cursor_offset := 0, cursor := 80 * C', cells := b, top := 80 * T'\<rparr>"
  have rT: "rdist T' V \<le> rdist T' C'"
    using ring_cases(1,2) [OF r(5-8)] VT by (auto simp: T'_def C'_def)
  have at2: "sb_at T' V C' s2" using r C' T' rT by (simp add: sb_at_def s2_def)
  have s2: "loaded s2 = loaded s" "viewport s2 = 80 * V" "cursor_offset s2 = 0" "cells s2 = b" by (simp_all add: s2_def r)
  have new: "last (new_line ls) = []" by (simp add: new_line_def)
  have add: "sb_addline s' (80 * a) 1 = Some (80 * radd a 1)" if "endbuf s' = 16000" "a \<in> {0..<200}" for s' a
    using sb_addline_ring [OF that(1)] that(2) by simp
  have top: "sb_crlf_top d (s\<lparr>cursor_offset := 0, cursor := 80 * C', cells := b\<rparr>) v = Some (s2, v)"
    using r VT add by (auto simp: sb_crlf_top_def s2_def T'_def)
  have eq: "sb_crlf d s v = (if rdist V C' = 25 then sb_scroll d 1 s2 v else Some (s2, v))"
    using top add [OF r(1,7)] at2 sb_ldiff_ring [of s2 V C'] C' r(4,6)
    by (simp add: sb_crlf_def b_def C'_def VGA_WIDTH_def VGA_HEIGHT_def sb_at_def Let_def)
  have blank: "line_shows b (radd C' i) []" if "0 < i" "rdist V C' + i < 25" for i
  proof -
    have "radd C' i = radd C (i + 1)" by (simp add: C'_def radd_radd algebra_simps)
    moreover have "radd C' i \<noteq> C'" using radd_eq_iff [of i 0 C'] radd_0 [OF C'] that dV vis by auto
    ultimately show ?thesis using pg(4) assms(1) that dV by (simp add: lines_at_def)
  qed
  show ?thesis
  proof (cases "rdist V C = 24")
    case False
    then have lt: "rdist V C < 24" using vis by simp
    have "lines_at T' V C' (new_line ls) s2" using at2 pg(1,2) blank dV lt by (simp add: lines_at_def s2)
    moreover have "synced s2 v"
      using assms(2) pg(5) [OF lt] r(3) by (simp add: synced_def shows_window_iff [where V = V] s2)
    ultimately show ?thesis using eq dV lt new by (auto simp: has_text_def s2)
  next
    case True
    let ?V = "radd V 1"
    let ?s3 = "s2\<lparr>viewport := 80 * ?V\<rparr>"
    obtain v3 where v3: "sb_sync d ?s3 v = Some v3" "loaded s2 \<longrightarrow> shows_window ?s3 (vga v3)"
      using sb_sync_ring [of ?s3 ?V d v] r(1) radd_in [of V 1] by (auto simp: s2_def)
    have "sb_scroll d 1 s2 v = Some (?s3, v3)"
      using sb_ldiff_ring [of s2 V C'] add [of s2 V] r C' at2 dV True v3(1)
      by (simp add: sb_scroll_def abs_sb_def VGA_HEIGHT_def sb_at_def)
    moreover have "rdist ?V C' = 24" using rdist_radd [of ?V 24] True \<open>C' = radd V (rdist V C + 1)\<close> by (simp add: radd_radd)
    moreover have "sb_at T' ?V C' ?s3"
      using at2 ring_cases(4) [OF T' r(6) C' rT rT] dV True radd_in [of V 1] by (simp add: sb_at_def)
    ultimately have "lines_at T' ?V C' (new_line ls) ?s3" using pg(1,2) by (auto simp: lines_at_def s2)
    then show ?thesis using \<open>sb_scroll d 1 s2 v = Some (?s3, v3)\<close> eq dV True new v3(2) by (auto simp: has_text_def synced_def s2)
  qed
qed

section \<open>Characters\<close>

lemma cell_not_blank: "c \<noteq> 0 \<Longrightarrow> cell col c \<noteq> SB_WHITESPACE"
proof
  assume c: "c \<noteq> 0" "cell col c = SB_WHITESPACE"
  have "(ucast (cell col c) :: u8) = c" by (rule bit_word_eqI) (auto simp: cell_def bit_simps)
  moreover have "(ucast SB_WHITESPACE :: u8) = 0" by (simp add: SB_WHITESPACE_def SB_DFL_COLOR_def)
  ultimately show False using c by simp
qed

lemma has_textD:
  assumes "has_text s ls"
  obtains T V C where "lines_at T V C ls s" "uint (cursor_offset s) = int (length (last ls))" "length (last ls) < 80"
  using assms by (auto simp: has_text_def)

lemma regular_text:
  assumes "has_text s ls" "synced s v" "c \<noteq> 0"
  shows "\<exists>s' v'. sb_regular d c s v = Some (s', v') \<and> has_text s' (add_cell (cell (color s) c) ls) \<and> synced s' v'"
proof -
  obtain T V C where at: "lines_at T V C ls s" and off: "uint (cursor_offset s) = int (length (last ls))" "length (last ls) < 80"
    using assms(1) by (rule has_textD)
  note r = lines_atD [OF at]
  let ?w = "cell (color s) c" and ?j = "length (last ls)"
  let ?s = "s\<lparr>cells := (cells s)(80 * C + int ?j := ?w)\<rparr>" and ?ls = "butlast ls @ [last ls @ [?w]]"
  let ?s1 = "?s\<lparr>cursor_offset := cursor_offset s + 1\<rparr>"
  let ?v1 = "if loaded s then v\<lparr>vga := (vga v)(80 * rdist V C + int ?j := ?w)\<rparr> else v"
  have inc: "uint (cursor_offset s + 1) = int ?j + 1" using off by (simp add: uint_inc_u16)
  have "line_shows ((cells s)(80 * C + int ?j := ?w)) C (last ls @ [?w])"
    by (rule line_shows_append [OF r(12) off(2) cell_not_blank [OF assms(3)]])
  from lines_cell [OF at off(2) this] have at1: "lines_at T V C ?ls ?s1" by (simp add: lines_at_def)
  have sync1: "synced ?s1 ?v1" using assms(2) window_cell [OF at _ off(2)] by (auto simp: synced_def shows_window_def)
  have copy: "vga_copy g p b a 1 = g(p := b a)" for g p b a
    by (auto simp: vga_copy_def fun_eq_iff)
  have eq: "sb_regular d c s v = (if int ?j + 1 = 80 then sb_crlf d ?s1 ?v1 else Some (?s1, ?v1))"
    using off(1) by (simp add: sb_regular_def Let_def cell_def inc VGA_WIDTH_def sb_diff_ring r(1,3,4) copy) (simp add: add.commute)
  show ?thesis
  proof (cases "?j = 79")
    case True
    then show ?thesis using eq crlf_text [OF at1 sync1] by (simp add: add_cell_def)
  next
    case False
    then have "has_text ?s1 ?ls" using at1 off(2) inc by (auto simp: has_text_def)
    then show ?thesis using eq sync1 False off(2) by (simp add: add_cell_def)
  qed
qed

section \<open>Erasing\<close>

lemma sb_line_end_shows:
  assumes "line_shows b L xs" "uint off \<le> int (length xs)"
  shows "uint (sb_line_end b (80 * L) off) = int (length xs)"
  using assms(2)
proof (induction "nat (int (length xs) - uint off)" arbitrary: off rule: less_induct)
  case less
  obtain j where j: "uint off = int j" using zero_le_imp_eq_int [of "uint off"] by auto
  have b: "length xs \<le> 80" "i < 80 \<Longrightarrow> b (80 * L + int i) = (if i < length xs then xs ! i else SB_WHITESPACE)" "SB_WHITESPACE \<notin> set xs" for i
    using assms(1) by (simp_all add: line_shows_def)
  show ?case
  proof (cases "j < length xs")
    case True
    then have "xs ! j \<noteq> SB_WHITESPACE" using b(3) nth_mem by metis
    then have "b (80 * L + uint off) \<noteq> SB_WHITESPACE" "uint off < 80" using b(1,2) True by (auto simp: j)
    then have "sb_line_end b (80 * L) off = sb_line_end b (80 * L) (off + 1)" "uint (off + 1) = uint off + 1"
      by (simp_all add: sb_line_end.simps [of _ _ off] VGA_WIDTH_def uint_inc_u16)
    then show ?thesis using less.hyps [of "off + 1"] True j by simp
  next
    case False
    then have "j = length xs" using less.prems j by simp
    then have "\<not> (uint off < VGA_WIDTH \<and> b (80 * L + uint off) \<noteq> SB_WHITESPACE)" using b(2) [of j] j by (simp add: VGA_WIDTH_def)
    then have "sb_line_end b (80 * L) off = off" by (subst sb_line_end.simps) (rule if_not_P)
    then show ?thesis using j \<open>j = length xs\<close> by simp
  qed
qed

lemma erase_text:
  assumes "lines_at T V C ls s" "synced s v" "uint (cursor_offset s) = int (length (last ls))" "last ls \<noteq> []"
  shows "\<exists>s' v'. sb_write_word SB_WHITESPACE (s\<lparr>cursor_offset := cursor_offset s - 1\<rparr>) v = (s', v')
    \<and> has_text s' (butlast ls @ [butlast (last ls)]) \<and> synced s' v'"
proof -
  note r = lines_atD [OF assms(1)]
  let ?j = "length (last ls) - 1"
  have j: "?j < 80" "length (last ls) = Suc ?j" using r(12) assms(4) by (cases "last ls"; auto simp: line_shows_def)+
  have "cursor_offset s \<noteq> 0" using assms(3,4) by auto
  then have dec: "uint (cursor_offset s - 1) = int ?j" using assms(3) j(2) by (simp add: uint_dec_u16)
  let ?s = "s\<lparr>cells := (cells s)(80 * C + int ?j := SB_WHITESPACE)\<rparr>"
  let ?s1 = "?s\<lparr>cursor_offset := cursor_offset s - 1\<rparr>" and ?ls = "butlast ls @ [butlast (last ls)]"
  let ?v1 = "if loaded s then v\<lparr>vga := (vga v)(80 * rdist V C + int ?j := SB_WHITESPACE)\<rparr> else v"
  from lines_cell [OF assms(1) j(1) line_shows_butlast [OF r(12) assms(4)]] have "lines_at T V C ?ls ?s1" by (simp add: lines_at_def)
  then have "has_text ?s1 ?ls" using dec j(1) by (auto simp: has_text_def)
  moreover have "synced ?s1 ?v1" using assms(2) window_cell [OF assms(1) _ j(1)] by (auto simp: synced_def shows_window_def)
  moreover have "0 \<le> rdist V C" "rdist V C < 25" using assms(1) rdist_in [OF r(6,7)] by (simp_all add: lines_at_def)
  then have "(80 * rdist V C) sdiv VGA_WIDTH < VGA_HEIGHT" by (simp add: VGA_WIDTH_def VGA_HEIGHT_def signed_divide_int_def sgn_if)
  then have "sb_write_word SB_WHITESPACE (s\<lparr>cursor_offset := cursor_offset s - 1\<rparr>) v = (?s1, ?v1)"
    using dec by (simp add: sb_write_word_def Let_def sb_diff_ring r(1,3,4))
  ultimately show ?thesis by blast
qed

lemma line_above:
  assumes "lines_at T V C ls s" "length ls \<noteq> 1"
  shows "line_shows (cells s) (radd C (-1)) (last (butlast ls))"
proof -
  note r = lines_atD [OF assms(1)]
  have len: "int (length ls) = rdist T C + 1" "1 < length ls" using assms r(9) by (auto simp: lines_at_def) (cases ls; simp)
  have "\<forall>i < length ls. line_shows (cells s) (radd T (int i)) (ls ! i)" "length ls - 2 < length ls"
    using assms(1) len(2) by (simp_all add: lines_at_def)
  then have "line_shows (cells s) (radd T (int (length ls - 2))) (ls ! (length ls - 2))" by blast
  moreover have "radd C (-1) = radd T (rdist T C - 1)" using radd_radd [of T "rdist T C" "-1"] radd_rdist [OF r(5,7)] by simp
  then have "radd T (int (length ls - 2)) = radd C (-1)" using len by simp
  moreover have "last (butlast ls) = ls ! (length ls - 2)" using len(2)
    by (subst last_conv_nth) (auto simp: nth_butlast numeral_2_eq_2 simp flip: length_greater_0_conv)
  ultimately show ?thesis by simp
qed

lemma cursor_start:
  assumes "lines_at T V C ls s" "uint (cursor_offset s) = int (length (last ls))"
  shows "cursor_offset s = 0 \<longleftrightarrow> last ls = []" "cursor s = top s \<longleftrightarrow> length ls = 1"
proof -
  show "cursor_offset s = 0 \<longleftrightarrow> last ls = []" using assms(2) by (metis length_0_conv of_nat_eq_0_iff uint_0_iff)
  show "cursor s = top s \<longleftrightarrow> length ls = 1"
    using assms(1) lines_atD(2,4,5,7) [OF assms(1)] by (auto simp: lines_at_def rdist_def split: if_splits)
qed

text \<open>Moving to the end of the line above.\<close>

lemma line_up_text:
  assumes "lines_at T V C ls s" "synced s v" "last ls = []" "length ls \<noteq> 1" "cursor_offset s = 0"
  shows "\<exists>s1 v1 V1. (do { (s2, v2) \<leftarrow> (if viewport s = cursor s then sb_scroll d (-1) s v else Some (s, v));
                     c \<leftarrow> sb_addline s2 (cursor s2) (-1);
                     Some (s2\<lparr>cursor := c, cursor_offset := sb_line_end (cells s2) c 0\<rparr>, v2) }) = Some (s1, v1)
    \<and> lines_at T V1 (radd C (-1)) (butlast ls) s1 \<and> synced s1 v1 \<and> uint (cursor_offset s1) = int (length (last (butlast ls)))"
proof -
  note r = lines_atD [OF assms(1)]
  let ?C = "radd C (-1)"
  have len: "int (length ls) = rdist T C + 1" "1 < length ls" using assms(1,4) r(9) by (auto simp: lines_at_def) (cases ls; simp)
  have "?C = radd T (rdist T C - 1)" using radd_radd [of T "rdist T C" "-1"] radd_rdist [OF r(5,7)] by simp
  then have dT: "rdist T ?C = rdist T C - 1" using rdist_radd [OF r(5), of "rdist T C - 1"] len r(10) by simp
  have CT: "C \<noteq> T" using len by (auto simp: rdist_def)
  define V1 where "V1 = (if V = C then ?C else V)"
  have V1: "V1 \<in> {0..<200}" using r(6) by (simp add: V1_def)
  have up: "\<exists>v2. (if viewport s = cursor s then sb_scroll d (-1) s v else Some (s, v)) = Some (s\<lparr>viewport := 80 * V1\<rparr>, v2)
      \<and> synced (s\<lparr>viewport := 80 * V1\<rparr>) v2"
  proof (cases "V = C")
    case True
    let ?s = "s\<lparr>viewport := 80 * ?C\<rparr>"
    obtain v2 where v2: "sb_sync d ?s v = Some v2" "loaded s \<longrightarrow> shows_window ?s (vga v2)"
      using sb_sync_ring [of ?s ?C d v] r(1) by auto
    have "sb_ldiff s (top s) (viewport s) = rdist T C" using r True by (simp add: sb_ldiff_ring)
    moreover have "sb_addline s (viewport s) (-1) = Some (80 * ?C)" using r True by (simp add: sb_addline_ring)
    ultimately have "sb_scroll d (-1) s v = Some (?s, v2)" using len v2(1) by (simp add: sb_scroll_def abs_sb_def)
    then show ?thesis using True r(3,4) v2(2) by (simp add: V1_def synced_def)
  next
    case False
    have e: "s\<lparr>viewport := 80 * V1\<rparr> = s" using r(3) False by (cases s) (simp add: V1_def)
    show ?thesis unfolding e using False r(3,4) assms(2) by simp
  qed
  then obtain v2 where v2: "(if viewport s = cursor s then sb_scroll d (-1) s v else Some (s, v)) = Some (s\<lparr>viewport := 80 * V1\<rparr>, v2)"
    "synced (s\<lparr>viewport := 80 * V1\<rparr>) v2" by blast
  have prev: "line_shows (cells s) ?C (last (butlast ls))" by (rule line_above [OF assms(1,4)])
  let ?s1 = "s\<lparr>viewport := 80 * V1, cursor := 80 * ?C, cursor_offset := sb_line_end (cells s) (80 * ?C) 0\<rparr>"
  have "sb_addline (s\<lparr>viewport := 80 * V1\<rparr>) (cursor s) (-1) = Some (80 * ?C)" using r by (simp add: sb_addline_ring)
  then have eq: "(do { (s2, v2) \<leftarrow> (if viewport s = cursor s then sb_scroll d (-1) s v else Some (s, v));
                     c \<leftarrow> sb_addline s2 (cursor s2) (-1);
                     Some (s2\<lparr>cursor := c, cursor_offset := sb_line_end (cells s2) c 0\<rparr>, v2) }) = Some (?s1, v2)"
    by (simp add: v2(1))
  have dV: "rdist V1 ?C = (if V = C then 0 else rdist V C - 1)"
  proof (cases "V = C")
    case True
    then show ?thesis by (simp add: V1_def rdist_def)
  next
    case False
    then have "1 \<le> rdist V C" using r(6,7) by (auto simp: rdist_def)
    moreover have "?C = radd V (rdist V C - 1)" using radd_radd [of V "rdist V C" "-1"] radd_rdist [OF r(6,7)] by simp
    ultimately show ?thesis using rdist_radd [OF r(6), of "rdist V C - 1"] rdist_in [OF r(6,7)] False by (simp add: V1_def)
  qed
  have "rdist T V1 \<le> rdist T ?C"
    using r(5-8) CT by (auto simp: V1_def radd_m1 rdist_def split: if_splits)
  then have "sb_at T V1 ?C ?s1" using r V1 by (simp add: sb_at_def)
  moreover have "line_shows (cells s) (radd ?C i) []" if "0 < i" "rdist V1 ?C + i < 25" for i
  proof (cases "i = 1")
    case True
    then show ?thesis using r(7,12) assms(3) by (simp add: radd_radd radd_0)
  next
    case False
    have "radd ?C i = radd C (i - 1)" by (simp add: radd_radd algebra_simps)
    moreover have "rdist V C + (i - 1) < 25" using that dV by (auto simp: rdist_def split: if_splits)
    ultimately show ?thesis using assms(1) False that by (simp add: lines_at_def)
  qed
  moreover have "rdist V1 ?C < 25" using dV assms(1) by (simp add: lines_at_def)
  moreover have "\<forall>i < length (butlast ls). line_shows (cells s) (radd T (int i)) (butlast ls ! i)"
    using assms(1) by (simp add: lines_at_def nth_butlast)
  ultimately have "lines_at T V1 ?C (butlast ls) ?s1" using dT len by (simp add: lines_at_def)
  moreover have "synced ?s1 v2" using v2(2) by (simp add: synced_def shows_window_def)
  moreover have "uint (cursor_offset ?s1) = int (length (last (butlast ls)))" using sb_line_end_shows [OF prev, of 0] by simp
  ultimately show ?thesis using eq by (intro exI [of _ ?s1] exI [of _ v2] exI [of _ V1]) simp
qed

lemma backspace_text:
  assumes "has_text s ls" "synced s v" "can_erase ls"
  shows "\<exists>s' v'. sb_backspace d s v = Some (s', v') \<and> has_text s' (erase_cell ls) \<and> synced s' v'"
proof -
  obtain T V C where at: "lines_at T V C ls s" and off: "uint (cursor_offset s) = int (length (last ls))" "length (last ls) < 80"
    using assms(1) by (rule has_textD)
  note r = lines_atD [OF at]
  note o0 = cursor_start(1) [OF at off(1)] and c0 = cursor_start(2) [OF at off(1)]
  consider "last ls = []" "length ls = 1" | "last ls \<noteq> []" | "last ls = []" "length ls \<noteq> 1" by blast
  then show ?thesis
  proof cases
    case 1
    then show ?thesis using assms(1,2) o0 c0 by (simp add: sb_backspace_def erase_cell_def)
  next
    case 2
    then show ?thesis using erase_text [OF at assms(2) off(1) 2] o0 by (auto simp: sb_backspace_def erase_cell_def)
  next
    case 3
    then have ne: "last (butlast ls) \<noteq> []" using assms(3) by (simp add: can_erase_def)
    obtain s1 v1 V1 where 1: "(do { (s2, v2) \<leftarrow> (if viewport s = cursor s then sb_scroll d (-1) s v else Some (s, v));
                     c \<leftarrow> sb_addline s2 (cursor s2) (-1);
                     Some (s2\<lparr>cursor := c, cursor_offset := sb_line_end (cells s2) c 0\<rparr>, v2) }) = Some (s1, v1)"
      "lines_at T V1 (radd C (-1)) (butlast ls) s1" "synced s1 v1" "uint (cursor_offset s1) = int (length (last (butlast ls)))"
      using line_up_text [OF at assms(2) 3(1,2), of d] o0 3(1) by blast
    obtain s' v' where "sb_write_word SB_WHITESPACE (s1\<lparr>cursor_offset := cursor_offset s1 - 1\<rparr>) v1 = (s', v')"
      "has_text s' (erase_cell ls)" "synced s' v'"
      using erase_text [OF 1(2-4) ne] 3 by (auto simp: erase_cell_def Let_def)
    moreover have "sb_backspace d s v = Some (sb_write_word SB_WHITESPACE (s1\<lparr>cursor_offset := cursor_offset s1 - 1\<rparr>) v1)"
      unfolding sb_backspace_def using o0 c0 3 1(1) by simp
    ultimately show ?thesis by simp
  qed
qed

lemma putchar_text:
  assumes "has_text s ls" "synced s v" "c \<notin> {0, 9}" "c = 8 \<longrightarrow> can_erase ls"
  shows "\<exists>s' v'. sb_putchar d c s v = Some (s', v') \<and> has_text s' (type_char (color s) c ls) \<and> synced s' v'
    \<and> loaded s' = loaded s \<and> color s' = color s"
proof -
  let ?op = "if c = 10 then sb_crlf d s v else if c = 9 then sb_tabulation d s v
             else if c = 8 then sb_backspace d s v else sb_regular d c s v"
  have "\<exists>s' v'. ?op = Some (s', v') \<and> has_text s' (type_char (color s) c ls) \<and> synced s' v'"
    using assms backspace_text [OF assms(1,2)] regular_text [OF assms(1,2)] crlf_text [OF _ assms(2)]
    by (auto simp: type_char_def elim!: has_textD)
  then obtain s' v' where "?op = Some (s', v')" "has_text s' (type_char (color s) c ls)" "synced s' v'" by blast
  then have "sb_putchar d c s v = Some (s', v'\<lparr>ports := cursor_update_pos d (sb_pos s') (ports v')\<rparr>)" by (simp add: sb_putchar_def)
  then show ?thesis using \<open>has_text s' _\<close> \<open>synced s' v'\<close> sb_putchar_loaded by (fastforce simp: synced_def)
qed

lemma puts_text:
  assumes "has_text s ls" "synced s v" "set xs \<inter> {0, 8, 9} = {}"
  shows "\<exists>s' v'. sb_puts d xs s v = Some (s', v') \<and> has_text s' (fold (type_char (color s)) xs ls) \<and> synced s' v'
    \<and> loaded s' = loaded s \<and> color s' = color s"
  using assms
proof (induction xs arbitrary: s v ls)
  case (Cons x xs)
  then have "x \<notin> {0, 9}" "x \<noteq> 8" by auto
  then obtain s1 v1 where 1: "sb_putchar d x s v = Some (s1, v1)" "has_text s1 (type_char (color s) x ls)" "synced s1 v1" "loaded s1 = loaded s" "color s1 = color s"
    using putchar_text [OF Cons.prems(1,2), of x d] by blast
  from Cons.IH [OF 1(2,3)] Cons.prems(3) 1 show ?case by auto
qed simp

section \<open>Starting, loading and clearing\<close>

lemma blank_text:
  assumes "endbuf s = 16000" "top s = 0" "viewport s = 0" "cursor s = 0" "cursor_offset s = 0" "\<forall>i \<in> {0..<16000}. cells s i = SB_WHITESPACE"
  shows "has_text s [[]]"
proof -
  have b: "line_shows (cells s) L []" if "L \<in> {0..<200}" for L using that assms(6) by (auto simp: line_shows_def)
  have "lines_at 0 0 0 [[]] s" using assms(1-4) b by (simp add: lines_at_def sb_at_def rdist_def)
  then show ?thesis using assms(5) by (auto simp: has_text_def)
qed

lemma has_text_loaded: "has_text (s\<lparr>loaded := l\<rparr>) ls = has_text s ls"
  by (simp add: has_text_def lines_at_def)

lemma init_text: "has_text (sb_init s) [[]]" "synced (sb_init s) v"
  by (rule blank_text) (simp_all add: sb_init_def sb_consts sb_memset_eq synced_def)

lemma load_text:
  assumes "has_text s ls"
  shows "\<exists>v'. sb_load d s v = Some (s\<lparr>loaded := True\<rparr>, v') \<and> has_text (s\<lparr>loaded := True\<rparr>) ls \<and> synced (s\<lparr>loaded := True\<rparr>) v'"
proof -
  have "sb_inv s" using assms by (auto simp: has_text_def lines_at_def sb_inv_def)
  then show ?thesis using sb_load_window [of s d v] assms
    by (auto simp: synced_def shows_window_def has_text_def lines_at_def)
qed

lemma clear_text:
  assumes "sb_inv s"
  shows "\<exists>s' v'. sb_clear d s v = Some (s', v') \<and> has_text s' [[]] \<and> synced s' v' \<and> loaded s' = loaded s \<and> color s' = color s"
proof -
  let ?s = "s\<lparr>top := 0, viewport := 0, cursor := 0, cursor_offset := 0, cells := sb_memset (cells s) 0 SB_WHITESPACE (nat (VGA_WIDTH * SB_HEIGHT))\<rparr>"
  have e: "endbuf s = 16000" using assms by (auto simp: sb_inv_def sb_at_def)
  then have "has_text ?s [[]]" by (intro blank_text) (simp_all add: sb_memset_eq sb_consts)
  moreover obtain v' where "sb_sync d ?s v = Some v'" "loaded ?s \<longrightarrow> shows_window ?s (vga v')"
    using sb_sync_ring [of ?s 0 d v] e by auto
  ultimately show ?thesis by (auto simp: sb_clear_def synced_def)
qed

lemma has_text_erasable:
  assumes "has_text s ls"
  shows "erasable s \<longleftrightarrow> can_erase ls"
proof -
  obtain T V C where at: "lines_at T V C ls s" and off: "uint (cursor_offset s) = int (length (last ls))"
    using assms(1) by (rule has_textD)
  show ?thesis
  proof (cases "last ls = [] \<and> length ls \<noteq> 1")
    case True
    let ?p = "last (butlast ls)" and ?L = "radd C (-1)"
    have p: "\<forall>j < 80. cells s (80 * ?L + int j) = (if j < length ?p then ?p ! j else SB_WHITESPACE)" "SB_WHITESPACE \<notin> set ?p"
      using True line_above [OF at] by (simp_all add: line_shows_def)
    have "cells s (80 * ?L) \<noteq> SB_WHITESPACE \<longleftrightarrow> ?p \<noteq> []"
    proof (cases ?p)
      case (Cons c cs)
      then show ?thesis using p(1) [rule_format, of 0] p(2) by auto
    qed (use p(1) [rule_format, of 0] in simp)
    then show ?thesis using lines_atD(4,7) [OF at] line_before [of C] cursor_start [OF at off] True by (simp add: erasable_def can_erase_def)
  next
    case False
    then show ?thesis using cursor_start [OF at off] by (auto simp: erasable_def can_erase_def)
  qed
qed

text \<open>A screen whose cursor is on display needs no scrolling.\<close>

lemma has_text_visible:
  assumes "has_text s ls"
  shows "sb_ldiff s (viewport s) (cursor s) < VGA_HEIGHT" "sb_scroll_down d s v = Some (s, v)"
proof -
  obtain T V C where at: "lines_at T V C ls s" using assms by (rule has_textD)
  note r = lines_atD [OF at]
  have "sb_ldiff s (viewport s) (cursor s) = rdist V C" using r by (simp add: sb_ldiff_ring)
  moreover have "rdist V C < 25" using at by (simp add: lines_at_def)
  ultimately show "sb_ldiff s (viewport s) (cursor s) < VGA_HEIGHT" by (simp add: VGA_HEIGHT_def)
  then show "sb_scroll_down d s v = Some (s, v)" by (simp add: sb_scroll_down_def)
qed

section \<open>What is on display\<close>

definition page_cell :: "page \<Rightarrow> nat \<Rightarrow> nat \<Rightarrow> u16" where
  "page_cell ls n j = (if n < length ls \<and> j < length (ls ! n) then ls ! n ! j else SB_WHITESPACE)"

text \<open>The 25 rows of the display are lines of the page, the last of which is among them, and blanks below it.\<close>

definition displays :: "(int \<Rightarrow> u16) \<Rightarrow> page \<Rightarrow> bool" where
  "displays g ls \<longleftrightarrow> (\<exists>p. p < length ls \<and> length ls \<le> p + 25 \<and> (\<forall>i < 25. \<forall>j < 80. g (80 * int i + int j) = page_cell ls (p + i) j))"

lemma synced_displays:
  assumes "has_text s ls" "synced s v" "loaded s"
  shows "displays (vga v) ls"
proof -
  obtain T V C where at: "lines_at T V C ls s" using assms(1) by (rule has_textD)
  note r = lines_atD [OF at]
  have len: "int (length ls) = rdist T C + 1" "rdist V C < 25" and ln: "\<forall>i < length ls. line_shows (cells s) (radd T (int i)) (ls ! i)"
    and bl: "\<forall>i. 0 < i \<and> rdist V C + i < 25 \<longrightarrow> line_shows (cells s) (radd C i) []" using at by (simp_all add: lines_at_def)
  have d: "rdist T V \<in> {0..<200}" "rdist V C \<in> {0..<200}" using rdist_in [OF r(5,6)] rdist_in [OF r(6,7)] by simp_all
  define p where "p = nat (rdist T V)"
  have p: "int p = rdist T V" using d by (simp add: p_def)
  have sum: "rdist T C = rdist T V + rdist V C" using r(5-8) by (auto simp: rdist_def split: if_splits)
  have "vga v (80 * int i + int j) = page_cell ls (p + i) j" if "i < 25" "j < 80" for i j
  proof -
    have g: "vga v (80 * int i + int j) = cells s (80 * radd V (int i) + int j)"
      using assms(2,3) that by (simp add: synced_def shows_window_iff [OF r(3)])
    show ?thesis
    proof (cases "p + i < length ls")
      case True
      have "radd T (int (p + i)) = radd V (int i)" using radd_radd [of T "rdist T V" "int i"] radd_rdist [OF r(5,6)] by (simp add: p)
      then show ?thesis using ln True that g by (auto simp: line_shows_def page_cell_def)
    next
      case False
      let ?k = "int i - rdist V C"
      have k: "0 < ?k" "rdist V C + ?k < 25" using False sum len p that by auto
      have "radd C ?k = radd V (int i)" using radd_radd [of V "rdist V C" ?k] radd_rdist [OF r(6,7)] by simp
      then have "line_shows (cells s) (radd V (int i)) []" using bl k by metis
      then show ?thesis using False that g by (simp add: line_shows_def page_cell_def)
    qed
  qed
  moreover have "p < length ls" "length ls \<le> p + 25" using sum len p d by auto
  ultimately show ?thesis unfolding displays_def by blast
qed

section \<open>The screens of the kernel\<close>

text \<open>Every screen holds a page with its cursor in the window, and the display shows the current one.\<close>

definition tidy :: "kernel \<Rightarrow> bool" where
  "tidy k \<longleftrightarrow> (\<forall>i < NBSCREENBUF. \<exists>ls. has_text (sb k ! i) ls) \<and> synced (cur k) (hw k)"

lemma tidyD:
  assumes "tidy k" "con_inv k"
  obtains ls where "has_text (cur k) ls" "synced (cur k) (hw k)"
proof -
  have "nat (sb_current k) < NBSCREENBUF" using assms(2) by (simp add: con_inv_def nat_less_iff)
  then show thesis using assms(1) that unfolding tidy_def cur_def by blast
qed

lemma tidy_cur:
  assumes "tidy k" "con_inv k" "has_text (cur k') ls" "synced (cur k') (hw k')" "sb_current k' = sb_current k"
    and "\<forall>i. int i \<noteq> sb_current k \<longrightarrow> sb k' ! i = sb k ! i"
  shows "tidy k'"
proof -
  have "\<exists>ls. has_text (sb k' ! i) ls" if "i < NBSCREENBUF" for i
  proof (cases "int i = sb_current k")
    case True
    then have "sb k' ! i = cur k'" using assms(5) by (simp add: cur_def flip: True)
    then show ?thesis using assms(3) by metis
  next
    case False
    then show ?thesis using that assms(1,6) by (simp add: tidy_def)
  qed
  then show ?thesis using assms(4) by (simp add: tidy_def)
qed

lemma tidy_cong: "sb k' = sb k \<Longrightarrow> sb_current k' = sb_current k \<Longrightarrow> vga (hw k') = vga (hw k) \<Longrightarrow> tidy k' = tidy k"
  by (simp add: tidy_def cur_def synced_def)

section \<open>Correctness properties\<close>

text \<open>
  C8: the ring buffer refines a page of lines, and the display follows it.  On a screen whose buffer holds the page \<open>ls\<close> and whose
  display is up to date, putting any character but a tabulation returns, the buffer then holds the page with that character typed
  (a newline, an erased cell, or a cell of the current colour, wrapping after 80 columns and dropping the first line
  of 200), and the display is what a redraw of the window would give, though only single cells were written.
\<close>

theorem sb_putchar_refines:
  assumes "has_text s ls" "synced s v" "c \<notin> {0, 9}" "c = 8 \<longrightarrow> can_erase ls"
  shows "\<exists>s' v'. sb_putchar d c s v = Some (s', v') \<and> has_text s' (type_char (color s) c ls) \<and> synced s' v'
    \<and> (loaded s \<longrightarrow> displays (vga v') (type_char (color s) c ls))"
  using putchar_text [OF assms] synced_displays by blast

theorem sb_putchar_refines_witness:
  "\<exists>s' v'. sb_putchar (\<lambda>_ _. 0) 65 (sb_init demo_sb) demo_video = Some (s', v') \<and> has_text s' [[0x0F41]]"
proof -
  have "color (sb_init demo_sb) = 15" by (simp add: sb_init_def SB_DFL_COLOR_def)
  then have "type_char (color (sb_init demo_sb)) 65 [[]] = [[0x0F41]]" by (simp add: type_char_def add_cell_def cell_def)
  then show ?thesis using sb_putchar_refines [OF init_text, of 65 "\<lambda>_ _. 0" demo_sb demo_video] by auto
qed

text \<open>
  \<^verbatim>\<open>sb_clear\<close> leaves an empty page, and a blank display if the buffer is loaded.
\<close>

theorem sb_clear_correct:
  assumes "sb_inv s"
  shows "\<exists>s' v'. sb_clear d s v = Some (s', v') \<and> has_text s' [[]] \<and> synced s' v'
    \<and> (loaded s \<longrightarrow> (\<forall>i \<in> {0..<2000}. vga v' i = SB_WHITESPACE))"
proof -
  obtain s' v' where c: "sb_clear d s v = Some (s', v')" "has_text s' [[]]" "synced s' v'" "loaded s' = loaded s"
    using clear_text [OF assms] by blast
  have "vga v' i = SB_WHITESPACE" if "loaded s" "i \<in> {0..<2000}" for i
  proof -
    have "displays (vga v') [[]]" using synced_displays [OF c(2,3)] c(4) that(1) by simp
    moreover have "i = 80 * int (nat (i div 80)) + int (nat (i mod 80))" "nat (i div 80) < 25" "nat (i mod 80) < 80" using that(2) by auto
    ultimately show ?thesis unfolding displays_def page_cell_def by (metis (no_types, lifting) length_Cons list.size(3) less_Suc0 nth_Cons_0 not_less_zero)
  qed
  then show ?thesis using c by blast
qed

theorem sb_clear_correct_witness:
  "\<exists>s' v'. sb_clear (\<lambda>_ _. 0) (sb_init demo_sb) demo_video = Some (s', v') \<and> has_text s' [[]]"
  using sb_clear_correct [OF sb_init_inv] by blast

end
