(* ===== verification/Screen_Ports.thy ===== *)
theory Screen_Ports
  imports Console
begin

text \<open>
  Screens and the keyboard controller.  The screen functions talk to the ports of the cursor only, so that they take no byte from the
  keyboard.
\<close>

unbundle bit_operations_syntax

named_theorems keeps_reads \<open>operations that read nothing from the keyboard controller\<close>

lemma cursor_update_pos_reads [simp]: "data_reads (cursor_update_pos d p tr) = data_reads tr"
  by (simp add: cursor_update_pos_def cursor_enable_def cursor_disable_def port_write_u8_def port_read_u8_def Let_def data_reads_def
    SB_CURSOR_PORT1_def SB_CURSOR_PORT2_def PS2_DATA_PORT_def)

lemma sb_sync_reads [keeps_reads]: "sb_sync d s v = Some v' \<Longrightarrow> data_reads (ports v') = data_reads (ports v)"
  by (auto simp: sb_sync_def bind_eq_Some_conv split: if_splits)

lemma sb_scroll_reads [keeps_reads]: "sb_scroll d n s v = Some (s', v') \<Longrightarrow> data_reads (ports v') = data_reads (ports v)"
  by (auto simp: sb_scroll_def sb_scroll_top_def sb_scroll_down_def Let_def bind_eq_Some_conv dest!: sb_sync_reads split: if_splits)

lemma sb_scroll_down_reads [keeps_reads]: "sb_scroll_down d s v = Some (s', v') \<Longrightarrow> data_reads (ports v') = data_reads (ports v)"
  by (auto simp: sb_scroll_down_def Let_def bind_eq_Some_conv dest!: sb_sync_reads split: if_splits)

lemma sb_crlf_reads [keeps_reads]: "sb_crlf d s v = Some (s', v') \<Longrightarrow> data_reads (ports v') = data_reads (ports v)"
  by (auto simp: sb_crlf_def sb_crlf_top_def Let_def bind_eq_Some_conv dest!: keeps_reads split: if_splits)

lemma sb_write_word_ports [simp]: "ports (snd (sb_write_word w s v)) = ports v"
  by (simp add: sb_write_word_def Let_def)

lemma sb_tab_loop_reads [keeps_reads]: "sb_tab_loop s v = Some (s', v') \<Longrightarrow> data_reads (ports v') = data_reads (ports v)"
proof -
  have "ports (snd r) = ports v" if "sb_tab_loop s v = Some r" for r
  proof (rule sb_tab_loop.raw_induct [where P = "\<lambda>s v r. ports (snd r) = ports v", OF _ that])
    fix f s v r
    assume IH: "\<And>s v r. f s v = Some r \<Longrightarrow> ports (snd r) = ports v"
      and step: "(let (s1, v1) = sb_write_word (push_bit 8 (ucast (color s)) OR 0) s v; s2 = s1\<lparr>cursor_offset := cursor_offset s1 + 1\<rparr>
        in if cursor_offset s2 mod TABSIZE \<noteq> 0 \<and> uint (cursor_offset s2) < VGA_WIDTH then f s2 v1 else Some (s2, v1)) = Some r"
    obtain s1 v1 where w: "sb_write_word (push_bit 8 (ucast (color s)) OR 0) s v = (s1, v1)" by (metis prod.exhaust)
    have "ports v1 = ports v" using sb_write_word_ports [of "push_bit 8 (ucast (color s)) OR 0" s v] unfolding w by simp
    then show "ports (snd r) = ports v" using step IH unfolding w by (auto simp: Let_def split: if_splits)
  qed
  then show "sb_tab_loop s v = Some (s', v') \<Longrightarrow> data_reads (ports v') = data_reads (ports v)" by force
qed

lemma sb_backspace_reads [keeps_reads]: "sb_backspace d s v = Some (s', v') \<Longrightarrow> data_reads (ports v') = data_reads (ports v)"
  by (auto simp: sb_backspace_def bind_eq_Some_conv sb_write_word_def Let_def dest!: keeps_reads split: if_splits)

lemma sb_putchar_reads: "sb_putchar d c s v = Some (s', v') \<Longrightarrow> data_reads (ports v') = data_reads (ports v)"
  by (auto simp: sb_putchar_def sb_regular_def sb_tabulation_def Let_def bind_eq_Some_conv dest!: keeps_reads split: if_splits)

lemma sb_puts_reads [keeps_reads]: "sb_puts d cs s v = Some (s', v') \<Longrightarrow> data_reads (ports v') = data_reads (ports v)"
  by (induction cs arbitrary: s v) (auto simp: bind_eq_Some_conv dest!: sb_putchar_reads)

lemma sb_putstr_reads [keeps_reads]:
  assumes "sb_putstr d m p s v = Some (s', v')"
  shows "data_reads (ports v') = data_reads (ports v)"
proof -
  have "data_reads (ports (snd r)) = data_reads (ports v)" if "sb_putstr d m p s v = Some r" for r
  proof (rule sb_putstr.raw_induct [where P = "\<lambda>d m p s v r. data_reads (ports (snd r)) = data_reads (ports v)", OF _ that])
    fix f d m p s v r
    assume IH: "\<And>d m p s v r. f d m p s v = Some r \<Longrightarrow> data_reads (ports (snd r)) = data_reads (ports v)"
      and step: "(if m p \<noteq> 0 then do { (s1, v1) \<leftarrow> sb_putchar d (m p) s v; f d m (p + 1) s1 v1 } else Some (s, v)) = Some r"
    show "data_reads (ports (snd r)) = data_reads (ports v)"
    proof (cases "m p = 0")
      case False
      then obtain s1 v1 where "sb_putchar d (m p) s v = Some (s1, v1)" "f d m (p + 1) s1 v1 = Some r" using step by (auto simp: bind_eq_Some_conv)
      then show ?thesis using IH sb_putchar_reads by metis
    qed (use step in auto)
  qed
  from this [OF assms] show ?thesis by simp
qed


lemma sb_load_reads [keeps_reads]: "sb_load d s v = Some (s', v') \<Longrightarrow> data_reads (ports v') = data_reads (ports v)"
  by (auto simp: sb_load_def Let_def bind_eq_Some_conv dest!: keeps_reads)

lemma sb_clear_reads [keeps_reads]: "sb_clear d s v = Some (s', v') \<Longrightarrow> data_reads (ports v') = data_reads (ports v)"
  by (auto simp: sb_clear_def Let_def bind_eq_Some_conv dest!: keeps_reads)

end
