(* ===== verification/Output.thy ===== *)
theory Output
  imports Screen_Text Screen_Ports
begin

text \<open>
  What a sequence of \<^verbatim>\<open>kprintf\<close> calls puts on the current screen.  \<open>says im k t k'\<close>: the run from \<open>k\<close> to \<open>k'\<close> has
  written the text \<open>t\<close> and changed nothing but the current screen, the display and the
  buffer of \<^verbatim>\<open>kprintf\<close>.  Steps compose by appending their texts, so that a command's output is
  computed from its format strings.
\<close>

section \<open>Loops over a list\<close>

fun for_each :: "('a \<Rightarrow> 's \<Rightarrow> 's option) \<Rightarrow> 'a list \<Rightarrow> 's \<Rightarrow> 's option" where
  "for_each f [] s = Some s"
| "for_each f (x # xs) s = do { s1 \<leftarrow> f x s; for_each f xs s1 }"

lemma for_each_Cons: "for_each f (x # xs) = (\<lambda>s. do { s1 \<leftarrow> f x s; for_each f xs s1 })"
  by (rule ext) simp

lemma for_each_append: "for_each f (xs @ ys) s = do { s1 \<leftarrow> for_each f xs s; for_each f ys s1 }"
  by (induction xs arbitrary: s) (simp_all add: bind_assoc cong: Option.bind_cong)

lemma for_each_inv:
  assumes "P s" "\<And>x s. x \<in> set xs \<Longrightarrow> P s \<Longrightarrow> \<exists>s'. f x s = Some s' \<and> P s'"
  shows "\<exists>s'. for_each f xs s = Some s' \<and> P s'"
  using assms
proof (induction xs arbitrary: s)
  case (Cons x xs)
  from Cons.prems(2) [of x s] Cons.prems(1) obtain s1 where "f x s = Some s1" "P s1" by auto
  then show ?case using Cons.IH [of s1] Cons.prems(2) by auto
qed simp

section \<open>Runs that keep an invariant\<close>

text \<open>
  The contract of a step that a program may take: from a state with the invariant, doing nothing is a step, and steps compose.  A
  computation \<open>runs\<close> when it returns, in a state with the invariant that a step leads to; the rules follow the
  structure of the code.
\<close>

locale kept_run =
  fixes inv :: "'s \<Rightarrow> bool" and step :: "'s \<Rightarrow> 's \<Rightarrow> bool"
  assumes step_refl: "inv s \<Longrightarrow> step s s"
    and step_trans: "step s t \<Longrightarrow> step t u \<Longrightarrow> step s u"
begin

definition runs :: "'s \<Rightarrow> 's option \<Rightarrow> bool" where
  "runs s r \<longleftrightarrow> (\<exists>t. r = Some t \<and> inv t \<and> step s t)"

lemma runs_Some: "inv s \<Longrightarrow> runs s (Some s)"
  by (simp add: runs_def step_refl)

lemma runs_bind:
  assumes "runs s r" "\<And>t. inv t \<Longrightarrow> runs t (g t)"
  shows "runs s (r \<bind> g)"
proof -
  obtain t where t: "r = Some t" "inv t" "step s t" using assms(1) by (auto simp: runs_def)
  then obtain u where "g t = Some u" "inv u" "step t u" using assms(2) [of t] by (auto simp: runs_def)
  then show ?thesis using t step_trans by (auto simp: runs_def)
qed

lemma runs_if: "(b \<Longrightarrow> runs s x) \<Longrightarrow> (\<not> b \<Longrightarrow> runs s y) \<Longrightarrow> runs s (if b then x else y)"
  by simp

lemma runs_for_each:
  assumes "inv s" "\<And>x s. x \<in> set xs \<Longrightarrow> inv s \<Longrightarrow> runs s (f x s)"
  shows "runs s (for_each f xs s)"
  using assms
proof (induction xs arbitrary: s)
  case (Cons x xs)
  have "runs s (f x s \<bind> for_each f xs)" by (rule runs_bind) (use Cons in auto)
  then show ?case by simp
qed (simp add: runs_Some)

end

section \<open>Runs that only print\<close>

definition same_but_screen :: "image \<Rightarrow> kernel \<Rightarrow> kernel \<Rightarrow> bool" where
  "same_but_screen im k k' \<longleftrightarrow> data_reads (ports (hw k')) = data_reads (ports (hw k))
     \<and> (\<forall>a. a \<notin> blk (kbuf im) 4096 \<longrightarrow> ram k' a = ram k a)
     \<and> buddy (phys k') = buddy (phys k) \<and> buddy_addr (phys k') = buddy_addr (phys k) \<and> kbd k' = kbd k
     \<and> gdtp k' = gdtp k \<and> idtp k' = idtp k \<and> sb_current k' = sb_current k \<and> sb_nbscreen k' = sb_nbscreen k
     \<and> nsh_cmd k' = nsh_cmd k \<and> nsh_cmdnarg k' = nsh_cmdnarg k \<and> nsh_bufindex k' = nsh_bufindex k
     \<and> (\<forall>i. int i \<noteq> sb_current k \<longrightarrow> sb k' ! i = sb k ! i)"

lemma same_but_screen_refl [simp]: "same_but_screen im k k"
  by (simp add: same_but_screen_def)

lemma same_but_screen_trans: "same_but_screen im k k1 \<Longrightarrow> same_but_screen im k1 k2 \<Longrightarrow> same_but_screen im k k2"
  by (simp add: same_but_screen_def)

definition says :: "image \<Rightarrow> kernel \<Rightarrow> u8 list \<Rightarrow> kernel \<Rightarrow> bool" where
  "says im k t k' \<longleftrightarrow> con_inv k' \<and> same_but_screen im k k' \<and> sb_puts (dev im) t (cur k) (hw k) = Some (cur k', hw k')"

lemma sb_puts_append: "sb_puts d (xs @ ys) s v = do { (s1, v1) \<leftarrow> sb_puts d xs s v; sb_puts d ys s1 v1 }"
  by (induction xs arbitrary: s v) (simp_all add: split_def)

lemma says_refl: "con_inv k \<Longrightarrow> says im k [] k"
  by (simp add: says_def)

lemma says_trans: "says im k xs k1 \<Longrightarrow> says im k1 ys k2 \<Longrightarrow> says im k (xs @ ys) k2"
  by (auto simp: says_def sb_puts_append intro: same_but_screen_trans)

text \<open>A text with no NUL, no backspace, no tabulation, and short enough for the buffer.\<close>

definition printable :: "u8 list \<Rightarrow> bool" where
  "printable t \<longleftrightarrow> length t < 4096 \<and> 0 \<notin> set t \<and> 8 \<notin> set t \<and> 9 \<notin> set t"

lemma printable_bytes:
  "printable (bytes s) \<longleftrightarrow> length s < 4096 \<and> (\<forall>c \<in> set s. (of_char c :: u8) \<noteq> 0 \<and> (of_char c :: u8) \<noteq> 8 \<and> (of_char c :: u8) \<noteq> 9)"
  by (auto simp: printable_def bytes_def)

lemma kprint_writes:
  assumes "lit_ok im (ram k) fmt" "strs_ok strs (ram k) (kbuf im) 4096" "expand strs 0 (bytes fmt) args = Some t"
    and t: "length t < 4096" "0 \<notin> set t" "8 \<notin> set t" and con: "con_inv k"
  shows "\<exists>k'. kprint im fmt args k = Some k' \<and> says im k t k'"
proof -
  obtain s v where sv: "sb_puts (dev im) t (cur k) (hw k) = Some (s, v)" "sb_inv s" "loaded s"
    "kputs im t k = Some ((set_cur s (set_ram (mwrite (filled (ram k) (kbuf im) 0 4096) (kbuf im) t) k))\<lparr>hw := v\<rparr>)"
    using kputs_ok [OF con t(3)] by metis
  let ?k = "(set_cur s (set_ram (mwrite (filled (ram k) (kbuf im) 0 4096) (kbuf im) t) k))\<lparr>hw := v\<rparr>"
  have "kprint im fmt args k = Some ?k" using kprintf_kputs [OF assms(1-3) t(1,2)] sv(4) by (simp add: kprint_def)
  moreover have "con_inv ?k" using con_inv_set_cur(1) [OF _ sv(2,3)] con by simp
  moreover have "cur ?k = s" using con_invD(4) [OF con] by (simp add: cur_def set_cur_def)
  moreover have "ram ?k a = ram k a" if "a \<notin> blk (kbuf im) 4096" for a
    using that mwrite_frame [of 0 t 4096 a "kbuf im"] t(1) by (simp add: filled_def)
  moreover have "sb ?k ! i = sb k ! i" if "int i \<noteq> sb_current k" for i
    using that con_invD(1) [OF con] by (simp add: set_cur_def cur_ok_def) (metis int_nat_eq nth_list_update_neq)
  moreover have "data_reads (ports v) = data_reads (ports (hw k))" using sb_puts_reads [OF sv(1)] .
  ultimately show ?thesis using sv(1) by (intro exI [of _ ?k]) (simp add: says_def same_but_screen_def)
qed

lemma kprint_says:
  assumes "lit_ok im (ram k) fmt" "strs_ok strs (ram k) (kbuf im) 4096" "expand strs 0 (bytes fmt) args = Some t"
    and "printable t" "con_inv k"
  shows "\<exists>k'. kprint im fmt args k = Some k' \<and> says im k t k'"
  using kprint_writes [OF assms(1-3) _ _ _ assms(5)] assms(4) by (simp add: printable_def)

text \<open>A text without control characters leaves the screens tidy.\<close>

lemma says_tidy:
  assumes "says im k t k'" "con_inv k" "set t \<inter> {0, 8, 9} = {}" "tidy k"
  shows "tidy k'"
proof -
  obtain ls where ls: "has_text (cur k) ls" "synced (cur k) (hw k)" using assms(4,2) by (rule tidyD)
  have "\<exists>ls'. has_text (cur k') ls' \<and> synced (cur k') (hw k')"
    using puts_text [OF ls assms(3), of "dev im"] assms(1) by (auto simp: says_def)
  then show ?thesis using tidy_cur [OF assms(4,2)] assms(1) by (auto simp: says_def same_but_screen_def)
qed

section \<open>What printing leaves alone\<close>

text \<open>Strings away from the buffer of \<^verbatim>\<open>kprintf\<close> survive.\<close>

lemma cstr_kept:
  assumes "cstr (ram k) p xs" "length xs < 4294967295" "blk p (Suc (length xs)) \<inter> blk (kbuf im) 4096 = {}" "same_but_screen im k k'"
  shows "cstr (ram k') p xs"
proof -
  have "cstr (ram k') p xs = cstr (ram k) p xs"
    using assms(2-4) by (intro cstr_cong) (auto simp: same_but_screen_def)
  then show ?thesis using assms(1) by simp
qed

lemma lit_ok_kept: "lit_ok im (ram k) s \<Longrightarrow> same_but_screen im k k' \<Longrightarrow> lit_ok im (ram k') s"
  using cstr_kept [of k "lit im s" "bytes s" im k'] by (simp add: lit_ok_def bytes_def)

lemma strs_ok_kept: "strs_ok strs (ram k) (kbuf im) 4096 \<Longrightarrow> same_but_screen im k k' \<Longrightarrow> strs_ok strs (ram k') (kbuf im) 4096"
  unfolding strs_ok_def by (simp, blast intro: cstr_kept)

lemma strs_ok_empty [simp]: "strs_ok Map.empty m b z"
  by (simp add: strs_ok_def)

section \<open>Sequences of calls\<close>

text \<open>The text of a list of calls, each a format and its arguments.\<close>

fun expands :: "(ptr \<rightharpoonup> u8 list) \<Rightarrow> (string \<times> u32 list) list \<Rightarrow> u8 list list option" where
  "expands strs [] = Some []"
| "expands strs ((f, args) # cs) = do { t \<leftarrow> expand strs 0 (bytes f) args; ts \<leftarrow> expands strs cs; Some (t # ts) }"

definition kprints :: "image \<Rightarrow> (string \<times> u32 list) list \<Rightarrow> kernel \<Rightarrow> kernel option" where
  "kprints im = for_each (\<lambda>(f, args). kprint im f args)"

lemma kprints_says:
  assumes "\<forall>f \<in> set (map fst calls). lit_ok im (ram k) f" "strs_ok strs (ram k) (kbuf im) 4096" "expands strs calls = Some ts"
    and "list_all printable ts" "con_inv k"
  shows "\<exists>k'. kprints im calls k = Some k' \<and> says im k (concat ts) k'"
  using assms
proof (induction calls arbitrary: k ts)
  case Nil
  then show ?case by (auto simp: kprints_def says_refl)
next
  case (Cons c calls)
  obtain f args where c: "c = (f, args)" by fastforce
  from Cons.prems(3) obtain t us where t: "expand strs 0 (bytes f) args = Some t" "expands strs calls = Some us" "ts = t # us"
    by (auto simp: c bind_eq_Some_conv)
  obtain k1 where k1: "kprint im f args k = Some k1" "says im k t k1"
    using kprint_says [OF _ Cons.prems(2) t(1) _ Cons.prems(5)] Cons.prems(1,4) by (auto simp: c t(3))
  then have s: "same_but_screen im k k1" "con_inv k1" by (simp_all add: says_def)
  obtain k2 where "kprints im calls k1 = Some k2" "says im k1 (concat us) k2"
    using Cons.IH [OF _ strs_ok_kept [OF Cons.prems(2) s(1)] t(2) _ s(2)] Cons.prems(1,4) lit_ok_kept [OF _ s(1)] by (auto simp: t(3))
  then show ?case using k1 says_trans [OF k1(2)] by (auto simp: kprints_def c t(3))
qed

section \<open>Texts of numbers\<close>

lemma digits_control: "d < b \<Longrightarrow> b \<le> 16 \<Longrightarrow> digits ! d \<notin> {8, 9}"
proof -
  assume d: "d < b" "b \<le> 16"
  have "\<forall>d \<in> set [0..<16]. digits ! d \<notin> {8, 9}" by (simp add: upt_rec digits_list)
  moreover have "d \<in> set [0..<16]" using d by simp
  ultimately show ?thesis by blast
qed

lemma num_text_chars:
  assumes "2 \<le> b" "b \<le> 16"
  shows "0 \<notin> set (num_text b sg pad n)" "8 \<notin> set (num_text b sg pad n)" "9 \<notin> set (num_text b sg pad n)"
proof -
  have "0 \<notin> set (num_chars b k)" for k using num_chars_digits(2) [OF assms, of k] by blast
  then show "0 \<notin> set (num_text b sg pad n)" by (auto simp: num_text_def Let_def)
  have "8 \<notin> set (num_chars b k)" "9 \<notin> set (num_chars b k)" for k
    using digs_less [OF assms(1), of _ k] digits_control [OF _ assms(2)] by (force simp: num_chars_def)+
  then show "8 \<notin> set (num_text b sg pad n)" "9 \<notin> set (num_text b sg pad n)" by (auto simp: num_text_def Let_def)
qed

lemma length_num_text_le:
  assumes "2 \<le> b" "pad \<le> 9"
  shows "length (num_text b sg pad n) \<le> 42"
proof -
  let ?c = "num_chars b (unat (if sg \<and> n <s 0 then - n else n))"
  have "length (num_chars b (unat x)) \<le> 32" for x :: u32
    using length_digs [OF assms(1), of "unat x" 31] unat_u32_less [of x] by (simp add: num_chars_def)
  then have "length ?c \<le> 32" by blast
  moreover have "length (num_text b sg pad n) \<le> 1 + nat (pad - int (length ?c)) + length ?c"
    by (simp add: num_text_def Let_def)
  ultimately show ?thesis using assms(2) by linarith
qed

lemmas num_text_ok = num_text_chars [of 10] num_text_chars [of 16] num_text_chars [of 2]

end
