(* ===== verification/Pic_8259.thy ===== *)
theory Pic_8259
  imports Port
begin

text \<open>
  The interrupt controllers, \<^verbatim>\<open>src/kernel/pic_8259.c\<close> with \<^verbatim>\<open>src/include/kernel/pic_8259.h\<close>.  The
  controllers answer through the port device parameter; the one fact the code relies on is that
  a data port, once initialised, reads back the interrupt mask last written to it.
\<close>

unbundle bit_operations_syntax

section \<open>Definitions\<close>

definition PIC1 :: u16 where "PIC1 = 0x20"
definition PIC2 :: u16 where "PIC2 = 0xA0"
definition PIC1_OFFSET :: u32 where "PIC1_OFFSET = 0x20"
definition PIC2_OFFSET :: u32 where "PIC2_OFFSET = 0x28"
definition PIC1_DATA :: u16 where "PIC1_DATA = PIC1 + 1"
definition PIC2_DATA :: u16 where "PIC2_DATA = PIC2 + 1"
definition PIC1_CMD :: u16 where "PIC1_CMD = PIC1"
definition PIC2_CMD :: u16 where "PIC2_CMD = PIC2"
definition PIC_EOI :: u8 where "PIC_EOI = ucast PIC1"
definition ICW1 :: u8 where "ICW1 = 0x11"
definition ICW4 :: u8 where "ICW4 = 0x01"

definition IRQ_TM :: u8 where "IRQ_TM = 32 - 32"
definition IRQ_KB :: u8 where "IRQ_KB = 33 - 32"

definition irq_port :: "u8 \<Rightarrow> u16 \<times> u8" where
  "irq_port irq_id = (if irq_id < 8 then (PIC1 + 1, irq_id) else (PIC2 + 1, irq_id - 8))"

definition irq_set_mask :: "device \<Rightarrow> u8 \<Rightarrow> ports \<Rightarrow> ports" where
  "irq_set_mask dev irq_id tr =
     (let (port, i) = irq_port irq_id;
          (r, tr1) = port_read_u8 dev port tr
      in port_write_u8 port (r OR push_bit (unat i) 1) tr1)"

definition irq_clear_mask :: "device \<Rightarrow> u8 \<Rightarrow> ports \<Rightarrow> ports" where
  "irq_clear_mask dev irq_id tr =
     (let (port, i) = irq_port irq_id;
          (r, tr1) = port_read_u8 dev port tr
      in port_write_u8 port (r AND NOT (push_bit (unat i) 1)) tr1)"

definition pic_8259_init :: "device \<Rightarrow> u32 \<Rightarrow> u32 \<Rightarrow> ports \<Rightarrow> ports" where
  "pic_8259_init dev pic1 pic2 tr0 =
     (let tr1 = port_write_u8 PIC1_CMD ICW1 tr0;
          tr2 = port_write_u8 PIC2_CMD ICW1 tr1;
          tr3 = port_write_u8 PIC1_DATA (ucast pic1) tr2;
          tr4 = port_write_u8 PIC2_DATA (ucast pic2) tr3;
          tr5 = port_write_u8 PIC1_DATA 4 tr4;
          tr6 = port_write_u8 PIC2_DATA 2 tr5;
          tr7 = port_write_u8 PIC1_DATA ICW4 tr6;
          tr8 = port_write_u8 PIC2_DATA ICW4 tr7;
          tr9 = port_write_u8 PIC1_DATA 0xFF tr8;
          tr10 = port_write_u8 PIC2_DATA 0xFF tr9;
          tr11 = irq_clear_mask dev IRQ_TM tr10
      in irq_clear_mask dev IRQ_KB tr11)"

definition pic_8259_eoi :: "u8 \<Rightarrow> ports \<Rightarrow> ports" where
  "pic_8259_eoi irq_id tr =
     port_write_u8 PIC1_CMD PIC_EOI (if irq_id > 8 then port_write_u8 PIC2_CMD PIC_EOI tr else tr)"

section \<open>Correctness properties\<close>

text \<open>The documented behaviour of the mask register: it reads back the last byte written.\<close>

definition mask_readback :: "device \<Rightarrow> bool" where
  "mask_readback dev \<longleftrightarrow> (\<forall>tr. outs PIC1_DATA tr \<noteq> [] \<longrightarrow> ucast (dev tr PIC1_DATA) = last (outs PIC1_DATA tr))"

lemmas pic_consts = PIC1_def PIC2_def PIC1_DATA_def PIC2_DATA_def PIC1_CMD_def PIC2_CMD_def

lemma outs_port_write [simp]: "outs p (port_write_u8 q v tr) = outs p tr @ (if q = p then [v] else [])"
  by (simp add: port_write_u8_def)

lemma outs_port_read [simp]: "outs p (snd (port_read_u8 dev q tr)) = outs p tr"
  by (simp add: port_read_u8_def Let_def)

lemma outs_irq_clear_mask:
  assumes "mask_readback dev" "irq < 8" "outs PIC1_DATA tr \<noteq> []"
  shows "outs PIC1_DATA (irq_clear_mask dev irq tr) = outs PIC1_DATA tr @ [last (outs PIC1_DATA tr) AND NOT (push_bit (unat irq) 1)]"
    and "p \<noteq> PIC1_DATA \<Longrightarrow> outs p (irq_clear_mask dev irq tr) = outs p tr"
proof -
  have ip: "irq_port irq = (PIC1_DATA, irq)" using assms(2) by (simp add: irq_port_def PIC1_DATA_def)
  have "fst (port_read_u8 dev PIC1_DATA tr) = last (outs PIC1_DATA tr)"
    using assms(1,3) by (simp add: mask_readback_def port_read_u8_def Let_def)
  then show "outs PIC1_DATA (irq_clear_mask dev irq tr) = outs PIC1_DATA tr @ [last (outs PIC1_DATA tr) AND NOT (push_bit (unat irq) 1)]"
    "p \<noteq> PIC1_DATA \<Longrightarrow> outs p (irq_clear_mask dev irq tr) = outs p tr"
    by (simp_all add: irq_clear_mask_def ip Let_def split_beta)
qed

text \<open>
  \<^verbatim>\<open>pic_8259_init\<close> sends each controller its four initialisation words in order (the start word,
  its vector offset, its place in the cascade, the mode) and leaves every interrupt masked but
  the timer and the keyboard, provided the first controller reads back its mask.
\<close>

theorem pic_init_correct:
  assumes "mask_readback dev"
  shows "outs PIC1_CMD (pic_8259_init dev pic1 pic2 []) = [0x11] \<and> outs PIC2_CMD (pic_8259_init dev pic1 pic2 []) = [0x11]
     \<and> outs PIC1_DATA (pic_8259_init dev pic1 pic2 []) = [ucast pic1, 4, 1, 0xFF, 0xFE, 0xFC]
     \<and> outs PIC2_DATA (pic_8259_init dev pic1 pic2 []) = [ucast pic2, 2, 1, 0xFF]"
proof -
  have irq: "IRQ_TM < 8" "IRQ_KB < 8" "unat IRQ_TM = 0" "unat IRQ_KB = 1" by (simp_all add: IRQ_TM_def IRQ_KB_def)
  have ne: "PIC1_CMD \<noteq> PIC1_DATA" "PIC2_CMD \<noteq> PIC1_DATA" "PIC2_DATA \<noteq> PIC1_DATA" "PIC1_CMD \<noteq> PIC2_CMD" "PIC1_CMD \<noteq> PIC2_DATA" "PIC2_CMD \<noteq> PIC2_DATA"
    by (simp_all add: pic_consts)
  show ?thesis
    unfolding pic_8259_init_def Let_def
    using ne by (simp add: outs_irq_clear_mask [OF assms] irq ICW1_def ICW4_def)
qed

definition demo_pic :: device where
  "demo_pic tr p = (if outs p tr = [] then 0 else ucast (last (outs p tr)))"

theorem pic_init_correct_witness:
  "outs PIC1_DATA (pic_8259_init demo_pic PIC1_OFFSET PIC2_OFFSET []) = [0x20, 4, 1, 0xFF, 0xFE, 0xFC]"
proof -
  have "mask_readback demo_pic" by (simp add: mask_readback_def demo_pic_def ucast_u16_u8)
  from pic_init_correct [OF this, of PIC1_OFFSET PIC2_OFFSET] show ?thesis by (simp add: PIC1_OFFSET_def)
qed

end
