(* ===== verification/Isr.thy ===== *)
theory Isr
  imports Output Pic_8259
begin

text \<open>
  The interrupt service routines, \<^verbatim>\<open>src/kernel/isr.c\<close>, and how the processor reaches them: through
  the gates of the interrupt table in memory, which \<^verbatim>\<open>idt_init\<close> has filled.  The frame that the processor pushes is a
  parameter of the model (\<open>int_frame\<close>, \<open>errcode\<close>), as are the hardware interrupts that end a
  \<^verbatim>\<open>hlt\<close> (\<open>wakes\<close>).  The macros around a handler's body, which save and restore segment
  registers and disable interrupts, are in \<^verbatim>\<open>Isr_Stack\<close>.
\<close>

section \<open>Definitions\<close>

definition print_int_frame :: "image \<Rightarrow> ptr \<times> t_int_frame \<Rightarrow> u32 option \<Rightarrow> kernel \<Rightarrow> kernel option" where
  "print_int_frame im frame err k =
     do { k1 \<leftarrow> kprint im ''frame interupt: %p\<newline>'' [fst frame] k;
          k2 \<leftarrow> kprint im ''     eip: %x\<newline>'' [frame_eip (snd frame)] k1;
          k3 \<leftarrow> kprint im ''      cs: %x\<newline>'' [frame_cs (snd frame)] k2;
          k4 \<leftarrow> kprint im ''     flg: %x\<newline>'' [frame_flags (snd frame)] k3;
          k5 \<leftarrow> kprint im ''      sp: %x\<newline>'' [frame_sp (snd frame)] k4;
          k6 \<leftarrow> kprint im ''      ss: %x\<newline>'' [frame_ss (snd frame)] k5;
          case err of None \<Rightarrow> Some k6 | Some e \<Rightarrow> kprint im ''     err: %x\<newline>'' [e] k6 }"

definition divide_error_handler :: "image \<Rightarrow> kernel \<Rightarrow> kernel option" where
  "divide_error_handler im k =
     do { k1 \<leftarrow> kprint im ''DIVIDE ERROR\<newline>'' [] k; print_int_frame im (int_frame im) None k1 }"

definition overflow_handler :: "image \<Rightarrow> kernel \<Rightarrow> kernel option" where
  "overflow_handler im k =
     do { k1 \<leftarrow> kprint im ''OVERFLOW\<newline>'' [] k; print_int_frame im (int_frame im) None k1 }"

text \<open>
  The double fault handler ends in \<^verbatim>\<open>hlt\<close> after the \<^verbatim>\<open>cli\<close> of \<^verbatim>\<open>LOAD_INTERRUPT_STACK\<close>: no interrupt
  can wake the processor, so the handler does not return.  What it does before is a
  definition of its own.
\<close>

definition double_fault_report :: "image \<Rightarrow> kernel \<Rightarrow> kernel option" where
  "double_fault_report im k =
     do { k1 \<leftarrow> kprint im ''DOUBLE FAULT\<newline>'' [] k; print_int_frame im (int_frame im) (Some (errcode im)) k1 }"

definition double_fault_handler :: "image \<Rightarrow> kernel \<Rightarrow> kernel option" where
  "double_fault_handler im k = do { k1 \<leftarrow> double_fault_report im k; None }"

definition on_ports :: "(ports \<Rightarrow> ports) \<Rightarrow> kernel \<Rightarrow> kernel" where
  "on_ports f k = k\<lparr>hw := (hw k)\<lparr>ports := f (ports (hw k))\<rparr>\<rparr>"

definition timer_handler :: "kernel \<Rightarrow> kernel option" where
  "timer_handler k = Some (on_ports (pic_8259_eoi IRQ_TM) k)"

definition keyboard_handler :: "kernel \<Rightarrow> kernel option" where
  "keyboard_handler k = Some (on_ports (pic_8259_eoi IRQ_KB) k)"

text \<open>
  An interrupt with number \<open>n\<close>: the processor jumps to the target of gate \<open>n\<close>.  A target that is none
  of the routines has no model.
\<close>

definition raise_int :: "image \<Rightarrow> u8 \<Rightarrow> kernel \<Rightarrow> kernel option" where
  "raise_int im n k =
     (let h = gate_target (idt_entry (ram k) n) in
      if h = divide_error_addr (isr im) then divide_error_handler im k
      else if h = overflow_addr (isr im) then overflow_handler im k
      else if h = double_fault_addr (isr im) then double_fault_handler im k
      else if h = timer_addr (isr im) then timer_handler k
      else if h = keyboard_addr (isr im) then keyboard_handler k
      else None)"

text \<open>\<^verbatim>\<open>hlt\<close> with interrupts enabled: wait for an interrupt, handle it, and go on.\<close>

definition hlt :: "image \<Rightarrow> kernel \<Rightarrow> kernel option" where
  "hlt im k = (case wakes im (ports (hw k)) of None \<Rightarrow> None | Some n \<Rightarrow> raise_int im n k)"

section \<open>Gates and handlers\<close>

definition isr_distinct :: "isr_table \<Rightarrow> bool" where
  "isr_distinct t \<longleftrightarrow> distinct [divide_error_addr t, overflow_addr t, double_fault_addr t, timer_addr t, keyboard_addr t]"

lemma gate_target_cong: "\<forall>a \<in> blk 0 2048. m a = m' a \<Longrightarrow> gate_target (idt_entry m i) = gate_target (idt_entry m' i)"
proof -
  assume a: "\<forall>a \<in> blk 0 2048. m a = m' a"
  have "blk (idt_at i) 8 \<subseteq> blk 0 2048"
    using blk_subset [of "unat (idt_at i)" 8 2048 0] unat_u8_less [of i] by (simp add: unat_idt_at) (simp add: idt_at_def)
  then show ?thesis using idt_entry_cong [of i m m'] a by (simp add: subset_iff)
qed

lemma idt_init_gates:
  assumes "\<forall>a \<in> blk 0 2048. m' a = fst (idt_init t m) a"
  shows "gate_target (idt_entry m' 0) = divide_error_addr t" "gate_target (idt_entry m' 4) = overflow_addr t"
    "gate_target (idt_entry m' 8) = double_fault_addr t" "gate_target (idt_entry m' 32) = timer_addr t"
    "gate_target (idt_entry m' 33) = keyboard_addr t"
  by (simp_all add: gate_target_cong [OF assms] idt_init_def Let_def idt_consts gate_fields idt_set_descriptor_other)

text \<open>What \<^verbatim>\<open>print_int_frame\<close> prints of a frame.\<close>

definition hex_line :: "string \<Rightarrow> u32 \<Rightarrow> u8 list" where
  "hex_line s n = bytes s @ num_text 16 False 0 n @ [10]"

definition frame_text :: "ptr \<times> t_int_frame \<Rightarrow> u8 list list" where
  "frame_text fr = [hex_line ''frame interupt: 0x'' (fst fr), hex_line ''     eip: '' (frame_eip (snd fr)),
     hex_line ''      cs: '' (frame_cs (snd fr)), hex_line ''     flg: '' (frame_flags (snd fr)),
     hex_line ''      sp: '' (frame_sp (snd fr)), hex_line ''      ss: '' (frame_ss (snd fr))]"

definition frame_calls :: "ptr \<times> t_int_frame \<Rightarrow> (string \<times> u32 list) list" where
  "frame_calls fr = [(''frame interupt: %p\<newline>'', [fst fr]), (''     eip: %x\<newline>'', [frame_eip (snd fr)]),
     (''      cs: %x\<newline>'', [frame_cs (snd fr)]), (''     flg: %x\<newline>'', [frame_flags (snd fr)]),
     (''      sp: %x\<newline>'', [frame_sp (snd fr)]), (''      ss: %x\<newline>'', [frame_ss (snd fr)])]"

lemma hex_line_printable:
  assumes "printable (bytes s)" "length s < 4000"
  shows "printable (hex_line s n)"
  using assms length_num_text_le [of 16 0 False n] by (simp add: printable_def hex_line_def num_text_ok bytes_def)

lemma print_int_frame_kprints: "print_int_frame im fr None = kprints im (frame_calls fr)"
  by (rule ext) (simp add: print_int_frame_def kprints_def frame_calls_def for_each_Cons)

lemma frame_expands: "expands Map.empty (frame_calls fr) = Some (frame_text fr)"
  by (simp add: frame_calls_def frame_text_def bytes_def spec_text_def va_arg_def is_pad_def hex_line_def)

lemma frame_text_printable: "list_all printable (frame_text fr)"
  by (simp add: frame_text_def hex_line_printable printable_bytes)

text \<open>A handler that prints a title and its frame.\<close>

lemma report_says:
  assumes "con_inv k" "\<forall>f \<in> set (title # map fst (frame_calls fr)). lit_ok im (ram k) f"
    and "expand Map.empty 0 (bytes title) [] = Some t" "printable t"
  shows "\<exists>k'. do { k1 \<leftarrow> kprint im title [] k; print_int_frame im fr None k1 } = Some k' \<and> says im k (t @ concat (frame_text fr)) k'"
  using kprints_says [of "(title, []) # frame_calls fr" im k Map.empty "t # frame_text fr"]
    assms frame_expands [of fr] frame_text_printable [of fr]
  by (simp add: print_int_frame_kprints kprints_def)

section \<open>Correctness properties\<close>

text \<open>
  C22: interrupts reach their handlers.  While the interrupt table still holds what \<^verbatim>\<open>idt_init\<close> wrote,
  interrupts 0 and 4 print their name and the frame on the current screen and return, changing nothing else;
  interrupt 8 never returns; the timer and keyboard
  interrupts acknowledge the first controller, and only it, and change nothing else.
\<close>

theorem interrupt_dispatch:
  assumes "isr_distinct (isr im)" "\<forall>a \<in> blk 0 2048. ram k a = fst (idt_init (isr im) m) a" "con_inv k"
    and "\<forall>f \<in> set ([''DIVIDE ERROR\<newline>'', ''OVERFLOW\<newline>''] @ map fst (frame_calls (int_frame im))). lit_ok im (ram k) f"
  shows "\<exists>k1 k2. raise_int im 0 k = Some k1 \<and> says im k (bytes ''DIVIDE ERROR\<newline>'' @ concat (frame_text (int_frame im))) k1
    \<and> raise_int im 4 k = Some k2 \<and> says im k (bytes ''OVERFLOW\<newline>'' @ concat (frame_text (int_frame im))) k2
    \<and> raise_int im 8 k = None
    \<and> raise_int im 32 k = Some (on_ports (\<lambda>tr. tr @ [Out8 0x20 0x20]) k) \<and> raise_int im 33 k = Some (on_ports (\<lambda>tr. tr @ [Out8 0x20 0x20]) k)"
proof -
  note g = idt_init_gates [OF assms(2)]
  note h = assms(1) [unfolded isr_distinct_def, simplified]
  have r: "raise_int im 0 k = divide_error_handler im k" "raise_int im 4 k = overflow_handler im k"
    "raise_int im 8 k = double_fault_handler im k" "raise_int im 32 k = timer_handler k" "raise_int im 33 k = keyboard_handler k"
    using h by (auto simp: raise_int_def Let_def g)
  have t: "expand Map.empty 0 (bytes ''DIVIDE ERROR\<newline>'') [] = Some (bytes ''DIVIDE ERROR\<newline>'')"
    "expand Map.empty 0 (bytes ''OVERFLOW\<newline>'') [] = Some (bytes ''OVERFLOW\<newline>'')"
    "printable (bytes ''DIVIDE ERROR\<newline>'')" "printable (bytes ''OVERFLOW\<newline>'')"
    by (simp_all add: bytes_def printable_def)
  obtain k1 where "divide_error_handler im k = Some k1" "says im k (bytes ''DIVIDE ERROR\<newline>'' @ concat (frame_text (int_frame im))) k1"
    using report_says [OF assms(3) _ t(1,3), where im = im and fr = "int_frame im"] assms(4) unfolding divide_error_handler_def by auto
  moreover obtain k2 where "overflow_handler im k = Some k2" "says im k (bytes ''OVERFLOW\<newline>'' @ concat (frame_text (int_frame im))) k2"
    using report_says [OF assms(3) _ t(2,4), where im = im and fr = "int_frame im"] assms(4) unfolding overflow_handler_def by auto
  moreover have "double_fault_handler im k = None" by (simp add: double_fault_handler_def)
  moreover have "pic_8259_eoi IRQ_TM = (\<lambda>tr. tr @ [Out8 0x20 0x20])" "pic_8259_eoi IRQ_KB = (\<lambda>tr. tr @ [Out8 0x20 0x20])"
    by (simp_all add: fun_eq_iff pic_8259_eoi_def IRQ_TM_def IRQ_KB_def port_write_u8_def PIC_EOI_def PIC1_CMD_def PIC1_def)
  ultimately show ?thesis by (simp add: r timer_handler_def keyboard_handler_def)
qed

theorem interrupt_dispatch_witness:
  "\<exists>k1. raise_int demo_image 0 (demo_kernel (demo_ram (fst (idt_init (isr demo_image) (\<lambda>_. 0))))) = Some k1
     \<and> raise_int demo_image 8 (demo_kernel (demo_ram (fst (idt_init (isr demo_image) (\<lambda>_. 0))))) = None \<and> con_inv k1"
proof -
  let ?m = "fst (idt_init (isr demo_image) (\<lambda>_. 0))"
  have "isr_distinct (isr demo_image)" by (simp add: isr_distinct_def demo_image_def)
  moreover have "\<forall>a \<in> blk 0 2048. ram (demo_kernel (demo_ram ?m)) a = ?m a"
  proof
    fix a :: ptr assume "a \<in> blk 0 2048"
    then have "a \<notin> blk 0x20000 (128 * length literals)"
      using blk_apart [of 0 2048 "0x20000" "128 * length literals"] by (auto simp: length_literals)
    then have "\<not> unat (a - 0x20000) div 128 < length literals" by (simp add: in_blk_iff length_literals div_less_iff_less_mult)
    then show "ram (demo_kernel (demo_ram ?m)) a = ?m a" by (simp add: demo_kernel_def demo_ram_def pool_mem_def Let_def)
  qed
  moreover have "set ([''DIVIDE ERROR\<newline>'', ''OVERFLOW\<newline>''] @ map fst (frame_calls (int_frame demo_image))) \<subseteq> set literals"
    by (simp add: frame_calls_def literals_def)
  then have "\<forall>f \<in> set ([''DIVIDE ERROR\<newline>'', ''OVERFLOW\<newline>''] @ map fst (frame_calls (int_frame demo_image))).
      lit_ok demo_image (ram (demo_kernel (demo_ram ?m))) f"
    using demo_lits_ok [of ?m] by (auto simp: lits_ok_def demo_kernel_def)
  ultimately show ?thesis
    using interrupt_dispatch [of demo_image "demo_kernel (demo_ram ?m)" "\<lambda>_. 0"] demo_kernel_inv by (auto simp: says_def)
qed
end
