(* ===== verification/Builtins.thy ===== *)
theory Builtins
  imports Isr Lib_Std
begin

text \<open>
  The shell's built-in commands, \<^verbatim>\<open>src/kernel/nsh/builtins\<close> (\<^verbatim>\<open>clear\<close>, \<^verbatim>\<open>next\<close> and \<^verbatim>\<open>prev\<close> are in \<^verbatim>\<open>Console\<close>).  A
  command takes the argument count and vector and returns its exit code with the new state; \<open>None\<close> means
  that it does not return.  Arguments are strings in memory, read with the models of
  \<^verbatim>\<open>strcmp\<close>, \<^verbatim>\<open>strtol\<close> and \<^verbatim>\<open>strtoul\<close>.
\<close>

unbundle bit_operations_syntax

section \<open>alloc\<close>

definition usage_alloc :: "image \<Rightarrow> kernel \<Rightarrow> kernel option" where
  "usage_alloc im k = kprint im ''Usage: alloc size\<newline>'' [] k"

text \<open>The body of \<^verbatim>\<open>alloc_loop\<close> after the colour has been saved and set.\<close>

partial_function (option) alloc_while :: "image \<Rightarrow> u8 \<Rightarrow> kpm_chunk \<Rightarrow> u32 \<Rightarrow> kernel \<Rightarrow> (int \<times> kpm_chunk \<times> kernel) option" where
  "alloc_while im oldcolor chunk sz k =
     (if sz > 0 then
        do { (r, chunk1, p1) \<leftarrow> kpm_alloc chunk sz (phys k);
             let k1 = k\<lparr>phys := p1\<rparr>;
             if r < 0 then do { k2 \<leftarrow> on_cur (sb_set_color oldcolor) k1; Some (-1, chunk1, k2) }
             else do {
               k2 \<leftarrow> kprint im ''chunk: {\<newline>    addr = %p\<newline>    size = %u\<newline>}\<newline>'' [chunk_addr chunk1, chunk_size chunk1] k1;
               if chunk_size chunk1 \<ge> sz
               then do { k3 \<leftarrow> on_cur (sb_set_color oldcolor) k2; Some (0, chunk1, k3) }
               else alloc_while im oldcolor chunk1 (sz - chunk_size chunk1) k2 } }
      else do { k3 \<leftarrow> on_cur (sb_set_color oldcolor) k; Some (0, chunk, k3) })"

declare alloc_while.simps [code]

definition alloc_loop :: "image \<Rightarrow> kpm_chunk \<Rightarrow> u32 \<Rightarrow> kernel \<Rightarrow> (int \<times> kpm_chunk \<times> kernel) option" where
  "alloc_loop im chunk sz k =
     (if cur_ok k then
        do { let oldcolor = sb_get_color (cur k);
             k1 \<leftarrow> on_cur (sb_set_fg (color_val SB_COLOR_GREEN)) k;
             alloc_while im oldcolor chunk sz k1 }
      else None)"

text \<open>The chunk on the stack is uninitialised: its contents are the image's \<open>stack_chunk\<close>.\<close>

definition blt_alloc :: "image \<Rightarrow> int \<Rightarrow> (nat \<Rightarrow> ptr) \<Rightarrow> kernel \<Rightarrow> (int \<times> kernel) option" where
  "blt_alloc im argc argv k =
     (if argc < 2 then do { k1 \<leftarrow> usage_alloc im k; Some (-1, k1) }
      else do {
        (sz, p) \<leftarrow> strtol (ram k) (argv 1) 0;
        if ram k p \<noteq> 0 \<or> sz <s 0 then do { k1 \<leftarrow> kprint im ''alloc: Size not well formatted.\<newline>'' [] k; Some (-1, k1) }
        else do {
          k1 \<leftarrow> kprint im ''Asked for allocation of %d bytes\<newline>'' [sz] k;
          (r, _, k2) \<leftarrow> alloc_loop im (stack_chunk im) sz k1;
          k3 \<leftarrow> (if r = -1 then kprint im ''Failed to allocate memory area.\<newline>'' [] k2 else Some k2);
          Some (0, k3) } })"

section \<open>free\<close>

definition usage_free :: "image \<Rightarrow> kernel \<Rightarrow> kernel option" where
  "usage_free im k = kprint im ''Usage: free size\<newline>'' [] k"

definition blt_free :: "image \<Rightarrow> int \<Rightarrow> (nat \<Rightarrow> ptr) \<Rightarrow> kernel \<Rightarrow> (int \<times> kernel) option" where
  "blt_free im argc argv k =
     (if argc < 2 then do { k1 \<leftarrow> usage_free im k; Some (-1, k1) }
      else do {
        (addr, p) \<leftarrow> strtol (ram k) (argv 1) 0;
        if ram k p \<noteq> 0 \<or> ram k (argv 1) = 45 then do { k1 \<leftarrow> kprint im ''free: Address not well formatted.\<newline>'' [] k; Some (-1, k1) }
        else do {
          (sz, q) \<leftarrow> strtol (ram k) (argv 2) 0;
          if ram k q \<noteq> 0 \<or> sz <s 0 then do { k1 \<leftarrow> kprint im ''free: Size not well formatted.\<newline>'' [] k; Some (-1, k1) }
          else do {
            p1 \<leftarrow> kpm_free \<lparr>chunk_addr = addr, chunk_size = sz\<rparr> (phys k);
            Some (0, k\<lparr>phys := p1\<rparr>) } } })"

section \<open>color\<close>

definition usage_color :: "image \<Rightarrow> kernel \<Rightarrow> kernel option" where
  "usage_color im k =
     do { k1 \<leftarrow> kprint im ''Usage: color fg/bg COLOR\<newline>'' [] k; kprint im ''       color reset\<newline>'' [] k1 }"

definition colors :: "string list" where
  "colors = [''black'', ''blue'', ''green'', ''cyan'', ''red'', ''magenta'', ''brown'', ''lightgrey'', ''darkgrey'',
     ''lightblue'', ''lightgreen'', ''lightcyan'', ''lightred'', ''lightmagenta'', ''lightbrown'', ''white'']"

text \<open>\<^verbatim>\<open>for (i = 0; i < n; i++) if (!strcmp(names[i], arg)) ...\<close>: the first index that matches, if any.\<close>

fun find_name :: "image \<Rightarrow> mem \<Rightarrow> string list \<Rightarrow> nat \<Rightarrow> ptr \<Rightarrow> nat option option" where
  "find_name im m [] i arg = Some None"
| "find_name im m (s # ss) i arg =
     do { r \<leftarrow> strcmp m (lit im s) arg; if r = 0 then Some (Some i) else find_name im m ss (Suc i) arg }"

definition set_color_named :: "image \<Rightarrow> (u8 \<Rightarrow> screenbuf \<Rightarrow> screenbuf) \<Rightarrow> ptr \<Rightarrow> kernel \<Rightarrow> (int \<times> kernel) option" where
  "set_color_named im set_fn arg k =
     do { i \<leftarrow> find_name im (ram k) colors 0 arg;
          case i of
            Some n \<Rightarrow> do { k1 \<leftarrow> on_cur (set_fn (of_nat n)) k; Some (0, k1) }
          | None \<Rightarrow> do { k1 \<leftarrow> kprint im ''color: '%s' unknown color.\<newline>'' [arg] k; Some (-1, k1) } }"

definition blt_color :: "image \<Rightarrow> int \<Rightarrow> (nat \<Rightarrow> ptr) \<Rightarrow> kernel \<Rightarrow> (int \<times> kernel) option" where
  "blt_color im argc argv k =
     (if argc < 2 then do { k1 \<leftarrow> usage_color im k; Some (-1, k1) }
      else do {
        r \<leftarrow> strcmp (ram k) (argv 1) (lit im ''reset'');
        if r = 0 then do { k1 \<leftarrow> on_cur (sb_set_color SB_DFL_COLOR) k; Some (-1, k1) }
        else if argc < 3 then do { k1 \<leftarrow> usage_color im k; Some (-1, k1) }
        else do {
          f \<leftarrow> strcmp (ram k) (argv 1) (lit im ''fg'');
          if f = 0 then set_color_named im sb_set_fg (argv 2) k
          else do {
            b \<leftarrow> strcmp (ram k) (argv 1) (lit im ''bg'');
            if b = 0 then set_color_named im sb_set_bg (argv 2) k
            else do { k1 \<leftarrow> kprint im ''color: '%s' unknown command.\<newline>'' [argv 1] k; Some (-1, k1) } } } })"

section \<open>keymap\<close>

definition usage_keymap :: "image \<Rightarrow> kernel \<Rightarrow> kernel option" where
  "usage_keymap im k =
     do { k1 \<leftarrow> kprint im ''Usage: keymap LAYOUT\<newline>'' [] k; kprint im ''       keymap list\<newline>'' [] k1 }"

definition layouts :: "(string \<times> (kbd_keycode \<Rightarrow> kbd_keymap_entry)) list" where
  "layouts = [(''us'', US104_getkeymapentry), (''fr'', FR_getkeymapentry)]"

definition blt_keymap :: "image \<Rightarrow> int \<Rightarrow> (nat \<Rightarrow> ptr) \<Rightarrow> kernel \<Rightarrow> (int \<times> kernel) option" where
  "blt_keymap im argc argv k =
     (if argc < 2 then do { k1 \<leftarrow> usage_keymap im k; Some (-1, k1) }
      else do {
        l \<leftarrow> strcmp (ram k) (argv 1) (lit im ''list'');
        if l = 0 then
          do { k1 \<leftarrow> kprint im ''Layout:\<newline>'' [] k;
               k2 \<leftarrow> for_each (\<lambda>(name, fn). kprint im ''- %s\<newline>'' [lit im name]) layouts k1;
               Some (-1, k2) }
        else do {
          i \<leftarrow> find_name im (ram k) (map fst layouts) 0 (argv 1);
          case i of
            Some n \<Rightarrow> Some (0, k\<lparr>kbd := KBD_setkeymap (snd (layouts ! n)) (kbd k)\<rparr>)
          | None \<Rightarrow> do { k1 \<leftarrow> kprint im ''keymap: Layout '%s' not found.\<newline>'' [argv 1] k; Some (-1, k1) } } })"

section \<open>hexdump\<close>

definition usage_hexdump :: "image \<Rightarrow> kernel \<Rightarrow> kernel option" where
  "usage_hexdump im k = kprint im ''Usage: hexdump address size\<newline>'' [] k"

definition NBYTES_LINE :: u32 where "NBYTES_LINE = 16"
definition C_ACTIVE :: u8 where "C_ACTIVE = color_val SB_COLOR_LIGHT_RED"
definition C_INACTIVE :: u8 where "C_INACTIVE = color_val SB_COLOR_WHITE"
definition C_NONPRINT :: u8 where "C_NONPRINT = color_val SB_COLOR_WHITE"

definition hx_hex :: "image \<Rightarrow> ptr \<Rightarrow> u32 \<Rightarrow> nat \<Rightarrow> kernel \<Rightarrow> kernel option" where
  "hx_hex im base nbytes i k =
     do { k1 \<leftarrow> (if i mod 2 = 0 then kprint im '' '' [] k else Some k);
          if sint nbytes - int i > 0 then
            do { byte \<leftarrow> load_u8 im k1 (base + of_nat i);
                 k2 \<leftarrow> on_cur (sb_set_fg (if byte \<noteq> 0 then C_ACTIVE else C_INACTIVE)) k1;
                 k3 \<leftarrow> kprint im ''%2x'' [ucast byte] k2;
                 on_cur (sb_set_fg C_INACTIVE) k3 }
          else kprint im ''  '' [] k1 }"

definition hx_char :: "image \<Rightarrow> ptr \<Rightarrow> u32 \<Rightarrow> nat \<Rightarrow> kernel \<Rightarrow> kernel option" where
  "hx_char im base nbytes i k =
     (if sint nbytes - int i > 0 then
        do { byte \<leftarrow> load_u8 im k (base + of_nat i);
             let (fg, c) = (if byte = 0 then (C_INACTIVE, 46)
                            else if byte < 32 \<or> byte > 127 then (C_NONPRINT, 46)
                            else (C_ACTIVE, byte));
             k1 \<leftarrow> on_cur (sb_set_fg fg) k;
             k2 \<leftarrow> kprint im ''%c'' [ucast c] k1;
             on_cur (sb_set_fg C_INACTIVE) k2 }
      else kprint im '' '' [] k)"

definition hx_printline :: "image \<Rightarrow> ptr \<Rightarrow> u32 \<Rightarrow> kernel \<Rightarrow> kernel option" where
  "hx_printline im base nbytes k =
     do { k1 \<leftarrow> kprint im ''%8p: '' [base] k;
          k2 \<leftarrow> for_each (hx_hex im base nbytes) [0..<unat NBYTES_LINE] k1;
          k3 \<leftarrow> on_cur (sb_set_fg C_INACTIVE) k2;
          k4 \<leftarrow> kprint im ''  |'' [] k3;
          k5 \<leftarrow> for_each (hx_char im base nbytes) [0..<unat NBYTES_LINE] k4;
          kprint im ''|\<newline>'' [] k5 }"

function hx_lines :: "image \<Rightarrow> ptr \<Rightarrow> u32 \<Rightarrow> kernel \<Rightarrow> (ptr \<times> u32 \<times> kernel) option" where
  "hx_lines im base sz k =
     (if sz \<ge> NBYTES_LINE
      then do { k1 \<leftarrow> hx_printline im base NBYTES_LINE k; hx_lines im (base + NBYTES_LINE) (sz - NBYTES_LINE) k1 }
      else Some (base, sz, k))"
  by pat_completeness auto
termination
  by (relation "measure (\<lambda>(im, base, sz, k). unat sz)")
     (auto simp: NBYTES_LINE_def word_le_nat_alt word_less_nat_alt unat_sub)

declare hx_lines.simps [simp del]

definition hx_print :: "image \<Rightarrow> ptr \<Rightarrow> u32 \<Rightarrow> kernel \<Rightarrow> kernel option" where
  "hx_print im base sz k =
     (if cur_ok k then
        do { let oldcolor = sb_get_color (cur k);
             k1 \<leftarrow> on_cur (sb_set_color SB_DFL_COLOR) k;
             k2 \<leftarrow> on_cur (sb_set_fg C_INACTIVE) k1;
             (base1, sz1, k3) \<leftarrow> hx_lines im base sz k2;
             k4 \<leftarrow> (if sz1 \<noteq> 0 then hx_printline im base1 sz1 k3 else Some k3);
             on_cur (sb_set_color oldcolor) k4 }
      else None)"

definition blt_hexdump :: "image \<Rightarrow> int \<Rightarrow> (nat \<Rightarrow> ptr) \<Rightarrow> kernel \<Rightarrow> (int \<times> kernel) option" where
  "blt_hexdump im argc argv k =
     (if argc < 3 then do { k1 \<leftarrow> usage_hexdump im k; Some (-1, k1) }
      else do {
        (addr, p) \<leftarrow> strtoul (ram k) (argv 1) 0;
        if ram k p \<noteq> 0 then do { k1 \<leftarrow> kprint im ''hexdump: Address not well formated.\<newline>'' [] k; Some (-1, k1) }
        else do {
          (sz, q) \<leftarrow> strtoul (ram k) (argv 2) 0;
          if ram k q \<noteq> 0 then do { k1 \<leftarrow> kprint im ''hexdump: Size not well formated.\<newline>'' [] k; Some (-1, k1) }
          else do { k1 \<leftarrow> hx_print im addr sz k; Some (0, k1) } } })"

end
