(* ===== verification/Builtins_System.thy ===== *)
theory Builtins_System
  imports Builtins
begin

text \<open>
  The built-in commands that look at or control the machine: \<^verbatim>\<open>info.c\<close>, \<^verbatim>\<open>interrupt.c\<close>,
  \<^verbatim>\<open>power.c\<close> and the \<^verbatim>\<open>help\<close> command of \<^verbatim>\<open>utils.c\<close>.  Register contents and the bounds of
  the stack are fields of the image.
\<close>

unbundle bit_operations_syntax

section \<open>info\<close>

definition usage_info :: "image \<Rightarrow> kernel \<Rightarrow> kernel option" where
  "usage_info im k = kprint im ''Usage: info [gdt/idt/stack/buddy/registers]\<newline>'' [] k"

definition info_registers :: "image \<Rightarrow> kernel \<Rightarrow> kernel option" where
  "info_registers im k =
     kprints im
       [(''eax : %8p\<newline>'', [regs im ''eax'']), (''ebx : %8p\<newline>'', [regs im ''ebx'']), (''ecx : %8p\<newline>'', [regs im ''ecx'']),
        (''edx : %8p\<newline>'', [regs im ''edx'']), (''cs : %8p\<newline>'', [regs im ''cs'']), (''ds : %8p\<newline>'', [regs im ''ds'']),
        (''es : %8p\<newline>'', [regs im ''es'']), (''gs : %8p\<newline>'', [regs im ''gs'']), (''ss : %8p\<newline>'', [regs im ''ss'']),
        (''esi : %8p\<newline>'', [regs im ''esi'']), (''edi : %8p\<newline>'', [regs im ''edi'']), (''ebp : %8p\<newline>'', [regs im ''ebp'']),
        (''eip : %8p\<newline>'', [regs im ''eip'']), (''esp : %8p\<newline>'', [regs im ''esp'']), (''eflags : %b\<newline>'', [regs im ''eflags'']),
        (''cr0 : %8b\<newline>'', [regs im ''cr0'']), (''cr3 : %8p\<newline>'', [regs im ''cr3''])] k"

text \<open>\<^verbatim>\<open>info.c\<close> declares \<^verbatim>\<open>idt\<close> as an array of 256 entries of eight bytes, so that \<^verbatim>\<open>sizeof(idt)\<close> is 2048.\<close>

definition info_idt :: "image \<Rightarrow> kernel \<Rightarrow> kernel option" where
  "info_idt im k =
     do { k1 \<leftarrow> kprint im ''INFO IDT\<newline>'' [] k;
          k2 \<leftarrow> kprint im ''Base:  %8p | Limit: %8p\<newline>'' [idt_base (idtp k1), ucast (idt_limit (idtp k1))] k1;
          kprint im ''Size = %u bytes\<newline>'' [256 * 8] k2 }"

definition info_buddy_byte :: "image \<Rightarrow> u8 \<Rightarrow> nat \<Rightarrow> nat \<Rightarrow> kernel \<Rightarrow> kernel option" where
  "info_buddy_byte im oldcolor ord i k =
     do { k1 \<leftarrow> (if i mod 32 = 0 then kprint im ''\<newline>%4x  '' [of_nat i] k else Some k);
          let val = ram k1 (bitmap (orders (buddy (phys k1)) ! ord) + of_nat i);
          k3 \<leftarrow> (if val = 0 then do { k2 \<leftarrow> on_cur (sb_set_bg (color_val SB_COLOR_WHITE)) k1; kprint im ''  '' [] k2 }
                 else if val = 0xff then do { k2 \<leftarrow> on_cur (sb_set_bg (color_val SB_COLOR_RED)) k1; kprint im ''  '' [] k2 }
                 else do { k2 \<leftarrow> on_cur (sb_set_bg (color_val SB_COLOR_BROWN)) k1; kprint im ''%2x'' [ucast val] k2 });
          on_cur (sb_set_color oldcolor) k3 }"

definition info_buddy_print_order :: "image \<Rightarrow> nat \<Rightarrow> kernel \<Rightarrow> kernel option" where
  "info_buddy_print_order im ord k =
     (if cur_ok k then
        do { let oldcolor = sb_get_color (cur k);
             let sz = order_size (orders (buddy (phys k)) ! ord);
             k1 \<leftarrow> kprint im ''order %u(size of %u)\<newline>'' [of_nat ord, sz] k;
             k2 \<leftarrow> for_each (info_buddy_byte im oldcolor ord) [0..<unat sz] k1;
             k3 \<leftarrow> on_cur (sb_set_color oldcolor) k2;
             kprint im ''\<newline>'' [] k3 }
      else None)"

definition info_buddy :: "image \<Rightarrow> int \<Rightarrow> kernel \<Rightarrow> kernel option" where
  "info_buddy im ord k =
     do { k1 \<leftarrow> kprints im
            [(''INFO BUDDY\<newline>'', []), (''buddy address:        %p\<newline>'', [buddy_addr (phys k)]),
             (''buddy size:           %u KB\<newline>'', [buddy_size (buddy (phys k)) div 1024]),
             (''orders address:       %p\<newline>'', [bitmap (orders (buddy (phys k)) ! 0)]),
             (''frame number:         %x\<newline>'', [nframes (buddy (phys k))]),
             (''memory size:          %u KB\<newline>'', [push_bit 2 (nframes (buddy (phys k)))])] k;
          if ord \<ge> 0 then info_buddy_print_order im (nat ord) k1 else Some k1 }"

definition info_stack :: "image \<Rightarrow> kernel \<Rightarrow> kernel option" where
  "info_stack im k =
     do { k1 \<leftarrow> kprint im ''INFO STACK\<newline>'' [] k;
          k2 \<leftarrow> kprint im ''Top:   %8p | Bottom : %8p\<newline>'' [stack_top im, stack_bottom im] k1;
          kprint im ''Size = %d bytes\<newline>'' [stack_top im - stack_bottom im] k2 }"

definition info_gdt_entry :: "image \<Rightarrow> nat \<Rightarrow> kernel \<Rightarrow> kernel option" where
  "info_gdt_entry im i k =
     do { let gdt = (\<lambda>k. gdt_entry (ram k) (of_nat i));
          k1 \<leftarrow> kprint im ''%4p      '' [ucast (base_low (gdt k))] k;
          k2 \<leftarrow> kprint im ''%4p      '' [ucast (base_middle (gdt k1))] k1;
          k3 \<leftarrow> kprint im ''%4p      '' [ucast (base_high (gdt k2))] k2;
          k4 \<leftarrow> kprint im ''%4p      '' [ucast (limit_low (gdt k3))] k3;
          k5 \<leftarrow> kprint im ''%4p      '' [ucast (granularity (gdt k4))] k4;
          k6 \<leftarrow> kprint im ''%4p      '' [ucast (access (gdt k5))] k5;
          kprint im ''\<newline>'' [] k6 }"

text \<open>Here \<^verbatim>\<open>gdt\<close> is a pointer: \<^verbatim>\<open>sizeof(gdt)\<close> is 4, not the size of an entry.\<close>

definition info_gdt :: "image \<Rightarrow> kernel \<Rightarrow> kernel option" where
  "info_gdt im k =
     do { k1 \<leftarrow> kprint im ''INFO GDT\<newline>'' [] k;
          k2 \<leftarrow> kprint im ''Base:  %8p | Limit: %8p\<newline>'' [gdt_base (gdtp k1), ucast (gdt_limit (gdtp k1))] k1;
          k3 \<leftarrow> kprint im ''Size = %u bytes\<newline>'' [4 * GDT_SIZE] k2;
          k4 \<leftarrow> kprint im ''BASE LOW    BASE MID    BASE HIGH   LIMIT LOW   GRAN        ACC\<newline>'' [] k3;
          for_each (info_gdt_entry im) [0..<unat GDT_SIZE] k4 }"

definition blt_info :: "image \<Rightarrow> int \<Rightarrow> (nat \<Rightarrow> ptr) \<Rightarrow> kernel \<Rightarrow> (int \<times> kernel) option" where
  "blt_info im argc argv k =
     (if argc < 2 then do { k1 \<leftarrow> usage_info im k; Some (-1, k1) }
      else do {
        g \<leftarrow> strcmp (ram k) (argv 1) (lit im ''gdt'');
        if g = 0 then do { k1 \<leftarrow> info_gdt im k; Some (0, k1) } else do {
        s \<leftarrow> strcmp (ram k) (argv 1) (lit im ''stack'');
        if s = 0 then do { k1 \<leftarrow> info_stack im k; Some (0, k1) } else do {
        b \<leftarrow> strcmp (ram k) (argv 1) (lit im ''buddy'');
        if b = 0 then
          (if argc > 2 then do {
             (r, p) \<leftarrow> strtol (ram k) (argv 2) 0;
             if ram k p \<noteq> 0 \<or> sint r < 0 \<or> sint r \<ge> int KPM_NORDERS
             then do { k1 \<leftarrow> kprint im ''info: order number not formatted correctly\<newline>'' [] k; Some (-1, k1) }
             else do { k1 \<leftarrow> info_buddy im (sint r) k; Some (0, k1) } }
           else do { k1 \<leftarrow> info_buddy im (-1) k; Some (0, k1) })
        else do {
        i \<leftarrow> strcmp (ram k) (argv 1) (lit im ''idt'');
        if i = 0 then do { k1 \<leftarrow> info_idt im k; Some (0, k1) } else do {
        r \<leftarrow> strcmp (ram k) (argv 1) (lit im ''registers'');
        if r = 0 then do { k1 \<leftarrow> info_registers im k; Some (0, k1) }
        else do { k1 \<leftarrow> kprint im ''info: '%s' doesn't exist.\<newline>'' [argv 1] k; Some (-1, k1) } } } } } })"

section \<open>interrupt\<close>

definition usage_interrupt :: "image \<Rightarrow> kernel \<Rightarrow> kernel option" where
  "usage_interrupt im k = kprint im ''Usage: interrupt int\<newline>'' [] k"

definition blt_interrupt :: "image \<Rightarrow> int \<Rightarrow> (nat \<Rightarrow> ptr) \<Rightarrow> kernel \<Rightarrow> (int \<times> kernel) option" where
  "blt_interrupt im argc argv k =
     (if argc < 2 then do { k1 \<leftarrow> usage_interrupt im k; Some (-1, k1) }
      else do {
        (r, p) \<leftarrow> strtol (ram k) (argv 1) 0;
        if ram k p \<noteq> 0 then do { k1 \<leftarrow> kprint im ''interrupt: interrupt number not well formated.\<newline>'' [] k; Some (-1, k1) }
        else do {
          k1 \<leftarrow> (if r = 0 then raise_int im 0 k
                 else if r = 4 then raise_int im 4 k
                 else if r = 8 then raise_int im 8 k
                 else kprint im ''interrupt: interrupt number '%d' not implemented.\<newline>'' [r] k);
          Some (0, k1) } })"

section \<open>reboot and poweroff\<close>

definition PS2_INPUT_BUFFER_FULL :: u8 where "PS2_INPUT_BUFFER_FULL = 0x2"
definition CPU_RESET :: u8 where "CPU_RESET = 0xFE"

partial_function (option) reboot_wait :: "device \<Rightarrow> ports \<Rightarrow> ports option" where
  "reboot_wait d tr =
     (let (status, tr1) = port_read_u8 d PS2_STATUS_REGISTER_PORT tr
      in if status AND PS2_INPUT_BUFFER_FULL \<noteq> 0 then reboot_wait d tr1 else Some tr1)"

declare reboot_wait.simps [code]

text \<open>What the commands do before \<^verbatim>\<open>hlt\<close>; they return if an interrupt ends it.\<close>

definition reboot_request :: "image \<Rightarrow> kernel \<Rightarrow> kernel option" where
  "reboot_request im k =
     do { tr \<leftarrow> reboot_wait (dev im) (ports (hw k));
          Some (on_ports (\<lambda>_. port_write_u8 PS2_STATUS_COMMAND_PORT CPU_RESET tr) k) }"

definition blt_reboot :: "image \<Rightarrow> kernel \<Rightarrow> (int \<times> kernel) option" where
  "blt_reboot im k = do { k1 \<leftarrow> reboot_request im k; k2 \<leftarrow> hlt im k1; Some (0, k2) }"

definition poweroff_request :: "kernel \<Rightarrow> kernel" where
  "poweroff_request k = on_ports (port_write_u16 0x604 0x2000) k"

definition blt_poweroff :: "image \<Rightarrow> kernel \<Rightarrow> (int \<times> kernel) option" where
  "blt_poweroff im k = do { k2 \<leftarrow> hlt im (poweroff_request k); Some (0, k2) }"

section \<open>help\<close>

text \<open>The names and descriptions of the table \<^verbatim>\<open>builtin\<close> of \<^verbatim>\<open>nsh.c\<close>, without its final NULL entry.\<close>

definition builtin_help :: "(string \<times> string) list" where
  "builtin_help =
     [(''reboot'', ''Reboot the machine''), (''poweroff'', ''Power-off the machine''),
      (''exit'', ''Alias of 'poweroff'' @ [CHR 0x27]), (''keymap'', ''Switch keyboard layout''),
      (''color'', ''Change the screen buffer color''), (''alloc'', ''Allocate a memory area''),
      (''free'', ''Free a given memory area''), (''info'', ''Print some information about system''),
      (''clear'', ''Clear the screen buffer''), (''hexdump'', ''Dump a memory zone''),
      (''next'', ''Switch to next screen buffer''), (''prev'', ''Switch to prev screen buffer''),
      (''help'', ''Print help''), (''interrupt'', ''Raise an interrupt'')]"

definition blt_help :: "image \<Rightarrow> kernel \<Rightarrow> (int \<times> kernel) option" where
  "blt_help im k =
     do { k1 \<leftarrow> kprint im ''KFS - available commands:\<newline>'' [] k;
          k2 \<leftarrow> for_each (\<lambda>(name, description). kprint im ''-> %s: %s\<newline>'' [lit im name, lit im description]) builtin_help k1;
          Some (0, k2) }"

end
