(* ===== verification/Nsh.thy ===== *)
theory Nsh
  imports Builtins_System
begin

text \<open>
  The shell, \<^verbatim>\<open>src/kernel/nsh/nsh.c\<close>: the line buffer with its editing and completion, the splitting of a line into
  words, the dispatch to the built-in commands, and the event loop, which is a step function
  with the relation of the states it runs through.  The buffer is the 1024 bytes of memory at
  \<open>nsh_buf\<close>; the argument vector is an array of 513 pointers.
\<close>

unbundle bit_operations_syntax

section \<open>Definitions\<close>

definition NSH_BUFSIZE :: int where "NSH_BUFSIZE = 1024"

definition nsh_at :: "image \<Rightarrow> int \<Rightarrow> ptr" where
  "nsh_at im i = nsh_buf im + of_int i"

definition nsh_get :: "image \<Rightarrow> kernel \<Rightarrow> int \<Rightarrow> u8" where
  "nsh_get im k i = ram k (nsh_at im i)"

definition nsh_put :: "image \<Rightarrow> int \<Rightarrow> u8 \<Rightarrow> kernel \<Rightarrow> kernel" where
  "nsh_put im i c k = set_ram ((ram k)(nsh_at im i := c)) k"

definition nsh_prompt :: "image \<Rightarrow> kernel \<Rightarrow> kernel option" where
  "nsh_prompt im k =
     (if cur_ok k then
        do { let oldcolor = sb_get_color (cur k);
             k1 \<leftarrow> on_cur (sb_set_fg (color_val SB_COLOR_LIGHT_BLUE)) k;
             k2 \<leftarrow> kprint im ''nsh$ '' [] k1;
             on_cur (sb_set_color oldcolor) k2 }
      else None)"

text \<open>
  \<^verbatim>\<open>memset(nsh_cmd, 0, NSH_BUFSIZE / 2)\<close> clears 512 bytes, the first 128 pointers of the array.
\<close>

definition nsh_newline :: "image \<Rightarrow> kernel \<Rightarrow> kernel option" where
  "nsh_newline im k =
     (let k1 = set_ram (fst (memset (ram k) (nsh_buf im) 0 (of_int NSH_BUFSIZE))) k;
          k2 = k1\<lparr>nsh_cmd := (\<lambda>i. if int i < NSH_BUFSIZE div 2 div 4 then 0 else nsh_cmd k1 i)\<rparr>;
          k3 = k2\<lparr>nsh_bufindex := 0, nsh_cmdnarg := 0\<rparr>
      in nsh_prompt im k3)"

text \<open>
  The loop of \<^verbatim>\<open>nsh_createcmd\<close>.  On a zero byte inside the line neither branch advances \<^verbatim>\<open>ibuf\<close>.
  The array has 513 elements; the model is undefined beyond them.
\<close>

partial_function (option) nsh_split :: "image \<Rightarrow> int \<Rightarrow> nat \<Rightarrow> kernel \<Rightarrow> (nat \<times> kernel) option" where
  "nsh_split im ibuf icmd k =
     (if ibuf < nsh_bufindex k then
        (let c = nsh_get im k ibuf in
         if c \<noteq> 32 \<and> c \<noteq> 0 then
           (if int icmd < NSH_BUFSIZE div 2 + 1 then
              do { let k1 = k\<lparr>nsh_cmd := (nsh_cmd k)(icmd := nsh_at im ibuf)\<rparr>;
                   e \<leftarrow> scan (\<lambda>p. ram k1 p \<noteq> 32 \<and> ram k1 p \<noteq> 0) (nsh_at im ibuf);
                   nsh_split im (ibuf + uint (e - nsh_at im ibuf)) (Suc icmd) k1 }
            else None)
         else if c = 32 then
           do { let k1 = nsh_put im ibuf 0 k;
                e \<leftarrow> scan (\<lambda>p. ram k1 p = 32) (nsh_at im (ibuf + 1));
                nsh_split im (ibuf + 1 + uint (e - nsh_at im (ibuf + 1))) icmd k1 }
         else nsh_split im ibuf icmd k)
      else Some (icmd, k))"

definition nsh_createcmd :: "image \<Rightarrow> kernel \<Rightarrow> kernel option" where
  "nsh_createcmd im k = do { (icmd, k1) \<leftarrow> nsh_split im 0 0 k; Some (k1\<lparr>nsh_cmdnarg := int icmd\<rparr>) }"

text \<open>The commands of the table \<^verbatim>\<open>builtin\<close>.\<close>

definition code0 :: "kernel option \<Rightarrow> (int \<times> kernel) option" where
  "code0 r = map_option (Pair 0) r"

definition builtin_exec :: "image \<Rightarrow> string \<Rightarrow> int \<Rightarrow> (nat \<Rightarrow> ptr) \<Rightarrow> kernel \<Rightarrow> (int \<times> kernel) option" where
  "builtin_exec im name argc argv k =
     (if name = ''reboot'' then blt_reboot im k
      else if name = ''poweroff'' \<or> name = ''exit'' then blt_poweroff im k
      else if name = ''keymap'' then blt_keymap im argc argv k
      else if name = ''color'' then blt_color im argc argv k
      else if name = ''alloc'' then blt_alloc im argc argv k
      else if name = ''free'' then blt_free im argc argv k
      else if name = ''info'' then blt_info im argc argv k
      else if name = ''clear'' then code0 (blt_clear im k)
      else if name = ''hexdump'' then blt_hexdump im argc argv k
      else if name = ''next'' then code0 (blt_next im k)
      else if name = ''prev'' then code0 (blt_prev im k)
      else if name = ''help'' then blt_help im k
      else if name = ''interrupt'' then blt_interrupt im argc argv k
      else None)"

text \<open>
  The dispatch loop.  Its bound counts the final entry too, whose name is NULL: there the first word is compared with the
  bytes at address 0, and a match would call a null pointer, which has no model.
\<close>

fun nsh_exec_loop :: "image \<Rightarrow> string list \<Rightarrow> kernel \<Rightarrow> kernel option" where
  "nsh_exec_loop im [] k =
     do { r \<leftarrow> strcmp (ram k) (nsh_cmd k 0) 0;
          if r = 0 then None else kprint im ''nsh: %s: command not found\<newline>'' [nsh_cmd k 0] k }"
| "nsh_exec_loop im (s # ss) k =
     do { r \<leftarrow> strcmp (ram k) (nsh_cmd k 0) (lit im s);
          if r = 0 then map_option snd (builtin_exec im s (nsh_cmdnarg k) (nsh_cmd k) k)
          else nsh_exec_loop im ss k }"

definition nsh_execcmd :: "image \<Rightarrow> kernel \<Rightarrow> kernel option" where
  "nsh_execcmd im k = (if nsh_cmd k 0 = 0 then Some k else nsh_exec_loop im (map fst builtin_help) k)"

definition nsh_shortcut :: "image \<Rightarrow> kbd_event \<Rightarrow> kernel \<Rightarrow> kernel option" where
  "nsh_shortcut im evt k =
     (if key evt = KEY_CURSOR_UP then on_screen (sb_scroll (dev im) (-1)) k
      else if key evt = KEY_CURSOR_DOWN then on_screen (sb_scroll (dev im) 1) k
      else if key evt = KEY_PAGE_DOWN then on_screen (sb_scroll_down (dev im)) k
      else if key evt = KEY_PAGE_UP then on_screen (sb_scroll_top (dev im)) k
      else Some k)"

text \<open>The copy of the rest of a name behind the line, and the completion with one name.\<close>

partial_function (option) nsh_append :: "image \<Rightarrow> ptr \<Rightarrow> kernel \<Rightarrow> kernel option" where
  "nsh_append im q k =
     (if ram k q \<noteq> 0 \<and> nsh_bufindex k < NSH_BUFSIZE
      then nsh_append im (q + 1) ((nsh_put im (nsh_bufindex k) (ram k q) k)\<lparr>nsh_bufindex := nsh_bufindex k + 1\<rparr>)
      else Some k)"

definition nsh_complete :: "image \<Rightarrow> string \<Rightarrow> kernel \<Rightarrow> kernel option" where
  "nsh_complete im name k =
     do { (p, q) \<leftarrow> scan2 (\<lambda>p q. ram k p \<noteq> 0 \<and> ram k q \<noteq> 0 \<and> ram k p = ram k q) (nsh_buf im) (lit im name);
          if ram k p = 0 \<and> ram k q \<noteq> 0
          then do { k1 \<leftarrow> kprint im ''%s'' [q] k; nsh_append im q k1 }
          else Some k }"

definition nsh_addchar :: "image \<Rightarrow> u8 \<Rightarrow> kernel \<Rightarrow> kernel option" where
  "nsh_addchar im c k0 =
     do { k \<leftarrow> on_screen (sb_scroll_down (dev im)) k0;
          if c = 10 then
            do { k1 \<leftarrow> kprint im ''\<newline>'' [] k;
                 k3 \<leftarrow> (if nsh_bufindex k1 \<noteq> 0 then do { k2 \<leftarrow> nsh_createcmd im k1; nsh_execcmd im k2 } else Some k1);
                 nsh_newline im k3 }
          else if c = 8 then
            (if nsh_bufindex k > 0
             then kprint im [CHR 0x08] [] (nsh_put im (nsh_bufindex k - 1) 0 (k\<lparr>nsh_bufindex := nsh_bufindex k - 1\<rparr>))
             else Some k)
          else if c = 9 then
            (if nsh_bufindex k = 0 then Some k else for_each (nsh_complete im) (map fst builtin_help) k)
          else
            (if nsh_bufindex k < NSH_BUFSIZE - 1
             then kprint im ''%c'' [scast c] ((nsh_put im (nsh_bufindex k) c k)\<lparr>nsh_bufindex := nsh_bufindex k + 1\<rparr>)
             else Some k) }"

text \<open>One turn of the loop of \<^verbatim>\<open>nsh\<close>, and the states at its head.\<close>

definition nsh_step :: "image \<Rightarrow> kbd_event \<times> kernel \<Rightarrow> (kbd_event \<times> kernel) option" where
  "nsh_step im s =
     do { let (evt, k) = s;
          (evt1, st1, tr1) \<leftarrow> KBD_geteventbytype (dev im) KEY_PRESSED evt (kbd k) (ports (hw k));
          let k1 = on_ports (\<lambda>_. tr1) (k\<lparr>kbd := st1\<rparr>);
          let c = KBD_getchar evt1 (kbd k1);
          k2 \<leftarrow> (if c \<noteq> 0 then nsh_addchar im c k1 else nsh_shortcut im evt1 k1);
          Some (evt1, k2) }"

inductive nsh :: "image \<Rightarrow> kbd_event \<Rightarrow> kernel \<Rightarrow> kbd_event \<times> kernel \<Rightarrow> bool" for im evt k where
  nsh_start: "nsh_newline im k = Some k1 \<Longrightarrow> nsh im evt k (evt, k1)"
| nsh_turn: "nsh im evt k s \<Longrightarrow> nsh_step im s = Some s' \<Longrightarrow> nsh im evt k s'"

declare nsh_split.simps [code] nsh_append.simps [code] scan2.simps [code]

end
