(* ===== verification/Kpm_Tree.thy ===== *)
theory Kpm_Tree
  imports Kpm
begin

text \<open>
  The bitmap level of the physical memory manager: the alignment macros as arithmetic, the
  layout that keeps the eleven bitmaps and the enabled-frames bitmap apart, the effect of the
  bit macros on single bits, termination and effect of \<^verbatim>\<open>kpm_update_order\<close>, and the allocator
  invariant with the lemma that a pass over all orders rebuilds the tree.
\<close>

unbundle bit_operations_syntax

lemma unat_exp_u32 [word_nat]: "k < 32 \<Longrightarrow> unat (2 ^ k :: u32) = 2 ^ k"
  using unat_of_nat_small [of "2 ^ k", where 'a = 32] power_strict_increasing [of k 32 "2 :: nat"] by simp

section \<open>Alignment\<close>

lemma ALIGN_mask: "ALIGN x (2 ^ k) = x AND NOT (mask k)"
  by (simp add: ALIGN_def all_ones_xor mask_eq_exp_minus_1)

lemma unat_ALIGN: "unat (ALIGN x (2 ^ k)) = unat x div 2 ^ k * 2 ^ k"
  by (simp add: ALIGN_mask unat_and_not_mask)

lemma ISALIGNED_iff: "ISALIGNED x (2 ^ k) \<longleftrightarrow> 2 ^ k dvd unat x"
  by (simp add: ISALIGNED_def unat_and_mask mod_eq_0_iff_dvd unat_eq_0 [symmetric]
           flip: mask_eq_exp_minus_1)

lemma unat_ALIGNNEXT:
  assumes "k < 32" "unat x + 2 ^ k \<le> 4294967296"
  shows "unat (ALIGNNEXT x (2 ^ k)) = (unat x + (2 ^ k - 1)) div 2 ^ k * 2 ^ k"
proof -
  have "unat (2 ^ k - 1 :: u32) = 2 ^ k - 1"
    using assms by (simp add: unat_minus_one unat_exp_u32)
  then have "unat (x + (2 ^ k - 1)) = unat x + (2 ^ k - 1)"
    using assms by (simp add: unat_add_no_wrap)
  then show ?thesis
    by (simp add: ALIGNNEXT_def all_ones_xor unat_and_not_mask flip: mask_eq_exp_minus_1)
qed

lemma unat_ALIGNNEXTFORCE:
  assumes "k < 32" "unat x + 2 ^ k < 4294967296"
  shows "unat (ALIGNNEXTFORCE x (2 ^ k)) = (unat x div 2 ^ k + 1) * 2 ^ k"
proof -
  have "unat (x + 2 ^ k) = unat x + 2 ^ k"
    using assms by (simp add: unat_add_no_wrap unat_exp_u32)
  then show ?thesis
    by (simp add: ALIGNNEXTFORCE_def all_ones_xor unat_and_not_mask div_add_self2 flip: mask_eq_exp_minus_1)
qed

lemma PAGE_SIZE_exp: "PAGE_SIZE = 2 ^ 12"
  by (simp add: PAGE_SIZE_def)

lemma unat_PAGE_SIZE [simp]: "unat PAGE_SIZE = 4096"
  by (simp add: PAGE_SIZE_def)

lemma unat_div_PAGE_SIZE [simp]: "unat (x div PAGE_SIZE) = unat x div 4096"
  by (simp add: unat_div)

lemma unat_nbytes:
  assumes "unat n \<le> 1048576"
  shows "unat (KPM_NBYTES_FROM_NBITS n) = (unat n + 7) div 8"
  using assms unat_ALIGNNEXT [of 3 n] by (simp add: KPM_NBYTES_FROM_NBITS_def unat_div)


section \<open>Layout and single bits\<close>

abbreviation nf :: "kpm \<Rightarrow> nat" where "nf s \<equiv> unat (nframes (buddy s))"

definition nbytes :: "nat \<Rightarrow> nat" where "nbytes n = (n + 7) div 8"

abbreviation bm :: "kpm \<Rightarrow> nat \<Rightarrow> ptr" where "bm s n \<equiv> bitmap (orders (buddy s) ! n)"

definition kbit :: "kpm \<Rightarrow> nat \<Rightarrow> nat \<Rightarrow> bool" where
  "kbit s n i \<longleftrightarrow> bit (kmem s (bm s n + of_nat (i div 8))) (i mod 8)"

definition ebit :: "kpm \<Rightarrow> nat \<Rightarrow> bool" where
  "ebit s i \<longleftrightarrow> bit (kmem s (enabled_frames (buddy s) + of_nat (i div 8))) (i mod 8)"

definition kpm_layout :: "buddy_t \<Rightarrow> bool" where
  "kpm_layout b \<longleftrightarrow>
     length (orders b) = KPM_NORDERS
     \<and> 1024 dvd unat (nframes b) \<and> unat (nframes b) \<le> 1047552
     \<and> (\<forall>n < KPM_NORDERS. unat (order_size (orders b ! n)) = nbytes (unat (nframes b) div 2 ^ n))
     \<and> (\<forall>n < KPM_NORDERS. \<forall>k < KPM_NORDERS. n \<noteq> k \<longrightarrow>
          blk (bitmap (orders b ! n)) (nbytes (unat (nframes b) div 2 ^ n)) \<inter>
          blk (bitmap (orders b ! k)) (nbytes (unat (nframes b) div 2 ^ k)) = {})
     \<and> (\<forall>n < KPM_NORDERS.
          blk (enabled_frames b) (nbytes (unat (nframes b))) \<inter>
          blk (bitmap (orders b ! n)) (nbytes (unat (nframes b) div 2 ^ n)) = {})"

text \<open>A bit position that the bitmap of order \<open>n\<close> really has, padding of its last byte included.\<close>

definition slot :: "kpm \<Rightarrow> nat \<Rightarrow> nat \<Rightarrow> bool" where
  "slot s n i \<longleftrightarrow> n < KPM_NORDERS \<and> i div 8 < nbytes (nf s div 2 ^ n)"

lemma layout_nf: "kpm_layout (buddy s) \<Longrightarrow> nf s \<le> 1047552"
  by (simp add: kpm_layout_def)

lemma nbytes_le: "n \<le> 1047552 \<Longrightarrow> nbytes n \<le> 131072"
  by (simp add: nbytes_def)

lemma nbytes_order_le: "kpm_layout (buddy s) \<Longrightarrow> nbytes (nf s div 2 ^ n) \<le> 131072"
  by (rule nbytes_le) (meson layout_nf div_le_dividend le_trans)

lemma slot_addr: "slot s n i \<Longrightarrow> kpm_layout (buddy s) \<Longrightarrow>
    bm s n + of_nat (i div 8) \<in> blk (bm s n) (nbytes (nf s div 2 ^ n))"
  by (rule blk_add_of_nat) (use nbytes_order_le [of s n] in \<open>auto simp: slot_def\<close>)

lemma slot_less: "slot s n i \<Longrightarrow> kpm_layout (buddy s) \<Longrightarrow> i < 4294967296"
  using nbytes_order_le [of s n] by (auto simp: slot_def)

lemma eslot_addr: "i < nf s \<Longrightarrow> kpm_layout (buddy s) \<Longrightarrow>
    enabled_frames (buddy s) + of_nat (i div 8) \<in> blk (enabled_frames (buddy s)) (nbytes (nf s))"
  by (rule blk_add_of_nat) (use nbytes_order_le [of s 0] in \<open>auto simp: nbytes_def\<close>)

lemma slot_addr_eq_iff:
  assumes "kpm_layout (buddy s)" "slot s n i" "slot s k j"
  shows "bm s n + of_nat (i div 8) = bm s k + of_nat (j div 8) \<longleftrightarrow> n = k \<and> i div 8 = j div 8"
proof (cases "n = k")
  case True
  have "i div 8 < 4294967296" "j div 8 < 4294967296"
    using assms by (auto dest: slot_less)
  with True show ?thesis by (simp add: of_nat_word_inj)
next
  case False
  then have "blk (bm s n) (nbytes (nf s div 2 ^ n)) \<inter> blk (bm s k) (nbytes (nf s div 2 ^ k)) = {}"
    using assms by (simp add: kpm_layout_def slot_def)
  with False assms slot_addr [of s n i] slot_addr [of s k j] show ?thesis by auto
qed

lemma eslot_addr_neq:
  assumes "kpm_layout (buddy s)" "i < nf s" "slot s k j"
  shows "enabled_frames (buddy s) + of_nat (i div 8) \<noteq> bm s k + of_nat (j div 8)"
proof -
  have "blk (enabled_frames (buddy s)) (nbytes (nf s)) \<inter> blk (bm s k) (nbytes (nf s div 2 ^ k)) = {}"
    using assms by (simp add: kpm_layout_def slot_def)
  with assms slot_addr [of s k j] eslot_addr [of i s] show ?thesis by auto
qed

lemma of_nat_div_mod_8:
  assumes "i < 4294967296"
  shows "(of_nat i :: u32) div 8 = of_nat (i div 8)" "unat ((of_nat i :: u32) mod 8) = i mod 8"
  using assms by (simp_all add: word_unat_eq_iff unat_div unat_mod unat_of_nat_small)

lemma buddy_KPM [simp]:
  "buddy (KPM_ALLOC n i s) = buddy s" "buddy (KPM_FREE n i s) = buddy s"
  "buddy (KPM_ENABLE i s) = buddy s" "buddy (KPM_DISABLE i s) = buddy s"
  "buddy_addr (KPM_ALLOC n i s) = buddy_addr s" "buddy_addr (KPM_FREE n i s) = buddy_addr s"
  "buddy_addr (KPM_ENABLE i s) = buddy_addr s" "buddy_addr (KPM_DISABLE i s) = buddy_addr s"
  by (simp_all add: KPM_ALLOC_def KPM_FREE_def KPM_ENABLE_def KPM_DISABLE_def Let_def)

lemma div_mod_8_eq: "i div 8 = j div 8 \<Longrightarrow> i mod 8 = j mod 8 \<longleftrightarrow> i = (j :: nat)"
  by (metis div_mult_mod_eq)

lemma kbit_KPM_ALLOC:
  assumes "kpm_layout (buddy s)" "slot s n i" "slot s k j"
  shows "kbit (KPM_ALLOC n (of_nat i) s) k j \<longleftrightarrow> (k = n \<and> j = i) \<or> kbit s k j"
  using slot_addr_eq_iff [OF assms(1,3,2)] slot_less [OF assms(2,1)]
  by (auto simp: kbit_def KPM_ALLOC_def Let_def of_nat_div_mod_8 bit_u8 div_mod_8_eq)

lemma kbit_KPM_FREE:
  assumes "kpm_layout (buddy s)" "slot s n i" "slot s k j"
  shows "kbit (KPM_FREE n (of_nat i) s) k j \<longleftrightarrow> \<not> (k = n \<and> j = i) \<and> kbit s k j"
  using slot_addr_eq_iff [OF assms(1,3,2)] slot_less [OF assms(2,1)]
  by (auto simp: kbit_def KPM_FREE_def Let_def of_nat_div_mod_8 bit_u8 div_mod_8_eq)

lemma KPM_IS_ALLOCATED_kbit:
  assumes "i < 4294967296"
  shows "KPM_IS_ALLOCATED n (of_nat i) s \<longleftrightarrow> kbit s n i"
  using assms by (simp add: KPM_IS_ALLOCATED_def KPM_GET_def kbit_def of_nat_div_mod_8 bit_u8)

lemma KPM_IS_ENABLED_ebit:
  assumes "i < 4294967296"
  shows "KPM_IS_ENABLED (of_nat i) s \<longleftrightarrow> ebit s i"
  using assms by (simp add: KPM_IS_ENABLED_def ebit_def of_nat_div_mod_8 bit_u8)

lemma ebit_KPM_ALLOC:
  assumes "kpm_layout (buddy s)" "slot s n i" "j < nf s"
  shows "ebit (KPM_ALLOC n (of_nat i) s) j \<longleftrightarrow> ebit s j"
  using eslot_addr_neq [OF assms(1,3,2)] slot_less [OF assms(2,1)]
  by (auto simp: ebit_def KPM_ALLOC_def Let_def of_nat_div_mod_8)

lemma ebit_KPM_FREE:
  assumes "kpm_layout (buddy s)" "slot s n i" "j < nf s"
  shows "ebit (KPM_FREE n (of_nat i) s) j \<longleftrightarrow> ebit s j"
  using eslot_addr_neq [OF assms(1,3,2)] slot_less [OF assms(2,1)]
  by (auto simp: ebit_def KPM_FREE_def Let_def of_nat_div_mod_8)

lemma nf_less: "kpm_layout (buddy s) \<Longrightarrow> i < nf s \<Longrightarrow> i < 4294967296"
  using layout_nf [of s] by simp

lemma kbit_KPM_ENABLE:
  assumes "kpm_layout (buddy s)" "i < nf s" "slot s k j"
  shows "kbit (KPM_ENABLE (of_nat i) s) k j \<longleftrightarrow> kbit s k j"
    and "kbit (KPM_DISABLE (of_nat i) s) k j \<longleftrightarrow> kbit s k j"
  using eslot_addr_neq [OF assms] nf_less [OF assms(1,2)]
  by (auto simp: kbit_def KPM_ENABLE_def KPM_DISABLE_def Let_def of_nat_div_mod_8)

lemma eslot_addr_eq_iff:
  assumes "kpm_layout (buddy s)" "i < nf s" "j < nf s"
  shows "enabled_frames (buddy s) + of_nat (i div 8) = enabled_frames (buddy s) + of_nat (j div 8)
           \<longleftrightarrow> i div 8 = j div 8"
  using nf_less [OF assms(1,2)] nf_less [OF assms(1,3)] by (simp add: of_nat_word_inj)

lemma ebit_KPM_ENABLE:
  assumes "kpm_layout (buddy s)" "i < nf s" "j < nf s"
  shows "ebit (KPM_ENABLE (of_nat i) s) j \<longleftrightarrow> j = i \<or> ebit s j"
    and "ebit (KPM_DISABLE (of_nat i) s) j \<longleftrightarrow> j \<noteq> i \<and> ebit s j"
  using eslot_addr_eq_iff [OF assms(1,3,2)] nf_less [OF assms(1,2)]
  by (auto simp: ebit_def KPM_ENABLE_def KPM_DISABLE_def Let_def of_nat_div_mod_8 bit_u8 div_mod_8_eq)

section \<open>kpm_update_order\<close>

text \<open>The size in bytes of a block of order \<open>n\<close>.\<close>

abbreviation bsize :: "nat \<Rightarrow> nat" where "bsize n \<equiv> 2 ^ (n + 12)"

lemma block_size_exp: "PAGE_SIZE * 2 ^ n = 2 ^ (n + 12)"
  by (simp add: PAGE_SIZE_exp power_add)

lemma update_index:
  "drop_bit n base div PAGE_SIZE = of_nat (unat base div bsize n)"
proof -
  have "unat base div bsize n < 4294967296"
    using unat_u32_less [of base] by (meson div_le_dividend le_less_trans)
  then show ?thesis
    by (simp add: word_unat_eq_iff unat_drop_bit unat_of_nat_small power_add div_mult2_eq)
qed

lemma slot_valid: "n < KPM_NORDERS \<Longrightarrow> i < nf s div 2 ^ n \<Longrightarrow> slot s n i"
  by (auto simp: slot_def nbytes_def)

lemma valid_child:
  assumes "kpm_layout (buddy s)" "0 < n" "n < KPM_NORDERS" "i < nf s div 2 ^ n"
  shows "2 * i + 1 < nf s div 2 ^ (n - 1)"
proof -
  obtain k where k: "n = Suc k" using assms(2) by (cases n) auto
  have "i < nf s div 2 ^ k div 2" using assms(4) by (simp add: k power_Suc2 div_mult2_eq del: power_Suc)
  then show ?thesis by (simp add: k)
qed

text \<open>One block: its bit becomes the disjunction of its two children's bits, nothing else moves.\<close>

lemma kbit_update_block:
  assumes lay: "kpm_layout (buddy s)" and n: "0 < n" "n < KPM_NORDERS"
    and i: "unat base div bsize n = i" "i < nf s div 2 ^ n" and sl: "slot s k j"
  shows "kbit (kpm_update_block n base s) k j \<longleftrightarrow>
           (if k = n \<and> j = i then kbit s (n - 1) (2 * i) \<or> kbit s (n - 1) (2 * i + 1) else kbit s k j)"
proof -
  have ch: "2 * i + 1 < nf s div 2 ^ (n - 1)" by (rule valid_child [OF lay n i(2)])
  have lt: "2 * i + 1 < 4294967296"
    using ch layout_nf [OF lay] div_le_dividend [of "nf s" "2 ^ (n - 1)"] by linarith
  have sln: "slot s n i" using n i by (simp add: slot_valid)
  have "KPM_IS_ALLOCATED (n - 1) (of_nat (2 * i)) s \<longleftrightarrow> kbit s (n - 1) (2 * i)"
       "KPM_IS_ALLOCATED (n - 1) (of_nat (2 * i + 1)) s \<longleftrightarrow> kbit s (n - 1) (2 * i + 1)"
    using lt by (intro KPM_IS_ALLOCATED_kbit; simp)+
  then have eq: "kpm_update_block n base s =
      (if kbit s (n - 1) (2 * i) \<or> kbit s (n - 1) (2 * i + 1)
       then KPM_ALLOC n (of_nat i) s else KPM_FREE n (of_nat i) s)"
    by (simp add: kpm_update_block_def Let_def update_index i(1) ac_simps)
  show ?thesis
    using kbit_KPM_ALLOC [OF lay sln sl] kbit_KPM_FREE [OF lay sln sl] by (auto simp: eq)
qed

lemma ebit_update_block:
  assumes "kpm_layout (buddy s)" "n < KPM_NORDERS" "unat base div bsize n < nf s div 2 ^ n" "j < nf s"
  shows "ebit (kpm_update_block n base s) j \<longleftrightarrow> ebit s j"
  using assms slot_valid
  by (simp add: kpm_update_block_def Let_def update_index ebit_KPM_ALLOC ebit_KPM_FREE)

lemma buddy_update_block [simp]:
  "buddy (kpm_update_block n base s) = buddy s" "buddy_addr (kpm_update_block n base s) = buddy_addr s"
  by (simp_all add: kpm_update_block_def Let_def)

text \<open>
  The bytes of the bitmaps.  A step from \<open>s\<close> to \<open>s'\<close> is \<open>tables_only\<close> when it changed no byte outside them.
\<close>

definition kpm_tables :: "buddy_t \<Rightarrow> ptr set" where
  "kpm_tables b = blk (enabled_frames b) (nbytes (unat (nframes b)))
     \<union> (\<Union>n < KPM_NORDERS. blk (bitmap (orders b ! n)) (nbytes (unat (nframes b) div 2 ^ n)))"

definition tables_only :: "kpm \<Rightarrow> kpm \<Rightarrow> bool" where
  "tables_only s s' \<longleftrightarrow> (\<forall>a. a \<notin> kpm_tables (buddy s) \<longrightarrow> kmem s' a = kmem s a)"

lemma tables_only_refl [simp]: "tables_only s s"
  by (simp add: tables_only_def)

lemma tables_only_trans: "tables_only s s1 \<Longrightarrow> buddy s1 = buddy s \<Longrightarrow> tables_only s1 s2 \<Longrightarrow> tables_only s s2"
  by (simp add: tables_only_def)

lemma tables_only_bit:
  assumes "kpm_layout (buddy s)" "slot s n i"
  shows "tables_only s (KPM_ALLOC n (of_nat i) s)" "tables_only s (KPM_FREE n (of_nat i) s)"
proof -
  have "bm s n + of_nat (i div 8) \<in> kpm_tables (buddy s)"
    using slot_addr [OF assms(2,1)] assms(2) by (auto simp: kpm_tables_def slot_def)
  then show "tables_only s (KPM_ALLOC n (of_nat i) s)" "tables_only s (KPM_FREE n (of_nat i) s)"
    using slot_less [OF assms(2,1)]
    by (auto simp: tables_only_def KPM_ALLOC_def KPM_FREE_def Let_def of_nat_div_mod_8)
qed

lemma tables_only_ebit:
  assumes "kpm_layout (buddy s)" "i < nf s"
  shows "tables_only s (KPM_ENABLE (of_nat i) s)" "tables_only s (KPM_DISABLE (of_nat i) s)"
proof -
  have "enabled_frames (buddy s) + of_nat (i div 8) \<in> kpm_tables (buddy s)"
    using eslot_addr [OF assms(2,1)] by (auto simp: kpm_tables_def)
  then show "tables_only s (KPM_ENABLE (of_nat i) s)" "tables_only s (KPM_DISABLE (of_nat i) s)"
    using nf_less [OF assms] by (auto simp: tables_only_def KPM_ENABLE_def KPM_DISABLE_def Let_def of_nat_div_mod_8)
qed

lemma tables_only_update_block:
  assumes "kpm_layout (buddy s)" "n < KPM_NORDERS" "unat base div bsize n < nf s div 2 ^ n"
  shows "tables_only s (kpm_update_block n base s)"
  using tables_only_bit [OF assms(1) slot_valid [OF assms(2,3)]]
  by (simp add: kpm_update_block_def Let_def update_index)

text \<open>
  What a run of \<^verbatim>\<open>kpm_update_order\<close> over the bytes from \<open>b\<close> up to \<open>e\<close> leaves: the blocks of order \<open>n\<close>
  that meet the range are recomputed from their children.
\<close>

definition touches :: "nat \<Rightarrow> nat \<Rightarrow> nat \<Rightarrow> nat \<Rightarrow> bool" where
  "touches n b e j \<longleftrightarrow> b < e \<and> b div bsize n \<le> j \<and> j * bsize n < e"

definition order_updated :: "nat \<Rightarrow> nat \<Rightarrow> nat \<Rightarrow> kpm \<Rightarrow> kpm \<Rightarrow> bool" where
  "order_updated n b e s s' \<longleftrightarrow>
     buddy s' = buddy s \<and> buddy_addr s' = buddy_addr s \<and> (\<forall>j < nf s. ebit s' j = ebit s j)
     \<and> (\<forall>k j. slot s k j \<longrightarrow> kbit s' k j =
          (if k = n \<and> touches n b e j then kbit s (n - 1) (2 * j) \<or> kbit s (n - 1) (2 * j + 1)
           else kbit s k j))"

lemma order_updated_refl: "e \<le> b \<Longrightarrow> order_updated n b e s s"
  by (simp add: order_updated_def touches_def)

lemma touches_step:
  assumes "b < e"
  shows "touches n b e j \<longleftrightarrow> j = b div bsize n \<or> touches n ((b div bsize n + 1) * bsize n) e j"
proof -
  have "b div bsize n * bsize n < e"
    using assms div_times_less_eq_dividend [of b "bsize n"] by linarith
  moreover have "(b div bsize n + 1) * bsize n < e" if "b div bsize n < j" "j * bsize n < e"
  proof -
    have "(b div bsize n + 1) * bsize n \<le> j * bsize n" using that(1) by (intro mult_le_mono1) simp
    then show ?thesis using that(2) by linarith
  qed
  ultimately show ?thesis
    using assms by (auto simp: touches_def Suc_le_eq)
qed

lemma block_index_valid:
  assumes "kpm_layout (buddy s)" "n < KPM_NORDERS" "b < e" "e \<le> nf s * 4096"
  shows "b div bsize n < nf s div 2 ^ n"
proof -
  have "2 ^ n dvd nf s"
  proof (rule dvd_trans)
    show "(2::nat) ^ n dvd 2 ^ 10" using assms(2) by (intro le_imp_power_dvd) (simp add: KPM_NORDERS_def)
    show "2 ^ 10 dvd nf s" using assms(1) by (simp add: kpm_layout_def)
  qed
  then obtain q where q: "nf s = q * 2 ^ n" by (metis dvd_def mult.commute)
  have "b < q * bsize n" using assms q by (simp add: power_add)
  then show ?thesis by (simp add: q less_mult_imp_div_less)
qed

lemma next_block:
  assumes "kpm_layout (buddy s)" "n < KPM_NORDERS" "unat base < nf s * 4096"
  shows "unat (ALIGNNEXTFORCE base (2 ^ (n + 12))) = (unat base div bsize n + 1) * bsize n"
proof (rule unat_ALIGNNEXTFORCE)
  show "n + 12 < 32" using assms(2) by (simp add: KPM_NORDERS_def)
  have "(2::nat) ^ (n + 12) \<le> 2 ^ 22"
    using assms(2) by (intro power_increasing) (simp_all add: KPM_NORDERS_def)
  then show "unat base + 2 ^ (n + 12) < 4294967296"
    using assms(3) layout_nf [OF assms(1)] by simp
qed

lemma touches_valid:
  assumes "kpm_layout (buddy s)" "n < KPM_NORDERS" "e \<le> nf s * 4096" "touches n b e j"
  shows "j < nf s div 2 ^ n"
  using block_index_valid [OF assms(1,2) _ assms(3), of "j * bsize n"] assms(4)
  by (simp add: touches_def)

lemma order_updated_step:
  assumes lay: "kpm_layout (buddy s)" and n: "0 < n" "n < KPM_NORDERS"
    and b: "unat base < e" "e \<le> nf s * 4096"
    and u: "order_updated n ((unat base div bsize n + 1) * bsize n) e (kpm_update_block n base s) s'"
    and sl: "slot s k j"
  shows "kbit s' k j = (if k = n \<and> touches n (unat base) e j
           then kbit s (n - 1) (2 * j) \<or> kbit s (n - 1) (2 * j + 1) else kbit s k j)"
proof -
  let ?i = "unat base div bsize n" and ?s1 = "kpm_update_block n base s"
  let ?t = "touches n ((?i + 1) * bsize n) e j"
  have iv: "?i < nf s div 2 ^ n" by (rule block_index_valid [OF lay n(2) b])
  have nt: "\<not> touches n ((?i + 1) * bsize n) e ?i" by (simp add: touches_def)
  have s1: "kbit ?s1 k' j' \<longleftrightarrow>
      (if k' = n \<and> j' = ?i then kbit s (n - 1) (2 * ?i) \<or> kbit s (n - 1) (2 * ?i + 1) else kbit s k' j')"
    if "slot s k' j'" for k' j'
    using kbit_update_block [OF lay n refl iv that] .
  have ch: "kbit ?s1 (n - 1) (2 * j) = kbit s (n - 1) (2 * j) \<and>
            kbit ?s1 (n - 1) (2 * j + 1) = kbit s (n - 1) (2 * j + 1)" if "?t"
  proof -
    have "2 * j + 1 < nf s div 2 ^ (n - 1)"
      using touches_valid [OF lay n(2) b(2) that] by (rule valid_child [OF lay n])
    then have "slot s (n - 1) (2 * j)" "slot s (n - 1) (2 * j + 1)"
      using n by (simp_all add: slot_valid)
    moreover have "n - 1 \<noteq> n" using n by simp
    ultimately show ?thesis using s1 by presburger
  qed
  have s': "kbit s' k j = (if k = n \<and> ?t then kbit ?s1 (n - 1) (2 * j) \<or> kbit ?s1 (n - 1) (2 * j + 1)
                       else kbit ?s1 k j)"
  proof -
    have "slot ?s1 k j" using sl by (simp add: slot_def)
    then show ?thesis using u unfolding order_updated_def by blast
  qed
  have ts: "touches n (unat base) e j \<longleftrightarrow> j = ?i \<or> ?t" by (rule touches_step [OF b(1)])
  show ?thesis
  proof (cases "k = n \<and> j = ?i")
    case True
    then have "kbit s' k j = kbit ?s1 n ?i" using s' nt by simp
    then show ?thesis using True ts s1 [OF sl] by simp
  next
    case False
    then have "kbit ?s1 k j = kbit s k j" using s1 [OF sl] by argo
    then show ?thesis using False ts s' ch by argo
  qed
qed

lemma update_order_loop_terminates:
  assumes "kpm_layout (buddy s)" "0 < n" "n < KPM_NORDERS" "unat e \<le> nf s * 4096"
  shows "\<exists>s'. kpm_update_order_loop n (2 ^ (n + 12)) e base s = Some s'
            \<and> order_updated n (unat base) (unat e) s s'"
  using assms
proof (induction "unat e - unat base" arbitrary: base s rule: less_induct)
  case less
  show ?case
  proof (cases "base < e")
    case False
    then show ?thesis
      by (subst kpm_update_order_loop.simps) (simp add: order_updated_refl word_less_nat_alt not_less)
  next
    case True
    let ?B = "bsize n" and ?s1 = "kpm_update_block n base s"
    let ?b1 = "ALIGNNEXTFORCE base (2 ^ (n + 12))"
    have lt: "unat base < unat e" using True by (simp add: word_less_nat_alt)
    have nb: "unat ?b1 = (unat base div ?B + 1) * ?B"
      using less.prems lt by (intro next_block) auto
    have iv: "unat base div ?B < nf s div 2 ^ n"
      using less.prems lt by (intro block_index_valid) auto
    have "unat base < unat ?b1"
      unfolding nb using dividend_less_div_times [of ?B "unat base"] by (simp add: algebra_simps)
    then have "unat e - unat ?b1 < unat e - unat base" using lt by (rule diff_less_mono2)
    then obtain s' where s': "kpm_update_order_loop n (2 ^ (n + 12)) e ?b1 ?s1 = Some s'"
        and u: "order_updated n (unat ?b1) (unat e) ?s1 s'"
      using less.hyps [of ?b1 ?s1] less.prems lt by auto
    have "order_updated n (unat base) (unat e) s s'"
      unfolding order_updated_def
    proof (intro conjI allI impI)
      show "buddy s' = buddy s" "buddy_addr s' = buddy_addr s"
        using u by (simp_all add: order_updated_def)
    next
      fix j assume "j < nf s"
      then show "ebit s' j = ebit s j"
        using u less.prems iv by (simp add: order_updated_def ebit_update_block)
    next
      fix k j assume sl: "slot s k j"
      show "kbit s' k j = (if k = n \<and> touches n (unat base) (unat e) j
              then kbit s (n - 1) (2 * j) \<or> kbit s (n - 1) (2 * j + 1) else kbit s k j)"
        using order_updated_step [OF less.prems(1-3) lt less.prems(4) u [unfolded nb] sl] by simp
    qed
    with s' True show ?thesis
      by (subst kpm_update_order_loop.simps) simp
  qed
qed

lemma kpm_update_order_returns:
  assumes "kpm_layout (buddy s)" "0 < n" "n < KPM_NORDERS" "unat base + unat limit \<le> nf s * 4096"
  shows "\<exists>s'. kpm_update_order n base limit s = Some s'
            \<and> order_updated n (unat base) (unat base + unat limit) s s'"
proof -
  have "unat (base + limit) = unat base + unat limit"
    using assms(4) layout_nf [OF assms(1)] by (intro unat_add_no_wrap) simp
  then show ?thesis
    using update_order_loop_terminates [OF assms(1-3), of "base + limit" base] assms(4)
    by (simp add: kpm_update_order_def block_size_exp)
qed

section \<open>All orders: the tree is rebuilt over the touched range\<close>

definition orders_updated :: "nat \<Rightarrow> nat \<Rightarrow> nat \<Rightarrow> kpm \<Rightarrow> kpm \<Rightarrow> bool" where
  "orders_updated m b e s s' \<longleftrightarrow>
     buddy s' = buddy s \<and> buddy_addr s' = buddy_addr s \<and> (\<forall>j < nf s. ebit s' j = ebit s j)
     \<and> (\<forall>k j. slot s k j \<longrightarrow> kbit s' k j =
          (if 0 < k \<and> k < m \<and> touches k b e j then kbit s' (k - 1) (2 * j) \<or> kbit s' (k - 1) (2 * j + 1)
           else kbit s k j))"

lemma orders_updatedD:
  "orders_updated m b e s s' \<Longrightarrow> slot s k j \<Longrightarrow>
     kbit s' k j = (if 0 < k \<and> k < m \<and> touches k b e j
                    then kbit s' (k - 1) (2 * j) \<or> kbit s' (k - 1) (2 * j + 1) else kbit s k j)"
  unfolding orders_updated_def by blast

lemma kpm_update_orders_append:
  "kpm_update_orders (xs @ ys) base limit s =
     do { s' \<leftarrow> kpm_update_orders xs base limit s; kpm_update_orders ys base limit s' }"
  by (induction xs arbitrary: s) (auto split: bind_splits)

lemma children_slots:
  assumes "kpm_layout (buddy s)" "0 < k" "k < KPM_NORDERS" "e \<le> nf s * 4096" "touches k b e j"
  shows "slot s (k - 1) (2 * j)" "slot s (k - 1) (2 * j + 1)"
  using valid_child [OF assms(1-3) touches_valid [OF assms(1,3,4,5)]] assms(3)
  by (simp_all add: slot_valid)

lemma orders_updated_Suc:
  assumes lay: "kpm_layout (buddy s)" and n: "0 < n" "n < KPM_NORDERS" and e: "e \<le> nf s * 4096"
    and u1: "orders_updated n b e s s1" and u2: "order_updated n b e s1 s2"
  shows "orders_updated (Suc n) b e s s2"
  unfolding orders_updated_def
proof (intro conjI allI impI)
  have bud: "buddy s1 = buddy s" using u1 by (simp add: orders_updated_def)
  have sl1: "slot s1 k j = slot s k j" for k j by (simp add: slot_def bud)
  show "buddy s2 = buddy s" "buddy_addr s2 = buddy_addr s"
    using u1 u2 by (simp_all add: orders_updated_def order_updated_def)
  show "ebit s2 j = ebit s j" if "j < nf s" for j
    using u1 u2 that bud by (simp add: orders_updated_def order_updated_def)
  fix k j assume sl: "slot s k j"
  have k2: "kbit s2 k' j' = (if k' = n \<and> touches n b e j' then kbit s1 (n - 1) (2 * j') \<or> kbit s1 (n - 1) (2 * j' + 1)
      else kbit s1 k' j')" if "slot s k' j'" for k' j'
    using u2 that unfolding order_updated_def sl1 by blast
  have k1: "kbit s1 k j = (if 0 < k \<and> k < n \<and> touches k b e j then kbit s1 (k - 1) (2 * j) \<or> kbit s1 (k - 1) (2 * j + 1)
      else kbit s k j)"
    by (rule orders_updatedD [OF u1 sl])
  have kn: "k < KPM_NORDERS" using sl by (simp add: slot_def)
  have ch: "kbit s2 (k - 1) (2 * j) = kbit s1 (k - 1) (2 * j)"
           "kbit s2 (k - 1) (2 * j + 1) = kbit s1 (k - 1) (2 * j + 1)"
    if "0 < k" "k \<le> n" "touches k b e j"
  proof -
    have ne: "k - 1 \<noteq> n" using that by simp
    show "kbit s2 (k - 1) (2 * j) = kbit s1 (k - 1) (2 * j)"
         "kbit s2 (k - 1) (2 * j + 1) = kbit s1 (k - 1) (2 * j + 1)"
      using k2 [OF children_slots(1) [OF lay that(1) kn e that(3)]]
            k2 [OF children_slots(2) [OF lay that(1) kn e that(3)]] ne by argo+
  qed
  consider "k = n" | "k < n" | "n < k" by linarith
  then show "kbit s2 k j = (if 0 < k \<and> k < Suc n \<and> touches k b e j
      then kbit s2 (k - 1) (2 * j) \<or> kbit s2 (k - 1) (2 * j + 1) else kbit s k j)"
  proof cases
    case 1
    then show ?thesis using k1 k2 [OF sl] ch n by (cases "touches k b e j") simp_all
  next
    case 2
    then have "kbit s2 k j = kbit s1 k j" using k2 [OF sl] by simp
    then show ?thesis using 2 k1 ch by (cases "0 < k \<and> touches k b e j") auto
  next
    case 3
    then show ?thesis using k1 k2 [OF sl] by simp
  qed
qed

lemma kpm_update_orders_upt:
  assumes "kpm_layout (buddy s)" "unat base + unat limit \<le> nf s * 4096" "0 < m" "m \<le> KPM_NORDERS"
  shows "\<exists>s'. kpm_update_orders [1..<m] base limit s = Some s'
            \<and> orders_updated m (unat base) (unat base + unat limit) s s'"
  using assms(3,4)
proof (induction m)
  case (Suc m)
  show ?case
  proof (cases "m = 0")
    case True
    then show ?thesis by (simp add: orders_updated_def)
  next
    case False
    then obtain s1 where s1: "kpm_update_orders [1..<m] base limit s = Some s1"
        and u1: "orders_updated m (unat base) (unat base + unat limit) s s1"
      using Suc by auto
    have bud: "buddy s1 = buddy s" using u1 by (simp add: orders_updated_def)
    obtain s2 where s2: "kpm_update_order m base limit s1 = Some s2"
        and u2: "order_updated m (unat base) (unat base + unat limit) s1 s2"
      using kpm_update_order_returns [of s1 m base limit] False Suc.prems assms(1,2) by (auto simp: bud)
    have "orders_updated (Suc m) (unat base) (unat base + unat limit) s s2"
      by (rule orders_updated_Suc [OF assms(1) _ _ assms(2) u1 u2]) (use False Suc.prems in auto)
    moreover have "kpm_update_orders ([1..<m] @ [m]) base limit s = Some s2"
      unfolding kpm_update_orders_append s1 by (simp add: s2)
    moreover have "[1..<Suc m] = [1..<m] @ [m]" using False by simp
    ultimately show ?thesis by metis
  qed
qed simp

section \<open>The allocator invariant\<close>

text \<open>
  A block is marked exactly when one of its two halves is.  Bits past the last block of an
  order (padding of its last byte) stay marked, so the bitmap search never returns them.  A
  frame that is not enabled is always marked allocated.
\<close>

definition tree_inv :: "kpm \<Rightarrow> bool" where
  "tree_inv s \<longleftrightarrow> (\<forall>n i. 0 < n \<and> n < KPM_NORDERS \<and> i < nf s div 2 ^ n \<longrightarrow>
     kbit s n i = (kbit s (n - 1) (2 * i) \<or> kbit s (n - 1) (2 * i + 1)))"

definition pad_inv :: "kpm \<Rightarrow> bool" where
  "pad_inv s \<longleftrightarrow> (\<forall>n i. slot s n i \<and> nf s div 2 ^ n \<le> i \<longrightarrow> kbit s n i)"

definition enabled_inv :: "kpm \<Rightarrow> bool" where
  "enabled_inv s \<longleftrightarrow> (\<forall>i < nf s. \<not> ebit s i \<longrightarrow> kbit s 0 i)"

definition kpm_inv :: "kpm \<Rightarrow> bool" where
  "kpm_inv s \<longleftrightarrow> kpm_layout (buddy s) \<and> tree_inv s \<and> pad_inv s \<and> enabled_inv s"

text \<open>Order 0 was rewritten inside the byte range from \<open>b\<close> to \<open>e\<close> only, the other orders not at all.\<close>

definition frames_changed :: "nat \<Rightarrow> nat \<Rightarrow> kpm \<Rightarrow> kpm \<Rightarrow> bool" where
  "frames_changed b e s0 s \<longleftrightarrow>
     buddy s = buddy s0 \<and> buddy_addr s = buddy_addr s0
     \<and> (\<forall>k j. slot s0 k j \<and> \<not> (k = 0 \<and> touches 0 b e j) \<longrightarrow> kbit s k j = kbit s0 k j)"

lemma touches_parent:
  assumes "touches n b e c" "c = 2 * i \<or> c = 2 * i + 1"
  shows "touches (Suc n) b e i"
proof -
  have c2: "c div 2 = i" using assms(2) by auto
  have "b div bsize n \<le> c" "c * bsize n < e" "b < e" using assms(1) by (simp_all add: touches_def)
  have "bsize (Suc n) = bsize n * 2" by (simp add: power_add)
  then have "b div bsize (Suc n) = b div bsize n div 2" by (simp only: div_mult2_eq)
  also have "\<dots> \<le> c div 2" using \<open>b div bsize n \<le> c\<close> by (rule div_le_mono)
  finally have 1: "b div bsize (Suc n) \<le> i" by (simp add: c2)
  have "i * bsize (Suc n) = (2 * i) * bsize n" by (simp add: power_add)
  also have "\<dots> \<le> c * bsize n" using assms(2) by (intro mult_le_mono1) auto
  finally have "i * bsize (Suc n) < e" using \<open>c * bsize n < e\<close> by linarith
  with 1 \<open>b < e\<close> show ?thesis by (simp add: touches_def)
qed

lemma orders_updated_tree_inv:
  assumes lay: "kpm_layout (buddy s0)" and t: "tree_inv s0" and e: "e \<le> nf s0 * 4096"
    and fc: "frames_changed b e s0 s" and u: "orders_updated KPM_NORDERS b e s s'"
  shows "tree_inv s'"
  unfolding tree_inv_def
proof (intro allI impI, elim conjE)
  have bud: "buddy s = buddy s0" "buddy s' = buddy s0"
    using fc u by (simp_all add: frames_changed_def orders_updated_def)
  fix n i assume n: "0 < n" "n < KPM_NORDERS" and "i < nf s' div 2 ^ n"
  then have i: "i < nf s0 div 2 ^ n" by (simp add: bud)
  have same: "kbit s' k j = kbit s0 k j" if "slot s0 k j" "\<not> touches k b e j" for k j
  proof -
    have "slot s k j" using that(1) by (simp add: slot_def bud)
    then have "kbit s' k j = kbit s k j" using orders_updatedD [OF u] that(2) by simp
    then show ?thesis using fc that unfolding frames_changed_def by blast
  qed
  show "kbit s' n i = (kbit s' (n - 1) (2 * i) \<or> kbit s' (n - 1) (2 * i + 1))"
  proof (cases "touches n b e i")
    case True
    have "slot s n i" using n i by (simp add: slot_valid bud)
    then show ?thesis using orders_updatedD [OF u] True n by simp
  next
    case False
    have "\<not> touches (n - 1) b e c" if "c = 2 * i \<or> c = 2 * i + 1" for c
      using touches_parent [OF _ that] False n by (metis Suc_pred')
    moreover have "2 * i + 1 < nf s0 div 2 ^ (n - 1)" by (rule valid_child [OF lay n i])
    then have "slot s0 (n - 1) (2 * i)" "slot s0 (n - 1) (2 * i + 1)" using n by (simp_all add: slot_valid)
    ultimately have "kbit s' (n - 1) (2 * i) = kbit s0 (n - 1) (2 * i)"
        "kbit s' (n - 1) (2 * i + 1) = kbit s0 (n - 1) (2 * i + 1)"
      by (simp_all add: same)
    moreover have "kbit s' n i = kbit s0 n i" using n i False by (simp add: same slot_valid)
    moreover have "kbit s0 n i = (kbit s0 (n - 1) (2 * i) \<or> kbit s0 (n - 1) (2 * i + 1))"
      using t n i unfolding tree_inv_def by blast
    ultimately show ?thesis by simp
  qed
qed

end
