(* ===== verification/Kpm_Ops.thy ===== *)
theory Kpm_Ops
  imports Kpm_Tree
begin

text \<open>
  What the operations of \<^verbatim>\<open>kpm.c\<close> do to the frame bits and to the enabled bits: the frame loops, the
  pass that follows them, \<^verbatim>\<open>kpm_enable\<close>, \<^verbatim>\<open>kpm_disable\<close>, \<^verbatim>\<open>kpm_free\<close>, and the bitmap search that
  \<^verbatim>\<open>kpm_alloc\<close> uses.  Each specification lemma says that the call returns and keeps the invariant.
\<close>

unbundle bit_operations_syntax

section \<open>The pass over the orders after a frame loop\<close>

text \<open>The pass writes inside the bitmaps only.\<close>

lemma update_order_loop_tables:
  assumes "kpm_update_order_loop n z e base s = Some s'" "kpm_layout (buddy s)" "n < KPM_NORDERS" "unat e \<le> nf s * 4096"
  shows "tables_only s s' \<and> buddy s' = buddy s"
proof -
  have "kpm_layout (buddy s) \<and> n < KPM_NORDERS \<and> unat e \<le> nf s * 4096 \<longrightarrow> tables_only s s' \<and> buddy s' = buddy s"
  proof (rule kpm_update_order_loop.raw_induct [where P = "\<lambda>n z e base s s'.
      kpm_layout (buddy s) \<and> n < KPM_NORDERS \<and> unat e \<le> nf s * 4096 \<longrightarrow> tables_only s s' \<and> buddy s' = buddy s", OF _ assms(1)])
    fix f n z e base s r
    let ?s = "kpm_update_block n base s"
    assume IH: "\<And>n z e base s s'. f n z e base s = Some s' \<Longrightarrow>
        kpm_layout (buddy s) \<and> n < KPM_NORDERS \<and> unat e \<le> nf s * 4096 \<longrightarrow> tables_only s s' \<and> buddy s' = buddy s"
      and step: "(if base < e then f n z e (ALIGNNEXTFORCE base z) ?s else Some s) = Some r"
    show "kpm_layout (buddy s) \<and> n < KPM_NORDERS \<and> unat e \<le> nf s * 4096 \<longrightarrow> tables_only s r \<and> buddy r = buddy s"
    proof (intro impI, elim conjE)
      assume a: "kpm_layout (buddy s)" "n < KPM_NORDERS" "unat e \<le> nf s * 4096"
      show "tables_only s r \<and> buddy r = buddy s"
      proof (cases "base < e")
        case True
        have "tables_only s ?s"
          using a block_index_valid [OF a(1,2) _ a(3)] True by (intro tables_only_update_block) (auto simp: word_less_nat_alt)
        moreover have "tables_only ?s r \<and> buddy r = buddy ?s" using IH step True a by (simp add: if_split)
        ultimately show ?thesis using tables_only_trans [of s ?s r] by simp
      qed (use step in simp)
    qed
  qed
  then show ?thesis using assms by blast
qed

lemma update_orders_tables:
  assumes "kpm_update_orders ns base limit s = Some s'" "kpm_layout (buddy s)" "set ns \<subseteq> {..<KPM_NORDERS}"
    and "unat base + unat limit \<le> nf s * 4096"
  shows "tables_only s s' \<and> buddy s' = buddy s"
  using assms
proof (induction ns arbitrary: s)
  case (Cons n ns)
  obtain s1 where s1: "kpm_update_order n base limit s = Some s1" "kpm_update_orders ns base limit s1 = Some s'"
    using Cons.prems(1) by (auto simp: bind_eq_Some_conv)
  have "unat (base + limit) = unat base + unat limit"
    using Cons.prems(4) layout_nf [OF Cons.prems(2)] by (intro unat_add_no_wrap) simp
  then have 1: "tables_only s s1" "buddy s1 = buddy s"
    using update_order_loop_tables [OF s1(1) [unfolded kpm_update_order_def]] Cons.prems by auto
  then show ?case using Cons.IH [OF s1(2)] Cons.prems tables_only_trans [of s s1 s'] by auto
qed simp

lemma rebuild:
  assumes lay: "kpm_layout (buddy s0)" and t: "tree_inv s0" and p: "pad_inv s0"
    and e: "unat base + unat limit \<le> nf s0 * 4096"
    and fc: "frames_changed (unat base) (unat base + unat limit) s0 s"
  shows "\<exists>s'. kpm_update_orders [1..<KPM_NORDERS] base limit s = Some s'
           \<and> buddy s' = buddy s0 \<and> buddy_addr s' = buddy_addr s0 \<and> tree_inv s' \<and> pad_inv s'
           \<and> (\<forall>j < nf s0. ebit s' j = ebit s j \<and> kbit s' 0 j = kbit s 0 j)"
proof -
  have bud: "buddy s = buddy s0" "buddy_addr s = buddy_addr s0"
    using fc by (simp_all add: frames_changed_def)
  obtain s' where s': "kpm_update_orders [1..<KPM_NORDERS] base limit s = Some s'"
      and u: "orders_updated KPM_NORDERS (unat base) (unat base + unat limit) s s'"
    using kpm_update_orders_upt [of s base limit KPM_NORDERS] lay e by (auto simp: bud KPM_NORDERS_def)
  have bud': "buddy s' = buddy s0" "buddy_addr s' = buddy_addr s0"
    using u by (simp_all add: orders_updated_def bud)
  have "tree_inv s'" by (rule orders_updated_tree_inv [OF lay t e fc u])
  moreover have "pad_inv s'"
    unfolding pad_inv_def
  proof (intro allI impI, elim conjE)
    fix n i assume sl: "slot s' n i" and i: "nf s' div 2 ^ n \<le> i"
    have n: "n < KPM_NORDERS" using sl by (simp add: slot_def)
    have nt: "\<not> touches n (unat base) (unat base + unat limit) i"
      using touches_valid [OF lay n e, of "unat base" i] i by (auto simp: bud')
    have "slot s n i" "slot s0 n i" using sl by (simp_all add: slot_def bud bud')
    moreover have "kbit s0 n i" using p i \<open>slot s0 n i\<close> by (simp add: pad_inv_def bud')
    moreover have "kbit s n i = kbit s0 n i"
      using fc nt \<open>slot s0 n i\<close> unfolding frames_changed_def by metis
    ultimately show "kbit s' n i"
      using orders_updatedD [OF u, of n i] nt by simp
  qed
  moreover have "ebit s' j = ebit s j \<and> kbit s' 0 j = kbit s 0 j" if "j < nf s0" for j
  proof
    show "ebit s' j = ebit s j" using u that by (simp add: orders_updated_def bud)
    have "slot s 0 j" using that by (intro slot_valid) (simp_all add: bud KPM_NORDERS_def)
    then show "kbit s' 0 j = kbit s 0 j" using orders_updatedD [OF u] by simp
  qed
  ultimately show ?thesis using s' bud' by blast
qed

text \<open>At order 0 a byte range touches the frames it meets.\<close>

lemma touches_0: "touches 0 (b * 4096) e j \<longleftrightarrow> b \<le> j \<and> j * 4096 < e"
  by (auto simp: touches_def)

text \<open>What the frame loops leave, as functions of the old frame bits and enabled bits.\<close>

definition frames_set :: "(nat \<Rightarrow> bool) \<Rightarrow> (nat \<Rightarrow> bool) \<Rightarrow> kpm \<Rightarrow> kpm \<Rightarrow> bool" where
  "frames_set a en s0 s \<longleftrightarrow>
     buddy s = buddy s0 \<and> buddy_addr s = buddy_addr s0 \<and> tables_only s0 s
     \<and> (\<forall>k j. slot s0 k j \<longrightarrow> kbit s k j = (if k = 0 \<and> j < nf s0 then a j else kbit s0 k j))
     \<and> (\<forall>j < nf s0. ebit s j = en j)"

lemma slot0: "j < nf s \<Longrightarrow> slot s 0 j"
  by (intro slot_valid) (simp_all add: KPM_NORDERS_def)

lemma frames_set_refl: "frames_set (kbit s 0) (ebit s) s s"
  by (simp add: frames_set_def)

lemma frames_set_step:
  assumes "kpm_layout (buddy s0)" "frames_set a en s0 s" "i < nf s0"
  shows "frames_set (a(i := True)) en s0 (KPM_ALLOC 0 (of_nat i) s)"
    and "frames_set (a(i := False)) en s0 (KPM_FREE 0 (of_nat i) s)"
    and "frames_set a (en(i := True)) s0 (KPM_ENABLE (of_nat i) s)"
    and "frames_set a (en(i := False)) s0 (KPM_DISABLE (of_nat i) s)"
proof -
  have bud: "buddy s = buddy s0" "buddy_addr s = buddy_addr s0" "tables_only s0 s" using assms(2) by (simp_all add: frames_set_def)
  have lay: "kpm_layout (buddy s)" using assms(1) by (simp add: bud)
  have sl: "slot s k j = slot s0 k j" for k j by (simp add: slot_def bud)
  have i0: "slot s 0 i" "i < nf s" using assms(3) slot0 [of i s] by (simp_all add: bud)
  note bits = kbit_KPM_ALLOC [OF lay i0(1)] kbit_KPM_FREE [OF lay i0(1)]
    ebit_KPM_ALLOC [OF lay i0(1)] ebit_KPM_FREE [OF lay i0(1)]
    kbit_KPM_ENABLE [OF lay i0(2)] ebit_KPM_ENABLE [OF lay i0(2)]
  have tabs: "tables_only s0 (KPM_ALLOC 0 (of_nat i) s)" "tables_only s0 (KPM_FREE 0 (of_nat i) s)"
    "tables_only s0 (KPM_ENABLE (of_nat i) s)" "tables_only s0 (KPM_DISABLE (of_nat i) s)"
    using tables_only_trans [OF bud(3,1)] tables_only_bit [OF lay i0(1)] tables_only_ebit [OF lay i0(2)] by blast+
  show "frames_set (a(i := True)) en s0 (KPM_ALLOC 0 (of_nat i) s)"
    "frames_set (a(i := False)) en s0 (KPM_FREE 0 (of_nat i) s)"
    "frames_set a (en(i := True)) s0 (KPM_ENABLE (of_nat i) s)"
    "frames_set a (en(i := False)) s0 (KPM_DISABLE (of_nat i) s)"
    using assms(2,3) unfolding frames_set_def by (auto simp: bits sl bud tabs)
qed

lemma frames_set_changed:
  assumes "frames_set a en s0 s" "\<And>j. j < nf s0 \<Longrightarrow> \<not> touches 0 b e j \<Longrightarrow> a j = kbit s0 0 j"
  shows "frames_changed b e s0 s"
  using assms unfolding frames_set_def frames_changed_def by auto

text \<open>The three frame loops.\<close>

lemma of_nat_frame: "base div PAGE_SIZE + of_nat i = of_nat (unat base div 4096 + i)"
proof -
  have "of_nat (unat (base div PAGE_SIZE)) = base div PAGE_SIZE"
    by (simp del: unat_div_PAGE_SIZE)
  then show ?thesis by simp
qed

lemma enable_loop:
  assumes "kpm_layout (buddy s0)" "f + c \<le> nf s0"
  shows "frames_set (\<lambda>j. kbit s0 0 j \<and> j \<notin> {f..<f + c}) (\<lambda>j. ebit s0 j \<or> j \<in> {f..<f + c}) s0
          (fold (\<lambda>i s. KPM_FREE 0 (of_nat (f + i)) (KPM_ENABLE (of_nat (f + i)) s)) [0..<c] s0)"
  using assms(2)
proof (induction c)
  case (Suc c)
  let ?F = "\<lambda>i s. KPM_FREE 0 (of_nat (f + i)) (KPM_ENABLE (of_nat (f + i)) s)"
  have "frames_set ((\<lambda>j. kbit s0 0 j \<and> j \<notin> {f..<f + c})(f + c := False))
          ((\<lambda>j. ebit s0 j \<or> j \<in> {f..<f + c})(f + c := True)) s0 (?F c (fold ?F [0..<c] s0))"
    by (intro frames_set_step assms(1)) (use Suc in auto)
  moreover have "(\<lambda>j. kbit s0 0 j \<and> j \<notin> {f..<f + c})(f + c := False) = (\<lambda>j. kbit s0 0 j \<and> j \<notin> {f..<f + Suc c})"
    "(\<lambda>j. ebit s0 j \<or> j \<in> {f..<f + c})(f + c := True) = (\<lambda>j. ebit s0 j \<or> j \<in> {f..<f + Suc c})"
    by (auto simp: fun_eq_iff)
  ultimately show ?case by simp
qed (simp add: frames_set_refl)

lemma disable_loop:
  assumes "kpm_layout (buddy s0)" "f + c \<le> nf s0"
  shows "frames_set (\<lambda>j. kbit s0 0 j \<or> j \<in> {f..<f + c}) (\<lambda>j. ebit s0 j \<and> j \<notin> {f..<f + c}) s0
          (fold (\<lambda>i s. KPM_ALLOC 0 (of_nat (f + i)) (KPM_DISABLE (of_nat (f + i)) s)) [0..<c] s0)"
  using assms(2)
proof (induction c)
  case (Suc c)
  let ?F = "\<lambda>i s. KPM_ALLOC 0 (of_nat (f + i)) (KPM_DISABLE (of_nat (f + i)) s)"
  have "frames_set ((\<lambda>j. kbit s0 0 j \<or> j \<in> {f..<f + c})(f + c := True))
          ((\<lambda>j. ebit s0 j \<and> j \<notin> {f..<f + c})(f + c := False)) s0 (?F c (fold ?F [0..<c] s0))"
    by (intro frames_set_step assms(1)) (use Suc in auto)
  moreover have "(\<lambda>j. kbit s0 0 j \<or> j \<in> {f..<f + c})(f + c := True) = (\<lambda>j. kbit s0 0 j \<or> j \<in> {f..<f + Suc c})"
    "(\<lambda>j. ebit s0 j \<and> j \<notin> {f..<f + c})(f + c := False) = (\<lambda>j. ebit s0 j \<and> j \<notin> {f..<f + Suc c})"
    by (auto simp: fun_eq_iff)
  ultimately show ?case by simp
qed (simp add: frames_set_refl)

lemma alloc_frames_loop:
  assumes "kpm_layout (buddy s0)" "f + c \<le> nf s0"
  shows "frames_set (\<lambda>j. kbit s0 0 j \<or> j \<in> {f..<f + c}) (ebit s0) s0
          (fold (\<lambda>i. KPM_ALLOC 0 (of_nat (f + i))) [0..<c] s0)"
  using assms(2)
proof (induction c)
  case (Suc c)
  let ?F = "\<lambda>i. KPM_ALLOC 0 (of_nat (f + i))"
  have "frames_set ((\<lambda>j. kbit s0 0 j \<or> j \<in> {f..<f + c})(f + c := True)) (ebit s0) s0 (?F c (fold ?F [0..<c] s0))"
    by (intro frames_set_step assms(1)) (use Suc in auto)
  moreover have "(\<lambda>j. kbit s0 0 j \<or> j \<in> {f..<f + c})(f + c := True) = (\<lambda>j. kbit s0 0 j \<or> j \<in> {f..<f + Suc c})"
    by (auto simp: fun_eq_iff)
  ultimately show ?case by simp
qed (simp add: frames_set_refl)

lemma free_frames_loop:
  assumes "kpm_layout (buddy s0)" "g \<le> nf s0"
  shows "frames_set (\<lambda>j. kbit s0 0 j \<and> \<not> (j \<in> {f..<g} \<and> ebit s0 j)) (ebit s0) s0
          (fold (\<lambda>i s. if KPM_IS_ENABLED (of_nat i) s then KPM_FREE 0 (of_nat i) s else s) [f..<g] s0)"
  using assms(2)
proof (induction g)
  case (Suc g)
  let ?F = "\<lambda>i s. if KPM_IS_ENABLED (of_nat i) s then KPM_FREE 0 (of_nat i) s else s"
  let ?s = "fold ?F [f..<g] s0"
  let ?a = "\<lambda>g j. kbit s0 0 j \<and> \<not> (j \<in> {f..<g} \<and> ebit s0 j)"
  show ?case
  proof (cases "f \<le> g")
    case True
    have IH: "frames_set (?a g) (ebit s0) s0 ?s" using Suc by simp
    have g: "g < nf s0" using Suc.prems by simp
    have "ebit ?s g = ebit s0 g" using IH g by (simp add: frames_set_def)
    then have en: "KPM_IS_ENABLED (of_nat g) ?s = ebit s0 g"
      using KPM_IS_ENABLED_ebit [of g ?s] nf_less [OF assms(1) g] by simp
    have "frames_set (?a (Suc g)) (ebit s0) s0 (?F g ?s)"
    proof (cases "ebit s0 g")
      case True
      have "?a (Suc g) = (?a g)(g := False)" using True \<open>f \<le> g\<close> by (auto simp: fun_eq_iff)
      then show ?thesis using frames_set_step(2) [OF assms(1) IH g] en True by simp
    next
      case False
      have "?a (Suc g) = ?a g" using False by (auto simp: fun_eq_iff less_Suc_eq)
      then show ?thesis using IH en False by simp
    qed
    then show ?thesis using True by simp
  qed (simp add: frames_set_refl)
qed (simp add: frames_set_refl)

text \<open>
  From the frame loop to the whole operation: once the frames inside the byte range have
  their new bits, the pass over the orders gives back a state with the invariant.
\<close>

lemma commit:
  assumes inv: "kpm_inv s0" and fs: "frames_set a en s0 s"
    and e: "unat base + unat limit \<le> nf s0 * 4096"
    and out: "\<And>j. j < nf s0 \<Longrightarrow> \<not> touches 0 (unat base) (unat base + unat limit) j \<Longrightarrow> a j = kbit s0 0 j"
    and dis: "\<And>j. j < nf s0 \<Longrightarrow> \<not> en j \<Longrightarrow> a j"
  shows "\<exists>s'. kpm_update_orders [1..<KPM_NORDERS] base limit s = Some s'
           \<and> buddy s' = buddy s0 \<and> buddy_addr s' = buddy_addr s0 \<and> kpm_inv s' \<and> tables_only s0 s'
           \<and> (\<forall>j < nf s0. ebit s' j = en j \<and> kbit s' 0 j = a j)"
proof -
  have fc: "frames_changed (unat base) (unat base + unat limit) s0 s"
    using fs out by (rule frames_set_changed)
  obtain s' where s': "kpm_update_orders [1..<KPM_NORDERS] base limit s = Some s'"
      and bud: "buddy s' = buddy s0" "buddy_addr s' = buddy_addr s0"
      and ti: "tree_inv s'" "pad_inv s'"
      and bits: "\<forall>j < nf s0. ebit s' j = ebit s j \<and> kbit s' 0 j = kbit s 0 j"
    using rebuild [OF _ _ _ e fc] inv by (auto simp: kpm_inv_def)
  have bits': "ebit s' j = en j \<and> kbit s' 0 j = a j" if "j < nf s0" for j
    using bits that fs slot0 [OF that] by (simp add: frames_set_def)
  then have inv': "kpm_inv s'"
    using inv ti dis by (simp add: kpm_inv_def enabled_inv_def bud)
  have "buddy s = buddy s0" "tables_only s0 s" using fs by (simp_all add: frames_set_def)
  moreover have "set [1..<KPM_NORDERS] \<subseteq> {..<KPM_NORDERS}" by auto
  ultimately have "tables_only s0 s'"
    using update_orders_tables [OF s'] tables_only_trans [of s0 s s'] inv e by (simp add: kpm_inv_def)
  then show ?thesis using inv' s' bud bits' by blast
qed

section \<open>kpm_enable and kpm_disable\<close>

definition clip_limit :: "ptr \<Rightarrow> u32 \<Rightarrow> kpm \<Rightarrow> u32" where
  "clip_limit base l s = (if (base + l) div PAGE_SIZE > nframes (buddy s)
                          then nframes (buddy s) * PAGE_SIZE - base else l)"

lemma unat_clip_limit:
  assumes lay: "kpm_layout (buddy s)" and B: "unat base = B * 4096" and L: "unat l = L * 4096"
    and "B \<le> nf s" and nw: "(B + L) * 4096 < 4294967296"
  shows "unat (clip_limit base l s) = (min (B + L) (nf s) - B) * 4096"
proof -
  have sum: "unat (base + l) = (B + L) * 4096"
    using nw by (subst unat_add_no_wrap) (simp_all add: B L)
  have nfp: "unat (nframes (buddy s) * PAGE_SIZE) = nf s * 4096"
    using layout_nf [OF lay] by (simp add: unat_mult_no_wrap)
  have "unat (nframes (buddy s) * PAGE_SIZE - base) = nf s * 4096 - B * 4096"
    using assms by (subst unat_sub_no_wrap) (simp_all add: nfp)
  then show ?thesis
    by (auto simp: clip_limit_def word_less_nat_alt sum L min_def diff_mult_distrib)
qed

lemma page_aligned_iff: "ISALIGNED x PAGE_SIZE \<longleftrightarrow> 4096 dvd unat x"
  using ISALIGNED_iff [of x 12] by (simp add: PAGE_SIZE_def)

lemma unat_ALIGN_page: "unat (ALIGN x PAGE_SIZE) = unat x div 4096 * 4096"
  using unat_ALIGN [of x 12] by (simp add: PAGE_SIZE_def)

lemma unat_ALIGNNEXT_page:
  "unat x + 4096 \<le> 4294967296 \<Longrightarrow> unat (ALIGNNEXT x PAGE_SIZE) = (unat x + 4095) div 4096 * 4096"
  using unat_ALIGNNEXT [of 12 x] by (simp add: PAGE_SIZE_def)

lemma page_dvdE:
  assumes "4096 dvd unat (base :: u32)"
  obtains B where "unat base = B * 4096" "unat base div 4096 = B"
proof
  show "unat base = (unat base div 4096) * 4096" using assms by simp
qed simp

lemma div_page_count: "unat l = c * 4096 \<Longrightarrow> unat (l div PAGE_SIZE) = c"
  by simp

lemma touches_0_pages: "touches 0 (b * 4096) (b * 4096 + c * 4096) j \<longleftrightarrow> j \<in> {b..<b + c}"
  by (auto simp: touches_0)

text \<open>The frames a region call covers: from its first frame, clipped to the end of memory.\<close>

definition region :: "ptr \<Rightarrow> nat \<Rightarrow> kpm \<Rightarrow> nat set" where
  "region base c s = {unat base div 4096..<min (unat base div 4096 + c) (nf s)}"

lemma kpm_enable_spec:
  assumes inv: "kpm_inv s" and al: "4096 dvd unat base" and ins: "unat base \<le> nf s * 4096"
    and nw: "unat base + unat limit < 4294967296"
  shows "\<exists>s'. kpm_enable base limit s = Some s' \<and> buddy s' = buddy s \<and> buddy_addr s' = buddy_addr s \<and> kpm_inv s' \<and> tables_only s s'
     \<and> (\<forall>j < nf s. ebit s' j = (ebit s j \<or> j \<in> region base (unat limit div 4096) s)
          \<and> kbit s' 0 j = (kbit s 0 j \<and> j \<notin> region base (unat limit div 4096) s))"
proof -
  have lay: "kpm_layout (buddy s)" using inv by (simp add: kpm_inv_def)
  obtain B where B: "unat base = B * 4096" "unat base div 4096 = B" using al by (rule page_dvdE)
  define L where "L = unat limit div 4096"
  define c where "c = min (B + L) (nf s) - B"
  let ?l = "clip_limit base (ALIGN limit PAGE_SIZE) s"
  have l: "unat ?l = c * 4096"
    unfolding c_def using nw ins
    by (intro unat_clip_limit lay B) (auto simp: unat_ALIGN_page L_def B)
  have Bc: "B + c \<le> nf s" using ins by (simp add: c_def B)
  have R: "region base L s = {B..<B + c}" using ins by (auto simp: region_def B c_def)
  let ?F = "\<lambda>i s. KPM_FREE 0 (base div PAGE_SIZE + of_nat i) (KPM_ENABLE (base div PAGE_SIZE + of_nat i) s)"
  have fs: "frames_set (\<lambda>j. kbit s 0 j \<and> j \<notin> {B..<B + c}) (\<lambda>j. ebit s j \<or> j \<in> {B..<B + c}) s
          (fold ?F [0..<unat (?l div PAGE_SIZE)] s)"
    using enable_loop [OF lay Bc] by (simp add: of_nat_frame B l del: of_nat_add)
  have eq: "kpm_enable base limit s = kpm_update_orders [1..<KPM_NORDERS] base ?l (fold ?F [0..<unat (?l div PAGE_SIZE)] s)"
    using al by (simp add: kpm_enable_def page_aligned_iff clip_limit_def Let_def)
  show ?thesis
    unfolding eq L_def [symmetric] R
  proof (rule commit [OF inv fs])
    show "unat base + unat ?l \<le> nf s * 4096" using Bc l B(1) by linarith
    show "(kbit s 0 j \<and> j \<notin> {B..<B + c}) = kbit s 0 j"
      if "j < nf s" "\<not> touches 0 (unat base) (unat base + unat ?l) j" for j
      using that by (simp add: B l touches_0_pages)
    show "kbit s 0 j \<and> j \<notin> {B..<B + c}" if "j < nf s" "\<not> (ebit s j \<or> j \<in> {B..<B + c})" for j
      using that inv by (simp add: kpm_inv_def enabled_inv_def)
  qed
qed

lemma kpm_disable_spec:
  assumes inv: "kpm_inv s" and al: "4096 dvd unat base" and ins: "unat base \<le> nf s * 4096"
    and nw: "unat base + unat limit + 4096 \<le> 4294967296"
  shows "\<exists>s'. kpm_disable base limit s = Some s' \<and> buddy s' = buddy s \<and> buddy_addr s' = buddy_addr s \<and> kpm_inv s' \<and> tables_only s s'
     \<and> (\<forall>j < nf s. ebit s' j = (ebit s j \<and> j \<notin> region base ((unat limit + 4095) div 4096) s)
          \<and> kbit s' 0 j = (kbit s 0 j \<or> j \<in> region base ((unat limit + 4095) div 4096) s))"
proof -
  have lay: "kpm_layout (buddy s)" using inv by (simp add: kpm_inv_def)
  obtain B where B: "unat base = B * 4096" "unat base div 4096 = B" using al by (rule page_dvdE)
  define L where "L = (unat limit + 4095) div 4096"
  define c where "c = min (B + L) (nf s) - B"
  let ?l1 = "if \<not> ISALIGNED limit PAGE_SIZE then ALIGNNEXT limit PAGE_SIZE else limit"
  let ?l = "clip_limit base ?l1 s"
  have l1: "unat ?l1 = L * 4096"
    using nw by (auto simp: unat_ALIGNNEXT_page page_aligned_iff L_def elim!: dvdE)
  have "L * 4096 \<le> unat limit + 4095" by (simp add: L_def)
  then have l: "unat ?l = c * 4096"
    unfolding c_def using nw ins by (intro unat_clip_limit lay B l1) (simp_all add: B)
  have Bc: "B + c \<le> nf s" using ins by (simp add: c_def B)
  have R: "region base L s = {B..<B + c}" using ins by (auto simp: region_def B c_def)
  let ?F = "\<lambda>i s. KPM_ALLOC 0 (base div PAGE_SIZE + of_nat i) (KPM_DISABLE (base div PAGE_SIZE + of_nat i) s)"
  have fs: "frames_set (\<lambda>j. kbit s 0 j \<or> j \<in> {B..<B + c}) (\<lambda>j. ebit s j \<and> j \<notin> {B..<B + c}) s
          (fold ?F [0..<unat (?l div PAGE_SIZE)] s)"
    using disable_loop [OF lay Bc] by (simp add: of_nat_frame B l del: of_nat_add)
  have eq: "kpm_disable base limit s = kpm_update_orders [1..<KPM_NORDERS] base ?l (fold ?F [0..<unat (?l div PAGE_SIZE)] s)"
    using al by (simp add: kpm_disable_def page_aligned_iff clip_limit_def Let_def)
  show ?thesis
    unfolding eq L_def [symmetric] R
  proof (rule commit [OF inv fs])
    show "unat base + unat ?l \<le> nf s * 4096" using Bc l B(1) by linarith
    show "(kbit s 0 j \<or> j \<in> {B..<B + c}) = kbit s 0 j"
      if "j < nf s" "\<not> touches 0 (unat base) (unat base + unat ?l) j" for j
      using that by (auto simp: B l touches_0_pages)
    show "kbit s 0 j \<or> j \<in> {B..<B + c}" if "j < nf s" "\<not> (ebit s j \<and> j \<notin> {B..<B + c})" for j
      using that inv by (auto simp: kpm_inv_def enabled_inv_def)
  qed
qed

section \<open>kpm_free\<close>

text \<open>The frames a chunk meets.\<close>

definition chunk_frames :: "kpm_chunk \<Rightarrow> nat set" where
  "chunk_frames ch = {unat (chunk_addr ch) div 4096..<(unat (chunk_addr ch) + unat (chunk_size ch) + 4095) div 4096}"

lemma kpm_free_spec:
  assumes inv: "kpm_inv s" and al: "4096 dvd unat (chunk_addr ch)"
    and ins: "unat (chunk_addr ch) + unat (chunk_size ch) \<le> nf s * 4096"
  shows "\<exists>s'. kpm_free ch s = Some s' \<and> buddy s' = buddy s \<and> buddy_addr s' = buddy_addr s \<and> kpm_inv s' \<and> tables_only s s'
     \<and> (\<forall>j < nf s. ebit s' j = ebit s j
          \<and> kbit s' 0 j = (kbit s 0 j \<and> \<not> (j \<in> chunk_frames ch \<and> ebit s j)))"
proof -
  have lay: "kpm_layout (buddy s)" using inv by (simp add: kpm_inv_def)
  let ?a = "chunk_addr ch" and ?z = "chunk_size ch"
  obtain B where B: "unat ?a = B * 4096" "unat ?a div 4096 = B" using al by (rule page_dvdE)
  define g where "g = (unat ?a + unat ?z + 4095) div 4096"
  have g: "g = B + (unat ?z + 4095) div 4096" by (simp add: g_def B)
  have gn: "g \<le> nf s" unfolding g_def using ins by linarith
  have z: "unat ?z + 4096 \<le> 4294967296" using ins layout_nf [OF lay] by simp
  have fi: "unat (?a div PAGE_SIZE + ALIGNNEXT ?z PAGE_SIZE div PAGE_SIZE) = g"
    using gn layout_nf [OF lay] by (subst unat_add_no_wrap) (simp_all add: B g unat_ALIGNNEXT_page [OF z])
  let ?F = "\<lambda>i s. if KPM_IS_ENABLED (of_nat i) s then KPM_FREE 0 (of_nat i) s else s"
  have eq: "kpm_free ch s = kpm_update_orders [1..<KPM_NORDERS] ?a ?z (fold ?F [B..<g] s)"
    using al by (simp add: kpm_free_def page_aligned_iff Let_def fi B)
  have cf: "chunk_frames ch = {B..<g}" by (simp add: chunk_frames_def g_def B)
  have fs: "frames_set (\<lambda>j. kbit s 0 j \<and> \<not> (j \<in> {B..<g} \<and> ebit s j)) (ebit s) s (fold ?F [B..<g] s)"
    by (rule free_frames_loop [OF lay gn])
  show ?thesis
    unfolding eq cf
  proof (rule commit [OF inv fs ins])
    fix j assume "\<not> touches 0 (unat ?a) (unat ?a + unat ?z) j"
    then have "j \<notin> {B..<g}" unfolding B touches_0 by (auto simp: g)
    then show "(kbit s 0 j \<and> \<not> (j \<in> {B..<g} \<and> ebit s j)) = kbit s 0 j" by auto
  next
    fix j assume "j < nf s" "\<not> ebit s j"
    then show "kbit s 0 j \<and> \<not> (j \<in> {B..<g} \<and> ebit s j)"
      using inv by (simp add: kpm_inv_def enabled_inv_def)
  qed
qed

section \<open>Blocks and the bitmap search\<close>

text \<open>A block's bit is clear exactly when all its frames are free.\<close>

lemma kbit_block:
  assumes "kpm_layout (buddy s)" "tree_inv s" "n < KPM_NORDERS" "i < nf s div 2 ^ n"
  shows "kbit s n i \<longleftrightarrow> (\<exists>j \<in> {i * 2 ^ n..<(i + 1) * 2 ^ n}. kbit s 0 j)"
  using assms(3,4)
proof (induction n arbitrary: i)
  case (Suc n)
  have ch: "2 * i + 1 < nf s div 2 ^ n" using valid_child [OF assms(1) _ Suc.prems] by simp
  have "kbit s (Suc n) i \<longleftrightarrow> kbit s n (2 * i) \<or> kbit s n (2 * i + 1)"
    using assms(2) Suc.prems by (simp add: tree_inv_def)
  also have "\<dots> \<longleftrightarrow> (\<exists>j \<in> {2 * i * 2 ^ n..<(2 * i + 1) * 2 ^ n} \<union> {(2 * i + 1) * 2 ^ n..<(2 * i + 1 + 1) * 2 ^ n}. kbit s 0 j)"
    using Suc.IH [of "2 * i"] Suc.IH [of "2 * i + 1"] Suc.prems ch by auto
  also have "{2 * i * 2 ^ n..<(2 * i + 1) * 2 ^ n} \<union> {(2 * i + 1) * 2 ^ n..<(2 * i + 1 + 1) * 2 ^ n}
             = {i * 2 ^ Suc n..<(i + 1) * (2 :: nat) ^ Suc n}"
    by (auto simp: algebra_simps)
  finally show ?case .
qed auto

lemma builtin_ffs_find:
  "builtin_ffs (NOT x) = (case find (\<lambda>k. \<not> bit x k) [0..<8] of None \<Rightarrow> 0 | Some k \<Rightarrow> Suc k)"
proof -
  have "find (bit (NOT x)) [0..<8] = find (\<lambda>k. \<not> bit x k) [0..<8]"
    by (rule find_cong) (auto simp: bit_not_iff possible_bit_word)
  then show ?thesis by (simp add: builtin_ffs_def)
qed

lemma find_append: "find P (xs @ ys) = (case find P xs of None \<Rightarrow> find P ys | Some x \<Rightarrow> Some x)"
  by (induction xs) auto

lemma bitmap_ffu_loop_find:
  "bitmap_ffu_loop m p i k =
     (case find (\<lambda>j. \<not> bit (m (p + of_nat (j div 8))) (j mod 8)) [8 * i..<8 * (i + k)] of
        None \<Rightarrow> -1 | Some j \<Rightarrow> int j)"
proof (induction k arbitrary: i)
  case (Suc k)
  let ?P = "\<lambda>j. \<not> bit (m (p + of_nat (j div 8))) (j mod 8)"
  have "[8 * i..<8 * (i + Suc k)] = [8 * i..<8 * i + 8] @ [8 * Suc i..<8 * (Suc i + k)]"
    using upt_add_eq_append [of "8 * i" "8 * i + 8" "8 * k"] by (simp add: algebra_simps del: upt_Suc)
  also have "[8 * i..<8 * i + 8] = map (\<lambda>j. j + 8 * i) [0..<8]"
    using map_add_upt [of "8 * i" 8] by (simp only: add.commute)
  finally have up: "[8 * i..<8 * (i + Suc k)] = map (\<lambda>j. j + 8 * i) [0..<8] @ [8 * Suc i..<8 * (Suc i + k)]" .
  have "find ?P (map (\<lambda>j. j + 8 * i) [0..<8]) =
      map_option (\<lambda>j. j + 8 * i) (find (\<lambda>k. \<not> bit (m (p + of_nat i)) k) [0..<8])"
    unfolding find_map by (rule arg_cong [where f = "map_option _"], rule find_cong) auto
  then show ?case
    unfolding up
    by (auto simp: find_append Suc.IH builtin_ffs_find Let_def split: option.splits)
qed simp

end
