(* ===== verification/Kpm_Alloc.thy ===== *)
theory Kpm_Alloc
  imports Kpm_Ops
begin

text \<open>
  \<^verbatim>\<open>bitmap_ffu\<close> as a search over block bits, \<^verbatim>\<open>find_best_fit_order\<close>, and what \<^verbatim>\<open>kpm_alloc\<close> returns:
  a free block of the highest order up to the best fit that has one, the lowest such block, or -1
  when no frame is free.  The abstract state of the allocator is \<open>free_frames\<close> with \<open>enabled_set\<close>.
\<close>

unbundle bit_operations_syntax

section \<open>The bitmap search over block bits\<close>

lemma kpm_invD:
  assumes "kpm_inv s"
  shows "kpm_layout (buddy s)" "tree_inv s" "pad_inv s" "enabled_inv s"
  using assms by (simp_all add: kpm_inv_def)

lemma nbytes_cover: "n \<le> 8 * nbytes n"
  by (simp add: nbytes_def)

lemma find_upt_clip:
  assumes "\<And>i. N \<le> i \<Longrightarrow> i < M \<Longrightarrow> \<not> P i" "N \<le> M"
  shows "find P [0..<M] = find P [0..<N]"
proof -
  have "find P [N..<M] = None" using assms(1) by (simp add: find_None_iff)
  moreover have "[0..<M] = [0..<N] @ [N..<M]"
    using upt_add_eq_append [of 0 N "M - N"] assms(2) by simp
  ultimately show ?thesis by (simp add: find_append split: option.split)
qed

lemma bitmap_ffu_kbit:
  assumes inv: "kpm_inv s" and n: "n < KPM_NORDERS"
  shows "bitmap_ffu (kmem s) (bm s n) (order_size (orders (buddy s) ! n)) =
     (case find (\<lambda>i. \<not> kbit s n i) [0..<nf s div 2 ^ n] of None \<Rightarrow> -1 | Some i \<Rightarrow> int i)"
proof -
  have sz: "unat (order_size (orders (buddy s) ! n)) = nbytes (nf s div 2 ^ n)"
    using kpm_invD(1) [OF inv] n by (simp add: kpm_layout_def)
  have "kbit s n i" if "nf s div 2 ^ n \<le> i" "i < 8 * nbytes (nf s div 2 ^ n)" for i
  proof -
    have "slot s n i" using that n by (simp add: slot_def less_mult_imp_div_less mult.commute)
    then show ?thesis using kpm_invD(3) [OF inv] that(1) by (simp add: pad_inv_def)
  qed
  then have "find (\<lambda>i. \<not> kbit s n i) [0..<8 * nbytes (nf s div 2 ^ n)] = find (\<lambda>i. \<not> kbit s n i) [0..<nf s div 2 ^ n]"
    by (intro find_upt_clip) (auto simp: nbytes_cover)
  then show ?thesis
    by (simp add: bitmap_ffu_def bitmap_ffu_loop_find sz flip: kbit_def)
qed

lemma find_upt_Some_iff:
  "find P [0..<n] = Some i \<longleftrightarrow> i < n \<and> P i \<and> (\<forall>j < i. \<not> P j)"
  by (auto simp: find_Some_iff)

lemma find_upt_None_iff: "find P [0..<n] = None \<longleftrightarrow> (\<forall>i < n. \<not> P i)"
  by (auto simp: find_None_iff)

text \<open>The frames of block \<open>i\<close> of order \<open>n\<close>, the free frames and the enabled frames.\<close>

definition block_frames :: "nat \<Rightarrow> nat \<Rightarrow> nat set" where
  "block_frames n i = {i * 2 ^ n..<(i + 1) * 2 ^ n}"

definition free_frames :: "kpm \<Rightarrow> nat set" where
  "free_frames s = {j. j < nf s \<and> \<not> kbit s 0 j}"

definition enabled_set :: "kpm \<Rightarrow> nat set" where
  "enabled_set s = {j. j < nf s \<and> ebit s j}"

lemma pow_dvd_nf:
  assumes "kpm_layout (buddy s)" "n < KPM_NORDERS"
  shows "2 ^ n dvd nf s"
proof (rule dvd_trans)
  show "(2::nat) ^ n dvd 2 ^ 10" using assms(2) by (intro le_imp_power_dvd) (simp add: KPM_NORDERS_def)
  show "2 ^ 10 dvd nf s" using assms(1) by (simp add: kpm_layout_def)
qed

lemma block_end:
  assumes "kpm_layout (buddy s)" "n < KPM_NORDERS" "i < nf s div 2 ^ n"
  shows "(i + 1) * 2 ^ n \<le> nf s"
proof -
  have "(i + 1) * 2 ^ n \<le> nf s div 2 ^ n * 2 ^ n" using assms(3) by (intro mult_le_mono1) simp
  then show ?thesis using pow_dvd_nf [OF assms(1,2)] by simp
qed

lemma block_free_iff:
  assumes "kpm_inv s" "n < KPM_NORDERS" "i < nf s div 2 ^ n"
  shows "\<not> kbit s n i \<longleftrightarrow> block_frames n i \<subseteq> free_frames s"
proof -
  have "j < nf s" if "j \<in> block_frames n i" for j
    using that block_end [OF kpm_invD(1) [OF assms(1)] assms(2,3)] by (simp add: block_frames_def)
  then show ?thesis
    using kbit_block [OF kpm_invD(1,2) [OF assms(1)] assms(2,3)]
    by (auto simp: free_frames_def block_frames_def)
qed

text \<open>The best-fit order is the least order whose blocks hold the request, or the top order.\<close>

lemma find_best_fit_order_spec:
  assumes "unat sz + 4096 \<le> 4294967296"
  defines "o' \<equiv> find_best_fit_order sz"
  shows "o' < KPM_NORDERS" "unat sz \<le> bsize o' \<or> o' = KPM_NORDERS - 1"
    and "\<And>k. k < o' \<Longrightarrow> bsize k < unat sz"
proof -
  define n where "n = (unat sz + 4095) div 4096"
  have n: "unat (ALIGNNEXT sz PAGE_SIZE div PAGE_SIZE) = n"
    using assms(1) by (simp add: unat_ALIGNNEXT_page n_def)
  have le: "n \<le> 2 ^ k \<longleftrightarrow> unat sz \<le> bsize k" for k
  proof -
    have "n \<le> 2 ^ k \<longleftrightarrow> unat sz \<le> 2 ^ k * 4096" unfolding n_def by linarith
    then show ?thesis by (simp add: power_add)
  qed
  have o': "o' = (case find (\<lambda>k. n \<le> 2 ^ k) [0..<KPM_NORDERS] of Some k \<Rightarrow> k | None \<Rightarrow> KPM_NORDERS - 1)"
    by (simp only: o'_def find_best_fit_order_def Let_def n)
  show "o' < KPM_NORDERS"
    unfolding o' by (auto simp: find_upt_Some_iff KPM_NORDERS_def split: option.splits)
  show "unat sz \<le> bsize o' \<or> o' = KPM_NORDERS - 1"
    unfolding o' by (auto simp: find_upt_Some_iff le split: option.splits)
  show "bsize k < unat sz" if "k < o'" for k
    using that unfolding o'
    by (auto simp: find_upt_Some_iff find_upt_None_iff le not_le split: option.splits)
qed

section \<open>kpm_alloc\<close>

lemma unat_block_addr:
  assumes "kpm_layout (buddy s)" "n < KPM_NORDERS" "i < nf s div 2 ^ n"
  shows "unat (of_nat i * PAGE_SIZE * push_bit n 1 :: u32) = i * bsize n"
    and "unat (PAGE_SIZE * push_bit n 1 :: u32) = bsize n"
    and "(of_nat i * push_bit n 1 :: u32) = of_nat (i * 2 ^ n)"
    and "i * bsize n + bsize n \<le> nf s * 4096"
proof -
  have n: "n + 12 < 32" using assms(2) by (simp add: KPM_NORDERS_def)
  show sz: "unat (PAGE_SIZE * push_bit n 1 :: u32) = bsize n"
    using n by (simp add: block_size_exp unat_exp_u32 push_bit_eq_mult)
  have "(i + 1) * 2 ^ n * 4096 \<le> nf s * 4096"
    using block_end [OF assms] by (rule mult_le_mono1)
  then show le: "i * bsize n + bsize n \<le> nf s * 4096"
    by (simp add: power_add algebra_simps)
  have "(of_nat i * PAGE_SIZE * push_bit n 1 :: u32) = of_nat (i * bsize n)"
    by (simp add: push_bit_eq_mult PAGE_SIZE_def power_add)
  moreover have "i * bsize n < 4294967296" using le layout_nf [OF assms(1)] by linarith
  ultimately show "unat (of_nat i * PAGE_SIZE * push_bit n 1 :: u32) = i * bsize n"
    using unat_of_nat_small [of "i * bsize n", where 'a = 32] by simp
  show "(of_nat i * push_bit n 1 :: u32) = of_nat (i * 2 ^ n)"
    by (simp add: push_bit_eq_mult)
qed

text \<open>What a successful allocation of block \<open>i\<close> of order \<open>n\<close> leaves.\<close>

definition allocated :: "nat \<Rightarrow> nat \<Rightarrow> kpm \<Rightarrow> kpm_chunk \<Rightarrow> kpm \<Rightarrow> bool" where
  "allocated n i s ch s' \<longleftrightarrow>
     unat (chunk_addr ch) = i * bsize n \<and> unat (chunk_size ch) = bsize n
     \<and> i < nf s div 2 ^ n
     \<and> block_frames n i \<subseteq> free_frames s
     \<and> free_frames s' = free_frames s - block_frames n i
     \<and> enabled_set s' = enabled_set s"

lemma alloc_block:
  assumes inv: "kpm_inv s" and n: "n < KPM_NORDERS" and i: "i < nf s div 2 ^ n" and free: "\<not> kbit s n i"
  defines "a \<equiv> of_nat i * PAGE_SIZE * push_bit n 1" and "z \<equiv> PAGE_SIZE * push_bit n 1"
  shows "\<exists>s'. kpm_update_orders [1..<KPM_NORDERS] a z
            (fold (\<lambda>j. KPM_ALLOC 0 (of_nat i * push_bit n 1 + of_nat j)) [0..<unat (push_bit n 1 :: u32)] s) = Some s'
          \<and> buddy s' = buddy s \<and> buddy_addr s' = buddy_addr s \<and> kpm_inv s' \<and> tables_only s s'
          \<and> allocated n i s \<lparr>chunk_addr = a, chunk_size = z\<rparr> s'"
proof -
  have lay: "kpm_layout (buddy s)" using inv by (rule kpm_invD)
  note u = unat_block_addr [OF lay n i]
  let ?f = "i * 2 ^ n"
  have fc: "?f + 2 ^ n \<le> nf s" using block_end [OF lay n i] by (simp add: algebra_simps)
  have n32: "n < 32" using n by (simp add: KPM_NORDERS_def)
  have cnt: "unat (push_bit n 1 :: u32) = 2 ^ n" using n32 by (simp add: push_bit_eq_mult unat_exp_u32)
  have F: "fold (\<lambda>j. KPM_ALLOC 0 (of_nat i * push_bit n 1 + of_nat j)) [0..<unat (push_bit n 1 :: u32)] s
         = fold (\<lambda>j. KPM_ALLOC 0 (of_nat (?f + j))) [0..<2 ^ n] s"
    by (simp only: cnt u(3) of_nat_add)
  have fs: "frames_set (\<lambda>j. kbit s 0 j \<or> j \<in> {?f..<?f + 2 ^ n}) (ebit s) s
         (fold (\<lambda>j. KPM_ALLOC 0 (of_nat (?f + j))) [0..<2 ^ n] s)"
    by (rule alloc_frames_loop [OF lay fc])
  have bsz: "bsize n = 2 ^ n * 4096" by (simp add: power_add)
  have "\<exists>s'. kpm_update_orders [1..<KPM_NORDERS] a z (fold (\<lambda>j. KPM_ALLOC 0 (of_nat (?f + j))) [0..<2 ^ n] s) = Some s'
           \<and> buddy s' = buddy s \<and> buddy_addr s' = buddy_addr s \<and> kpm_inv s' \<and> tables_only s s'
           \<and> (\<forall>j < nf s. ebit s' j = ebit s j \<and> kbit s' 0 j = (kbit s 0 j \<or> j \<in> {?f..<?f + 2 ^ n}))"
  proof (rule commit [OF inv fs])
    show "unat a + unat z \<le> nf s * 4096" unfolding a_def z_def u(1,2) by (rule u(4))
    fix j assume "j < nf s"
    have "unat a = ?f * 4096" "unat z = 2 ^ n * 4096"
      unfolding a_def z_def u(1,2) by (simp_all add: bsz)
    then show "(kbit s 0 j \<or> j \<in> {?f..<?f + 2 ^ n}) = kbit s 0 j"
      if "\<not> touches 0 (unat a) (unat a + unat z) j"
      using that unfolding touches_0_pages [symmetric] by simp
    show "kbit s 0 j \<or> j \<in> {?f..<?f + 2 ^ n}" if "\<not> ebit s j"
      using that \<open>j < nf s\<close> kpm_invD(4) [OF inv] by (simp add: enabled_inv_def)
  qed
  then obtain s' where s': "kpm_update_orders [1..<KPM_NORDERS] a z (fold (\<lambda>j. KPM_ALLOC 0 (of_nat (?f + j))) [0..<2 ^ n] s) = Some s'"
      and bud: "buddy s' = buddy s" "buddy_addr s' = buddy_addr s" and inv': "kpm_inv s'" "tables_only s s'"
      and bits: "\<forall>j < nf s. ebit s' j = ebit s j \<and> kbit s' 0 j = (kbit s 0 j \<or> j \<in> {?f..<?f + 2 ^ n})"
    by blast
  have bf: "block_frames n i = {?f..<?f + 2 ^ n}" by (auto simp: block_frames_def)
  have "allocated n i s \<lparr>chunk_addr = a, chunk_size = z\<rparr> s'"
    unfolding allocated_def kpm_chunk.simps
  proof (intro conjI)
    show "unat a = i * bsize n" "unat z = bsize n" unfolding a_def z_def by (rule u)+
    show "i < nf s div 2 ^ n" by (rule i)
    show "block_frames n i \<subseteq> free_frames s" using block_free_iff [OF inv n i] free by simp
    show "free_frames s' = free_frames s - block_frames n i"
      using bits by (auto simp: free_frames_def bud bf)
    show "enabled_set s' = enabled_set s" using bits by (auto simp: enabled_set_def bud)
  qed
  with s' bud inv' show ?thesis unfolding F by blast
qed

lemma kpm_alloc_loop_spec:
  assumes inv: "kpm_inv s" and "m \<le> KPM_NORDERS"
  shows "(\<exists>n i ch' s'. kpm_alloc_loop m ch s = Some (0, ch', s') \<and> n < m \<and> allocated n i s ch' s'
            \<and> buddy s' = buddy s \<and> kpm_inv s' \<and> tables_only s s'
            \<and> (\<forall>i' < i. \<not> block_frames n i' \<subseteq> free_frames s)
            \<and> (\<forall>n' i'. n < n' \<and> n' < m \<and> i' < nf s div 2 ^ n' \<longrightarrow> \<not> block_frames n' i' \<subseteq> free_frames s))
       \<or> (kpm_alloc_loop m ch s = Some (-1, ch, s)
            \<and> (\<forall>n' i'. n' < m \<and> i' < nf s div 2 ^ n' \<longrightarrow> \<not> block_frames n' i' \<subseteq> free_frames s))"
  using assms(2)
proof (induction m)
  case (Suc n)
  have n: "n < KPM_NORDERS" using Suc.prems by simp
  note ffu = bitmap_ffu_kbit [OF inv n]
  have bf: "\<not> kbit s n i \<longleftrightarrow> block_frames n i \<subseteq> free_frames s" if "i < nf s div 2 ^ n" for i
    by (rule block_free_iff [OF inv n that])
  show ?case
  proof (cases "find (\<lambda>i. \<not> kbit s n i) [0..<nf s div 2 ^ n]")
    case None
    then have no: "\<not> block_frames n i \<subseteq> free_frames s" if "i < nf s div 2 ^ n" for i
      using bf that by (simp add: find_upt_None_iff)
    have eq: "kpm_alloc_loop (Suc n) ch s = kpm_alloc_loop n ch s" by (simp add: ffu None)
    show ?thesis
      using Suc.IH n no unfolding eq less_Suc_eq by (metis less_imp_le)
  next
    case (Some i)
    then have i: "i < nf s div 2 ^ n" "\<not> kbit s n i" "\<forall>i' < i. kbit s n i'"
      by (simp_all add: find_upt_Some_iff)
    then have least: "\<forall>i' < i. \<not> block_frames n i' \<subseteq> free_frames s"
      using bf by (metis less_trans)
    obtain s' where s': "kpm_alloc_loop (Suc n) ch s = Some (0, \<lparr>chunk_addr = of_nat i * PAGE_SIZE * push_bit n 1,
            chunk_size = PAGE_SIZE * push_bit n 1\<rparr>, s')"
        and "buddy s' = buddy s" "kpm_inv s'" "tables_only s s'"
        and "allocated n i s \<lparr>chunk_addr = of_nat i * PAGE_SIZE * push_bit n 1, chunk_size = PAGE_SIZE * push_bit n 1\<rparr> s'"
      using alloc_block [OF inv n i(1,2)] by (auto simp: ffu Some Let_def)
    then show ?thesis using least by (intro disjI1 exI [of _ n] exI [of _ i]) auto
  qed
qed simp

end
