(* ===== verification/Kpm_Init.thy ===== *)
theory Kpm_Init
  imports Kpm_Alloc
begin

text \<open>
  \<^verbatim>\<open>kpm_init\<close>: the eleven bitmaps and the enabled-frames bitmap follow each other without overlap
  whatever the arguments, the fresh tables satisfy the invariant, and the frames that are free at
  the end are those of the available memory map entries less frame 0, the kernel image and the
  tables themselves.
\<close>

unbundle bit_operations_syntax

section \<open>The layout that kpm_init lays out\<close>

lemma in_blk_offset:
  assumes "a + l \<le> 4294967296"
  shows "x \<in> blk (p + of_nat a) l \<longleftrightarrow> a \<le> unat (x - p) \<and> unat (x - p) < a + l"
proof
  assume "x \<in> blk (p + of_nat a) l"
  then obtain i where i: "i < l" "x = p + of_nat a + of_nat i" by (elim in_blkE)
  then have x: "x - p = of_nat (a + i)" by simp
  have "unat (x - p) = a + i" unfolding x using i(1) assms by (intro unat_of_nat_small) simp
  then show "a \<le> unat (x - p) \<and> unat (x - p) < a + l" using i(1) by simp
next
  assume y: "a \<le> unat (x - p) \<and> unat (x - p) < a + l"
  then have "a < 4294967296" using unat_u32_less [of "x - p"] by linarith
  then have "unat (x - p - of_nat a) = unat (x - p) - a"
    using y by (subst unat_sub_no_wrap) (simp_all add: unat_of_nat_small)
  moreover have "x - (p + of_nat a) = x - p - of_nat a" by simp
  ultimately show "x \<in> blk (p + of_nat a) l" using y by (simp only: in_blk_iff) linarith
qed

lemma blk_disjoint:
  assumes "a + l \<le> b" "b + k \<le> 4294967296"
  shows "blk (p + of_nat a) l \<inter> blk (p + of_nat b) k = {}"
  using assms by (auto simp: in_blk_offset)

text \<open>Offset of the bitmap of order \<open>n\<close> from the first one, for \<open>N\<close> frames.\<close>

fun order_off :: "nat \<Rightarrow> nat \<Rightarrow> nat" where
  "order_off N 0 = 0"
| "order_off N (Suc n) = nbytes N + order_off (N div 2) n"

lemma order_off_Suc: "order_off N (Suc n) = order_off N n + nbytes (N div 2 ^ n)"
  by (induction n arbitrary: N) (auto simp: div_mult2_eq)

lemma order_off_mono: "n \<le> m \<Longrightarrow> order_off N n \<le> order_off N m"
proof (induction m)
  case (Suc m)
  then show ?case using order_off_Suc [of N m] by (cases "n = Suc m") auto
qed simp

lemma order_off_le: "order_off N n \<le> N + n"
proof (induction n arbitrary: N)
  case (Suc n)
  have "nbytes N + (N div 2 + n) \<le> N + Suc n"
    unfolding nbytes_def by linarith
  then show ?case using Suc [of "N div 2"] by simp
qed simp

lemma unat_NBYTES: "unat n \<le> 1048576 \<Longrightarrow> unat (KPM_NBYTES_FROM_NBITS n) = nbytes (unat n)"
  by (simp add: unat_nbytes nbytes_def)

lemma NBYTES_of_nat: "unat n \<le> 1048576 \<Longrightarrow> KPM_NBYTES_FROM_NBITS n = of_nat (nbytes (unat n))"
  by (simp flip: unat_NBYTES)

lemma kpm_order_sizes_nth:
  "n < k \<Longrightarrow> unat nb \<le> 1048576 \<Longrightarrow> unat (kpm_order_sizes k nb ! n) = nbytes (unat nb div 2 ^ n)"
proof (induction k arbitrary: n nb)
  case (Suc k)
  then show ?case by (cases n) (simp_all add: unat_NBYTES unat_div div_mult2_eq)
qed simp

lemma kpm_order_bitmaps_nth:
  "n < k \<Longrightarrow> unat nb \<le> 1048576 \<Longrightarrow> kpm_order_bitmaps k p nb ! n = p + of_nat (order_off (unat nb) n)"
proof (induction k arbitrary: n nb p)
  case (Suc k)
  have "KPM_NBYTES_FROM_NBITS nb = of_nat (nbytes (unat nb))" by (rule NBYTES_of_nat [OF Suc.prems(2)])
  then show ?case using Suc by (cases n) (simp_all add: unat_div add.assoc)
qed simp

lemma length_order_lists [simp]:
  "length (kpm_order_sizes k nb) = k" "length (kpm_order_bitmaps k p nb) = k"
  by (induction k arbitrary: p nb) auto

lemma sum_order_sizes:
  "unat nb \<le> 1048576 \<Longrightarrow> sum_list (kpm_order_sizes k nb) = of_nat (order_off (unat nb) k)"
proof (induction k arbitrary: nb)
  case (Suc k)
  have "KPM_NBYTES_FROM_NBITS nb = of_nat (nbytes (unat nb))" by (rule NBYTES_of_nat [OF Suc.prems])
  then show ?case using Suc by (simp add: unat_div)
qed simp

text \<open>Fresh after the two \<^verbatim>\<open>memset\<close> calls: every block allocated, no frame enabled.\<close>

lemma nframes_bound:
  "unat (ALIGN (memkb * 1024 div PAGE_SIZE) 1024) \<le> 1047552" "1024 dvd unat (ALIGN (memkb * 1024 div PAGE_SIZE) 1024)"
proof -
  let ?x = "memkb * 1024 div PAGE_SIZE"
  have x: "unat ?x < 1048576" using unat_u32_less [of "memkb * 1024"] by (simp add: less_mult_imp_div_less)
  have eq: "unat (ALIGN ?x 1024) = unat ?x div 1024 * 1024" using unat_ALIGN [of ?x 10] by simp
  show "1024 dvd unat (ALIGN ?x 1024)" by (simp only: eq) simp
  have "unat ?x div 1024 \<le> 1023" using x by linarith
  then show "unat (ALIGN ?x 1024) \<le> 1047552" by (simp only: eq)
qed

lemma kpm_layout_init: "kpm_layout (buddy (kpm_init_layout ek memkb m))" (is "kpm_layout ?b")
proof -
  define N where "N = unat (nframes ?b)"
  have nfr: "nframes ?b = ALIGN (memkb * 1024 div PAGE_SIZE) 1024" by (simp add: kpm_init_layout_def Let_def)
  have N: "N \<le> 1047552" "1024 dvd N" "N \<le> 1048576"
    using nframes_bound [of memkb] by (simp_all add: N_def nfr)
  define q where "q = enabled_frames ?b"
  have ords: "orders ?b = map2 (\<lambda>p z. \<lparr>bitmap = p, order_size = z\<rparr>)
       (kpm_order_bitmaps KPM_NORDERS (q + of_nat (nbytes N)) (nframes ?b)) (kpm_order_sizes KPM_NORDERS (nframes ?b))"
    using N by (simp add: kpm_init_layout_def Let_def q_def N_def nfr NBYTES_of_nat)
  have bmn: "bitmap (orders ?b ! n) = q + of_nat (nbytes N + order_off N n)" if "n < KPM_NORDERS" for n
    using that N by (simp add: ords kpm_order_bitmaps_nth add.assoc flip: N_def)
  have szn: "unat (order_size (orders ?b ! n)) = nbytes (N div 2 ^ n)" if "n < KPM_NORDERS" for n
    using that N by (simp add: ords kpm_order_sizes_nth flip: N_def)
  have fits: "nbytes N + order_off N n + nbytes (N div 2 ^ n) \<le> 4294967296" if "n < KPM_NORDERS" for n
    using order_off_le [of N n] nbytes_le [of N] nbytes_le [of "N div 2 ^ n"] N(1) that
      div_le_dividend [of N "2 ^ n"] by (simp add: KPM_NORDERS_def)
  have before: "order_off N n + nbytes (N div 2 ^ n) \<le> order_off N k" if "n < k" for n k
    using order_off_mono [of "Suc n" k N] that by (simp only: order_off_Suc Suc_le_eq)
  have disj: "blk (bitmap (orders ?b ! n)) (nbytes (N div 2 ^ n)) \<inter> blk (bitmap (orders ?b ! k)) (nbytes (N div 2 ^ k)) = {}"
    if "n < k" "k < KPM_NORDERS" for n k
    using that bmn [of n] bmn [of k] fits [of k] before [of n k] by (simp only:) (rule blk_disjoint, auto)
  have "blk q (nbytes N) \<inter> blk (bitmap (orders ?b ! n)) (nbytes (N div 2 ^ n)) = {}" if "n < KPM_NORDERS" for n
    using blk_disjoint [of 0 "nbytes N" "nbytes N + order_off N n" "nbytes (N div 2 ^ n)" q] bmn [OF that] fits [OF that]
    by simp
  moreover have "blk (bitmap (orders ?b ! n)) (nbytes (N div 2 ^ n)) \<inter> blk (bitmap (orders ?b ! k)) (nbytes (N div 2 ^ k)) = {}"
    if "n \<noteq> k" "n < KPM_NORDERS" "k < KPM_NORDERS" for n k
    using disj [of n k] disj [of k n] that by (cases "n < k") auto
  ultimately show ?thesis
    unfolding kpm_layout_def using N szn
    by (simp add: ords flip: N_def q_def)
qed

lemma kmem_kpm_init_layout:
  fixes ek memkb m
  defines "s \<equiv> kpm_init_layout ek memkb m"
  shows "x \<in> blk (bm s 0) (order_off (nf s) KPM_NORDERS) \<Longrightarrow> kmem s x = 0xff"
    and "x \<in> blk (enabled_frames (buddy s)) (nbytes (nf s)) \<Longrightarrow> x \<notin> blk (bm s 0) (order_off (nf s) KPM_NORDERS) \<Longrightarrow> kmem s x = 0"
proof -
  let ?n = "ALIGN (memkb * 1024 div PAGE_SIZE) 1024"
  let ?e = "ALIGNNEXT ek PAGE_SIZE + sizeof_buddy_t"
  let ?b = "?e + KPM_NBYTES_FROM_NBITS ?n"
  have n: "unat ?n \<le> 1047552" by (rule nframes_bound)
  have z: "0 < KPM_NORDERS" by (simp add: KPM_NORDERS_def)
  have b0: "kpm_order_bitmaps KPM_NORDERS p ?n ! 0 = p" for p
    using kpm_order_bitmaps_nth [OF z, of ?n p] n by simp
  have flds: "nframes (buddy s) = ?n" "enabled_frames (buddy s) = ?e" "bm s 0 = ?b"
    using z by (simp_all add: s_def kpm_init_layout_def Let_def b0)
  have "order_off (nf s) KPM_NORDERS < 4294967296"
    using n order_off_le [of "nf s" KPM_NORDERS] by (simp add: flds(1) KPM_NORDERS_def)
  then have tot: "unat (sum_list (kpm_order_sizes KPM_NORDERS ?n)) = order_off (nf s) KPM_NORDERS"
    using n by (simp add: sum_order_sizes flds(1) unat_of_nat_small)
  have sz: "unat (KPM_NBYTES_FROM_NBITS ?n) = nbytes (nf s)" using n by (simp add: flds(1) unat_NBYTES)
  have "kmem s = fst (memset (fst (memset m ?e 0 (KPM_NBYTES_FROM_NBITS ?n))) ?b 0xff (sum_list (kpm_order_sizes KPM_NORDERS ?n)))"
    by (simp add: s_def kpm_init_layout_def Let_def b0)
  then have "kmem s = filled (filled m ?e 0 (nbytes (nf s))) ?b 0xff (order_off (nf s) KPM_NORDERS)"
    by (simp add: memset_filled tot sz)
  then show "x \<in> blk (bm s 0) (order_off (nf s) KPM_NORDERS) \<Longrightarrow> kmem s x = 0xff"
    "x \<in> blk (enabled_frames (buddy s)) (nbytes (nf s)) \<Longrightarrow> x \<notin> blk (bm s 0) (order_off (nf s) KPM_NORDERS) \<Longrightarrow> kmem s x = 0"
    by (simp_all add: filled_def flds)
qed

lemma bm_init_0:
  "bm (kpm_init_layout ek memkb m) 0 =
     enabled_frames (buddy (kpm_init_layout ek memkb m)) + of_nat (nbytes (nf (kpm_init_layout ek memkb m)))"
proof -
  let ?n = "ALIGN (memkb * 1024 div PAGE_SIZE) 1024"
  have "unat ?n \<le> 1048576" using nframes_bound(1) [of memkb] by linarith
  moreover have "0 < KPM_NORDERS" by (simp add: KPM_NORDERS_def)
  ultimately show ?thesis
    by (simp add: kpm_init_layout_def Let_def kpm_order_bitmaps_nth NBYTES_of_nat)
qed

lemma bm_init:
  assumes "n < KPM_NORDERS"
  shows "bm (kpm_init_layout ek memkb m) n = bm (kpm_init_layout ek memkb m) 0 + of_nat (order_off (nf (kpm_init_layout ek memkb m)) n)"
proof -
  let ?n = "ALIGN (memkb * 1024 div PAGE_SIZE) 1024"
  have "unat ?n \<le> 1048576" using nframes_bound(1) [of memkb] by linarith
  moreover have "0 < KPM_NORDERS" using assms by simp
  ultimately show ?thesis
    using assms by (simp add: kpm_init_layout_def Let_def kpm_order_bitmaps_nth)
qed

lemma kpm_init_layout_bits:
  fixes ek memkb m
  defines "s \<equiv> kpm_init_layout ek memkb m"
  shows "slot s n i \<Longrightarrow> kbit s n i" "j < nf s \<Longrightarrow> \<not> ebit s j"
proof -
  have lay: "kpm_layout (buddy s)" unfolding s_def by (rule kpm_layout_init)
  have tot: "nbytes (nf s) + order_off (nf s) KPM_NORDERS \<le> 4294967296"
    using layout_nf [OF lay] nbytes_le [of "nf s"] order_off_le [of "nf s" KPM_NORDERS] by (simp add: KPM_NORDERS_def)
  show "kbit s n i" if sl: "slot s n i"
  proof -
    have n: "n < KPM_NORDERS" and i: "i div 8 < nbytes (nf s div 2 ^ n)" using sl by (simp_all add: slot_def)
    have "order_off (nf s) n + i div 8 < order_off (nf s) KPM_NORDERS"
      using i order_off_mono [OF Suc_leI [OF n], of "nf s"] unfolding order_off_Suc by linarith
    then have "bm s 0 + of_nat (order_off (nf s) n + i div 8) \<in> blk (bm s 0) (order_off (nf s) KPM_NORDERS)"
      using tot by (intro blk_add_of_nat) auto
    then have "kmem s (bm s n + of_nat (i div 8)) = 0xff"
      using kmem_kpm_init_layout(1) [of _ ek memkb m] bm_init [OF n, of ek memkb m] by (simp add: add.assoc flip: s_def)
    moreover have "bit (0xff :: u8) (i mod 8)"
    proof -
      have "(0xff :: u8) = mask 8" by (simp add: mask_eq_exp_minus_1)
      then show ?thesis by (simp only: bit_mask_iff possible_bit_word) simp
    qed
    ultimately show ?thesis by (simp add: kbit_def)
  qed
  show "\<not> ebit s j" if j: "j < nf s"
  proof -
    let ?x = "enabled_frames (buddy s) + of_nat (j div 8)"
    have b0: "bm s 0 = enabled_frames (buddy s) + of_nat (nbytes (nf s))"
      unfolding s_def by (rule bm_init_0)
    have x: "?x \<in> blk (enabled_frames (buddy s)) (nbytes (nf s))" by (rule eslot_addr [OF j lay])
    moreover have "?x \<notin> blk (bm s 0) (order_off (nf s) KPM_NORDERS)"
      using blk_disjoint [of 0 "nbytes (nf s)" "nbytes (nf s)" "order_off (nf s) KPM_NORDERS" "enabled_frames (buddy s)"] tot x
      by (auto simp: b0)
    ultimately have "kmem s ?x = 0" unfolding s_def by (rule kmem_kpm_init_layout(2))
    then show ?thesis by (simp add: ebit_def)
  qed
qed

lemma kpm_inv_init_layout: "kpm_inv (kpm_init_layout ek memkb m)"
proof -
  let ?s = "kpm_init_layout ek memkb m"
  note bits = kpm_init_layout_bits [where ek = ek and memkb = memkb and m = m]
  have "kbit ?s n i" if "n < KPM_NORDERS" "i < nf ?s div 2 ^ n" for n i
    using that by (intro bits slot_valid)
  moreover have "kbit ?s (n - 1) (2 * i)" if "0 < n" "n < KPM_NORDERS" "i < nf ?s div 2 ^ n" for n i
    using valid_child [OF kpm_layout_init that] that by (intro bits slot_valid) auto
  ultimately have "tree_inv ?s" unfolding tree_inv_def by blast
  moreover have "pad_inv ?s" using bits(1) by (simp add: pad_inv_def)
  moreover have "enabled_inv ?s" using bits(1) slot0 by (simp add: enabled_inv_def)
  ultimately show ?thesis using kpm_layout_init by (simp add: kpm_inv_def)
qed

lemma init_layout_frames: "free_frames (kpm_init_layout ek memkb m) = {}" "enabled_set (kpm_init_layout ek memkb m) = {}"
  using kpm_init_layout_bits [where ek = ek and memkb = memkb and m = m] slot0 by (auto simp: free_frames_def enabled_set_def)

section \<open>kpm_init\<close>

text \<open>
  The frames that a memory map entry makes available, for \<open>N\<close> frames of memory: whole pages
  of an aligned available entry.  \<open>entry_ok\<close> is what \<^verbatim>\<open>kpm_enable\<close> needs of the boot loader: no
  available entry that starts past the end of memory or ends past 4 GiB.
\<close>

definition entry_used :: "mmap_entry \<Rightarrow> bool" where
  "entry_used e \<longleftrightarrow> entry_type e = MULTIBOOT_MEMORY_AVAILABLE \<and> 4096 dvd unat (ucast (entry_addr e) :: u32)"

definition entry_frames :: "nat \<Rightarrow> mmap_entry \<Rightarrow> nat set" where
  "entry_frames N e =
     (if entry_used e
      then {unat (entry_addr e) div 4096..<min (unat (entry_addr e) div 4096 + unat (entry_len e) div 4096) N}
      else {})"

definition entry_ok :: "nat \<Rightarrow> mmap_entry \<Rightarrow> bool" where
  "entry_ok N e \<longleftrightarrow> (entry_used e \<longrightarrow>
     unat (entry_addr e) \<le> N * 4096 \<and> unat (entry_addr e) + unat (entry_len e) < 4294967296)"

text \<open>The bit-level results of the region operations, as sets of frames.\<close>

lemma frames_eqs:
  assumes "buddy s' = buddy s" "\<forall>j < nf s. ebit s' j = (ebit s j \<or> j \<in> R) \<and> kbit s' 0 j = (kbit s 0 j \<and> j \<notin> R)"
    "R \<subseteq> {..<nf s}"
  shows "free_frames s' = free_frames s \<union> R" "enabled_set s' = enabled_set s \<union> R"
  using assms by (auto simp: free_frames_def enabled_set_def)

lemma frames_eqs_disable:
  assumes "buddy s' = buddy s" "\<forall>j < nf s. ebit s' j = (ebit s j \<and> j \<notin> R) \<and> kbit s' 0 j = (kbit s 0 j \<or> j \<in> R)"
  shows "free_frames s' = free_frames s - R" "enabled_set s' = enabled_set s - R"
  using assms by (auto simp: free_frames_def enabled_set_def)

lemma region_subset: "region base c s \<subseteq> {..<nf s}"
  by (auto simp: region_def)

lemma kpm_enable_frames:
  assumes "kpm_inv s" "4096 dvd unat base" "unat base \<le> nf s * 4096" "unat base + unat limit < 4294967296"
  shows "\<exists>s'. kpm_enable base limit s = Some s' \<and> buddy s' = buddy s \<and> buddy_addr s' = buddy_addr s \<and> kpm_inv s' \<and> tables_only s s'
     \<and> free_frames s' = free_frames s \<union> region base (unat limit div 4096) s
     \<and> enabled_set s' = enabled_set s \<union> region base (unat limit div 4096) s"
proof -
  obtain s' where "kpm_enable base limit s = Some s'" "buddy s' = buddy s" "buddy_addr s' = buddy_addr s" "kpm_inv s'" "tables_only s s'"
    "\<forall>j < nf s. ebit s' j = (ebit s j \<or> j \<in> region base (unat limit div 4096) s)
          \<and> kbit s' 0 j = (kbit s 0 j \<and> j \<notin> region base (unat limit div 4096) s)"
    using kpm_enable_spec [OF assms] by auto
  then show ?thesis using frames_eqs [of s' s] region_subset by simp
qed

lemma kpm_disable_frames:
  assumes "kpm_inv s" "4096 dvd unat base" "unat base \<le> nf s * 4096" "unat base + unat limit + 4096 \<le> 4294967296"
  shows "\<exists>s'. kpm_disable base limit s = Some s' \<and> buddy s' = buddy s \<and> buddy_addr s' = buddy_addr s \<and> kpm_inv s' \<and> tables_only s s'
     \<and> free_frames s' = free_frames s - region base ((unat limit + 4095) div 4096) s
     \<and> enabled_set s' = enabled_set s - region base ((unat limit + 4095) div 4096) s"
proof -
  obtain s' where "kpm_disable base limit s = Some s'" "buddy s' = buddy s" "buddy_addr s' = buddy_addr s" "kpm_inv s'" "tables_only s s'"
    "\<forall>j < nf s. ebit s' j = (ebit s j \<and> j \<notin> region base ((unat limit + 4095) div 4096) s)
          \<and> kbit s' 0 j = (kbit s 0 j \<or> j \<in> region base ((unat limit + 4095) div 4096) s)"
    using kpm_disable_spec [OF assms] by auto
  then show ?thesis using frames_eqs_disable [of s' s] by simp
qed

lemma kpm_enable_unaligned: "\<not> 4096 dvd unat base \<Longrightarrow> kpm_enable base limit s = Some s"
  by (simp add: kpm_enable_def page_aligned_iff)

lemma kpm_init_entries_spec:
  assumes "kpm_inv s" "\<forall>e \<in> set es. entry_ok (nf s) e" "\<exists>e \<in> set es. entry_size e = 0"
  shows "\<exists>s'. kpm_init_entries es s = Some s' \<and> buddy s' = buddy s \<and> buddy_addr s' = buddy_addr s \<and> kpm_inv s' \<and> tables_only s s'
     \<and> free_frames s' = free_frames s \<union> (\<Union>e \<in> set (takeWhile (\<lambda>e. entry_size e \<noteq> 0) es). entry_frames (nf s) e)
     \<and> enabled_set s' = enabled_set s \<union> (\<Union>e \<in> set (takeWhile (\<lambda>e. entry_size e \<noteq> 0) es). entry_frames (nf s) e)"
  using assms
proof (induction es arbitrary: s)
  case (Cons e es)
  show ?case
  proof (cases "entry_size e = 0")
    case True
    then show ?thesis using Cons.prems(1) by auto
  next
    case False
    have rest: "\<exists>e \<in> set es. entry_size e = 0" "\<forall>e \<in> set es. entry_ok (nf s) e" "entry_ok (nf s) e"
      using Cons.prems False by auto
    show ?thesis
    proof (cases "entry_used e")
      case used: True
      have small: "unat (entry_addr e) < 4294967296" "unat (entry_len e) < 4294967296"
        using rest(3) used by (auto simp: entry_ok_def)
      then have cast: "unat (ucast (entry_addr e) :: u32) = unat (entry_addr e)" "unat (ucast (entry_len e) :: u32) = unat (entry_len e)"
        by (simp_all add: unsigned_ucast_eq take_bit_nat_eq_self)
      obtain s1 where s1: "kpm_enable (ucast (entry_addr e)) (ucast (entry_len e)) s = Some s1"
          and b1: "buddy s1 = buddy s" "buddy_addr s1 = buddy_addr s" "kpm_inv s1" "tables_only s s1"
          and f1: "free_frames s1 = free_frames s \<union> entry_frames (nf s) e" "enabled_set s1 = enabled_set s \<union> entry_frames (nf s) e"
        using kpm_enable_frames [of s "ucast (entry_addr e)" "ucast (entry_len e)"] Cons.prems(1) rest(3) used
        by (auto simp: entry_ok_def cast entry_used_def region_def entry_frames_def)
      have "kpm_init_entries (e # es) s = kpm_init_entries es s1"
        using False used s1 by (simp add: entry_used_def)
      moreover obtain s' where "kpm_init_entries es s1 = Some s'" "buddy s' = buddy s" "buddy_addr s' = buddy_addr s" "kpm_inv s'" "tables_only s1 s'"
        "free_frames s' = free_frames s1 \<union> (\<Union>e \<in> set (takeWhile (\<lambda>e. entry_size e \<noteq> 0) es). entry_frames (nf s) e)"
        "enabled_set s' = enabled_set s1 \<union> (\<Union>e \<in> set (takeWhile (\<lambda>e. entry_size e \<noteq> 0) es). entry_frames (nf s) e)"
        using Cons.IH [of s1] b1 rest by auto
      ultimately show ?thesis using False f1 tables_only_trans [OF b1(4,1)] by auto
    next
      case unused: False
      have "kpm_init_entries (e # es) s = kpm_init_entries es s"
        using False unused by (auto simp: entry_used_def kpm_enable_unaligned)
      then show ?thesis
        using Cons.IH [OF Cons.prems(1) rest(2,1)] False unused by (simp add: entry_frames_def)
    qed
  qed
qed simp

lemma init_layout_fields:
  fixes ek memkb m
  defines "s \<equiv> kpm_init_layout ek memkb m"
  shows "buddy_addr s = ALIGNNEXT ek PAGE_SIZE" "unat (buddy_size (buddy s)) = 100 + nbytes (nf s) + order_off (nf s) KPM_NORDERS"
    and "nf s = unat (memkb * 1024) div 4096 div 1024 * 1024"
proof -
  let ?n = "ALIGN (memkb * 1024 div PAGE_SIZE) 1024"
  have nfr: "nframes (buddy s) = ?n" by (simp add: s_def kpm_init_layout_def Let_def)
  have n: "unat ?n \<le> 1047552" by (rule nframes_bound)
  show "buddy_addr s = ALIGNNEXT ek PAGE_SIZE" by (simp add: s_def kpm_init_layout_def Let_def)
  show "nf s = unat (memkb * 1024) div 4096 div 1024 * 1024"
    using unat_ALIGN [of "memkb * 1024 div PAGE_SIZE" 10] by (simp add: nfr)
  have "buddy_size (buddy s) = of_nat (100 + nbytes (unat ?n) + order_off (unat ?n) KPM_NORDERS)"
    using n by (simp add: s_def kpm_init_layout_def Let_def NBYTES_of_nat sum_order_sizes sizeof_buddy_t_def)
  moreover have "100 + nbytes (unat ?n) + order_off (unat ?n) KPM_NORDERS < 4294967296"
    using n nbytes_le [OF n] order_off_le [of "unat ?n" KPM_NORDERS] by (simp add: KPM_NORDERS_def)
  ultimately show "unat (buddy_size (buddy s)) = 100 + nbytes (nf s) + order_off (nf s) KPM_NORDERS"
    unfolding nfr by (simp only: unat_of_nat_small [where 'a = 32, simplified])
qed

text \<open>The frames of the kernel image and of the allocator's own tables.\<close>

definition kernel_frames :: "ptr \<Rightarrow> ptr \<Rightarrow> nat \<Rightarrow> nat set" where
  "kernel_frames sk ek N =
     {unat sk div 4096..<
      (unat (ek - KERNEL_VIRT_OFFSET) + 4095) div 4096 + (100 + nbytes N + order_off N KPM_NORDERS + 4095) div 4096}"

lemma kpm_init_frames:
  fixes sk ek memkb m
  defines "N \<equiv> nf (kpm_init_layout ek memkb m)"
  assumes entries: "\<forall>e \<in> set es. entry_ok N e" "\<exists>e \<in> set es. entry_size e = 0"
    and ek: "KERNEL_VIRT_OFFSET \<le> ek" "unat ek \<le> 0xFFFFF000"
    and sk: "4096 dvd unat sk" "unat sk \<le> unat (ek - KERNEL_VIRT_OFFSET)" "unat (ek - KERNEL_VIRT_OFFSET) \<le> N * 4096"
  shows "\<exists>s. kpm_init sk ek es memkb m = Some s \<and> kpm_inv s \<and> buddy s = buddy (kpm_init_layout ek memkb m)
     \<and> tables_only (kpm_init_layout ek memkb m) s \<and> nf s = N \<and> free_frames s = enabled_set s
     \<and> free_frames s = (\<Union>e \<in> set (takeWhile (\<lambda>e. entry_size e \<noteq> 0) es). entry_frames N e)
                          - insert 0 (kernel_frames sk ek N)"
proof -
  let ?s0 = "kpm_init_layout ek memkb m" and ?E = "unat (ek - KERNEL_VIRT_OFFSET)"
  let ?A = "\<Union>e \<in> set (takeWhile (\<lambda>e. entry_size e \<noteq> 0) es). entry_frames N e"
  have nb: "N \<le> 1047552" unfolding N_def by (rule layout_nf [OF kpm_layout_init])
  have AN: "?A \<subseteq> {..<N}" by (auto simp: entry_frames_def split: if_splits)
  obtain s1 where s1: "kpm_init_entries es ?s0 = Some s1" "buddy s1 = buddy ?s0" "buddy_addr s1 = buddy_addr ?s0" "kpm_inv s1" "tables_only ?s0 s1"
      "free_frames s1 = ?A" "enabled_set s1 = ?A"
    using kpm_init_entries_spec [OF kpm_inv_init_layout, of es ek memkb m] entries
    unfolding N_def by (auto simp: init_layout_frames)
  have ps: "unat PAGE_SIZE = 4096" by (simp add: PAGE_SIZE_def)
  obtain s2 where s2: "kpm_disable 0 PAGE_SIZE s1 = Some s2" "buddy s2 = buddy ?s0" "buddy_addr s2 = buddy_addr ?s0" "kpm_inv s2" "tables_only s1 s2"
      "free_frames s2 = ?A - region 0 1 s1" "enabled_set s2 = ?A - region 0 1 s1"
    using kpm_disable_frames [OF s1(4), of 0 PAGE_SIZE] s1 by (auto simp: ps)
  have E: "?E \<le> 0x3FFFF000" "unat ek = 0xC0000000 + ?E"
    using ek unat_sub_no_wrap [of KERNEL_VIRT_OFFSET ek] by (simp_all add: KERNEL_VIRT_OFFSET_def word_le_nat_alt)
  let ?l = "(ek - KERNEL_VIRT_OFFSET) - sk"
  have l: "unat ?l = ?E - unat sk" using sk(2) by (rule unat_sub_no_wrap)
  obtain s3 where s3: "kpm_disable sk ?l s2 = Some s3" "buddy s3 = buddy ?s0" "buddy_addr s3 = buddy_addr ?s0" "kpm_inv s3" "tables_only s2 s3"
      "free_frames s3 = free_frames s2 - region sk ((unat ?l + 4095) div 4096) s2"
      "enabled_set s3 = enabled_set s2 - region sk ((unat ?l + 4095) div 4096) s2"
    using kpm_disable_frames [OF s2(4), of sk ?l] s2(2,3) sk E l unfolding N_def by auto
  let ?p = "buddy_addr s3 - KERNEL_VIRT_OFFSET" and ?z = "100 + nbytes N + order_off N KPM_NORDERS"
  have rup: "unat (ALIGNNEXT ek PAGE_SIZE) = (unat ek + 4095) div 4096 * 4096"
    using ek(2) by (intro unat_ALIGNNEXT_page) simp
  have rE: "unat (ALIGNNEXT ek PAGE_SIZE) = 0xC0000000 + (?E + 4095) div 4096 * 4096"
    using rup E(2) div_mult_self4 [of 4096 786432 "?E + 4095"] by simp
  have p: "unat ?p = (?E + 4095) div 4096 * 4096"
    unfolding s3(3) init_layout_fields(1)
    by (subst unat_sub_no_wrap) (simp_all only: rE word_le_nat_alt KERNEL_VIRT_OFFSET_def, simp_all)
  have "(?E + 4095) div 4096 < N + 1" using sk(3) by (intro less_mult_imp_div_less) simp
  then have pN: "unat ?p \<le> N * 4096" unfolding p by simp
  have z: "unat (buddy_size (buddy s3)) = ?z" unfolding s3(2) N_def by (rule init_layout_fields)
  have zb: "?z \<le> 0x20000000"
    using nb nbytes_le [OF nb] order_off_le [of N KPM_NORDERS] by (simp add: KPM_NORDERS_def)
  have dv: "4096 dvd unat ?p" unfolding p by simp
  have pn: "unat ?p \<le> nf s3 * 4096" using pN unfolding s3(2) N_def .
  have "unat ?p \<le> ?E + 4095" unfolding p by simp
  then have nw: "unat ?p + unat (buddy_size (buddy s3)) + 4096 \<le> 4294967296" using zb E(1) unfolding z by linarith
  obtain s where s: "kpm_disable ?p (buddy_size (buddy s3)) s3 = Some s" "buddy s = buddy s3" "kpm_inv s" "tables_only s3 s"
      "free_frames s = free_frames s3 - region ?p ((?z + 4095) div 4096) s3"
      "enabled_set s = enabled_set s3 - region ?p ((?z + 4095) div 4096) s3"
    using kpm_disable_frames [OF s3(4) dv pn nw] unfolding z by blast
  have "kpm_init sk ek es memkb m = Some s"
    using s1(1) s2(1) s3(1) s(1) by (simp add: kpm_init_def)
  moreover have fe: "free_frames s = enabled_set s" using s2 s3 s by simp
  moreover have "free_frames s = ?A - insert 0 (kernel_frames sk ek N)"
  proof -
    have r: "x \<in> region 0 1 s1 \<longleftrightarrow> x = 0"
      "x \<in> region sk ((unat ?l + 4095) div 4096) s2 \<longleftrightarrow> unat sk div 4096 \<le> x \<and> x < (?E + 4095) div 4096"
      "x \<in> region ?p ((?z + 4095) div 4096) s3 \<longleftrightarrow> (?E + 4095) div 4096 \<le> x \<and> x < (?E + 4095) div 4096 + (?z + 4095) div 4096"
      if "x < N" for x
    proof -
      have "unat sk div 4096 + (unat ?l + 4095) div 4096 = (?E + 4095) div 4096"
        using sk(1,2) unfolding l by (auto elim!: dvdE)
      then show "x \<in> region 0 1 s1 \<longleftrightarrow> x = 0"
        "x \<in> region sk ((unat ?l + 4095) div 4096) s2 \<longleftrightarrow> unat sk div 4096 \<le> x \<and> x < (?E + 4095) div 4096"
        "x \<in> region ?p ((?z + 4095) div 4096) s3 \<longleftrightarrow> (?E + 4095) div 4096 \<le> x \<and> x < (?E + 4095) div 4096 + (?z + 4095) div 4096"
        using that unfolding region_def p s1(2) s2(2) s3(2) N_def [symmetric] by auto
    qed
    have le: "unat sk div 4096 \<le> (?E + 4095) div 4096" using sk(2) by (intro div_le_mono) simp
    show ?thesis
    proof (intro set_eqI)
      fix x
      show "x \<in> free_frames s \<longleftrightarrow> x \<in> ?A - insert 0 (kernel_frames sk ek N)"
        using AN r [of x] le unfolding s(5) s3(6) s2(6) kernel_frames_def by auto
    qed
  qed
  moreover have "tables_only ?s0 s"
    using s1(2,5) s2(2,5) s3(2,5) s(4) by (simp add: tables_only_def)
  ultimately show ?thesis using s(2,3) s3(2) unfolding N_def by auto
qed

end
