(* ===== verification/Kpm_Correct.thy ===== *)
theory Kpm_Correct
  imports Kpm_Init
begin

text \<open>
  The contract of a frame allocator as a locale, with its consequences for runs of allocations
  (disjointness, a bound on their length, restoration by frees in any order), and its
  interpretation on \<^verbatim>\<open>kpm_alloc\<close> and \<^verbatim>\<open>kpm_free\<close>; then the correctness properties of \<^verbatim>\<open>kpm.c\<close>.
\<close>

unbundle bit_operations_syntax

section \<open>The contract of a frame allocator\<close>

locale frame_allocator =
  fixes inv :: "'s \<Rightarrow> bool" and free :: "'s \<Rightarrow> nat set" and enabled :: "'s \<Rightarrow> nat set"
    and frames :: "'c \<Rightarrow> nat set" and owned :: "'s \<Rightarrow> 'c \<Rightarrow> bool"
    and alloc :: "'c \<Rightarrow> 'r \<Rightarrow> 's \<Rightarrow> (int \<times> 'c \<times> 's) option" and dealloc :: "'c \<Rightarrow> 's \<Rightarrow> 's option"
  assumes finite_free: "inv s \<Longrightarrow> finite (free s)"
    and free_enabled: "inv s \<Longrightarrow> free s \<subseteq> enabled s"
    and alloc_total: "inv s \<Longrightarrow> (\<exists>c' s'. alloc c r s = Some (0, c', s')) \<or> alloc c r s = Some (-1, c, s)"
    and alloc_ok: "inv s \<Longrightarrow> alloc c r s = Some (0, c', s') \<Longrightarrow>
        inv s' \<and> owned s' c' \<and> frames c' \<noteq> {} \<and> frames c' \<subseteq> free s
        \<and> free s' = free s - frames c' \<and> enabled s' = enabled s"
    and alloc_fail: "inv s \<Longrightarrow> alloc c r s = Some (-1, c', s') \<Longrightarrow> free s = {}"
    and alloc_owned: "inv s \<Longrightarrow> alloc c r s = Some (x, c', s') \<Longrightarrow> owned s d \<Longrightarrow> owned s' d"
    and dealloc_ok: "inv s \<Longrightarrow> owned s c \<Longrightarrow>
        \<exists>s'. dealloc c s = Some s' \<and> inv s' \<and> free s' = free s \<union> (frames c \<inter> enabled s)
             \<and> enabled s' = enabled s \<and> (\<forall>d. owned s d \<longrightarrow> owned s' d)"
begin

text \<open>A run of successful allocations, with the chunks it returned, oldest first.\<close>

inductive allocs :: "'s \<Rightarrow> 'c list \<Rightarrow> 's \<Rightarrow> bool" where
  allocs_Nil: "allocs s [] s"
| allocs_Cons: "alloc c r s = Some (0, c', s1) \<Longrightarrow> allocs s1 cs s2 \<Longrightarrow> allocs s (c' # cs) s2"

lemma allocs_run:
  assumes "allocs s cs s'" "inv s"
  shows "inv s' \<and> (\<forall>c \<in> set cs. owned s' c \<and> frames c \<noteq> {}) \<and> (\<forall>d. owned s d \<longrightarrow> owned s' d)
     \<and> (\<Union>c \<in> set cs. frames c) \<subseteq> free s \<and> free s' = free s - (\<Union>c \<in> set cs. frames c)
     \<and> enabled s' = enabled s"
  using assms
proof (induction rule: allocs.induct)
  case (allocs_Cons c r s c' s1 cs s2)
  note a = alloc_ok [OF allocs_Cons.prems allocs_Cons.hyps(1)]
  have "owned s1 d" if "owned s d" for d by (rule alloc_owned [OF allocs_Cons.prems allocs_Cons.hyps(1) that])
  then show ?case using a allocs_Cons.IH by auto
qed auto

text \<open>No two chunks of a run share a frame.\<close>

lemma allocs_disjoint:
  assumes "allocs s cs s'" "inv s"
  shows "sorted_wrt (\<lambda>c d. frames c \<inter> frames d = {}) cs"
  using assms
proof (induction rule: allocs.induct)
  case (allocs_Cons c r s c' s1 cs s2)
  note a = alloc_ok [OF allocs_Cons.prems allocs_Cons.hyps(1)]
  have "(\<Union>c \<in> set cs. frames c) \<subseteq> free s1" using allocs_run [OF allocs_Cons.hyps(2)] a by blast
  then have "frames c' \<inter> frames d = {}" if "d \<in> set cs" for d using a that by blast
  then show ?case using allocs_Cons.IH a by simp
qed simp

text \<open>A run is never longer than the number of free frames it started from.\<close>

lemma allocs_bound:
  assumes "allocs s cs s'" "inv s"
  shows "length cs + card (free s') \<le> card (free s)"
  using assms
proof (induction rule: allocs.induct)
  case (allocs_Cons c r s c' s1 cs s2)
  note a = alloc_ok [OF allocs_Cons.prems allocs_Cons.hyps(1)]
  have "free s1 \<subset> free s" using a by auto
  then have "card (free s1) < card (free s)" by (rule psubset_card_mono [OF finite_free [OF allocs_Cons.prems]])
  then show ?case using allocs_Cons.IH a by simp
qed simp

text \<open>An allocator that still has a free frame can go on.\<close>

lemma alloc_progress:
  assumes "inv s" "free s \<noteq> {}"
  shows "\<exists>c' s'. alloc c r s = Some (0, c', s')"
  using alloc_total [OF assms(1), of c r] alloc_fail [OF assms(1), of c r] assms(2) by auto

fun dealloc_all :: "'c list \<Rightarrow> 's \<Rightarrow> 's option" where
  "dealloc_all [] s = Some s"
| "dealloc_all (c # cs) s = Option.bind (dealloc c s) (dealloc_all cs)"

lemma dealloc_all_ok:
  assumes "inv s" "\<forall>c \<in> set cs. owned s c"
  shows "\<exists>s'. dealloc_all cs s = Some s' \<and> inv s' \<and> enabled s' = enabled s
     \<and> free s' = free s \<union> ((\<Union>c \<in> set cs. frames c) \<inter> enabled s)"
  using assms
proof (induction cs arbitrary: s)
  case (Cons c cs)
  obtain s1 where s1: "dealloc c s = Some s1" "inv s1" "free s1 = free s \<union> (frames c \<inter> enabled s)"
      "enabled s1 = enabled s" "\<forall>d. owned s d \<longrightarrow> owned s1 d"
    using dealloc_ok [of s c] Cons.prems by auto
  then obtain s' where "dealloc_all cs s1 = Some s'" "inv s'" "enabled s' = enabled s"
      "free s' = free s1 \<union> ((\<Union>c \<in> set cs. frames c) \<inter> enabled s)"
    using Cons.IH [of s1] Cons.prems by auto
  then show ?case using s1 by auto
qed simp

text \<open>Giving back every chunk of a run, in any order, restores the free set.\<close>

lemma allocs_dealloc_all:
  assumes "allocs s cs s'" "inv s" "set ds = set cs"
  shows "\<exists>s2. dealloc_all ds s' = Some s2 \<and> inv s2 \<and> free s2 = free s \<and> enabled s2 = enabled s"
proof -
  note r = allocs_run [OF assms(1,2)]
  obtain s2 where "dealloc_all ds s' = Some s2" "inv s2" "enabled s2 = enabled s'"
      "free s2 = free s' \<union> ((\<Union>c \<in> set cs. frames c) \<inter> enabled s')"
    using dealloc_all_ok [of s' ds] r assms(3) by auto
  moreover have "free s \<subseteq> enabled s" by (rule free_enabled [OF assms(2)])
  ultimately show ?thesis using r by auto
qed

end

section \<open>The buddy allocator is a frame allocator\<close>

definition kpm_owned :: "kpm \<Rightarrow> kpm_chunk \<Rightarrow> bool" where
  "kpm_owned s ch \<longleftrightarrow> 4096 dvd unat (chunk_addr ch) \<and> unat (chunk_addr ch) + unat (chunk_size ch) \<le> nf s * 4096"

lemma find_best_fit_order_less: "find_best_fit_order sz < KPM_NORDERS"
  by (auto simp: find_best_fit_order_def Let_def find_upt_Some_iff KPM_NORDERS_def split: option.splits)

lemma div_page_up: "(a * 4096 + b * 4096 + 4095) div 4096 = a + (b :: nat)"
  by simp

lemma allocated_frames:
  assumes "kpm_layout (buddy s)" "allocated n i s ch s'" "n < KPM_NORDERS"
  shows "chunk_frames ch = block_frames n i" "kpm_owned s ch" "block_frames n i \<noteq> {}"
proof -
  have a: "unat (chunk_addr ch) = i * 2 ^ n * 4096" "unat (chunk_size ch) = 2 ^ n * 4096" "i < nf s div 2 ^ n"
    using assms(2) by (simp_all add: allocated_def power_add)
  show "chunk_frames ch = block_frames n i"
    unfolding chunk_frames_def block_frames_def a(1,2) div_page_up by (simp add: add.commute)
  show "kpm_owned s ch"
    unfolding kpm_owned_def a(1,2)
    using mult_le_mono1 [OF block_end [OF assms(1,3) a(3)], of 4096] by (simp add: add_mult_distrib)
  show "block_frames n i \<noteq> {}" by (simp add: block_frames_def)
qed

lemma kpm_alloc_cases:
  assumes "kpm_inv s"
  shows "(\<exists>n i ch' s'. kpm_alloc ch sz s = Some (0, ch', s') \<and> n \<le> find_best_fit_order sz \<and> allocated n i s ch' s'
            \<and> buddy s' = buddy s \<and> kpm_inv s' \<and> tables_only s s'
            \<and> (\<forall>i' < i. \<not> block_frames n i' \<subseteq> free_frames s)
            \<and> (\<forall>n' i'. n < n' \<and> n' \<le> find_best_fit_order sz \<and> i' < nf s div 2 ^ n' \<longrightarrow> \<not> block_frames n' i' \<subseteq> free_frames s))
       \<or> (kpm_alloc ch sz s = Some (-1, ch, s) \<and> free_frames s = {})"
proof -
  have "j \<notin> free_frames s" if "\<forall>n' i'. n' < Suc (find_best_fit_order sz) \<and> i' < nf s div 2 ^ n' \<longrightarrow> \<not> block_frames n' i' \<subseteq> free_frames s" for j
  proof
    assume j: "j \<in> free_frames s"
    then have "block_frames 0 j \<subseteq> free_frames s" by (auto simp: block_frames_def)
    moreover have "j < nf s div 2 ^ 0" using j by (simp add: free_frames_def)
    ultimately show False using that by blast
  qed
  then show ?thesis
    using kpm_alloc_loop_spec [OF assms Suc_leI [OF find_best_fit_order_less], of sz ch]
    unfolding kpm_alloc_def less_Suc_eq_le by blast
qed

lemma kpm_free_frames:
  assumes "kpm_inv s" "kpm_owned s ch"
  shows "\<exists>s'. kpm_free ch s = Some s' \<and> buddy s' = buddy s \<and> kpm_inv s' \<and> tables_only s s'
     \<and> free_frames s' = free_frames s \<union> (chunk_frames ch \<inter> enabled_set s) \<and> enabled_set s' = enabled_set s"
proof -
  obtain s' where "kpm_free ch s = Some s'" "buddy s' = buddy s" "kpm_inv s'" "tables_only s s'"
    "\<forall>j < nf s. ebit s' j = ebit s j \<and> kbit s' 0 j = (kbit s 0 j \<and> \<not> (j \<in> chunk_frames ch \<and> ebit s j))"
    using kpm_free_spec [of s ch] assms unfolding kpm_owned_def by blast
  then show ?thesis by (auto simp: free_frames_def enabled_set_def)
qed

interpretation kpm: frame_allocator kpm_inv free_frames enabled_set chunk_frames kpm_owned kpm_alloc kpm_free
proof
  fix s c r c' s' x d
  assume inv: "kpm_inv s"
  note lay = kpm_invD(1) [OF inv]
  show "finite (free_frames s)" by (simp add: free_frames_def)
  show "free_frames s \<subseteq> enabled_set s"
    using kpm_invD(4) [OF inv] by (auto simp: free_frames_def enabled_set_def enabled_inv_def)
  show "(\<exists>c' s'. kpm_alloc c r s = Some (0, c', s')) \<or> kpm_alloc c r s = Some (-1, c, s)"
    using kpm_alloc_cases [OF inv, of c r] by blast
  show "free_frames s = {}" if "kpm_alloc c r s = Some (-1, c', s')"
    using kpm_alloc_cases [OF inv, of c r] that by auto
  show "kpm_owned s' d" if "kpm_alloc c r s = Some (x, c', s')" "kpm_owned s d"
    using kpm_alloc_cases [OF inv, of c r] that by (auto simp: kpm_owned_def)
  show "\<exists>s'. kpm_free c s = Some s' \<and> kpm_inv s' \<and> free_frames s' = free_frames s \<union> (chunk_frames c \<inter> enabled_set s)
      \<and> enabled_set s' = enabled_set s \<and> (\<forall>d. kpm_owned s d \<longrightarrow> kpm_owned s' d)" if "kpm_owned s c"
    using kpm_free_frames [OF inv that] by (auto simp: kpm_owned_def)
  assume "kpm_alloc c r s = Some (0, c', s')"
  then obtain n i where n: "n \<le> find_best_fit_order r" "buddy s' = buddy s" "kpm_inv s'" "allocated n i s c' s'"
    using kpm_alloc_cases [OF inv, of c r] by auto
  then have "n < KPM_NORDERS" using find_best_fit_order_less [of r] by simp
  note f = allocated_frames [OF lay n(4) this]
  show "kpm_inv s' \<and> kpm_owned s' c' \<and> chunk_frames c' \<noteq> {} \<and> chunk_frames c' \<subseteq> free_frames s
        \<and> free_frames s' = free_frames s - chunk_frames c' \<and> enabled_set s' = enabled_set s"
    using n f by (simp add: allocated_def kpm_owned_def)
qed

section \<open>Memory that is not the allocator's\<close>

text \<open>The invariant and the sets of frames depend on the bitmaps only.\<close>

lemma kpm_bits_cong:
  assumes "kpm_layout (buddy s)" "buddy s' = buddy s" "\<forall>a \<in> kpm_tables (buddy s). kmem s' a = kmem s a"
  shows "slot s n i \<Longrightarrow> kbit s' n i = kbit s n i" "j < nf s \<Longrightarrow> ebit s' j = ebit s j"
proof -
  show "kbit s' n i = kbit s n i" if "slot s n i"
  proof -
    have "bm s n + of_nat (i div 8) \<in> kpm_tables (buddy s)"
      using slot_addr [OF that assms(1)] that by (auto simp: kpm_tables_def slot_def)
    then show ?thesis using assms(2,3) by (simp add: kbit_def)
  qed
  show "ebit s' j = ebit s j" if "j < nf s"
    using eslot_addr [OF that assms(1)] assms(2,3) by (auto simp: ebit_def kpm_tables_def)
qed

lemma kpm_inv_cong:
  assumes "kpm_inv s" "buddy s' = buddy s" "\<forall>a \<in> kpm_tables (buddy s). kmem s' a = kmem s a"
  shows "kpm_inv s'" "free_frames s' = free_frames s" "enabled_set s' = enabled_set s"
proof -
  note lay = kpm_invD(1) [OF assms(1)]
  note bits = kpm_bits_cong [OF lay assms(2,3)]
  have sl: "slot s' n i = slot s n i" for n i by (simp add: slot_def assms(2))
  have "tree_inv s'"
    unfolding tree_inv_def assms(2)
  proof (intro allI impI, elim conjE)
    fix n i assume n: "0 < n" "n < KPM_NORDERS" "i < nf s div 2 ^ n"
    have c: "2 * i + 1 < nf s div 2 ^ (n - 1)" by (rule valid_child [OF lay n])
    then have "slot s n i" "slot s (n - 1) (2 * i)" "slot s (n - 1) (2 * i + 1)"
      using n by (auto intro!: slot_valid)
    then show "kbit s' n i \<longleftrightarrow> kbit s' (n - 1) (2 * i) \<or> kbit s' (n - 1) (2 * i + 1)"
      using kpm_invD(2) [OF assms(1)] n by (simp add: bits tree_inv_def)
  qed
  moreover have "pad_inv s'" using kpm_invD(3) [OF assms(1)] by (auto simp: pad_inv_def sl bits assms(2))
  moreover have "enabled_inv s'"
    using kpm_invD(4) [OF assms(1)] slot0 [of _ s] by (simp add: enabled_inv_def bits assms(2))
  ultimately show "kpm_inv s'" using lay by (simp add: kpm_inv_def assms(2))
  show "free_frames s' = free_frames s" "enabled_set s' = enabled_set s"
    using slot0 [of _ s] by (auto simp: free_frames_def enabled_set_def bits assms(2))
qed

section \<open>A machine to evaluate the properties on\<close>

text \<open>32 MiB of memory, the kernel from 1 MiB up to 1 MiB + 128 KiB.\<close>

definition demo_mmap :: "mmap_entry list" where
  "demo_mmap =
     [\<lparr>entry_size = 20, entry_addr = 0, entry_len = 0x9F000, entry_type = 1\<rparr>,
      \<lparr>entry_size = 20, entry_addr = 0xF0000, entry_len = 0x10000, entry_type = 2\<rparr>,
      \<lparr>entry_size = 20, entry_addr = 0x100000, entry_len = 0x1F00000, entry_type = 1\<rparr>,
      \<lparr>entry_size = 0, entry_addr = 0, entry_len = 0, entry_type = 0\<rparr>]"

definition demo_init :: "kpm option" where
  "demo_init = kpm_init 0x100000 0xC0120000 demo_mmap 32768 (\<lambda>_. 0)"

lemma demo_nf: "nf (kpm_init_layout 0xC0120000 32768 (\<lambda>_. 0)) = 8192"
  by (simp only: init_layout_fields(3)) simp

lemma order_off_numeral: "order_off N (numeral k) = nbytes N + order_off (N div 2) (pred_numeral k)"
  by (simp add: numeral_eq_Suc)

lemma demo_kernel_frames: "kernel_frames 0x100000 0xC0120000 8192 = {256..<289}"
  by (simp add: kernel_frames_def KERNEL_VIRT_OFFSET_def nbytes_def KPM_NORDERS_def order_off_numeral)

lemma demo_state:
  "\<exists>s. demo_init = Some s \<and> kpm_inv s \<and> nf s = 8192 \<and> free_frames s = enabled_set s
     \<and> free_frames s = {1..<159} \<union> {289..<8192}"
proof -
  have "\<exists>s. demo_init = Some s \<and> kpm_inv s \<and> nf s = 8192 \<and> free_frames s = enabled_set s
     \<and> free_frames s = (\<Union>e \<in> set (takeWhile (\<lambda>e. entry_size e \<noteq> 0) demo_mmap). entry_frames 8192 e)
                          - insert 0 (kernel_frames 0x100000 0xC0120000 8192)"
    unfolding demo_init_def using kpm_init_frames [where es = demo_mmap and ek = "0xC0120000" and memkb = "32768" and m = "\<lambda>_. 0" and sk = "0x100000"]
    by (simp add: demo_nf demo_mmap_def entry_ok_def entry_used_def KERNEL_VIRT_OFFSET_def MULTIBOOT_MEMORY_AVAILABLE_def) blast
  moreover have "(\<Union>e \<in> set (takeWhile (\<lambda>e. entry_size e \<noteq> 0) demo_mmap). entry_frames 8192 e)
                          - insert 0 (kernel_frames 0x100000 0xC0120000 8192) = {1..<159} \<union> {289..<8192}"
    by (auto simp: demo_mmap_def entry_frames_def entry_used_def MULTIBOOT_MEMORY_AVAILABLE_def demo_kernel_frames)
  ultimately show ?thesis by simp
qed

section \<open>Correctness properties\<close>

text \<open>
  C12: on a memory map whose available entries lie below 4 GiB and start inside memory, and a kernel
  image that ends inside memory, \<^verbatim>\<open>kpm_init\<close> returns, establishes the allocator invariant, and leaves
  free exactly the whole frames of the available entries less frame 0, the kernel image and the
  allocator's own tables.
\<close>

theorem kpm_init_correct:
  assumes "\<forall>e \<in> set es. entry_ok (nf (kpm_init_layout ek memkb m)) e" "\<exists>e \<in> set es. entry_size e = 0"
    and "KERNEL_VIRT_OFFSET \<le> ek" "unat ek \<le> 0xFFFFF000" "4096 dvd unat sk"
    and "unat sk \<le> unat (ek - KERNEL_VIRT_OFFSET)"
    and "unat (ek - KERNEL_VIRT_OFFSET) \<le> nf (kpm_init_layout ek memkb m) * 4096"
  shows "\<exists>s. kpm_init sk ek es memkb m = Some s \<and> kpm_inv s
     \<and> nf s = unat (memkb * 1024) div 4096 div 1024 * 1024 \<and> free_frames s = enabled_set s
     \<and> free_frames s = (\<Union>e \<in> set (takeWhile (\<lambda>e. entry_size e \<noteq> 0) es). entry_frames (nf s) e)
                          - insert 0 (kernel_frames sk ek (nf s))"
  using kpm_init_frames [OF assms] init_layout_fields(3) [of ek memkb m] by auto

theorem kpm_init_correct_witness:
  "\<exists>s. kpm_init 0x100000 0xC0120000 demo_mmap 32768 (\<lambda>_. 0) = Some s \<and> kpm_inv s \<and> nf s = 8192
     \<and> free_frames s = enabled_set s"
  using kpm_init_correct [where es = demo_mmap and ek = "0xC0120000" and memkb = "32768" and m = "\<lambda>_. 0" and sk = "0x100000"]
  by (auto simp: demo_nf demo_mmap_def entry_ok_def entry_used_def KERNEL_VIRT_OFFSET_def MULTIBOOT_MEMORY_AVAILABLE_def)

text \<open>
  C1: from a state with the invariant \<^verbatim>\<open>kpm_alloc\<close> always returns.  Either it gives 0 and an aligned
  block of some order up to the best fit: the lowest free block of the highest order that has one,
  whose frames were all free and are removed from the free set, nothing else changing; or it gives
  -1, the state and the chunk are as before, and no frame is free.
\<close>

theorem kpm_alloc_correct:
  assumes "kpm_inv s"
  shows "(\<exists>n i ch' s'. kpm_alloc ch sz s = Some (0, ch', s') \<and> kpm_inv s' \<and> n \<le> find_best_fit_order sz
            \<and> unat (chunk_addr ch') = i * bsize n \<and> unat (chunk_size ch') = bsize n
            \<and> chunk_frames ch' = block_frames n i \<and> block_frames n i \<subseteq> free_frames s
            \<and> free_frames s' = free_frames s - block_frames n i \<and> enabled_set s' = enabled_set s \<and> buddy s' = buddy s
            \<and> (\<forall>i' < i. \<not> block_frames n i' \<subseteq> free_frames s)
            \<and> (\<forall>n' i'. n < n' \<and> n' \<le> find_best_fit_order sz \<and> i' < nf s div 2 ^ n' \<longrightarrow> \<not> block_frames n' i' \<subseteq> free_frames s))
       \<or> (kpm_alloc ch sz s = Some (-1, ch, s) \<and> free_frames s = {})"
  using kpm_alloc_cases [OF assms, of ch sz]
proof (elim disjE exE conjE)
  fix n i ch' s'
  assume a: "kpm_alloc ch sz s = Some (0, ch', s')" "n \<le> find_best_fit_order sz" "allocated n i s ch' s'"
      "buddy s' = buddy s" "kpm_inv s'"
    and least: "\<forall>i' < i. \<not> block_frames n i' \<subseteq> free_frames s"
      "\<forall>n' i'. n < n' \<and> n' \<le> find_best_fit_order sz \<and> i' < nf s div 2 ^ n' \<longrightarrow> \<not> block_frames n' i' \<subseteq> free_frames s"
  have "n < KPM_NORDERS" using a(2) find_best_fit_order_less [of sz] by simp
  then have "chunk_frames ch' = block_frames n i"
    by (rule allocated_frames(1) [OF kpm_invD(1) [OF assms] a(3)])
  with a least show ?thesis unfolding allocated_def by blast
qed simp

theorem kpm_alloc_correct_witness:
  "\<exists>s n i ch' s'. demo_init = Some s \<and> kpm_alloc \<lparr>chunk_addr = 0, chunk_size = 0\<rparr> 5000 s = Some (0, ch', s')
     \<and> kpm_inv s' \<and> n \<le> find_best_fit_order 5000 \<and> block_frames n i \<subseteq> free_frames s
     \<and> free_frames s' = free_frames s - block_frames n i"
proof -
  obtain s where s: "demo_init = Some s" "kpm_inv s" "free_frames s \<noteq> {}" using demo_state by auto
  show ?thesis
    using kpm_alloc_correct [OF s(2), of "\<lparr>chunk_addr = 0, chunk_size = 0\<rparr>" 5000] s(1,3) by blast
qed

text \<open>
  C2: \<^verbatim>\<open>kpm_free\<close> of an aligned chunk inside memory returns, keeps the invariant, and adds to the
  free set exactly the enabled frames the chunk meets, a last partial frame included.  An unaligned
  chunk leaves the state as it is.
\<close>

theorem kpm_free_correct:
  assumes "kpm_inv s" "unat (chunk_addr ch) + unat (chunk_size ch) \<le> nf s * 4096"
  shows "\<exists>s'. kpm_free ch s = Some s' \<and> kpm_inv s' \<and> enabled_set s' = enabled_set s
     \<and> (if 4096 dvd unat (chunk_addr ch)
         then free_frames s' = free_frames s \<union> (chunk_frames ch \<inter> enabled_set s) else s' = s)"
proof (cases "4096 dvd unat (chunk_addr ch)")
  case True
  then show ?thesis using kpm_free_frames [of s ch] assms by (auto simp: kpm_owned_def)
next
  case False
  then show ?thesis using assms(1) by (simp add: kpm_free_def page_aligned_iff)
qed

theorem kpm_free_correct_witness:
  "\<exists>s s'. demo_init = Some s \<and> kpm_free \<lparr>chunk_addr = 0x9E000, chunk_size = 0x2000\<rparr> s = Some s'
     \<and> kpm_inv s' \<and> free_frames s' = free_frames s"
proof -
  obtain s where s: "demo_init = Some s" "kpm_inv s" "nf s = 8192" "free_frames s = enabled_set s"
    using demo_state by auto
  show ?thesis
    using kpm_free_correct [OF s(2), of "\<lparr>chunk_addr = 0x9E000, chunk_size = 0x2000\<rparr>"] s(1,3,4) by auto
qed

text \<open>
  C4: from a state with the invariant \<^verbatim>\<open>kpm_alloc\<close>, and \<^verbatim>\<open>kpm_free\<close> of a chunk inside memory, write only
  the allocator's own bitmaps; and any change of memory outside the bitmaps keeps the invariant and the
  sets of free and enabled frames.
\<close>

theorem kpm_memory_safe:
  assumes "kpm_inv s"
  shows "(\<exists>r ch' s'. kpm_alloc ch sz s = Some (r, ch', s') \<and> (\<forall>a. a \<notin> kpm_tables (buddy s) \<longrightarrow> kmem s' a = kmem s a))
    \<and> (kpm_owned s ch \<longrightarrow> (\<exists>s'. kpm_free ch s = Some s' \<and> (\<forall>a. a \<notin> kpm_tables (buddy s) \<longrightarrow> kmem s' a = kmem s a)))
    \<and> ((\<forall>a \<in> kpm_tables (buddy s). m a = kmem s a) \<longrightarrow>
        kpm_inv (s\<lparr>kmem := m\<rparr>) \<and> free_frames (s\<lparr>kmem := m\<rparr>) = free_frames s \<and> enabled_set (s\<lparr>kmem := m\<rparr>) = enabled_set s)"
proof (intro conjI impI)
  show "\<exists>r ch' s'. kpm_alloc ch sz s = Some (r, ch', s') \<and> (\<forall>a. a \<notin> kpm_tables (buddy s) \<longrightarrow> kmem s' a = kmem s a)"
    using kpm_alloc_cases [OF assms, of ch sz] by (auto simp: tables_only_def)
  show "\<exists>s'. kpm_free ch s = Some s' \<and> (\<forall>a. a \<notin> kpm_tables (buddy s) \<longrightarrow> kmem s' a = kmem s a)" if "kpm_owned s ch"
    using kpm_free_frames [OF assms that] by (auto simp: tables_only_def)
qed (use kpm_inv_cong [OF assms, of "s\<lparr>kmem := m\<rparr>"] in simp_all)

theorem kpm_memory_safe_witness:
  "\<exists>s. demo_init = Some s \<and> kpm_inv s
     \<and> (\<exists>r ch' s'. kpm_alloc \<lparr>chunk_addr = 0, chunk_size = 0\<rparr> 5000 s = Some (r, ch', s')
          \<and> (\<forall>a. a \<notin> kpm_tables (buddy s) \<longrightarrow> kmem s' a = kmem s a))
     \<and> kpm_owned s \<lparr>chunk_addr = 0x1000, chunk_size = 4096\<rparr>
     \<and> (\<exists>s'. kpm_free \<lparr>chunk_addr = 0x1000, chunk_size = 4096\<rparr> s = Some s')
     \<and> free_frames (s\<lparr>kmem := kmem s\<rparr>) = free_frames s"
proof -
  obtain s where s: "demo_init = Some s" "kpm_inv s" "nf s = 8192" using demo_state by auto
  have own: "kpm_owned s \<lparr>chunk_addr = 0x1000, chunk_size = 4096\<rparr>" by (simp add: kpm_owned_def s)
  show ?thesis
    using s own kpm_memory_safe [OF s(2), of "\<lparr>chunk_addr = 0, chunk_size = 0\<rparr>" 5000 "kmem s"]
      kpm_memory_safe [OF s(2), of "\<lparr>chunk_addr = 0x1000, chunk_size = 4096\<rparr>"] by blast
qed

text \<open>
  C11: after any run of successful \<^verbatim>\<open>kpm_alloc\<close> calls the chunks share no frame, all their frames were
  free and enabled, and there are at most as many chunks as there were free frames.
\<close>

theorem kpm_allocs_disjoint:
  assumes "kpm.allocs s cs s'" "kpm_inv s"
  shows "sorted_wrt (\<lambda>c d. chunk_frames c \<inter> chunk_frames d = {}) cs
     \<and> (\<Union>c \<in> set cs. chunk_frames c) \<subseteq> free_frames s \<inter> enabled_set s
     \<and> length cs + card (free_frames s') \<le> card (free_frames s) \<and> kpm_inv s'"
  using kpm.allocs_disjoint [OF assms] kpm.allocs_run [OF assms] kpm.allocs_bound [OF assms]
    kpm.free_enabled [OF assms(2)] by auto

theorem kpm_allocs_disjoint_witness:
  "\<exists>s c1 c2 s'. demo_init = Some s \<and> kpm.allocs s [c1, c2] s' \<and> chunk_frames c1 \<inter> chunk_frames c2 = {}"
proof -
  obtain s where s: "demo_init = Some s" "kpm_inv s" "free_frames s = {1..<159} \<union> {289..<8192}" using demo_state by auto
  let ?c = "\<lparr>chunk_addr = 0, chunk_size = 0\<rparr>"
  have ne: "free_frames s \<noteq> {}" unfolding s(3) by simp
  obtain c1 s1 where 1: "kpm_alloc ?c 4096 s = Some (0, c1, s1)" using kpm.alloc_progress [OF s(2) ne] by blast
  note ok = kpm.alloc_ok [OF s(2) 1]
  have best: "find_best_fit_order 4096 = 0"
    using find_best_fit_order_spec(3) [of 4096 0] by (cases "find_best_fit_order 4096") simp_all
  obtain i where "allocated 0 i s c1 s1"
    using kpm_alloc_cases [OF s(2), of ?c 4096] 1 unfolding best by auto
  then have ni: "chunk_frames c1 = block_frames 0 i"
    by (rule allocated_frames(1) [OF kpm_invD(1) [OF s(2)]]) (simp add: KPM_NORDERS_def)
  have "free_frames s1 = ({1..<159} \<union> {289..<8192}) - {i}" using ok s(3) by (simp add: ni block_frames_def)
  then have "(if i = 1 then 2 else 1) \<in> free_frames s1" by simp
  then have ne1: "free_frames s1 \<noteq> {}" by blast
  have inv1: "kpm_inv s1" using ok by simp
  obtain c2 s2 where 2: "kpm_alloc ?c 4096 s1 = Some (0, c2, s2)" using kpm.alloc_progress [OF inv1 ne1] by blast
  have run: "kpm.allocs s [c1, c2] s2" by (rule kpm.allocs_Cons [OF 1 kpm.allocs_Cons [OF 2 kpm.allocs_Nil]])
  show ?thesis using kpm_allocs_disjoint [OF run s(2)] run s(1) by auto
qed

text \<open>
  C9: giving back the chunks of a run of allocations, in any order, succeeds and restores the free
  set.
\<close>

theorem kpm_alloc_free_roundtrip:
  assumes "kpm.allocs s cs s'" "kpm_inv s" "set ds = set cs"
  shows "\<exists>s2. kpm.dealloc_all ds s' = Some s2 \<and> kpm_inv s2 \<and> free_frames s2 = free_frames s \<and> enabled_set s2 = enabled_set s"
  by (rule kpm.allocs_dealloc_all [OF assms])

theorem kpm_alloc_free_roundtrip_witness:
  "\<exists>s c s1 s2. demo_init = Some s \<and> kpm_alloc \<lparr>chunk_addr = 0, chunk_size = 0\<rparr> 9000 s = Some (0, c, s1)
     \<and> kpm_free c s1 = Some s2 \<and> free_frames s2 = free_frames s"
proof -
  obtain s where s: "demo_init = Some s" "kpm_inv s" "free_frames s \<noteq> {}" using demo_state by auto
  obtain c s1 where 1: "kpm_alloc \<lparr>chunk_addr = 0, chunk_size = 0\<rparr> 9000 s = Some (0, c, s1)"
    using kpm.alloc_progress [OF s(2,3)] by fastforce
  have run: "kpm.allocs s [c] s1" by (rule kpm.allocs_Cons [OF 1 kpm.allocs_Nil])
  show ?thesis
    using kpm_alloc_free_roundtrip [OF run s(2), of "[c]"] s(1) 1 by (auto split: bind_splits)
qed

text \<open>
  \<^verbatim>\<open>kpm_enable\<close> on an aligned region that starts inside memory makes its whole frames, up to the end
  of memory, enabled and free; \<^verbatim>\<open>kpm_disable\<close> makes every frame the region meets neither.  Both
  return and keep the invariant, and both ignore an unaligned region.
\<close>

theorem kpm_enable_disable_correct:
  assumes "kpm_inv s" "unat base \<le> nf s * 4096" "unat base + unat limit + 4096 \<le> 4294967296"
  shows "(\<exists>s'. kpm_enable base limit s = Some s' \<and> kpm_inv s'
            \<and> (if 4096 dvd unat base
                then free_frames s' = free_frames s \<union> region base (unat limit div 4096) s
                  \<and> enabled_set s' = enabled_set s \<union> region base (unat limit div 4096) s
                else s' = s))
       \<and> (\<exists>s'. kpm_disable base limit s = Some s' \<and> kpm_inv s'
            \<and> (if 4096 dvd unat base
                then free_frames s' = free_frames s - region base ((unat limit + 4095) div 4096) s
                  \<and> enabled_set s' = enabled_set s - region base ((unat limit + 4095) div 4096) s
                else s' = s))"
proof (cases "4096 dvd unat base")
  case True
  have "unat base + unat limit < 4294967296" using assms(3) by simp
  from kpm_enable_frames [OF assms(1) True assms(2) this] kpm_disable_frames [OF assms(1) True assms(2,3)] True
  show ?thesis by auto
next
  case False
  then show ?thesis using assms(1) by (simp add: kpm_enable_def kpm_disable_def page_aligned_iff)
qed

theorem kpm_enable_disable_correct_witness:
  "\<exists>s s'. demo_init = Some s \<and> kpm_disable 0x2000 5000 s = Some s' \<and> free_frames s' = free_frames s - {2..<4}"
proof -
  obtain s where s: "demo_init = Some s" "kpm_inv s" "nf s = 8192" using demo_state by auto
  have "region 0x2000 2 s = {2..<4}" using s(3) by (simp add: region_def)
  then show ?thesis using kpm_enable_disable_correct [OF s(2), of "0x2000" 5000] s(1,3) by auto
qed

text \<open>
  Under the invariant the bit of a block of any order is clear exactly when every frame of the
  block is free, and then all of them are enabled: a buddy that \<^verbatim>\<open>kpm_alloc\<close> may hand out never
  overlaps an allocated or a disabled frame.
\<close>

theorem kpm_block_bit:
  assumes "kpm_inv s" "n < KPM_NORDERS" "i < nf s div 2 ^ n"
  shows "KPM_IS_ALLOCATED n (of_nat i) s \<longleftrightarrow> \<not> block_frames n i \<subseteq> free_frames s \<inter> enabled_set s"
proof -
  have "slot s n i" by (rule slot_valid [OF assms(2,3)])
  then have "KPM_IS_ALLOCATED n (of_nat i) s \<longleftrightarrow> kbit s n i"
    by (intro KPM_IS_ALLOCATED_kbit slot_less [OF _ kpm_invD(1) [OF assms(1)]])
  then show ?thesis using block_free_iff [OF assms] kpm.free_enabled [OF assms(1)] by auto
qed

theorem kpm_block_bit_witness:
  "\<exists>s. demo_init = Some s \<and> KPM_IS_ALLOCATED 3 (of_nat 0) s \<and> \<not> KPM_IS_ALLOCATED 3 (of_nat 1) s"
proof -
  obtain s where s: "demo_init = Some s" "kpm_inv s" "nf s = 8192" "free_frames s = enabled_set s"
      "free_frames s = {1..<159} \<union> {289..<8192}" using demo_state by auto
  have "0 \<in> block_frames 3 0" "0 \<notin> free_frames s" "block_frames 3 1 \<subseteq> free_frames s"
    by (auto simp: block_frames_def s(5))
  then show ?thesis
    using kpm_block_bit [OF s(2), of 3 0] kpm_block_bit [OF s(2), of 3 1] s(1,3,4) by (auto simp: KPM_NORDERS_def)
qed

text \<open>
  \<^verbatim>\<open>kpm_isalloc\<close> and \<^verbatim>\<open>kpm_isenabled\<close> answer for the frame the address lies in.
\<close>

theorem kpm_queries:
  assumes "kpm_layout (buddy s)" "unat addr < nf s * 4096"
  shows "(kpm_isalloc addr s \<longleftrightarrow> unat addr div 4096 \<notin> free_frames s)
       \<and> (kpm_isenabled addr s \<longleftrightarrow> unat addr div 4096 \<in> enabled_set s)"
proof -
  have j: "unat addr div 4096 < nf s" using assms(2) by (simp add: less_mult_imp_div_less)
  have "addr div PAGE_SIZE = of_nat (unat addr div 4096)" using of_nat_frame [of addr 0] by simp
  moreover have "unat addr div 4096 < 4294967296" using nf_less [OF assms(1) j] .
  ultimately show ?thesis
    using j KPM_IS_ALLOCATED_kbit [of "unat addr div 4096" 0 s] KPM_IS_ENABLED_ebit [of "unat addr div 4096" s]
    by (simp add: kpm_isalloc_def kpm_isenabled_def free_frames_def enabled_set_def)
qed

theorem kpm_queries_witness: "\<exists>s. demo_init = Some s \<and> kpm_isalloc 0 s \<and> \<not> kpm_isalloc 0x1FFF s \<and> kpm_isenabled 0x1FFF s"
proof -
  obtain s where s: "demo_init = Some s" "kpm_inv s" "nf s = 8192" "free_frames s = enabled_set s"
      "free_frames s = {1..<159} \<union> {289..<8192}" using demo_state by auto
  have "0 \<notin> free_frames s" "1 \<in> free_frames s" by (simp_all add: s(5))
  then show ?thesis
    using kpm_queries [OF kpm_invD(1) [OF s(2)], of 0] kpm_queries [OF kpm_invD(1) [OF s(2)], of "0x1FFF"] s(1,3,4)
    by (intro exI [of _ s]) simp
qed

text \<open>
  \<^verbatim>\<open>find_best_fit_order\<close> gives the least order whose blocks hold the request, or the top order
  when none does.
\<close>

theorem find_best_fit_order_correct:
  assumes "unat sz + 4096 \<le> 4294967296"
  shows "find_best_fit_order sz =
     (if unat sz \<le> bsize (KPM_NORDERS - 1) then LEAST n. unat sz \<le> bsize n else KPM_NORDERS - 1)"
proof -
  note o = find_best_fit_order_spec [OF assms]
  show ?thesis
  proof (cases "unat sz \<le> bsize (KPM_NORDERS - 1)")
    case True
    then have "unat sz \<le> bsize (find_best_fit_order sz)" using o(2) by auto
    then have "(LEAST n. unat sz \<le> bsize n) = find_best_fit_order sz"
      using o(3) by (intro Least_equality) (auto simp: not_less [symmetric])
    then show ?thesis using True by simp
  next
    case False
    have "bsize (find_best_fit_order sz) \<le> bsize (KPM_NORDERS - 1)"
      using o(1) by (intro power_increasing) auto
    then have "\<not> unat sz \<le> bsize (find_best_fit_order sz)" using False by linarith
    then show ?thesis using o(2) False by simp
  qed
qed

theorem find_best_fit_order_correct_witness:
  "unat (5000 :: u32) + 4096 \<le> 4294967296 \<and> find_best_fit_order 5000 = (LEAST n. (5000 :: nat) \<le> bsize n)"
  using find_best_fit_order_correct [of 5000] by (simp add: KPM_NORDERS_def)

text \<open>The next multiple of 4 MiB never passes an end above the last one: it wraps to 0.\<close>

lemma ALIGNNEXTFORCE_top: "unat (ALIGNNEXTFORCE x 0x400000) \<le> 0xFFC00000"
proof -
  have "ALIGNNEXTFORCE x (2 ^ 22) = ALIGN (x + 2 ^ 22) (2 ^ 22)" by (simp add: ALIGNNEXTFORCE_def ALIGN_def)
  then have "unat (ALIGNNEXTFORCE x 0x400000) = unat (x + 0x400000) div 0x400000 * 0x400000"
    using unat_ALIGN [of "x + 2 ^ 22" 22] by simp
  moreover have "unat (x + 0x400000) div 0x400000 \<le> 1023" using unat_u32_less [of "x + 0x400000"] by linarith
  ultimately show ?thesis by simp
qed

lemma update_order_loop_stuck:
  assumes ret: "kpm_update_order_loop n 0x400000 e base s = Some s'" and e: "0xFFC00000 < unat e"
  shows "e \<le> base"
proof -
  have "z = 0x400000 \<longrightarrow> 0xFFC00000 < unat e \<longrightarrow> e \<le> base"
    if "kpm_update_order_loop n z e base s = Some s'" for z :: u32
  proof (rule kpm_update_order_loop.raw_induct [where P = "\<lambda>n z e base s r. z = 0x400000 \<longrightarrow> 0xFFC00000 < unat e \<longrightarrow> e \<le> base", OF _ that])
    fix f n z e base s s'
    assume IH: "\<And>n z e base s s'. f n z e base s = Some s' \<Longrightarrow> z = 0x400000 \<longrightarrow> 0xFFC00000 < unat e \<longrightarrow> e \<le> base"
      and step: "(if base < e then f n z e (ALIGNNEXTFORCE base z) (kpm_update_block n base s) else Some s) = Some s'"
    show "z = 0x400000 \<longrightarrow> 0xFFC00000 < unat e \<longrightarrow> e \<le> base"
      using IH [of n z e "ALIGNNEXTFORCE base z" "kpm_update_block n base s" s'] step ALIGNNEXTFORCE_top [of base]
      by (auto simp: word_le_nat_alt word_less_nat_alt split: if_splits)
  qed
  then show ?thesis using assms by blast
qed

lemma kpm_update_orders_stuck:
  assumes "0xFFC00000 < unat base + unat limit" "unat base + unat limit < 4294967296" "limit \<noteq> 0"
  shows "kpm_update_orders [1..<KPM_NORDERS] base limit s = None"
proof -
  have sum: "unat (base + limit) = unat base + unat limit" by (rule unat_add_no_wrap) (use assms(2) in simp)
  have "unat limit \<noteq> 0" using assms(3) by (simp add: unat_eq_0)
  then have lt: "\<not> base + limit \<le> base" using sum by (simp add: word_le_nat_alt)
  have stuck: "kpm_update_order 10 base limit s1 = None" for s1
  proof (cases "kpm_update_order 10 base limit s1")
    case (Some s2)
    have "PAGE_SIZE * push_bit 10 1 = 0x400000" by (simp add: PAGE_SIZE_def push_bit_eq_mult)
    then have "base + limit \<le> base"
      using update_order_loop_stuck [of 10 "base + limit" base s1 s2] Some assms(1) sum by (simp add: kpm_update_order_def)
    then show ?thesis using lt by simp
  qed simp
  have "[1..<KPM_NORDERS] = [1..<10] @ [10]" by (simp add: KPM_NORDERS_def upt_conv_Cons)
  then show ?thesis by (simp only: kpm_update_orders_append) (simp add: stuck)
qed

text \<open>
  C38: \<^verbatim>\<open>kpm_free\<close> checks no bound: for an aligned chunk that ends in the last 4 MiB of the address
  space, \<^verbatim>\<open>kpm_update_order\<close> wraps its address to 0 at order 10 and never returns, in any state.
\<close>

theorem kpm_free_never_returns:
  assumes "4096 dvd unat (chunk_addr ch)" "chunk_size ch \<noteq> 0"
    and "0xFFC00000 < unat (chunk_addr ch) + unat (chunk_size ch)" "unat (chunk_addr ch) + unat (chunk_size ch) < 4294967296"
  shows "kpm_free ch s = None"
  using kpm_update_orders_stuck [OF assms(3,4,2)] assms(1) by (simp add: kpm_free_def page_aligned_iff Let_def)

theorem kpm_free_never_returns_witness:
  "\<exists>s. demo_init = Some s \<and> kpm_free \<lparr>chunk_addr = 0x7FFFF000, chunk_size = 0x7FFFFFFF\<rparr> s = None"
proof -
  obtain s where "demo_init = Some s" using demo_state by blast
  then show ?thesis
    using kpm_free_never_returns [of "\<lparr>chunk_addr = 0x7FFFF000, chunk_size = 0x7FFFFFFF\<rparr>" s] by auto
qed

end
