(* ===== verification/System.thy ===== *)
theory System
  imports Output Kpm_Correct
begin

text \<open>
  The invariant of the running kernel: the screens, the literals, the allocator, and the places in
  memory that keep them apart.  Printing, changing colours, and the calls of the allocator all
  keep it.
\<close>

section \<open>The invariant\<close>

definition NSH_SIZE :: nat where "NSH_SIZE = 1024"

definition lit_area :: "image \<Rightarrow> ptr set" where
  "lit_area im = (\<Union>s \<in> set literals. blk (lit im s) (Suc (length s)))"

text \<open>The shell's line, the buffer of \<^verbatim>\<open>kprintf\<close>, the literals and the allocator's bitmaps do not overlap.\<close>

definition layout_ok :: "image \<Rightarrow> ptr set \<Rightarrow> bool" where
  "layout_ok im tabs \<longleftrightarrow> blk (nsh_buf im) NSH_SIZE \<inter> blk (kbuf im) 4096 = {} \<and> blk (nsh_buf im) NSH_SIZE \<inter> lit_area im = {}
     \<and> tabs \<inter> (blk (nsh_buf im) NSH_SIZE \<union> blk (kbuf im) 4096 \<union> lit_area im) = {}"

definition sys_inv :: "image \<Rightarrow> kernel \<Rightarrow> bool" where
  "sys_inv im k \<longleftrightarrow> con_inv k \<and> lits_ok im (ram k) \<and> kpm_inv (phys k) \<and> layout_ok im (kpm_tables (buddy (phys k)))"

abbreviation free_in :: "kernel \<Rightarrow> nat set" where "free_in k \<equiv> free_frames (phys k)"
abbreviation enabled_in :: "kernel \<Rightarrow> nat set" where "enabled_in k \<equiv> enabled_set (phys k)"

lemma sys_invD:
  assumes "sys_inv im k"
  shows "con_inv k" "lits_ok im (ram k)" "kpm_inv (phys k)" "layout_ok im (kpm_tables (buddy (phys k)))"
  using assms by (simp_all add: sys_inv_def)

lemma lits_ok_cong:
  assumes "lits_ok im m" "\<forall>a \<in> lit_area im. m' a = m a"
  shows "lits_ok im m'"
  unfolding lits_ok_def
proof
  fix s assume s: "s \<in> set literals"
  then have ok: "lit_ok im m s" using assms(1) by (simp add: lits_ok_def)
  have "cstr m' (lit im s) (bytes s) = cstr m (lit im s) (bytes s)"
    using ok s assms(2) by (intro cstr_cong) (auto simp: lit_ok_def bytes_def lit_area_def)
  then show "lit_ok im m' s" using ok by (simp add: lit_ok_def)
qed

text \<open>Steps that change memory away from the literals and the bitmaps.\<close>

lemma sys_inv_step:
  assumes "sys_inv im k" "con_inv k'" "buddy (phys k') = buddy (phys k)"
    and "\<forall>a \<in> lit_area im \<union> kpm_tables (buddy (phys k)). ram k' a = ram k a"
  shows "sys_inv im k'" "free_in k' = free_in k" "enabled_in k' = enabled_in k"
proof -
  note i = sys_invD [OF assms(1)]
  have "\<forall>a \<in> kpm_tables (buddy (phys k)). kmem (phys k') a = kmem (phys k) a" using assms(4) by blast
  note c = kpm_inv_cong [OF i(3) assms(3) this]
  have "lits_ok im (ram k')" using assms(4) by (intro lits_ok_cong [OF i(2)]) blast
  then show "sys_inv im k'" using c assms(2,3) i(4) by (simp add: sys_inv_def)
  show "free_in k' = free_in k" "enabled_in k' = enabled_in k" using c by simp_all
qed

lemma lit_area_kbuf: "lits_ok im m \<Longrightarrow> lit_area im \<inter> blk (kbuf im) 4096 = {}"
  by (auto simp: lits_ok_def lit_ok_def lit_area_def)

lemma sys_inv_same:
  assumes "sys_inv im k" "con_inv k'" "same_but_screen im k k'"
  shows "sys_inv im k'" "free_in k' = free_in k" "enabled_in k' = enabled_in k"
proof -
  note i = sys_invD [OF assms(1)]
  have "\<forall>a \<in> lit_area im \<union> kpm_tables (buddy (phys k)). ram k' a = ram k a"
    using assms(3) lit_area_kbuf [OF i(2)] i(4) unfolding same_but_screen_def layout_ok_def by blast
  moreover have "buddy (phys k') = buddy (phys k)" using assms(3) by (simp add: same_but_screen_def)
  ultimately show "sys_inv im k'" "free_in k' = free_in k" "enabled_in k' = enabled_in k"
    using sys_inv_step [OF assms(1,2)] by blast+
qed

section \<open>Printing and colours\<close>

text \<open>A step that only prints or changes colours of the current screen, and does not leave it untidy.\<close>

definition scr_step :: "image \<Rightarrow> kernel \<Rightarrow> kernel \<Rightarrow> bool" where
  "scr_step im k k' \<longleftrightarrow> con_inv k' \<and> same_but_screen im k k' \<and> (tidy k \<longrightarrow> tidy k')"

lemma scr_step_refl: "con_inv k \<Longrightarrow> scr_step im k k"
  by (simp add: scr_step_def)

lemma scr_step_trans: "scr_step im k k1 \<Longrightarrow> scr_step im k1 k2 \<Longrightarrow> scr_step im k k2"
  by (auto simp: scr_step_def intro: same_but_screen_trans)

lemma says_scr_step: "says im k t k' \<Longrightarrow> set t \<inter> {0, 8, 9} = {} \<Longrightarrow> con_inv k \<Longrightarrow> scr_step im k k'"
  using says_tidy [of im k t k'] by (simp add: says_def scr_step_def)

lemma sys_inv_scr_step: "sys_inv im k \<Longrightarrow> scr_step im k k' \<Longrightarrow> sys_inv im k' \<and> free_in k' = free_in k \<and> enabled_in k' = enabled_in k"
  using sys_inv_same [of im k k'] by (simp add: scr_step_def)

lemma sys_inv_says: "sys_inv im k \<Longrightarrow> says im k t k' \<Longrightarrow> sys_inv im k'"
  using sys_inv_same [of im k k'] by (simp add: says_def)

interpretation con: kept_run "sys_inv im" "scr_step im" for im
  by unfold_locales (auto intro: scr_step_refl scr_step_trans sys_invD)

text \<open>\<^verbatim>\<open>kprintf\<close> with one of the literals as its format.\<close>

lemma kprint_sys:
  assumes "sys_inv im k" "fmt \<in> set literals" "strs_ok strs (ram k) (kbuf im) 4096" "expand strs 0 (bytes fmt) args = Some t" "printable t"
  shows "\<exists>k'. kprint im fmt args k = Some k' \<and> says im k t k' \<and> scr_step im k k'"
  using kprint_says [OF lits_okD [OF sys_invD(2) [OF assms(1)] assms(2)] assms(3-5) sys_invD(1) [OF assms(1)]]
    says_scr_step [OF _ _ sys_invD(1) [OF assms(1)]] assms(5) by (auto simp: printable_def)

lemma kprint_step:
  assumes "sys_inv im k" "fmt \<in> set literals" "expand Map.empty 0 (bytes fmt) args = Some t" "printable t"
  shows "\<exists>k'. kprint im fmt args k = Some k' \<and> scr_step im k k' \<and> color (cur k') = color (cur k)"
  using kprint_sys [OF assms(1,2) strs_ok_empty assms(3,4)] by (auto simp: says_def dest: sb_puts_loaded)

lemma recolor:
  assumes "con_inv k" "\<And>s. f s = s\<lparr>color := g s\<rparr>"
  shows "\<exists>k'. on_cur f k = Some k' \<and> scr_step im k k' \<and> cur k' = f (cur k) \<and> ram k' = ram k \<and> hw k' = hw k"
proof -
  note c = con_invD [OF assms(1)]
  have "sb_inv (f (cur k))" "loaded (f (cur k))" using c(2,3) by (auto simp: assms(2) sb_inv_def sb_at_def)
  then have "con_inv (set_cur (f (cur k)) k)" by (rule con_inv_set_cur(2) [OF assms(1)])
  moreover have cur: "cur (set_cur (f (cur k)) k) = f (cur k)" using c(4) by (simp add: cur_def set_cur_def)
  moreover have same: "same_but_screen im k (set_cur (f (cur k)) k)"
    using c(1) by (auto simp: same_but_screen_def set_cur_def cur_ok_def)
  moreover have "tidy (set_cur (f (cur k)) k)" if t: "tidy k"
  proof -
    obtain ls where ls: "has_text (cur k) ls" "synced (cur k) (hw k)" using t assms(1) by (rule tidyD)
    then have "has_text (f (cur k)) ls" "synced (f (cur k)) (hw k)"
      by (auto simp: assms(2) has_text_def lines_at_def synced_def shows_window_def)
    then show ?thesis using tidy_cur [OF t assms(1)] cur same by (auto simp: same_but_screen_def)
  qed
  ultimately show ?thesis using c(1) by (simp add: on_cur_def scr_step_def)
qed

lemma recolor_simps:
  "sb_set_color c s = s\<lparr>color := c\<rparr>" "sb_set_fg c s = s\<lparr>color := (color s AND 0xf0) OR (c AND 0x0f)\<rparr>"
  "sb_set_bg c s = s\<lparr>color := (push_bit 4 c AND 0xf0) OR (color s AND 0x0f)\<rparr>"
  by (simp_all add: sb_set_color_def sb_set_fg_def sb_set_bg_def)

section \<open>The allocator in the kernel\<close>

lemma sys_inv_phys:
  assumes "sys_inv im k" "kpm_inv p" "buddy p = buddy (phys k)" "tables_only (phys k) p"
  shows "sys_inv im (k\<lparr>phys := p\<rparr>)"
proof -
  note i = sys_invD [OF assms(1)]
  have "lits_ok im (kmem p)"
    using assms(4) i(4) by (intro lits_ok_cong [OF i(2)]) (auto simp: tables_only_def layout_ok_def)
  moreover have "con_inv (k\<lparr>phys := p\<rparr>)" using i(1) by (simp add: con_inv_def)
  ultimately show ?thesis using i assms by (simp add: sys_inv_def)
qed

section \<open>Where kpm_init puts its tables\<close>

lemma init_tables:
  "kpm_tables (buddy (kpm_init_layout ek memkb m)) \<subseteq>
     blk (ALIGNNEXT ek PAGE_SIZE + sizeof_buddy_t)
       (nbytes (nf (kpm_init_layout ek memkb m)) + order_off (nf (kpm_init_layout ek memkb m)) KPM_NORDERS)"
    (is "_ \<subseteq> blk ?e (?b + _)")
proof
  let ?s = "kpm_init_layout ek memkb m"
  let ?N = "nf ?s"
  fix a assume a: "a \<in> kpm_tables (buddy ?s)"
  have N: "?N \<le> 1047552" by (rule layout_nf [OF kpm_layout_init])
  have tot: "nbytes ?N + order_off ?N KPM_NORDERS \<le> 4294967296"
    using N nbytes_le [OF N] order_off_le [of ?N KPM_NORDERS] by (simp add: KPM_NORDERS_def)
  have e: "enabled_frames (buddy ?s) = ?e" by (simp add: kpm_init_layout_def Let_def)
  have b: "bm ?s n = ?e + of_nat (?b + order_off ?N n)" if "n < KPM_NORDERS" for n
    by (simp add: bm_init [OF that] bm_init_0 e add.assoc)
  consider "a \<in> blk ?e ?b" | n where "n < KPM_NORDERS" "a \<in> blk (bm ?s n) (nbytes (?N div 2 ^ n))"
    using a unfolding kpm_tables_def e by auto
  then show "a \<in> blk ?e (?b + order_off ?N KPM_NORDERS)"
  proof cases
    case 1
    then show ?thesis by (simp add: in_blk_iff)
  next
    case 2
    have "order_off ?N n + nbytes (?N div 2 ^ n) \<le> order_off ?N KPM_NORDERS"
      using order_off_mono [of "Suc n" KPM_NORDERS ?N] 2(1) order_off_Suc [of ?N n] by simp
    then have "blk (?e + of_nat (?b + order_off ?N n)) (nbytes (?N div 2 ^ n)) \<subseteq> blk ?e (?b + order_off ?N KPM_NORDERS)"
      using tot by (intro blk_subset) simp_all
    then show ?thesis using 2 b by auto
  qed
qed

section \<open>A kernel to evaluate the properties on\<close>

text \<open>The allocator of the demonstration machine, in a memory that holds \<open>m\<close> outside its tables.\<close>

definition demo_phys :: "mem \<Rightarrow> kpm" where
  "demo_phys m = (let s = the demo_init in s\<lparr>kmem := (\<lambda>a. if a \<in> kpm_tables (buddy s) then kmem s a else m a)\<rparr>)"

definition demo_sys :: "mem \<Rightarrow> kernel" where
  "demo_sys m = (demo_kernel m)\<lparr>phys := demo_phys (demo_ram m)\<rparr>"

lemma demo_phys:
  shows "kpm_inv (demo_phys m)" "nf (demo_phys m) = 8192" "free_frames (demo_phys m) = {1..<159} \<union> {289..<8192}"
    and "enabled_set (demo_phys m) = free_frames (demo_phys m)" "kpm_tables (buddy (demo_phys m)) \<subseteq> blk 0xC0120064 0x10000"
    and "a \<notin> blk 0xC0120064 0x10000 \<Longrightarrow> kmem (demo_phys m) a = m a"
proof -
  have ns: "nf (kpm_init_layout 0xC0120000 32768 (\<lambda>_. 0)) = 8192" by (rule demo_nf)
  obtain s where s: "demo_init = Some s" "kpm_inv s" "buddy s = buddy (kpm_init_layout 0xC0120000 32768 (\<lambda>_. 0))"
    unfolding demo_init_def using kpm_init_frames [where es = demo_mmap and ek = "0xC0120000" and memkb = "32768" and m = "\<lambda>_. 0" and sk = "0x100000"]
    by (simp add: demo_nf demo_mmap_def entry_ok_def entry_used_def KERNEL_VIRT_OFFSET_def MULTIBOOT_MEMORY_AVAILABLE_def) blast
  have f: "free_frames s = {1..<159} \<union> {289..<8192}" "enabled_set s = free_frames s" using demo_state unfolding s(1) by (simp_all, metis)
  let ?s = "s\<lparr>kmem := (\<lambda>a. if a \<in> kpm_tables (buddy s) then kmem s a else m a)\<rparr>"
  have d: "demo_phys m = ?s" by (simp add: demo_phys_def s(1))
  have c: "\<forall>a \<in> kpm_tables (buddy s). kmem ?s a = kmem s a" "buddy ?s = buddy s" by simp_all
  note i = kpm_inv_cong [OF s(2) c(2,1)]
  show "kpm_inv (demo_phys m)" "nf (demo_phys m) = 8192" "free_frames (demo_phys m) = {1..<159} \<union> {289..<8192}"
    "enabled_set (demo_phys m) = free_frames (demo_phys m)"
    using i f s(3) ns by (simp_all add: d)
  have "nbytes 8192 + order_off 8192 KPM_NORDERS \<le> 0x10000" using order_off_le [of 8192 KPM_NORDERS] by (simp add: nbytes_def KPM_NORDERS_def)
  then have "blk 0xC0120064 (nbytes 8192 + order_off 8192 KPM_NORDERS) \<subseteq> blk (0xC0120064 :: ptr) 0x10000" by (auto simp: blk_def)
  moreover have "ALIGNNEXT 0xC0120000 PAGE_SIZE + sizeof_buddy_t = 0xC0120064"
    by (simp add: ALIGNNEXT_def PAGE_SIZE_def sizeof_buddy_t_def)
  ultimately show t: "kpm_tables (buddy (demo_phys m)) \<subseteq> blk 0xC0120064 0x10000"
    using init_tables [of "0xC0120000" "32768" "\<lambda>_. 0"] by (simp add: d s(3) ns)
  show "kmem (demo_phys m) a = m a" if "a \<notin> blk 0xC0120064 0x10000"
    using that t by (auto simp: d)
qed

lemma demo_areas:
  "blk 0x8000 NSH_SIZE \<inter> blk 0x10000 4096 = {}" "blk 0x8000 NSH_SIZE \<inter> lit_area demo_image = {}"
  "blk 0xC0120064 0x10000 \<inter> (blk 0x8000 NSH_SIZE \<union> blk 0x10000 4096 \<union> lit_area demo_image) = {}"
  "lit_area demo_image \<subseteq> blk 0x20000 17920"
proof -
  show l: "lit_area demo_image \<subseteq> blk 0x20000 17920"
  proof -
    have "blk (lit demo_image s) (Suc (length s)) \<subseteq> blk 0x20000 17920" if "s \<in> set literals" for s
      using pool_slot [OF that, of "0x20000"] literals_storable that by (simp add: demo_image_def length_literals list_all_iff)
    then show ?thesis unfolding lit_area_def by blast
  qed
  show "blk 0x8000 NSH_SIZE \<inter> blk 0x10000 4096 = {}" by (rule blk_apart) (simp_all add: NSH_SIZE_def)
  have "blk 0x8000 NSH_SIZE \<inter> blk 0x20000 17920 = {}" by (rule blk_apart) (simp_all add: NSH_SIZE_def)
  then show "blk 0x8000 NSH_SIZE \<inter> lit_area demo_image = {}" using l by blast
  have "blk 0x8000 NSH_SIZE \<inter> blk 0xC0120064 0x10000 = {}" "blk 0x10000 4096 \<inter> blk 0xC0120064 0x10000 = {}"
    "blk 0x20000 17920 \<inter> blk 0xC0120064 0x10000 = {}"
    by (rule blk_apart; simp add: NSH_SIZE_def)+
  then show "blk 0xC0120064 0x10000 \<inter> (blk 0x8000 NSH_SIZE \<union> blk 0x10000 4096 \<union> lit_area demo_image) = {}" using l by blast
qed

lemma demo_sys_ram: "a \<notin> blk 0xC0120064 0x10000 \<Longrightarrow> ram (demo_sys m) a = demo_ram m a"
  by (simp add: demo_sys_def demo_phys(6))

lemma demo_sys_inv: "sys_inv demo_image (demo_sys m)"
proof -
  have "\<forall>a \<in> lit_area demo_image. ram (demo_sys m) a = demo_ram m a"
    using demo_areas(3) demo_sys_ram by blast
  then have "lits_ok demo_image (ram (demo_sys m))" by (rule lits_ok_cong [OF demo_lits_ok])
  moreover have "con_inv (demo_sys m)" using demo_kernel_inv [of m] by (simp add: demo_sys_def con_inv_def)
  moreover have "layout_ok demo_image (kpm_tables (buddy (demo_phys (demo_ram m))))"
    using demo_areas demo_phys(5) [of "demo_ram m"] unfolding layout_ok_def by (simp add: demo_image_def) blast
  ultimately show ?thesis using demo_phys(1) by (simp add: sys_inv_def demo_sys_def)
qed

text \<open>Bytes at addresses below the literals are those of \<open>m\<close>.\<close>

lemma demo_sys_low:
  assumes "unat a < 0x20000"
  shows "ram (demo_sys m) a = m a"
proof -
  have n: "a \<notin> blk 0x20000 (128 * length literals)" "a \<notin> blk 0xC0120064 0x10000"
    using blk_apart [of a 1 "0x20000" "128 * length literals"] blk_apart [of a 1 "0xC0120064" "0x10000"] assms
    by (auto simp: length_literals in_blk_iff disjoint_iff)
  have "\<not> unat (a - 0x20000) div 128 < length literals" using n(1) by (simp add: in_blk_iff length_literals div_less_iff_less_mult)
  then show ?thesis using demo_sys_ram [OF n(2)] by (simp add: demo_ram_def pool_mem_def Let_def)
qed

end
