(* ===== verification/Builtins_Correct.thy ===== *)
theory Builtins_Correct
  imports System Builtins_System
begin

text \<open>
  What the built-in commands do: they keep the kernel's invariant, \<^verbatim>\<open>alloc\<close> and \<^verbatim>\<open>free\<close> move frames between the
  free set and the chunks they print, \<^verbatim>\<open>color\<close> and \<^verbatim>\<open>keymap\<close> change what they name.
\<close>

section \<open>Steps of a command\<close>

text \<open>A step that leaves the shell, the keyboard and all memory but the \<^verbatim>\<open>kprintf\<close> buffer and the bitmaps alone.\<close>

definition keeps :: "image \<Rightarrow> kernel \<Rightarrow> kernel \<Rightarrow> bool" where
  "keeps im k k' \<longleftrightarrow>
     (\<forall>a. a \<notin> blk (kbuf im) 4096 \<union> kpm_tables (buddy (phys k)) \<longrightarrow> ram k' a = ram k a)
     \<and> buddy (phys k') = buddy (phys k) \<and> kbd k' = kbd k \<and> gdtp k' = gdtp k \<and> idtp k' = idtp k
     \<and> sb_current k' = sb_current k \<and> sb_nbscreen k' = sb_nbscreen k
     \<and> nsh_cmd k' = nsh_cmd k \<and> nsh_cmdnarg k' = nsh_cmdnarg k \<and> nsh_bufindex k' = nsh_bufindex k
     \<and> data_reads (ports (hw k')) = data_reads (ports (hw k)) \<and> (tidy k \<longrightarrow> tidy k')"

lemma keeps_scr: "scr_step im k k' \<Longrightarrow> keeps im k k'"
  by (simp add: keeps_def scr_step_def same_but_screen_def)

lemma keeps_trans: "keeps im k k1 \<Longrightarrow> keeps im k1 k2 \<Longrightarrow> keeps im k k2"
  by (simp add: keeps_def)

section \<open>alloc\<close>

definition chunk_fmt :: string where
  "chunk_fmt = ''chunk: {\<newline>    addr = %p\<newline>    size = %u\<newline>}\<newline>''"

lemma chunk_text:
  "\<exists>t. expand Map.empty 0 (bytes chunk_fmt) [a, z] = Some t \<and> printable t"
  using length_num_text_le [of 16 0 False a] length_num_text_le [of 10 0 False z]
  by (simp add: chunk_fmt_def bytes_def spec_text_def va_arg_def is_pad_def printable_def num_text_ok)

lemma chunk_fmt_literal: "chunk_fmt \<in> set literals"
  by (simp add: chunk_fmt_def literals_def)

text \<open>The chunks that a run of \<^verbatim>\<open>alloc_loop\<close> takes, oldest first.\<close>

definition took :: "kernel \<Rightarrow> kpm_chunk list \<Rightarrow> kernel \<Rightarrow> bool" where
  "took k chunks k' \<longleftrightarrow> sorted_wrt (\<lambda>c d. chunk_frames c \<inter> chunk_frames d = {}) chunks
     \<and> (\<Union>c \<in> set chunks. chunk_frames c) \<subseteq> free_in k \<and> free_in k' = free_in k - (\<Union>c \<in> set chunks. chunk_frames c)
     \<and> enabled_in k' = enabled_in k"

lemma took_Cons:
  assumes "chunk_frames c \<subseteq> free_in k" "free_in k1 = free_in k - chunk_frames c" "enabled_in k1 = enabled_in k" "took k1 cks k'"
  shows "took k (c # cks) k'"
  using assms unfolding took_def by auto

lemma kpm_alloc_kernel:
  assumes "sys_inv im k"
  shows "(\<exists>ch' p. kpm_alloc ch sz (phys k) = Some (0, ch', p) \<and> sys_inv im (k\<lparr>phys := p\<rparr>) \<and> keeps im k (k\<lparr>phys := p\<rparr>)
       \<and> chunk_frames ch' \<noteq> {} \<and> chunk_frames ch' \<subseteq> free_in k \<and> free_frames p = free_in k - chunk_frames ch' \<and> enabled_set p = enabled_in k)
     \<or> (kpm_alloc ch sz (phys k) = Some (-1, ch, phys k) \<and> free_in k = {})"
proof -
  note inv = sys_invD(3) [OF assms]
  from kpm_alloc_cases [OF inv, of ch sz] show ?thesis
  proof (elim disjE exE conjE)
    fix n i ch' p
    assume a: "kpm_alloc ch sz (phys k) = Some (0, ch', p)" "buddy p = buddy (phys k)" "kpm_inv p" "tables_only (phys k) p"
    have "sys_inv im (k\<lparr>phys := p\<rparr>)" by (rule sys_inv_phys [OF assms a(3,2,4)])
    moreover have "keeps im k (k\<lparr>phys := p\<rparr>)" using a tidy_cong [of "k\<lparr>phys := p\<rparr>" k] by (simp add: keeps_def tables_only_def)
    ultimately show ?thesis using kpm.alloc_ok [OF inv a(1)] a(1) by blast
  qed auto
qed

lemma set_color_step:
  assumes "sys_inv im k"
  shows "\<exists>k'. on_cur (sb_set_color c) k = Some k' \<and> sys_inv im k' \<and> keeps im k k' \<and> color (cur k') = c
    \<and> free_in k' = free_in k \<and> enabled_in k' = enabled_in k"
proof -
  obtain k' where k': "on_cur (sb_set_color c) k = Some k'" "scr_step im k k'" "cur k' = sb_set_color c (cur k)"
    using recolor [OF sys_invD(1) [OF assms], of "sb_set_color c" "\<lambda>_. c" im] by (auto simp: recolor_simps)
  then show ?thesis
    using sys_inv_scr_step [OF assms k'(2)] keeps_scr [OF k'(2)] by (auto simp: recolor_simps)
qed

lemma alloc_while_ok:
  assumes "sys_inv im k"
  shows "\<exists>r ch' k' cks. alloc_while im oldcolor chunk sz k = Some (r, ch', k') \<and> sys_inv im k' \<and> keeps im k k' \<and> color (cur k') = oldcolor
     \<and> took k cks k' \<and> (r = 0 \<and> unat sz \<le> (\<Sum>c \<leftarrow> cks. unat (chunk_size c)) \<or> r = -1 \<and> free_in k' = {})"
  using assms
proof (induction "card (free_in k)" arbitrary: k chunk sz rule: less_induct)
  case less
  note sys = less.prems
  have fin: "\<exists>ch' k'. (do { k3 \<leftarrow> on_cur (sb_set_color oldcolor) k1; Some (r, ch, k3) }) = Some (r, ch', k') \<and> sys_inv im k' \<and> keeps im k k'
      \<and> color (cur k') = oldcolor \<and> free_in k' = free_in k1 \<and> enabled_in k' = enabled_in k1"
    if "sys_inv im k1" "keeps im k k1" for r :: int and ch k1
    using set_color_step [OF that(1), of oldcolor] keeps_trans [OF that(2)] by auto
  show ?case
  proof (cases "sz > 0")
    case False
    have "keeps im k k" by (simp add: keeps_def)
    moreover have "sz = 0" using False by (simp add: word_gt_0)
    ultimately show ?thesis using fin [OF sys, of 0 chunk]
      by (subst alloc_while.simps) (auto simp: took_def intro!: exI [of _ "[]"])
  next
    case True
    from kpm_alloc_kernel [OF sys, of chunk sz] show ?thesis
    proof (elim disjE exE conjE)
      assume f: "kpm_alloc chunk sz (phys k) = Some (-1, chunk, phys k)" "free_in k = {}"
      have "keeps im k k" by (simp add: keeps_def)
      from fin [OF sys this, of "-1" chunk] f True show ?thesis
        by (subst alloc_while.simps) (auto simp: took_def intro!: exI [of _ "[]"])
    next
      fix ch' p
      assume a: "kpm_alloc chunk sz (phys k) = Some (0, ch', p)" "sys_inv im (k\<lparr>phys := p\<rparr>)" "keeps im k (k\<lparr>phys := p\<rparr>)"
        and f: "chunk_frames ch' \<noteq> {}" "chunk_frames ch' \<subseteq> free_in k" "free_frames p = free_in k - chunk_frames ch'" "enabled_set p = enabled_in k"
      obtain k2 where k2: "kprint im chunk_fmt [chunk_addr ch', chunk_size ch'] (k\<lparr>phys := p\<rparr>) = Some k2" "scr_step im (k\<lparr>phys := p\<rparr>) k2"
        using chunk_text [of "chunk_addr ch'" "chunk_size ch'"] kprint_step [OF a(2) chunk_fmt_literal] by blast
      have s2: "sys_inv im k2" "free_in k2 = free_in k - chunk_frames ch'" "enabled_in k2 = enabled_in k" "keeps im k k2"
        using sys_inv_scr_step [OF a(2) k2(2)] f keeps_trans [OF a(3) keeps_scr [OF k2(2)]] by auto
      show ?thesis
      proof (cases "chunk_size ch' \<ge> sz")
        case enough: True
        from fin [OF s2(1,4), of 0 ch'] obtain k' where k': "(do { k3 \<leftarrow> on_cur (sb_set_color oldcolor) k2; Some (0::int, ch', k3) }) = Some (0, ch', k')"
          "sys_inv im k'" "keeps im k k'" "color (cur k') = oldcolor" "free_in k' = free_in k2" "enabled_in k' = enabled_in k2" by (auto simp: bind_eq_Some_conv)
        have "took k [ch'] k'" using f s2 k' by (simp add: took_def)
        moreover have "alloc_while im oldcolor chunk sz k = Some (0, ch', k')"
          using True enough a(1) k2(1) k'(1) by (subst alloc_while.simps) (simp add: chunk_fmt_def)
        ultimately show ?thesis using enough k'(2-4) by (auto simp: word_le_nat_alt intro!: exI [of _ "[ch']"])
      next
        case more: False
        have "free_in k2 \<subset> free_in k" using s2(2) f(1,2) by auto
        moreover have "finite (free_in k)" using kpm.finite_free [OF sys_invD(3) [OF sys]] .
        ultimately have "card (free_in k2) < card (free_in k)" by (intro psubset_card_mono)
        from less.hyps [OF this s2(1), of ch' "sz - chunk_size ch'"] obtain r c3 k' cks where
          r: "alloc_while im oldcolor ch' (sz - chunk_size ch') k2 = Some (r, c3, k')" "sys_inv im k'" "keeps im k2 k'" "color (cur k') = oldcolor"
            "took k2 cks k'" "r = 0 \<and> unat (sz - chunk_size ch') \<le> (\<Sum>c \<leftarrow> cks. unat (chunk_size c)) \<or> r = -1 \<and> free_in k' = {}" by blast
        have "alloc_while im oldcolor chunk sz k = Some (r, c3, k')"
          using True more a(1) k2(1) r(1) by (subst alloc_while.simps) (simp add: chunk_fmt_def)
        moreover have "took k (ch' # cks) k'" using took_Cons f(2) s2(2,3) r(5) by blast
        moreover have "unat (sz - chunk_size ch') = unat sz - unat (chunk_size ch')" using more by (intro unat_sub) simp
        ultimately show ?thesis using r(2,4,6) keeps_trans [OF s2(4) r(3)] by (intro exI [of _ r] exI [of _ c3] exI [of _ k'] exI [of _ "ch' # cks"]) auto
      qed
    qed
  qed
qed

section \<open>free\<close>

lemma kpm_free_kernel:
  assumes "sys_inv im k" "kpm_owned (phys k) ch"
  shows "\<exists>p. kpm_free ch (phys k) = Some p \<and> sys_inv im (k\<lparr>phys := p\<rparr>) \<and> keeps im k (k\<lparr>phys := p\<rparr>)
     \<and> free_frames p = free_in k \<union> (chunk_frames ch \<inter> enabled_in k) \<and> enabled_set p = enabled_in k"
proof -
  obtain p where p: "kpm_free ch (phys k) = Some p" "buddy p = buddy (phys k)" "kpm_inv p" "tables_only (phys k) p"
      "free_frames p = free_in k \<union> (chunk_frames ch \<inter> enabled_in k)" "enabled_set p = enabled_in k"
    using kpm_free_frames [OF sys_invD(3) [OF assms(1)] assms(2)] by blast
  moreover have "sys_inv im (k\<lparr>phys := p\<rparr>)" by (rule sys_inv_phys [OF assms(1) p(3,2,4)])
  moreover have "keeps im k (k\<lparr>phys := p\<rparr>)" using p tidy_cong [of "k\<lparr>phys := p\<rparr>" k] by (simp add: keeps_def tables_only_def)
  ultimately show ?thesis by blast
qed

section \<open>Arguments\<close>

text \<open>
  An argument that is a number in the syntax of \<^verbatim>\<open>strtol\<close> (decimal, octal or hexadecimal), with no sign, of any size: \<^verbatim>\<open>strtol\<close> clamps it
  to \<^verbatim>\<open>LONG_MAX\<close>, \<^verbatim>\<open>strtoul\<close> to \<^verbatim>\<open>ULONG_MAX\<close>.
\<close>

definition num_arg :: "mem \<Rightarrow> ptr \<Rightarrow> nat \<Rightarrow> bool" where
  "num_arg m p n \<longleftrightarrow> (\<exists>j pre xs b ds. numeral_text m p 0 j [] pre xs [] b ds \<and> ds \<noteq> [] \<and> digits_val b 0 ds = n)"

definition long_clamp :: "nat \<Rightarrow> nat" where "long_clamp n = min n 0x7FFFFFFF"
definition ulong_clamp :: "nat \<Rightarrow> nat" where "ulong_clamp n = min n 0xFFFFFFFF"

lemma strto_num_arg:
  assumes "num_arg m p n"
  shows "\<exists>q. strtol m p 0 = Some (of_nat (long_clamp n), q) \<and> m q = 0" "\<exists>q. strtoul m p 0 = Some (of_nat (ulong_clamp n), q) \<and> m q = 0" "m p \<noteq> 45"
proof -
  obtain j pre xs b ds where a: "numeral_text m p 0 j [] pre xs [] b ds" "ds \<noteq> []" "digits_val b 0 ds = n"
    using assms by (auto simp: num_arg_def)
  have c: "cstr m p (replicate j 32 @ pre @ xs)" "zat (pre @ xs) 0 \<notin> {32, 43, 45}" using a(1) by (simp_all add: numeral_text_def)
  let ?q = "p + of_nat (length (replicate j 32 @ pre @ xs))"
  have z: "m ?q = 0" using c(1) unfolding cstr_iff by blast
  have "(LONG_MAX :: 32 word) = 0x7FFFFFFF" "(NOT 0 :: 32 word) = 0xFFFFFFFF" by (simp_all add: LONG_MAX_def mask_eq_exp_minus_1)
  then have "strtol m p 0 = Some (of_nat (long_clamp n), ?q)" "strtoul m p 0 = Some (of_nat (ulong_clamp n), ?q)"
    using strto_signed_value [OF a(1), where 'a = 32] strto_unsigned_value [OF a(1), where 'a = 32] a
    by (auto simp: strtol_def strtoul_def long_clamp_def ulong_clamp_def min_def)
  then show "\<exists>q. strtol m p 0 = Some (of_nat (long_clamp n), q) \<and> m q = 0" "\<exists>q. strtoul m p 0 = Some (of_nat (ulong_clamp n), q) \<and> m q = 0"
    using z by blast+
  show "m p \<noteq> 45" using c cstr_append_zat [OF c(1)] by (cases j) auto
qed

lemma long_clamp_word: "\<not> (of_nat (long_clamp n) :: u32) <s 0" "unat (of_nat (long_clamp n) :: u32) = long_clamp n" "sint (of_nat (long_clamp n) :: u32) = int (long_clamp n)"
proof -
  have n: "long_clamp n < 2 ^ 31" by (simp add: long_clamp_def)
  then show u: "unat (of_nat (long_clamp n) :: u32) = long_clamp n" by (intro unat_of_nat_small) simp
  have "uint (of_nat (long_clamp n) :: u32) < 2 ^ 31" using n by (simp add: unsigned_of_nat take_bit_nat_eq_self)
  then show "sint (of_nat (long_clamp n) :: u32) = int (long_clamp n)" using n by (simp add: sint_32_cases unsigned_of_nat take_bit_nat_eq_self)
  then show "\<not> (of_nat (long_clamp n) :: u32) <s 0" by (simp add: word_sless_alt)
qed

text \<open>An argument that is the word \<open>xs\<close>, away from the buffer of \<^verbatim>\<open>kprintf\<close>.\<close>

definition word_arg :: "image \<Rightarrow> kernel \<Rightarrow> ptr \<Rightarrow> u8 list \<Rightarrow> bool" where
  "word_arg im k p xs \<longleftrightarrow> cstr (ram k) p xs \<and> length xs < 4000 \<and> 8 \<notin> set xs \<and> blk p (Suc (length xs)) \<inter> blk (kbuf im) 4096 = {}"

lemma word_arg_strs: "word_arg im k p xs \<Longrightarrow> strs_ok [p \<mapsto> xs] (ram k) (kbuf im) 4096"
  by (auto simp: word_arg_def strs_ok_def)

lemma strcmp_lit:
  assumes "sys_inv im k" "s \<in> set literals" "cstr (ram k) p xs"
  shows "\<exists>r. strcmp (ram k) p (lit im s) = Some r \<and> (r = 0 \<longleftrightarrow> xs = bytes s)"
    and "\<exists>r. strcmp (ram k) (lit im s) p = Some r \<and> (r = 0 \<longleftrightarrow> xs = bytes s)"
proof -
  have l: "cstr (ram k) (lit im s) (bytes s)" using lits_okD [OF sys_invD(2) [OF assms(1)] assms(2)] by (simp add: lit_ok_def)
  show "\<exists>r. strcmp (ram k) p (lit im s) = Some r \<and> (r = 0 \<longleftrightarrow> xs = bytes s)"
    using strcmp_cstr [OF assms(3) l] strcmp_eq_0 [OF assms(3) l] by auto
  show "\<exists>r. strcmp (ram k) (lit im s) p = Some r \<and> (r = 0 \<longleftrightarrow> xs = bytes s)"
    using strcmp_cstr [OF l assms(3)] strcmp_eq_0 [OF l assms(3)] by auto
qed

lemma find_name_ok:
  assumes "sys_inv im k" "set ss \<subseteq> set literals" "cstr (ram k) p xs"
  shows "(\<exists>j < length ss. find_name im (ram k) ss i p = Some (Some (i + j)) \<and> xs = bytes (ss ! j))
     \<or> (find_name im (ram k) ss i p = Some None \<and> xs \<notin> bytes ` set ss)"
  using assms(2)
proof (induction ss arbitrary: i)
  case (Cons s ss)
  obtain r where r: "strcmp (ram k) (lit im s) p = Some r" "r = 0 \<longleftrightarrow> xs = bytes s"
    using strcmp_lit(2) [OF assms(1) _ assms(3), of s] Cons.prems by auto
  show ?case
  proof (cases "r = 0")
    case True
    then show ?thesis using r by (intro disjI1 exI [of _ 0]) simp
  next
    case False
    have "set ss \<subseteq> set literals" using Cons.prems by simp
    from Cons.IH [OF this, of "Suc i"] show ?thesis
    proof (elim disjE exE conjE)
      fix j assume "j < length ss" "find_name im (ram k) ss (Suc i) p = Some (Some (Suc i + j))" "xs = bytes (ss ! j)"
      then show ?thesis using r False by (intro disjI1 exI [of _ "Suc j"]) simp
    qed (use r False in simp_all)
  qed
qed simp

lemma lit_lists:
  "set colors \<subseteq> set literals" "set (map fst layouts) \<subseteq> set literals" "{''reset'', ''fg'', ''bg'', ''list''} \<subseteq> set literals"
  "distinct (map bytes colors)" "distinct (map bytes (map fst layouts))" "length colors = 16"
  unfolding colors_def layouts_def literals_def by (simp_all add: bytes_def)

lemma color_nibble:
  assumes "j < 16"
  shows "(of_nat j :: u8) AND 0x0f = of_nat j" "push_bit 4 (of_nat j :: u8) AND 0xf0 = push_bit 4 (of_nat j)"
proof -
  have "\<forall>j \<in> set [0..<16]. (of_nat j :: u8) AND 0x0f = of_nat j \<and> push_bit 4 (of_nat j :: u8) AND 0xf0 = push_bit 4 (of_nat j)"
    by (simp add: upt_rec)
  moreover have "j \<in> set [0..<16]" using assms by simp
  ultimately show "(of_nat j :: u8) AND 0x0f = of_nat j" "push_bit 4 (of_nat j :: u8) AND 0xf0 = push_bit 4 (of_nat j)" by blast+
qed

text \<open>A message that quotes one word.\<close>

lemma quote_says:
  assumes "sys_inv im k" "fmt \<in> set literals" "word_arg im k p xs" "bytes fmt = us @ [37, 115] @ vs"
    and "printable us" "printable vs" "length us + length vs < 90" "37 \<notin> set us" "37 \<notin> set vs"
  shows "\<exists>k'. kprint im fmt [p] k = Some k' \<and> says im k (us @ xs @ vs) k' \<and> (9 \<notin> set xs \<longrightarrow> scr_step im k k')"
proof -
  have plain: "expand [p \<mapsto> xs] 0 vs [] = Some vs" if "37 \<notin> set vs" for vs :: "u8 list"
    using that by (induction vs rule: induct_list012) auto
  have "expand [p \<mapsto> xs] 0 (us @ [37, 115] @ vs) [p] = Some (us @ xs @ vs)" if "37 \<notin> set us" for us
    using that
  proof (induction us)
    case Nil
    then show ?case using plain [OF assms(9)] by (simp add: is_pad_def spec_text_def va_arg_def del: fun_upd_apply) simp
  next
    case (Cons u us)
    then show ?case by (cases us) auto
  qed
  then have "expand [p \<mapsto> xs] 0 (bytes fmt) [p] = Some (us @ xs @ vs)" using assms(4,8) by simp
  moreover have t: "length (us @ xs @ vs) < 4096" "0 \<notin> set (us @ xs @ vs)" "8 \<notin> set (us @ xs @ vs)"
    using assms(3,5-7) cstr_nonzero [of "ram k" p xs] by (auto simp: printable_def word_arg_def)
  moreover note con = sys_invD(1) [OF assms(1)]
  ultimately obtain k' where k': "kprint im fmt [p] k = Some k'" "says im k (us @ xs @ vs) k'"
    using kprint_writes [OF lits_okD [OF sys_invD(2) [OF assms(1)] assms(2)] word_arg_strs [OF assms(3)]] by blast
  moreover have "scr_step im k k'" if "9 \<notin> set xs"
    using says_scr_step [OF k'(2) _ con] t that assms(5,6) by (auto simp: printable_def)
  ultimately show ?thesis by blast
qed

text \<open>The part of \<^verbatim>\<open>alloc\<close> behind its checks.\<close>

lemma alloc_asked:
  fixes z :: u32
  assumes "sys_inv im k"
  shows "\<exists>k' cks. (do { k1 \<leftarrow> kprint im ''Asked for allocation of %d bytes\<newline>'' [z] k;
       (r, _, k2) \<leftarrow> alloc_loop im (stack_chunk im) z k1;
       k3 \<leftarrow> (if r = -1 then kprint im ''Failed to allocate memory area.\<newline>'' [] k2 else Some k2);
       Some (0 :: int, k3) }) = Some (0, k') \<and> sys_inv im k' \<and> keeps im k k' \<and> color (cur k') = color (cur k)
    \<and> took k cks k' \<and> (unat z \<le> (\<Sum>c \<leftarrow> cks. unat (chunk_size c)) \<or> free_in k' = {})"
proof -
  let ?f1 = "''Asked for allocation of %d bytes\<newline>''" and ?f2 = "''Failed to allocate memory area.\<newline>''"
  have lits: "?f1 \<in> set literals" "?f2 \<in> set literals" by (simp_all add: literals_def)
  have "\<exists>t. expand Map.empty 0 (bytes ?f1) [z] = Some t \<and> printable t"
    using length_num_text_le [of 10 0 True z] by (simp add: bytes_def spec_text_def va_arg_def is_pad_def printable_def num_text_ok)
  then obtain k1 where k1: "kprint im ?f1 [z] k = Some k1" "scr_step im k k1" "color (cur k1) = color (cur k)"
    using kprint_step [OF assms(1) lits(1)] by blast
  note s1 = sys_inv_scr_step [OF assms(1) k1(2)]
  obtain k2 where k2: "on_cur (sb_set_fg (color_val SB_COLOR_GREEN)) k1 = Some k2" "scr_step im k1 k2"
    using recolor [where f = "sb_set_fg (color_val SB_COLOR_GREEN)", OF _ recolor_simps(2), of k1 im] s1 by (auto dest: sys_invD(1))
  have s2: "sys_inv im k2 \<and> free_in k2 = free_in k \<and> enabled_in k2 = enabled_in k" using sys_inv_scr_step [OF conjunct1 [OF s1] k2(2)] s1 by simp
  have kk2: "keeps im k k2" using scr_step_trans [OF k1(2) k2(2)] by (rule keeps_scr)
  obtain r ch k3 cks where k3: "alloc_while im (color (cur k)) (stack_chunk im) z k2 = Some (r, ch, k3)" "sys_inv im k3" "keeps im k2 k3"
      "color (cur k3) = color (cur k)" "took k2 cks k3"
      "r = 0 \<and> unat z \<le> (\<Sum>c \<leftarrow> cks. unat (chunk_size c)) \<or> r = -1 \<and> free_in k3 = {}"
    using alloc_while_ok s2 by blast
  have al: "alloc_loop im (stack_chunk im) z k1 = Some (r, ch, k3)"
    using k2(1) k3(1) k1(3) con_invD(1) [OF sys_invD(1)] s1 by (auto simp: alloc_loop_def sb_get_color_def)
  have "\<exists>k4. (if r = -1 then kprint im ?f2 [] k3 else Some k3) = Some k4 \<and> scr_step im k3 k4 \<and> color (cur k4) = color (cur k)"
  proof (cases "r = -1")
    case True
    have "expand Map.empty 0 (bytes ?f2) [] = Some (bytes ?f2)" "printable (bytes ?f2)" by (simp_all add: bytes_def printable_def)
    then show ?thesis using kprint_step [OF k3(2) lits(2)] True k3(4) by auto
  qed (use k3 in \<open>simp add: scr_step_refl sys_invD\<close>)
  then obtain k4 where k4: "(if r = -1 then kprint im ?f2 [] k3 else Some k3) = Some k4" "scr_step im k3 k4" "color (cur k4) = color (cur k)" by blast
  moreover have "took k cks k4" "sys_inv im k4" "free_in k4 = free_in k3"
    using sys_inv_scr_step [OF k3(2) k4(2)] k3(5) s2 by (simp_all add: took_def)
  moreover have "keeps im k k4" using keeps_trans [OF keeps_trans [OF kk2 k3(3)] keeps_scr [OF k4(2)]] .
  ultimately show ?thesis using k3(6) k1(1) al k4(1) by (intro exI [of _ k4] exI [of _ cks]) auto
qed

section \<open>Correctness properties\<close>

text \<open>
  C23: the command \<^verbatim>\<open>alloc\<close> with a number of bytes, which \<^verbatim>\<open>strtol\<close> clamps to \<^verbatim>\<open>LONG_MAX\<close>.  It takes pairwise disjoint chunks out of the free frames, at least as
  many bytes as asked for unless memory runs out, keeps the invariant and everything but
  the screen and the bitmaps, and restores the colour.  It returns 0 in both cases: when memory runs out, too, where the comment on \<^verbatim>\<open>alloc\<close>
  announces -1; the chunks taken so far then stay allocated.
\<close>

theorem blt_alloc_correct:
  assumes "sys_inv im k" "2 \<le> argc" "num_arg (ram k) (argv 1) n"
  shows "\<exists>k' cks. blt_alloc im argc argv k = Some (0, k') \<and> sys_inv im k' \<and> keeps im k k' \<and> color (cur k') = color (cur k)
    \<and> took k cks k' \<and> (long_clamp n \<le> (\<Sum>c \<leftarrow> cks. unat (chunk_size c)) \<or> free_in k' = {})"
proof -
  obtain q where q: "strtol (ram k) (argv 1) 0 = Some (of_nat (long_clamp n), q)" "ram k q = 0" using strto_num_arg(1) [OF assms(3)] by blast
  show ?thesis using alloc_asked [OF assms(1), of "of_nat (long_clamp n)"] assms(2) q long_clamp_word [of n] by (simp add: blt_alloc_def del: One_nat_def)
qed

text \<open>A line with the words 5000 and 0x1000 in the shell's buffer.\<close>

definition demo_args :: mem where
  "demo_args = (\<lambda>_. 0)(0x8000 := 53, 0x8001 := 48, 0x8002 := 48, 0x8003 := 48,
     0x8010 := 48, 0x8011 := 120, 0x8012 := 49, 0x8013 := 48, 0x8014 := 48, 0x8015 := 48)"

lemma demo_arg_5000: "num_arg (ram (demo_sys demo_args)) 0x8000 5000"
proof -
  have "cstr (ram (demo_sys demo_args)) 0x8000 [53, 48, 48, 48]" by (simp add: demo_sys_low demo_args_def)
  then have "numeral_text (ram (demo_sys demo_args)) 0x8000 0 0 [] [] [53, 48, 48, 48] [] 10 [5, 0, 0, 0]"
    by (simp add: numeral_text_def is_digit_def ends_number_def digit_val_def)
  then show ?thesis unfolding num_arg_def by (intro exI conjI, assumption) simp_all
qed

lemma demo_arg_4096: "num_arg (ram (demo_sys demo_args)) 0x8010 0x1000"
proof -
  have "cstr (ram (demo_sys demo_args)) 0x8010 [48, 120, 49, 48, 48, 48]" by (simp add: demo_sys_low demo_args_def)
  then have "numeral_text (ram (demo_sys demo_args)) 0x8010 0 0 [] [48, 120] [49, 48, 48, 48] [] 16 [1, 0, 0, 0]"
    by (simp add: numeral_text_def is_digit_def ends_number_def digit_val_def)
  then show ?thesis unfolding num_arg_def by (intro exI conjI, assumption) simp_all
qed

theorem blt_alloc_correct_witness:
  "\<exists>k'. blt_alloc demo_image 2 (\<lambda>_. 0x8000) (demo_sys demo_args) = Some (0, k') \<and> sys_inv demo_image k'"
  using blt_alloc_correct [where im = demo_image and k = "demo_sys demo_args" and argc = 2 and argv = "\<lambda>_. 0x8000" and n = 5000]
    demo_sys_inv demo_arg_5000 by auto

text \<open>
  C24: the command \<^verbatim>\<open>free\<close> with two numbers, an address and a size.  An address below 2 GiB is read as it is: if it is aligned and the chunk, its size clamped
  to \<^verbatim>\<open>LONG_MAX\<close>, lies inside memory, the enabled frames of the chunk become free; if it is not aligned, nothing changes.  An address from 2 GiB on is
  clamped to 0x7FFFFFFF, which is not aligned, so that nothing is freed.  In all cases the command returns 0 and keeps the invariant and everything else.
\<close>

theorem blt_free_correct:
  assumes "sys_inv im k" "2 \<le> argc" "num_arg (ram k) (argv 1) a" "num_arg (ram k) (argv 2) z"
    and "a < 2 ^ 31 \<and> 4096 dvd a \<longrightarrow> kpm_owned (phys k) \<lparr>chunk_addr = of_nat a, chunk_size = of_nat (long_clamp z)\<rparr>"
  shows "\<exists>k'. blt_free im argc argv k = Some (0, k') \<and> sys_inv im k' \<and> keeps im k k' \<and> cur k' = cur k \<and> enabled_in k' = enabled_in k
    \<and> free_in k' = (if a < 2 ^ 31 \<and> 4096 dvd a
        then free_in k \<union> (chunk_frames \<lparr>chunk_addr = of_nat a, chunk_size = of_nat (long_clamp z)\<rparr> \<inter> enabled_in k) else free_in k)"
proof -
  let ?ch = "\<lparr>chunk_addr = of_nat (long_clamp a), chunk_size = of_nat (long_clamp z)\<rparr> :: kpm_chunk"
  obtain q where q: "strtol (ram k) (argv 1) 0 = Some (of_nat (long_clamp a), q)" "ram k q = 0" using strto_num_arg(1) [OF assms(3)] by blast
  obtain q' where q': "strtol (ram k) (argv 2) 0 = Some (of_nat (long_clamp z), q')" "ram k q' = 0" using strto_num_arg(1) [OF assms(4)] by blast
  have eq: "blt_free im argc argv k = map_option (\<lambda>p. (0, k\<lparr>phys := p\<rparr>)) (kpm_free ?ch (phys k))"
    using assms(2) q q' strto_num_arg(3) [OF assms(3)] long_clamp_word(1) [of z] by (cases "kpm_free ?ch (phys k)") (simp_all add: blt_free_def)
  show ?thesis
  proof (cases "a < 2 ^ 31 \<and> 4096 dvd a")
    case True
    then have la: "long_clamp a = a" by (simp add: long_clamp_def)
    then obtain p where "kpm_free ?ch (phys k) = Some p" "sys_inv im (k\<lparr>phys := p\<rparr>)" "keeps im k (k\<lparr>phys := p\<rparr>)"
        "enabled_set p = enabled_in k" "free_frames p = free_in k \<union> (chunk_frames ?ch \<inter> enabled_in k)"
      using kpm_free_kernel [OF assms(1), of ?ch] assms(5) True by auto
    then show ?thesis using True la by (intro exI [of _ "k\<lparr>phys := p\<rparr>"]) (simp add: eq cur_def)
  next
    case False
    then have "\<not> 4096 dvd long_clamp a" by (cases "a < 2 ^ 31") (auto simp: long_clamp_def)
    then have "\<not> ISALIGNED (chunk_addr ?ch) PAGE_SIZE" using long_clamp_word(2) [of a] by (simp add: page_aligned_iff)
    then have "kpm_free ?ch (phys k) = Some (phys k)" by (simp add: kpm_free_def)
    then have "blt_free im argc argv k = Some (0, k)" by (simp add: eq)
    moreover have "keeps im k k" by (simp add: keeps_def)
    ultimately show ?thesis using False assms(1) by auto
  qed
qed

theorem blt_free_correct_witness:
  "\<exists>k'. blt_free demo_image 3 (\<lambda>_. 0x8010) (demo_sys demo_args) = Some (0, k') \<and> sys_inv demo_image k'"
proof -
  have "kpm_owned (phys (demo_sys demo_args)) \<lparr>chunk_addr = of_nat 0x1000, chunk_size = of_nat (long_clamp 0x1000)\<rparr>"
    by (simp add: kpm_owned_def demo_sys_def demo_phys long_clamp_def)
  then show ?thesis
    using blt_free_correct [where im = demo_image and k = "demo_sys demo_args" and argc = 3 and argv = "\<lambda>_. 0x8010" and a = "0x1000" and z = "0x1000"]
      demo_sys_inv demo_arg_4096 by auto
qed

text \<open>
  The command \<^verbatim>\<open>color\<close>.  With \<^verbatim>\<open>fg\<close> or \<^verbatim>\<open>bg\<close> and the name of a colour it returns 0 and has changed the low or the high half
  of the current screen's colour to the index of the name, and nothing else; with any other name it returns -1 and has printed that
  the colour is unknown, and nothing else.
\<close>

theorem blt_color_correct:
  assumes "sys_inv im k" "3 \<le> argc" "word_arg im k (argv 1) cmd" "word_arg im k (argv 2) name" "cmd \<in> {bytes ''fg'', bytes ''bg''}"
  shows "(\<forall>i < 16. name = bytes (colors ! i) \<longrightarrow>
      (\<exists>k'. blt_color im argc argv k = Some (0, k') \<and> sys_inv im k' \<and> scr_step im k k'
         \<and> cur k' = (cur k)\<lparr>color := (if cmd = bytes ''fg'' then (color (cur k) AND 0xf0) OR of_nat i
                                    else push_bit 4 (of_nat i) OR (color (cur k) AND 0x0f))\<rparr>))
    \<and> (name \<notin> bytes ` set colors \<longrightarrow>
      (\<exists>k'. blt_color im argc argv k = Some (-1, k') \<and> says im k (bytes ''color: '' @ [39] @ name @ [39] @ bytes '' unknown color.\<newline>'') k'))"
proof -
  let ?f = "''color: '%s' unknown color.\<newline>''"
  have c1: "cstr (ram k) (argv 1) cmd" and c2: "cstr (ram k) (argv 2) name" using assms(3,4) by (simp_all add: word_arg_def)
  obtain r where r: "strcmp (ram k) (argv 1) (lit im ''reset'') = Some r" "r \<noteq> 0"
    using strcmp_lit(1) [OF assms(1) _ c1, of "''reset''"] assms(5) lit_lists(3) by (auto simp: bytes_def)
  obtain f where f: "strcmp (ram k) (argv 1) (lit im ''fg'') = Some f" "f = 0 \<longleftrightarrow> cmd = bytes ''fg''"
    using strcmp_lit(1) [OF assms(1) _ c1, of "''fg''"] lit_lists(3) by auto
  obtain b where b: "strcmp (ram k) (argv 1) (lit im ''bg'') = Some b" "b = 0 \<longleftrightarrow> cmd = bytes ''bg''"
    using strcmp_lit(1) [OF assms(1) _ c1, of "''bg''"] lit_lists(3) by auto
  define set_fn where "set_fn = (if cmd = bytes ''fg'' then sb_set_fg else sb_set_bg)"
  have eq: "blt_color im argc argv k = set_color_named im set_fn (argv 2) k"
    using assms(2,5) r f b by (auto simp: blt_color_def set_fn_def)
  from find_name_ok [OF assms(1) lit_lists(1) c2, of 0] show ?thesis
  proof (elim disjE exE conjE)
    fix j assume j: "j < length colors" "find_name im (ram k) colors 0 (argv 2) = Some (Some (0 + j))" "name = bytes (colors ! j)"
    have uniq: "i = j" if "i < 16" "name = bytes (colors ! i)" for i
      using that j(1,3) lit_lists(4,6) by (metis distinct_conv_nth length_map nth_map)
    have j16: "j < 16" using j(1) lit_lists(6) by simp
    let ?c = "\<lambda>s. if cmd = bytes ''fg'' then (color s AND 0xf0) OR of_nat j else push_bit 4 (of_nat j) OR (color s AND 0x0f)"
    have fn: "set_fn (of_nat j) s = s\<lparr>color := ?c s\<rparr>" for s
      by (simp add: set_fn_def recolor_simps color_nibble [OF j16])
    obtain k' where k': "on_cur (set_fn (of_nat j)) k = Some k'" "scr_step im k k'" "cur k' = set_fn (of_nat j) (cur k)"
      using recolor [OF sys_invD(1) [OF assms(1)], of "set_fn (of_nat j)" ?c im] fn by blast
    moreover have "name \<in> bytes ` set colors" using j by auto
    ultimately show ?thesis
      using uniq j sys_inv_scr_step [OF assms(1) k'(2)] by (auto simp: eq set_color_named_def fn)
  next
    assume n: "find_name im (ram k) colors 0 (argv 2) = Some None" "name \<notin> bytes ` set colors"
    have "?f \<in> set literals" by (simp add: literals_def)
    from quote_says [OF assms(1) this assms(4), of "bytes ''color: '' @ [39]" "[39] @ bytes '' unknown color.\<newline>''"]
    obtain k' where "kprint im ?f [argv 2] k = Some k'" "says im k (bytes ''color: '' @ [39] @ name @ [39] @ bytes '' unknown color.\<newline>'') k'"
      by (auto simp: bytes_def printable_def)
    moreover have "name \<noteq> bytes (colors ! i)" if "i < 16" for i using n(2) that lit_lists(6) by auto
    ultimately show ?thesis using n by (auto simp: eq set_color_named_def)
  qed
qed

text \<open>The words fg at 0x8000, red at 0x8010 and us at 0x8020.\<close>

definition demo_words :: mem where
  "demo_words = (\<lambda>_. 0)(0x8000 := 102, 0x8001 := 103, 0x8010 := 114, 0x8011 := 101, 0x8012 := 100, 0x8020 := 117, 0x8021 := 115)"

lemma demo_word_args:
  "word_arg demo_image (demo_sys demo_words) 0x8000 (bytes ''fg'')" "word_arg demo_image (demo_sys demo_words) 0x8010 (bytes ''red'')"
  "word_arg demo_image (demo_sys demo_words) 0x8020 (bytes ''us'')"
proof -
  have "blk 0x8000 (Suc (length (bytes ''fg''))) \<inter> blk 0x10000 4096 = {}" "blk 0x8010 (Suc (length (bytes ''red''))) \<inter> blk 0x10000 4096 = {}"
    "blk 0x8020 (Suc (length (bytes ''us''))) \<inter> blk 0x10000 4096 = {}"
    by (rule blk_apart; simp add: bytes_def)+
  then show "word_arg demo_image (demo_sys demo_words) 0x8000 (bytes ''fg'')" "word_arg demo_image (demo_sys demo_words) 0x8010 (bytes ''red'')"
    "word_arg demo_image (demo_sys demo_words) 0x8020 (bytes ''us'')"
    by (simp_all add: word_arg_def bytes_def demo_sys_low demo_words_def demo_image_def)
qed

theorem blt_color_correct_witness:
  "\<exists>k'. blt_color demo_image 3 (\<lambda>i. if i = 1 then 0x8000 else 0x8010) (demo_sys demo_words) = Some (0, k') \<and> sys_inv demo_image k'"
proof -
  have "4 < (16 :: nat)" "bytes ''red'' = bytes (colors ! 4)" by (simp_all add: colors_def)
  then show ?thesis
    using blt_color_correct [where im = demo_image and k = "demo_sys demo_words" and argc = 3 and argv = "\<lambda>i. if i = 1 then 0x8000 else 0x8010"
      and cmd = "bytes ''fg''" and name = "bytes ''red''"] demo_sys_inv demo_word_args by fastforce
qed

text \<open>
  The command \<^verbatim>\<open>keymap\<close> with the name of a layout returns 0 and installs it, changing nothing else; with any other word but
  \<^verbatim>\<open>list\<close> it returns -1, has printed that the layout was not found, and keeps the layout.
\<close>

theorem blt_keymap_correct:
  assumes "sys_inv im k" "2 \<le> argc" "word_arg im k (argv 1) name" "name \<noteq> bytes ''list''"
  shows "(\<forall>(s, f) \<in> set layouts. name = bytes s \<longrightarrow>
       blt_keymap im argc argv k = Some (0, k\<lparr>kbd := (kbd k)\<lparr>getkeymapentry := Some f\<rparr>\<rparr>))
    \<and> (name \<notin> {bytes ''us'', bytes ''fr''} \<longrightarrow>
       (\<exists>k'. blt_keymap im argc argv k = Some (-1, k')
          \<and> says im k (bytes ''keymap: Layout '' @ [39] @ name @ [39] @ bytes '' not found.\<newline>'') k'))"
proof -
  let ?f = "''keymap: Layout '%s' not found.\<newline>''"
  have c: "cstr (ram k) (argv 1) name" using assms(3) by (simp add: word_arg_def)
  obtain l where l: "strcmp (ram k) (argv 1) (lit im ''list'') = Some l" "l \<noteq> 0"
    using strcmp_lit(1) [OF assms(1) _ c, of "''list''"] assms(4) lit_lists(3) by auto
  have eq: "blt_keymap im argc argv k = do {
          i \<leftarrow> find_name im (ram k) (map fst layouts) 0 (argv 1);
          case i of
            Some n \<Rightarrow> Some (0, k\<lparr>kbd := KBD_setkeymap (snd (layouts ! n)) (kbd k)\<rparr>)
          | None \<Rightarrow> do { k1 \<leftarrow> kprint im ?f [argv 1] k; Some (-1, k1) } }"
    using assms(2) l by (simp add: blt_keymap_def del: One_nat_def)
  from find_name_ok [OF assms(1) lit_lists(2) c, of 0] show ?thesis
  proof (elim disjE exE conjE)
    fix j assume j: "j < length (map fst layouts)" "find_name im (ram k) (map fst layouts) 0 (argv 1) = Some (Some (0 + j))"
      "name = bytes (map fst layouts ! j)"
    then have "j = 0 \<or> j = 1" by (auto simp: layouts_def)
    then show ?thesis using j by (auto simp: eq layouts_def KBD_setkeymap_def bytes_def)
  next
    assume n: "find_name im (ram k) (map fst layouts) 0 (argv 1) = Some None" "name \<notin> bytes ` set (map fst layouts)"
    have "?f \<in> set literals" by (simp add: literals_def)
    from quote_says [OF assms(1) this assms(3), of "bytes ''keymap: Layout '' @ [39]" "[39] @ bytes '' not found.\<newline>''"]
    obtain k' where "kprint im ?f [argv 1] k = Some k'" "says im k (bytes ''keymap: Layout '' @ [39] @ name @ [39] @ bytes '' not found.\<newline>'') k'"
      by (auto simp: bytes_def printable_def)
    then show ?thesis using n by (auto simp: eq layouts_def)
  qed
qed

theorem blt_keymap_correct_witness:
  "blt_keymap demo_image 2 (\<lambda>_. 0x8020) (demo_sys demo_words)
     = Some (0, (demo_sys demo_words)\<lparr>kbd := (kbd (demo_sys demo_words))\<lparr>getkeymapentry := Some US104_getkeymapentry\<rparr>\<rparr>)"
proof -
  have "bytes ''us'' \<noteq> bytes ''list''" by (simp add: bytes_def)
  moreover have "(''us'', US104_getkeymapentry) \<in> set layouts" by (simp add: layouts_def)
  ultimately show ?thesis
    using blt_keymap_correct [where im = demo_image and k = "demo_sys demo_words" and argc = 2 and argv = "\<lambda>_. 0x8020" and name = "bytes ''us''"]
      demo_sys_inv demo_word_args(3) by fastforce
qed

end
