(* ===== verification/Nsh_Edit.thy ===== *)
theory Nsh_Edit
  imports Nsh Builtins_Correct
begin

text \<open>
  The line editor of the shell: the bytes at \<open>nsh_buf\<close> refine a list of characters, and \<^verbatim>\<open>nsh_addchar\<close> refines the
  editing of that list.  \<open>line_is\<close> is the abstraction relation, \<open>edit\<close> the operation on lists.
\<close>

unbundle bit_operations_syntax

section \<open>Scrolling down to the cursor\<close>

text \<open>
  \<^verbatim>\<open>sb_scroll_down\<close> computes the new viewport without wrapping around the ring, which is right unless the viewport is far
  above a cursor in the first lines of the ring.
\<close>

definition settled :: "screenbuf \<Rightarrow> bool" where
  "settled s \<longleftrightarrow> sb_ldiff s (viewport s) (cursor s) \<le> VGA_HEIGHT \<or> 80 * 24 \<le> cursor s"

lemma sb_scroll_down_ok:
  assumes "sb_inv s" "settled s"
  shows "\<exists>p v'. sb_scroll_down d s v = Some (s\<lparr>viewport := p\<rparr>, v') \<and> sb_inv (s\<lparr>viewport := p\<rparr>)"
proof -
  obtain T V C where at: "sb_at T V C s" and off: "uint (cursor_offset s) < 80" using assms(1) by (auto simp: sb_inv_def)
  have a: "endbuf s = 16000" "top s = 80 * T" "viewport s = 80 * V" "cursor s = 80 * C"
    and r: "T \<in> {0..<200}" "V \<in> {0..<200}" "C \<in> {0..<200}" "rdist T V \<le> rdist T C"
    using at by (simp_all add: sb_at_def)
  have l: "sb_ldiff s (viewport s) (cursor s) = rdist V C" using a r by (simp add: sb_ldiff_ring)
  show ?thesis
  proof (cases "rdist V C > 25")
    case False
    then have "sb_scroll_down d s v = Some (s, v)" by (simp add: sb_scroll_down_def l VGA_HEIGHT_def)
    then show ?thesis using assms(1) by (intro exI [of _ "viewport s"]) simp
  next
    case True
    then have C: "24 \<le> C" using assms(2) l a by (simp add: settled_def VGA_HEIGHT_def)
    let ?V = "C - 24"
    have "rdist T ?V \<le> rdist T C" using True r C by (auto simp: rdist_def split: if_splits)
    then have "sb_at T ?V C (s\<lparr>viewport := 80 * ?V\<rparr>)" using a r C by (simp add: sb_at_def)
    then have "sb_inv (s\<lparr>viewport := 80 * ?V\<rparr>)" using off by (auto simp: sb_inv_def)
    moreover obtain v' where "sb_sync d (s\<lparr>viewport := 80 * ?V\<rparr>) v = Some v'" using sync_viewport [OF a(1), of ?V d v] r C by auto
    moreover have "cursor s - VGA_WIDTH * (VGA_HEIGHT - 1) = 80 * ?V" using a by (simp add: sb_consts)
    moreover have "sb_scroll_down d s v = do { v1 \<leftarrow> sb_sync d (s\<lparr>viewport := cursor s - VGA_WIDTH * (VGA_HEIGHT - 1)\<rparr>) v;
        Some (s\<lparr>viewport := cursor s - VGA_WIDTH * (VGA_HEIGHT - 1)\<rparr>, v1) }"
      using True unfolding sb_scroll_down_def l Let_def by (simp add: VGA_HEIGHT_def)
    ultimately show ?thesis by (intro exI [of _ "80 * ?V"] exI [of _ v']) simp
  qed
qed

text \<open>
  On a screen that is not settled the new viewport lies before the start of the buffer.  The redraw returns nevertheless: \<^verbatim>\<open>sb_addline\<close> brings the
  places back into the ring.
\<close>

lemma sb_addline_near:
  assumes "endbuf s = 16000" "- 16000 \<le> a + n * 80" "a + n * 80 < 16000"
  shows "\<exists>p. sb_addline s a n = Some p"
proof -
  have "sb_addline_down 16000 16000 (a + n * 80) = Some (a + n * 80)" using assms(3) by (subst sb_addline_down.simps) simp
  moreover have "sb_addline_up 16000 p = Some p" if "0 \<le> p" for p using that by (subst sb_addline_up.simps) simp
  then have "\<exists>p. sb_addline_up 16000 (a + n * 80) = Some p" using assms(2) by (subst sb_addline_up.simps) simp
  ultimately show ?thesis using assms(1) by (simp add: sb_addline_def VGA_WIDTH_def)
qed

lemma sb_sync_lines_near:
  assumes "endbuf s = 16000" "- 16000 \<le> viewport s + i * 80" "viewport s + (i + int n) * 80 \<le> 16000"
  shows "\<exists>g'. sb_sync_lines s i n g = Some g'"
  using assms(2,3)
proof (induction n arbitrary: i g)
  case (Suc n)
  obtain p where "sb_addline s (viewport s) i = Some p" using sb_addline_near [OF assms(1), of "viewport s" i] Suc.prems by auto
  then show ?case using Suc.IH [of "i + 1"] Suc.prems by (simp add: algebra_simps)
qed simp

lemma sb_scroll_down_unsettled:
  assumes "sb_inv s" "\<not> settled s"
  shows "\<exists>s' v'. sb_scroll_down d s v = Some (s', v') \<and> cursor s' = cursor s \<and> viewport s' < 0 \<and> \<not> sb_inv s'"
proof -
  have l: "sb_ldiff s (viewport s) (cursor s) > VGA_HEIGHT" and c: "cursor s < 1920" using assms(2) by (simp_all add: settled_def)
  let ?s = "s\<lparr>viewport := cursor s - VGA_WIDTH * (VGA_HEIGHT - 1)\<rparr>"
  have e: "endbuf s = 16000" "0 \<le> cursor s" using assms(1) by (auto simp: sb_inv_def sb_at_def)
  have "\<exists>g'. sb_sync_lines ?s 0 (nat VGA_HEIGHT) (vga v) = Some g'"
    using e c by (intro sb_sync_lines_near) (simp_all add: sb_consts)
  then have "\<exists>v'. sb_sync d ?s v = Some v'" by (cases "loaded s") (auto simp: sb_sync_def)
  then obtain v' where "sb_sync d ?s v = Some v'" by blast
  moreover have v: "viewport ?s < 0" using c by (simp add: sb_consts)
  then have "\<not> sb_inv ?s" by (auto simp: sb_inv_def sb_at_def)
  ultimately show ?thesis using l v by (intro exI [of _ ?s] exI [of _ v']) (simp add: sb_scroll_down_def)
qed

text \<open>The state after the first line of \<^verbatim>\<open>nsh_addchar\<close>.\<close>

lemma scroll_to_cursor:
  assumes "sys_inv im k" "settled (cur k)"
  shows "\<exists>k'. on_screen (sb_scroll_down (dev im)) k = Some k' \<and> sys_inv im k' \<and> scr_step im k k' \<and> ram k' = ram k
    \<and> (\<exists>p. cur k' = (cur k)\<lparr>viewport := p\<rparr>)"
proof -
  note c = con_invD [OF sys_invD(1) [OF assms(1)]]
  obtain p v' where p: "sb_scroll_down (dev im) (cur k) (hw k) = Some ((cur k)\<lparr>viewport := p\<rparr>, v')" "sb_inv ((cur k)\<lparr>viewport := p\<rparr>)"
    using sb_scroll_down_ok [OF c(2) assms(2)] by blast
  let ?k = "(set_cur ((cur k)\<lparr>viewport := p\<rparr>) k)\<lparr>hw := v'\<rparr>"
  have "con_inv ?k" using con_inv_set_cur(1) [OF sys_invD(1) [OF assms(1)] p(2)] c(3) by simp
  moreover have "same_but_screen im k ?k" using c(1) sb_scroll_down_reads [OF p(1)] by (auto simp: same_but_screen_def set_cur_def cur_ok_def)
  moreover have "tidy ?k" if t: "tidy k"
  proof -
    obtain ls where "has_text (cur k) ls" using t sys_invD(1) [OF assms(1)] by (rule tidyD)
    then have "(cur k)\<lparr>viewport := p\<rparr> = cur k" "v' = hw k" using has_text_visible(2) [of "cur k" ls "dev im" "hw k"] p(1) by simp_all
    then have "sb ?k = sb k" "hw ?k = hw k" by (simp_all add: set_cur_def cur_def)
    then show ?thesis using t tidy_cong [of ?k k] by simp
  qed
  ultimately have s: "scr_step im k ?k" by (simp add: scr_step_def)
  have "cur ?k = (cur k)\<lparr>viewport := p\<rparr>" using c(4) by (simp add: cur_def set_cur_def)
  then show ?thesis using p(1) c(1) sys_inv_scr_step [OF assms(1) s] s by (intro exI [of _ ?k]) (auto simp: on_screen_def)
qed

section \<open>The line\<close>

definition line_is :: "image \<Rightarrow> kernel \<Rightarrow> u8 list \<Rightarrow> bool" where
  "line_is im k xs \<longleftrightarrow> nsh_bufindex k = int (length xs) \<and> length xs < 1024 \<and> 0 \<notin> set xs
     \<and> (\<forall>i < 1024. nsh_get im k (int i) = (if i < length xs then xs ! i else 0))"

definition edit :: "u8 \<Rightarrow> u8 list \<Rightarrow> u8 list" where
  "edit c xs = (if c = 8 then butlast xs else if length xs < 1023 then xs @ [c] else xs)"

lemma nsh_at_inj: "i < 1024 \<Longrightarrow> j < 1024 \<Longrightarrow> nsh_at im (int i) = nsh_at im (int j) \<longleftrightarrow> i = j"
  by (simp add: nsh_at_def of_nat_word_inj)

lemma nsh_at_blk: "i < 1024 \<Longrightarrow> nsh_at im (int i) \<in> blk (nsh_buf im) NSH_SIZE"
  by (simp add: nsh_at_def NSH_SIZE_def blk_add_of_nat)

lemma nsh_get_put:
  "i < 1024 \<Longrightarrow> j < 1024 \<Longrightarrow> nsh_get im (nsh_put im (int j) c k) (int i) = (if i = j then c else nsh_get im k (int i))"
  by (simp add: nsh_get_def nsh_put_def nsh_at_inj)

lemma nsh_put_simps [simp]:
  "nsh_bufindex (nsh_put im i c k) = nsh_bufindex k" "con_inv (nsh_put im i c k) = con_inv k" "cur (nsh_put im i c k) = cur k"
  "hw (nsh_put im i c k) = hw k" "buddy (phys (nsh_put im i c k)) = buddy (phys k)" "nsh_cmd (nsh_put im i c k) = nsh_cmd k"
  "kbd (nsh_put im i c k) = kbd k"
  by (simp_all add: nsh_put_def)

text \<open>Printing leaves the line alone, and writing the line keeps the invariant.\<close>

lemma line_is_same:
  assumes "sys_inv im k" "same_but_screen im k k'" "line_is im k xs"
  shows "line_is im k' xs"
proof -
  have "nsh_get im k' (int i) = nsh_get im k (int i)" if "i < 1024" for i
    using nsh_at_blk [OF that, of im] sys_invD(4) [OF assms(1)] assms(2)
    by (auto simp: nsh_get_def same_but_screen_def layout_ok_def)
  then show ?thesis using assms(2,3) by (simp add: line_is_def same_but_screen_def)
qed

lemma sys_inv_nsh:
  assumes "sys_inv im k" "con_inv k'" "buddy (phys k') = buddy (phys k)" "\<forall>a. a \<notin> blk (nsh_buf im) NSH_SIZE \<longrightarrow> ram k' a = ram k a"
  shows "sys_inv im k'"
  using sys_inv_step(1) [OF assms(1-3)] sys_invD(4) [OF assms(1)] assms(4) unfolding layout_ok_def by blast

lemma sys_inv_put:
  assumes "sys_inv im k" "i < 1024"
  shows "sys_inv im ((nsh_put im (int i) c k)\<lparr>nsh_bufindex := n\<rparr>)"
proof (rule sys_inv_nsh [OF assms(1)])
  show "con_inv ((nsh_put im (int i) c k)\<lparr>nsh_bufindex := n\<rparr>)" using sys_invD(1) [OF assms(1)] by (simp add: con_inv_def nsh_put_def set_ram_def)
qed (use nsh_at_blk [OF assms(2), of im] in \<open>auto simp: nsh_put_def\<close>)

lemma line_is_append:
  assumes "line_is im k xs" "length xs < 1023" "c \<noteq> 0"
  shows "line_is im ((nsh_put im (nsh_bufindex k) c k)\<lparr>nsh_bufindex := nsh_bufindex k + 1\<rparr>) (xs @ [c])"
proof -
  have b: "nsh_bufindex k = int (length xs)" using assms(1) by (simp add: line_is_def)
  have g: "nsh_get im (k\<lparr>nsh_bufindex := n\<rparr>) = nsh_get im k" for k n by (simp add: fun_eq_iff nsh_get_def)
  show ?thesis
    using assms unfolding line_is_def b by (auto simp: g nsh_get_put nth_append)
qed

lemma line_is_butlast:
  assumes "line_is im k xs" "xs \<noteq> []"
  shows "line_is im (nsh_put im (nsh_bufindex k - 1) 0 (k\<lparr>nsh_bufindex := nsh_bufindex k - 1\<rparr>)) (butlast xs)"
proof -
  let ?n = "length xs - 1"
  have b: "nsh_bufindex k = int (length xs)" "length xs < 1024" using assms(1) by (simp_all add: line_is_def)
  have n: "nsh_bufindex k - 1 = int ?n" "?n < 1024" using assms(2) b by (cases xs; simp)+
  have g: "nsh_get im (k\<lparr>nsh_bufindex := m\<rparr>) = nsh_get im k" for k m by (simp add: fun_eq_iff nsh_get_def)
  have "0 \<notin> set (butlast xs)" using assms(1) in_set_butlastD [of 0 xs] by (auto simp: line_is_def)
  moreover have "nsh_get im (nsh_put im (int ?n) 0 (k\<lparr>nsh_bufindex := int ?n\<rparr>)) (int i) = (if i < ?n then butlast xs ! i else 0)" if "i < 1024" for i
    using assms(1) that n(2) by (auto simp: nsh_get_put g line_is_def nth_butlast)
  ultimately show ?thesis using n b unfolding line_is_def n(1) by simp
qed

section \<open>Echoing a character\<close>

text \<open>\<^verbatim>\<open>kprintf\<close> of one character, a backspace included.\<close>

lemma putchar_tidy:
  assumes "sb_putchar (dev im) c (cur k) (hw k) = Some (cur k', hw k')" "same_but_screen im k k'" "con_inv k" "tidy k"
    and "c \<notin> {0, 9}" "c = 8 \<longrightarrow> erasable (cur k)"
  shows "tidy k'"
proof -
  obtain ls where ls: "has_text (cur k) ls" "synced (cur k) (hw k)" using assms(4,3) by (rule tidyD)
  then have "\<exists>ls'. has_text (cur k') ls' \<and> synced (cur k') (hw k')"
    using putchar_text [OF ls assms(5), of "dev im"] has_text_erasable [OF ls(1)] assms(1,6) by auto
  then show ?thesis using tidy_cur [OF assms(4,3)] assms(2) by (auto simp: same_but_screen_def)
qed

lemma echo_char:
  assumes "sys_inv im k" "fmt \<in> set literals" "expand Map.empty 0 (bytes fmt) args = Some [c]" "c \<noteq> 0" "c = 8 \<longrightarrow> erasable (cur k)"
  shows "\<exists>k'. kprint im fmt args k = Some k' \<and> sys_inv im k' \<and> same_but_screen im k k'
    \<and> sb_putchar (dev im) c (cur k) (hw k) = Some (cur k', hw k')"
proof -
  note i = con_invD [OF sys_invD(1) [OF assms(1)]]
  have lit: "lit_ok im (ram k) fmt" by (rule lits_okD [OF sys_invD(2) [OF assms(1)] assms(2)])
  obtain s v where sv: "sb_putchar (dev im) c (cur k) (hw k) = Some (s, v)" "sb_inv s"
    using sb_putchar_ok [OF i(2) assms(5), of "hw k" "dev im"] by (auto simp: sb_ok_def)
  have l: "loaded s" using sb_putchar_loaded [OF sv(1)] i(3) by simp
  let ?m = "mwrite (filled (ram k) (kbuf im) 0 4096) (kbuf im) [c]"
  let ?k = "(set_cur s (set_ram ?m k))\<lparr>hw := v\<rparr>"
  have "kprint im fmt args k = kputs im [c] k"
    using kprintf_kputs [OF lit strs_ok_empty assms(3)] assms(4) by (simp add: kprint_def option.map_comp comp_def option.map_ident)
  also have "\<dots> = Some ?k" using i(1) sv(1) by (simp add: kputs_def on_screen_def)
  finally have e: "kprint im fmt args k = Some ?k" .
  have con: "con_inv ?k" using con_inv_set_cur(1) [OF _ sv(2) l] sys_invD(1) [OF assms(1)] by simp
  have cur: "cur ?k = s" using i(4) by (simp add: cur_def set_cur_def)
  have "ram ?k a = ram k a" if "a \<notin> blk (kbuf im) 4096" for a
    using that blk_add_of_nat [of 0 4096 "kbuf im"] by (auto simp: filled_def)
  then have "same_but_screen im k ?k" using i(1) sb_putchar_reads [OF sv(1)] by (auto simp: same_but_screen_def set_cur_def cur_ok_def)
  then show ?thesis using e con cur sv(1) sys_inv_same(1) [OF assms(1) con] by auto
qed

text \<open>Storing or removing a character and echoing it.\<close>

text \<open>What editing leaves alone: the keyboard, the argument vector, and all memory but the line and the buffer of \<^verbatim>\<open>kprintf\<close>.\<close>

definition line_step :: "image \<Rightarrow> kernel \<Rightarrow> kernel \<Rightarrow> bool" where
  "line_step im k k' \<longleftrightarrow> kbd k' = kbd k \<and> buddy (phys k') = buddy (phys k) \<and> nsh_cmd k' = nsh_cmd k \<and> nsh_cmdnarg k' = nsh_cmdnarg k
     \<and> data_reads (ports (hw k')) = data_reads (ports (hw k)) \<and> (\<forall>a. a \<notin> blk (nsh_buf im) NSH_SIZE \<union> blk (kbuf im) 4096 \<longrightarrow> ram k' a = ram k a) \<and> (tidy k \<longrightarrow> tidy k')"

lemma line_step_trans: "line_step im k k1 \<Longrightarrow> line_step im k1 k2 \<Longrightarrow> line_step im k k2"
  by (simp add: line_step_def)

lemma line_step_scr: "scr_step im k k' \<Longrightarrow> line_step im k k'"
  by (simp add: line_step_def scr_step_def same_but_screen_def)

lemma tidy_nsh [simp]: "tidy (nsh_put im i c k) = tidy k" "tidy (k\<lparr>nsh_bufindex := n\<rparr>) = tidy k"
  by (simp_all add: tidy_def cur_def nsh_put_def)

lemma line_step_put: "i < 1024 \<Longrightarrow> line_step im k ((nsh_put im (int i) c k)\<lparr>nsh_bufindex := n\<rparr>)"
  using nsh_at_blk [of i im] by (auto simp: line_step_def nsh_put_def tidy_def cur_def)

text \<open>The echo of a character that has been stored or removed.\<close>

lemma echo_step:
  assumes "same_but_screen im k k'" "sb_putchar (dev im) c (cur k) (hw k) = Some (cur k', hw k')" "con_inv k"
    and "c \<notin> {0, 9}" "c = 8 \<longrightarrow> erasable (cur k)"
  shows "line_step im k k'"
  using assms(1) putchar_tidy [OF assms(2,1,3) _ assms(4,5)] by (simp add: line_step_def same_but_screen_def)

lemma nsh_erase:
  assumes "sys_inv im k" "line_is im k xs" "xs \<noteq> []" "erasable (cur k)"
  shows "\<exists>k'. kprint im [CHR 0x08] [] (nsh_put im (nsh_bufindex k - 1) 0 (k\<lparr>nsh_bufindex := nsh_bufindex k - 1\<rparr>)) = Some k'
    \<and> sys_inv im k' \<and> line_is im k' (butlast xs) \<and> line_step im k k'
    \<and> sb_putchar (dev im) 8 (cur k) (hw k) = Some (cur k', hw k')"
proof -
  let ?k = "nsh_put im (nsh_bufindex k - 1) 0 (k\<lparr>nsh_bufindex := nsh_bufindex k - 1\<rparr>)"
  have b: "nsh_bufindex k = int (length xs)" "length xs < 1024" using assms(2) by (simp_all add: line_is_def)
  have l: "line_is im ?k (butlast xs)" by (rule line_is_butlast [OF assms(2,3)])
  have "nsh_bufindex k - 1 = int (length xs - 1)" "length xs - 1 < 1024" using b assms(3) by (cases xs; simp)+
  moreover have "?k = (nsh_put im (nsh_bufindex k - 1) 0 k)\<lparr>nsh_bufindex := nsh_bufindex k - 1\<rparr>" by (simp add: nsh_put_def set_ram_def)
  ultimately have s: "sys_inv im ?k" and st: "line_step im k ?k" using sys_inv_put [OF assms(1)] line_step_put by metis+
  have c: "cur ?k = cur k" "hw ?k = hw k" by (simp_all add: cur_def nsh_put_def)
  have "[CHR 0x08] \<in> set literals" by (simp add: literals_def)
  then obtain k' where k': "kprint im [CHR 0x08] [] ?k = Some k'" "sys_inv im k'" "same_but_screen im ?k k'" "sb_putchar (dev im) 8 (cur ?k) (hw ?k) = Some (cur k', hw k')"
    using echo_char [OF s, of "[CHR 0x08]" "[]" 8] assms(4) c by (auto simp: bytes_def)
  have "line_step im ?k k'" using echo_step [OF k'(3,4) sys_invD(1) [OF s]] assms(4) c by simp
  then show ?thesis using k' c line_is_same [OF s k'(3) l] line_step_trans [OF st] by auto
qed

lemma nsh_type:
  assumes "sys_inv im k" "line_is im k xs" "length xs < 1023" "c \<notin> {0, 9}" "c \<noteq> 8"
  shows "\<exists>k'. kprint im ''%c'' [scast c] ((nsh_put im (nsh_bufindex k) c k)\<lparr>nsh_bufindex := nsh_bufindex k + 1\<rparr>) = Some k'
    \<and> sys_inv im k' \<and> line_is im k' (xs @ [c]) \<and> line_step im k k'
    \<and> sb_putchar (dev im) c (cur k) (hw k) = Some (cur k', hw k')"
proof -
  let ?k = "(nsh_put im (nsh_bufindex k) c k)\<lparr>nsh_bufindex := nsh_bufindex k + 1\<rparr>"
  have b: "nsh_bufindex k = int (length xs)" using assms(2) by (simp add: line_is_def)
  have l: "line_is im ?k (xs @ [c])" by (rule line_is_append [OF assms(2,3)]) (use assms(4) in simp)
  have s: "sys_inv im ?k" and st: "line_step im k ?k" using sys_inv_put [OF assms(1), of "length xs"] line_step_put [of "length xs"] b assms(3) by simp_all
  have c: "cur ?k = cur k" "hw ?k = hw k" by (simp_all add: cur_def nsh_put_def)
  have "ucast (scast c :: u32) = c" by (rule bit_word_eqI) (simp add: bit_simps)
  moreover have "''%c'' \<in> set literals" by (simp add: literals_def)
  ultimately obtain k' where k': "kprint im ''%c'' [scast c] ?k = Some k'" "sys_inv im k'" "same_but_screen im ?k k'"
      "sb_putchar (dev im) c (cur ?k) (hw ?k) = Some (cur k', hw k')"
    using echo_char [OF s, of "''%c''" "[scast c]" c] assms(4,5) by (auto simp: bytes_def spec_text_def va_arg_def is_pad_def)
  have "line_step im ?k k'" using echo_step [OF k'(3,4) sys_invD(1) [OF s] assms(4)] assms(5) by simp
  then show ?thesis using k' c line_is_same [OF s k'(3) l] line_step_trans [OF st] by auto
qed

lemma nsh_addchar_edits:
  assumes "sys_inv im k" "line_is im k xs" "settled (cur k)" "c \<notin> {0, 9, 10}" "c = 8 \<longrightarrow> erasable (cur k)"
  shows "\<exists>k' s v. nsh_addchar im c k = Some k' \<and> sys_inv im k' \<and> line_is im k' (edit c xs) \<and> line_step im k k'
    \<and> sb_scroll_down (dev im) (cur k) (hw k) = Some (s, v)
    \<and> (if edit c xs = xs then cur k' = s \<and> hw k' = v else sb_putchar (dev im) c s v = Some (cur k', hw k'))"
proof -
  obtain k1 where k1: "on_screen (sb_scroll_down (dev im)) k = Some k1" "sys_inv im k1" "scr_step im k k1" "ram k1 = ram k"
      "\<exists>p. cur k1 = (cur k)\<lparr>viewport := p\<rparr>"
    using scroll_to_cursor [OF assms(1,3)] by blast
  have con: "cur_ok k" "nat (sb_current k) < length (sb k)" by (rule con_invD [OF sys_invD(1) [OF assms(1)]])+
  then have down: "sb_scroll_down (dev im) (cur k) (hw k) = Some (cur k1, hw k1)"
    using k1(1) by (auto simp: on_screen_def bind_eq_Some_conv cur_def set_cur_def)
  have line: "line_is im k1 xs" using line_is_same [OF assms(1) _ assms(2)] k1(3) by (simp add: scr_step_def)
  have st: "line_step im k k1" by (rule line_step_scr [OF k1(3)])
  have b: "nsh_bufindex k1 = int (length xs)" "length xs < 1024" using line by (simp_all add: line_is_def)
  have er: "erasable (cur k1)" if "c = 8" using assms(5) that k1(5) by (auto simp: erasable_def)
  show ?thesis
  proof (cases "edit c xs = xs")
    case True
    then have "nsh_addchar im c k = Some k1"
      using k1(1) assms(4) b by (auto simp: nsh_addchar_def edit_def NSH_BUFSIZE_def split: if_splits)
        (metis butlast.simps(1) length_butlast less_irrefl diff_less length_greater_0_conv zero_less_one)+
    then show ?thesis using k1(2) line down st True by auto
  next
    case changed: False
    show ?thesis
    proof (cases "c = 8")
      case True
      then have ne: "xs \<noteq> []" "edit c xs = butlast xs" using changed by (auto simp: edit_def)
      from nsh_erase [OF k1(2) line ne(1) er [OF True]] show ?thesis
        using k1(1) True b ne changed down line_step_trans [OF st] by (auto simp: nsh_addchar_def)
    next
      case False
      then have len: "length xs < 1023" and ed: "edit c xs = xs @ [c]" using changed by (auto simp: edit_def split: if_splits)
      from nsh_type [OF k1(2) line len, of c] show ?thesis
        using k1(1) False assms(4) b len ed down line_step_trans [OF st] by (auto simp: nsh_addchar_def NSH_BUFSIZE_def)
    qed
  qed
qed

lemma sb_scroll_down_visible:
  assumes "sb_inv s" "settled s"
  shows "\<exists>s' v'. sb_scroll_down d s v = Some (s', v') \<and> sb_inv s' \<and> cursor s' = cursor s
    \<and> (sb_ldiff s' (viewport s') (cursor s') < VGA_HEIGHT \<longleftrightarrow> sb_ldiff s (viewport s) (cursor s) \<noteq> VGA_HEIGHT)"
proof -
  obtain T V C where at: "sb_at T V C s" using assms(1) by (auto simp: sb_inv_def)
  have a: "endbuf s = 16000" "viewport s = 80 * V" "cursor s = 80 * C" and r: "V \<in> {0..<200}" "C \<in> {0..<200}" using at by (simp_all add: sb_at_def)
  have l: "sb_ldiff s (viewport s) (cursor s) = rdist V C" using a r by (simp add: sb_ldiff_ring)
  obtain p v' where p: "sb_scroll_down d s v = Some (s\<lparr>viewport := p\<rparr>, v')" "sb_inv (s\<lparr>viewport := p\<rparr>)"
    using sb_scroll_down_ok [OF assms] by blast
  show ?thesis
  proof (cases "rdist V C > 25")
    case False
    then have "sb_scroll_down d s v = Some (s, v)" by (simp add: sb_scroll_down_def l VGA_HEIGHT_def)
    then show ?thesis using assms(1) False l by (auto simp: VGA_HEIGHT_def)
  next
    case True
    then have C: "24 \<le> C" using assms(2) l a by (simp add: settled_def VGA_HEIGHT_def)
    have "sb_ldiff s (viewport s) (cursor s) > VGA_HEIGHT" using True l by (simp add: VGA_HEIGHT_def)
    then have "s\<lparr>viewport := p\<rparr> = s\<lparr>viewport := cursor s - VGA_WIDTH * (VGA_HEIGHT - 1)\<rparr>"
      using p(1) by (auto simp: sb_scroll_down_def Let_def bind_eq_Some_conv)
    then have "p = 80 * (C - 24)" using a by (auto simp: sb_consts dest: arg_cong [where f = viewport])
    then have "sb_ldiff (s\<lparr>viewport := p\<rparr>) p (cursor s) = rdist (C - 24) C" using sb_ldiff_ring [of "s\<lparr>viewport := p\<rparr>" "C - 24" C] a r C by simp
    moreover have "rdist (C - 24) C = 24" using C by (simp add: rdist_def)
    ultimately show ?thesis using p True l by (auto simp: VGA_HEIGHT_def)
  qed
qed

section \<open>Correctness properties\<close>

text \<open>
  C10: the line editor refines editing a list of characters.  On a key that is neither newline nor tabulation, with the screen
  settled (and something to erase, for a backspace), \<^verbatim>\<open>nsh_addchar\<close> returns, keeps the invariant of the kernel, turns
  the line \<open>xs\<close> into \<open>edit c xs\<close>, and echoes the key exactly when the line changed.
\<close>

theorem nsh_edit_refines:
  assumes "sys_inv im k" "line_is im k xs" "settled (cur k)" "c \<notin> {0, 9, 10}" "c = 8 \<longrightarrow> erasable (cur k)"
  shows "\<exists>k' s v. nsh_addchar im c k = Some k' \<and> sys_inv im k' \<and> line_is im k' (edit c xs)
    \<and> sb_scroll_down (dev im) (cur k) (hw k) = Some (s, v)
    \<and> (if edit c xs = xs then cur k' = s \<and> hw k' = v else sb_putchar (dev im) c s v = Some (cur k', hw k'))"
  using nsh_addchar_edits [OF assms] by blast

lemma demo_line_empty: "line_is demo_image (demo_sys (\<lambda>_. 0)) []" "settled (cur (demo_sys (\<lambda>_. 0)))"
proof -
  have "nsh_get demo_image (demo_sys (\<lambda>_. 0)) (int i) = 0" if "i < 1024" for i
  proof -
    have "unat (0x8000 + of_nat i :: ptr) = 0x8000 + i" using that by (subst unat_add_of_nat) simp_all
    then show ?thesis using that by (simp add: nsh_get_def nsh_at_def demo_image_def demo_sys_low)
  qed
  then show "line_is demo_image (demo_sys (\<lambda>_. 0)) []" by (simp add: line_is_def demo_sys_def demo_kernel_def)
  have "cur (demo_sys (\<lambda>_. 0)) = demo_sb\<lparr>loaded := True\<rparr>" by (simp add: cur_def demo_sys_def demo_kernel_def)
  then show "settled (cur (demo_sys (\<lambda>_. 0)))"
    by (simp add: settled_def demo_sb_def sb_init_def sb_ldiff_def sb_diff_def VGA_HEIGHT_def VGA_WIDTH_def)
qed

theorem nsh_edit_refines_witness:
  "\<exists>k'. nsh_addchar demo_image 97 (demo_sys (\<lambda>_. 0)) = Some k' \<and> line_is demo_image k' [97]"
  using nsh_edit_refines [OF demo_sys_inv demo_line_empty, of 97] by (auto simp: edit_def)

text \<open>
  C37: \<^verbatim>\<open>sb_scroll_down\<close>, with which every key begins, on a screen with the ring invariant.  It returns and leaves the cursor.  On a settled screen (the cursor at
  most 25 lines below the viewport, or not in the first 24 lines of the ring) it keeps the invariant and brings the line of the cursor on
  display, unless that line is the one just below the display: the comparison should have been \<open>\<ge>\<close>, and after one press of the cursor key up at the bottom of a full screen
  the characters typed next are not seen.  On a screen that is not settled the new viewport lies before the start of the buffer, and the invariant is lost.
\<close>

theorem sb_scroll_down_shows:
  assumes "sb_inv s"
  shows "\<exists>s' v'. sb_scroll_down d s v = Some (s', v') \<and> cursor s' = cursor s
    \<and> (if settled s then sb_inv s' \<and> (sb_ldiff s' (viewport s') (cursor s') < VGA_HEIGHT \<longleftrightarrow> sb_ldiff s (viewport s) (cursor s) \<noteq> VGA_HEIGHT)
       else viewport s' < 0 \<and> \<not> sb_inv s')"
  using sb_scroll_down_visible [OF assms, of d v] sb_scroll_down_unsettled [OF assms, of d v] by (cases "settled s") auto

theorem sb_scroll_down_shows_witness:
  "let s = demo_sb\<lparr>cursor := 80 * 25\<rparr> in
   \<exists>s' v'. sb_scroll_down (\<lambda>_ _. 0) s demo_video = Some (s', v') \<and> \<not> sb_ldiff s' (viewport s') (cursor s') < VGA_HEIGHT"
proof -
  let ?s = "demo_sb\<lparr>cursor := 80 * 25\<rparr>"
  have "sb_at 0 0 25 ?s" by (simp add: demo_sb_def sb_init_def sb_at_def rdist_def sb_consts)
  then have inv: "sb_inv ?s" and l: "sb_ldiff ?s (viewport ?s) (cursor ?s) = VGA_HEIGHT"
    using sb_ldiff_ring [of ?s 0 25] by (auto simp: sb_inv_def demo_sb_def sb_init_def sb_at_def rdist_def VGA_HEIGHT_def)
  have "settled ?s" using l by (simp add: settled_def)
  from this sb_scroll_down_shows [OF inv, of "\<lambda>_ _. 0" demo_video] l show ?thesis unfolding Let_def by auto
qed

end
