(* ===== verification/Nsh_Command.thy ===== *)
theory Nsh_Command
  imports Nsh_Edit
begin

text \<open>
  From the line to the command: \<^verbatim>\<open>nsh_createcmd\<close> splits the line into its words, \<^verbatim>\<open>nsh_execcmd\<close> runs the built-in command the first
  word names, and the newline key does both and starts a fresh line.
\<close>

unbundle bit_operations_syntax

section \<open>Words\<close>

function words :: "u8 list \<Rightarrow> u8 list list" where
  "words [] = []"
| "words (x # xs) = (if x = 32 then words xs
     else (x # takeWhile (\<lambda>c. c \<noteq> 32) xs) # words (dropWhile (\<lambda>c. c \<noteq> 32) xs))"
  by pat_completeness auto
termination by (relation "measure length") (auto simp: less_Suc_eq_le length_dropWhile_le)

lemma words_skip: "words (dropWhile (\<lambda>c. c = 32) xs) = words xs"
  by (induction xs) auto

section \<open>Scanning the line\<close>

lemma nsh_at_add: "nsh_at im (int i) + of_nat j = nsh_at im (int (i + j))"
  by (simp add: nsh_at_def add.assoc)

text \<open>A pointer scan over characters that satisfy \<open>P\<close> up to one that does not.\<close>

lemma scan_run:
  assumes "\<And>i. i < n \<Longrightarrow> P (p + of_nat i)" "\<not> P (p + of_nat n)"
  shows "scan P p = Some (p + of_nat n)"
  using assms
proof (induction n arbitrary: p)
  case 0
  then show ?case by (subst scan.simps) simp
next
  case (Suc n)
  have s: "p + 1 + of_nat i = p + of_nat (Suc i)" for i by (rule add_of_nat_Suc)
  have "scan P (p + 1) = Some (p + 1 + of_nat n)"
    using Suc.prems by (intro Suc.IH) (simp_all only: s, simp_all)
  moreover have "P p" using Suc.prems(1) [of 0] by simp
  ultimately show ?case by (subst scan.simps) (simp add: s del: of_nat_Suc)
qed

text \<open>The bytes of the line from position \<open>j\<close> on are \<open>rest\<close>, followed by a zero.\<close>

definition rest_is :: "image \<Rightarrow> kernel \<Rightarrow> nat \<Rightarrow> u8 list \<Rightarrow> bool" where
  "rest_is im k j rest \<longleftrightarrow> j + length rest < 1024 \<and> 0 \<notin> set rest
     \<and> (\<forall>i < length rest. nsh_get im k (int (j + i)) = rest ! i) \<and> nsh_get im k (int (j + length rest)) = 0"

lemma rest_is_drop:
  assumes "rest_is im k j rest" "n \<le> length rest"
  shows "rest_is im k (j + n) (drop n rest)"
  using assms unfolding rest_is_def by (auto simp: add.assoc simp del: of_nat_add dest: in_set_dropD)

lemma rest_scan:
  assumes "rest_is im k j rest" "\<not> P 0"
  shows "scan (\<lambda>p. P (ram k p)) (nsh_at im (int j)) = Some (nsh_at im (int (j + length (takeWhile P rest))))"
proof -
  let ?n = "length (takeWhile P rest)"
  have "P (ram k (nsh_at im (int j) + of_nat i))" if "i < ?n" for i
  proof -
    have "i < length rest" using that length_takeWhile_le [of P rest] by simp
    moreover have "P (rest ! i)" using nth_length_takeWhile [of P rest] that by (metis set_takeWhileD nth_mem takeWhile_nth)
    ultimately show ?thesis using assms(1) by (simp add: rest_is_def nsh_get_def nsh_at_add)
  qed
  moreover have "\<not> P (ram k (nsh_at im (int j) + of_nat ?n))"
  proof (cases "?n < length rest")
    case True
    then show ?thesis using assms(1) nth_length_takeWhile [of P rest] by (simp add: rest_is_def nsh_get_def nsh_at_add)
  next
    case False
    then have "?n = length rest" using length_takeWhile_le [of P rest] by simp
    then show ?thesis using assms by (simp add: rest_is_def nsh_get_def nsh_at_add)
  qed
  ultimately have "scan (\<lambda>p. P (ram k p)) (nsh_at im (int j)) = Some (nsh_at im (int j) + of_nat ?n)" by (rule scan_run)
  then show ?thesis by (simp add: nsh_at_add)
qed

lemma nsh_at_diff: "i \<le> j \<Longrightarrow> j < 1024 \<Longrightarrow> uint (nsh_at im (int j) - nsh_at im (int i)) = int j - int i"
proof -
  assume a: "i \<le> j" "j < 1024"
  have e: "nsh_at im (int j) - nsh_at im (int i) = of_nat (j - i)" using a(1) by (simp add: nsh_at_def of_nat_diff)
  have "uint (of_nat n :: u32) = int n" if "n < 1024" for n using that by (simp add: unsigned_of_nat take_bit_nat_eq_self)
  from this [of "j - i"] have u: "uint (of_nat (j - i) :: u32) = int (j - i)" using a by simp
  have "int (j - i) = int j - int i" using a by simp
  then show ?thesis unfolding e u .
qed

section \<open>The splitting loop\<close>

text \<open>What the loop leaves when it has run from position \<open>j\<close> with \<open>n\<close> words found before.\<close>

definition split_post :: "image \<Rightarrow> nat \<Rightarrow> nat \<Rightarrow> u8 list \<Rightarrow> kernel \<Rightarrow> kernel \<Rightarrow> bool" where
  "split_post im j n rest k k' \<longleftrightarrow>
     k' = k\<lparr>phys := (phys k)\<lparr>kmem := ram k'\<rparr>, nsh_cmd := nsh_cmd k'\<rparr>
     \<and> (\<forall>i. i < n \<or> n + length (words rest) \<le> i \<longrightarrow> nsh_cmd k' i = nsh_cmd k i)
     \<and> (\<forall>i < length (words rest). cstr (ram k') (nsh_cmd k' (n + i)) (words rest ! i)
          \<and> (\<exists>l. nsh_cmd k' (n + i) = nsh_at im (int l) \<and> l + length (words rest ! i) \<le> j + length rest))
     \<and> (\<forall>a. (\<forall>i < length rest. a \<noteq> nsh_at im (int (j + i))) \<longrightarrow> ram k' a = ram k a)
     \<and> (rest \<noteq> [] \<and> hd rest = 32 \<longrightarrow> nsh_get im k' (int j) = 0)"

lemma split_post_space:
  assumes "rest = 32 # xs" "j + length rest < 1024" "m \<le> length xs" "words (drop m xs) = words rest"
    and post: "split_post im (j + 1 + m) n (drop m xs) (nsh_put im (int j) 0 k) k'"
  shows "split_post im j n rest k k'"
proof -
  let ?r = "drop m xs" and ?k = "nsh_put im (int j) 0 k"
  have len: "j + 1 + m + length ?r = j + length rest" using assms(1,3) by simp
  have rec: "k' = ?k\<lparr>phys := (phys ?k)\<lparr>kmem := ram k'\<rparr>, nsh_cmd := nsh_cmd k'\<rparr>"
    and old: "\<forall>i. i < n \<or> n + length (words ?r) \<le> i \<longrightarrow> nsh_cmd k' i = nsh_cmd ?k i"
    and new: "\<forall>i < length (words ?r). cstr (ram k') (nsh_cmd k' (n + i)) (words ?r ! i)
          \<and> (\<exists>l. nsh_cmd k' (n + i) = nsh_at im (int l) \<and> l + length (words ?r ! i) \<le> j + 1 + m + length ?r)"
    and frame: "\<forall>a. (\<forall>i < length ?r. a \<noteq> nsh_at im (int (j + 1 + m + i))) \<longrightarrow> ram k' a = ram ?k a"
    using post unfolding split_post_def by blast+
  have fr: "ram k' a = ram ?k a" if "\<forall>i < length ?r. a \<noteq> nsh_at im (int (j + 1 + m + i))" for a using frame that by blast
  have "ram k' a = ram k a" if a: "\<forall>i < length rest. a \<noteq> nsh_at im (int (j + i))" for a
  proof -
    have "a \<noteq> nsh_at im (int (j + 1 + m + i))" if "i < length ?r" for i
      using a [rule_format, of "1 + m + i"] that assms(1,3) by (simp add: add.assoc)
    moreover have "a \<noteq> nsh_at im (int j)" using a [rule_format, of 0] assms(1) by simp
    ultimately show ?thesis using fr [of a] by (simp add: nsh_put_def)
  qed
  moreover have "nsh_get im k' (int j) = 0"
  proof -
    have "nsh_at im (int j) \<noteq> nsh_at im (int (j + 1 + m + i))" if "i < length ?r" for i
      using nsh_at_inj [of j "j + 1 + m + i" im] that len assms(2) by linarith
    then show ?thesis using fr [of "nsh_at im (int j)"] by (simp add: nsh_get_def nsh_put_def)
  qed
  moreover have "k' = k\<lparr>phys := (phys k)\<lparr>kmem := ram k'\<rparr>, nsh_cmd := nsh_cmd k'\<rparr>"
    by (rule trans [OF rec]) (simp add: nsh_put_def set_ram_def)
  moreover have "\<forall>i. i < n \<or> n + length (words rest) \<le> i \<longrightarrow> nsh_cmd k' i = nsh_cmd k i" using old unfolding assms(4) by simp
  ultimately show ?thesis using new unfolding split_post_def len assms(4) by blast
qed

lemma split_post_word:
  assumes rest: "rest_is im k j rest" and w: "w = takeWhile (\<lambda>c. c \<noteq> 32) rest" "w \<noteq> []" "words rest = w # words (drop (length w) rest)"
    and post: "split_post im (j + length w) (Suc n) (drop (length w) rest) (k\<lparr>nsh_cmd := (nsh_cmd k)(n := nsh_at im (int j))\<rparr>) k'"
  shows "split_post im j n rest k k'"
proof -
  let ?r = "drop (length w) rest"
  let ?k = "k\<lparr>nsh_cmd := (nsh_cmd k)(n := nsh_at im (int j))\<rparr>"
  have rec: "k' = ?k\<lparr>phys := (phys ?k)\<lparr>kmem := ram k'\<rparr>, nsh_cmd := nsh_cmd k'\<rparr>"
    and old: "\<forall>i. i < Suc n \<or> Suc n + length (words ?r) \<le> i \<longrightarrow> nsh_cmd k' i = nsh_cmd ?k i"
    and new: "\<forall>i < length (words ?r). cstr (ram k') (nsh_cmd k' (Suc n + i)) (words ?r ! i)
          \<and> (\<exists>l. nsh_cmd k' (Suc n + i) = nsh_at im (int l) \<and> l + length (words ?r ! i) \<le> j + length w + length ?r)"
    and frame: "\<forall>a. (\<forall>i < length ?r. a \<noteq> nsh_at im (int (j + length w + i))) \<longrightarrow> ram k' a = ram ?k a"
    and sp: "?r \<noteq> [] \<and> hd ?r = 32 \<longrightarrow> nsh_get im k' (int (j + length w)) = 0"
    using post unfolding split_post_def by blast+
  have lw: "length w \<le> length rest" unfolding w(1) by (rule length_takeWhile_le)
  have len: "j + length w + length ?r = j + length rest" using lw by simp
  have j: "j + length rest < 1024" using rest by (simp add: rest_is_def)
  have fr: "ram k' a = ram k a" if "\<forall>i < length ?r. a \<noteq> nsh_at im (int (j + length w + i))" for a using frame that by simp
  have out: "nsh_get im k' (int (j + l)) = nsh_get im k (int (j + l))" if "l < length w" for l
  proof -
    have "nsh_at im (int (j + l)) \<noteq> nsh_at im (int (j + length w + i))" if "i < length ?r" for i
      using nsh_at_inj [of "j + l" "j + length w + i" im] that \<open>l < length w\<close> len j by linarith
    then show ?thesis using fr unfolding nsh_get_def by blast
  qed
  have wd: "cstr (ram k') (nsh_at im (int j)) w"
    unfolding cstr_iff
  proof (intro conjI allI impI)
    fix l assume l: "l < length w"
    have "w ! l = rest ! l" using l unfolding w(1) by (rule takeWhile_nth)
    moreover have "rest ! l \<in> set rest" "0 \<notin> set rest" using l lw rest by (simp_all add: rest_is_def)
    then have "rest ! l \<noteq> 0" by metis
    ultimately have "w ! l = rest ! l" "rest ! l \<noteq> 0" by simp_all
    then show "ram k' (nsh_at im (int j) + of_nat l) = w ! l" "w ! l \<noteq> 0"
      using out [OF l] rest l lw by (simp_all add: nsh_at_add rest_is_def flip: nsh_get_def)
  next
    show "ram k' (nsh_at im (int j) + of_nat (length w)) = 0"
    proof (cases "?r = []")
      case True
      then have "ram k' (nsh_at im (int (j + length w))) = ram k (nsh_at im (int (j + length w)))" using fr by simp
      then show ?thesis using rest True lw by (simp add: nsh_at_add rest_is_def nsh_get_def)
    next
      case False
      then have "hd ?r = 32" using nth_length_takeWhile [of "\<lambda>c. c \<noteq> 32" rest] by (simp add: w(1) hd_drop_conv_nth)
      then show ?thesis using sp False by (simp add: nsh_at_add nsh_get_def)
    qed
  qed
  moreover have cmd: "nsh_cmd k' n = nsh_at im (int j)" "\<forall>i. i < n \<or> n + length (words rest) \<le> i \<longrightarrow> nsh_cmd k' i = nsh_cmd k i"
    using old unfolding w(3) by simp_all
  moreover have "ram k' a = ram k a" if a: "\<forall>i < length rest. a \<noteq> nsh_at im (int (j + i))" for a
  proof -
    have "a \<noteq> nsh_at im (int (j + length w + i))" if "i < length ?r" for i
      using a [rule_format, of "length w + i"] that lw by (simp add: add.assoc)
    then show ?thesis using fr by blast
  qed
  moreover have "cstr (ram k') (nsh_cmd k' (n + i)) (words rest ! i) \<and> (\<exists>l. nsh_cmd k' (n + i) = nsh_at im (int l) \<and> l + length (words rest ! i) \<le> j + length rest)"
    if "i < length (words rest)" for i
  proof (cases i)
    case 0
    have "words rest ! 0 = w" unfolding w(3) by simp
    then show ?thesis using wd cmd(1) lw unfolding 0 by auto
  next
    case (Suc i')
    then have "i' < length (words ?r)" using that unfolding w(3) by simp
    then show ?thesis using new Suc unfolding w(3) len by simp
  qed
  moreover have "\<not> (rest \<noteq> [] \<and> hd rest = 32)" using w(1,2) by (cases rest) auto
  moreover have "k' = k\<lparr>phys := (phys k)\<lparr>kmem := ram k'\<rparr>, nsh_cmd := nsh_cmd k'\<rparr>" by (rule trans [OF rec]) simp
  ultimately show ?thesis unfolding split_post_def by blast
qed

lemma nsh_split_words:
  assumes "rest_is im k j rest" "nsh_bufindex k = int (j + length rest)" "2 * n \<le> j \<or> 2 * n \<le> Suc j \<and> (rest = [] \<or> hd rest = 32)"
  shows "\<exists>k'. nsh_split im (int j) n k = Some (n + length (words rest), k') \<and> split_post im j n rest k k'"
  using assms
proof (induction "length rest" arbitrary: j n rest k rule: less_induct)
  case less
  show ?case
  proof (cases rest)
    case Nil
    then have "nsh_split im (int j) n k = Some (n, k)" using less.prems(2) by (subst nsh_split.simps) simp
    then show ?thesis using Nil by (auto simp: split_post_def)
  next
    case (Cons x xs)
    have j: "j + length rest < 1024" "0 \<notin> set rest" and x: "nsh_get im k (int j) = x" "x \<noteq> 0"
      using less.prems(1) Cons by (auto simp: rest_is_def)
    have lt: "int j < nsh_bufindex k" using less.prems(2) Cons by simp
    show ?thesis
    proof (cases "x = 32")
      case True
      let ?k = "nsh_put im (int j) 0 k" and ?s = "length (takeWhile (\<lambda>c. c = 32) xs)"
      have rk: "rest_is im ?k (j + 1) xs"
        using rest_is_drop [OF less.prems(1), of 1] Cons j by (auto simp: rest_is_def nsh_get_put simp del: of_nat_add of_nat_Suc)
      have le: "?s \<le> length xs" by (rule length_takeWhile_le)
      have "scan (\<lambda>p. ram ?k p = 32) (nsh_at im (int (j + 1))) = Some (nsh_at im (int (j + 1 + ?s)))"
        using rest_scan [OF rk, of "\<lambda>c. c = 32"] by simp
      moreover have "uint (nsh_at im (int (j + 1 + ?s)) - nsh_at im (int (j + 1))) = int ?s"
        using nsh_at_diff [of "j + 1" "j + 1 + ?s" im] j le Cons by simp
      ultimately have step: "nsh_split im (int j) n k = nsh_split im (int (j + 1 + ?s)) n ?k"
        using lt x True by (subst nsh_split.simps) (simp add: Let_def add.assoc add.commute add.left_commute)
      let ?r = "dropWhile (\<lambda>c. c = 32) xs"
      have r: "?r = drop ?s xs" by (rule dropWhile_eq_drop)
      have "rest_is im ?k (j + 1 + ?s) ?r" unfolding r by (rule rest_is_drop [OF rk le])
      moreover have "nsh_bufindex ?k = int (j + 1 + ?s + length ?r)" using less.prems(2) le Cons r by simp
      moreover have "2 * n \<le> j + 1 + ?s" using less.prems(3) Cons True by auto
      moreover have "length ?r < length rest" using Cons r by simp
      ultimately obtain k' where k': "nsh_split im (int (j + 1 + ?s)) n ?k = Some (n + length (words ?r), k')" "split_post im (j + 1 + ?s) n ?r ?k k'"
        using less.hyps [of ?r ?k "j + 1 + ?s" n] by (auto split: if_splits)
      have w: "words rest = words ?r" using Cons True by (simp add: words_skip)
      have "split_post im j n rest k k'"
        using split_post_space [of rest xs j ?s im n k k'] Cons True j(1) le w k'(2) unfolding r by simp
      then show ?thesis using k'(1) step w by auto
    next
      case False
      let ?w = "takeWhile (\<lambda>c. c \<noteq> 32) rest" and ?k = "k\<lparr>nsh_cmd := (nsh_cmd k)(n := nsh_at im (int j))\<rparr>"
      have w: "?w = x # takeWhile (\<lambda>c. c \<noteq> 32) xs" using Cons False by simp
      have lw: "length ?w \<le> length rest" by (rule length_takeWhile_le)
      have lw0: "0 < length ?w" unfolding w by simp
      let ?r = "drop (length ?w) rest"
      have ws: "words rest = ?w # words ?r" using Cons False by (simp add: dropWhile_eq_drop)
      have zero: "takeWhile (\<lambda>c. c \<noteq> 32 \<and> c \<noteq> 0) rest = ?w"
        by (rule takeWhile_cong [OF refl]) (use j(2) in auto)
      have rk: "rest_is im ?k j rest" using less.prems(1) by (simp add: rest_is_def nsh_get_def)
      have "scan (\<lambda>p. ram ?k p \<noteq> 32 \<and> ram ?k p \<noteq> 0) (nsh_at im (int j)) = Some (nsh_at im (int (j + length ?w)))"
        using rest_scan [OF rk, of "\<lambda>c. c \<noteq> 32 \<and> c \<noteq> 0"] unfolding zero by simp
      moreover have "uint (nsh_at im (int (j + length ?w)) - nsh_at im (int j)) = int (length ?w)"
        using nsh_at_diff [of j "j + length ?w" im] j lw by simp
      moreover have n: "2 * n \<le> j" using less.prems(3) Cons False by simp
      ultimately have step: "nsh_split im (int j) n k = nsh_split im (int (j + length ?w)) (Suc n) ?k"
        using lt x False j by (subst nsh_split.simps) (simp add: Let_def NSH_BUFSIZE_def)
      have "?r = [] \<or> hd ?r = 32"
        using nth_length_takeWhile [of "\<lambda>c. c \<noteq> 32" rest] by (cases "length ?w < length rest") (auto simp: hd_drop_conv_nth)
      moreover have "2 * Suc n \<le> Suc (j + length ?w)" using n lw0 by (simp only: mult_Suc_right)
      ultimately have "2 * Suc n \<le> j + length ?w \<or> 2 * Suc n \<le> Suc (j + length ?w) \<and> (?r = [] \<or> hd ?r = 32)" by blast
      moreover have "rest_is im ?k (j + length ?w) ?r" by (rule rest_is_drop [OF rk lw])
      moreover have "nsh_bufindex ?k = int (j + length ?w + length ?r)" using less.prems(2) lw by simp
      moreover have "length ?r < length rest" using lw0 Cons unfolding length_drop by (intro diff_less) simp_all
      ultimately obtain k' where k': "nsh_split im (int (j + length ?w)) (Suc n) ?k = Some (Suc n + length (words ?r), k')"
          "split_post im (j + length ?w) (Suc n) ?r ?k k'"
        using less.hyps by blast
      have "split_post im j n rest k k'" by (rule split_post_word [OF less.prems(1) refl _ ws k'(2)]) (simp add: w)
      then show ?thesis using k'(1) step ws by simp
    qed
  qed
qed


section \<open>The words of a line\<close>

lemma words_ok: "w \<in> set (words xs) \<Longrightarrow> w \<noteq> [] \<and> 32 \<notin> set w \<and> set w \<subseteq> set xs"
proof (induction xs rule: words.induct)
  case (2 x xs)
  then show ?case
    by (auto split: if_splits dest: set_takeWhileD set_dropWhileD)
qed simp

lemma word_length: "w \<in> set (words xs) \<Longrightarrow> length w \<le> length xs"
proof (induction xs rule: words.induct)
  case (2 x xs)
  then show ?case
    using length_takeWhile_le [of "\<lambda>c. c \<noteq> 32" xs] length_dropWhile_le [of "\<lambda>c. c \<noteq> 32" xs] by (auto split: if_splits)
qed simp

lemma createcmd_words:
  assumes "line_is im k xs"
  shows "\<exists>k1. nsh_createcmd im k = Some (k1\<lparr>nsh_cmdnarg := int (length (words xs))\<rparr>) \<and> split_post im 0 0 xs k k1"
proof -
  have "rest_is im k 0 xs" using assms by (auto simp: line_is_def rest_is_def)
  moreover have "nsh_bufindex k = int (0 + length xs)" using assms by (simp add: line_is_def)
  ultimately show ?thesis using nsh_split_words [of im k 0 xs 0] by (auto simp: nsh_createcmd_def)
qed

text \<open>What the other parts of the kernel see of \<^verbatim>\<open>nsh_createcmd\<close>.\<close>

definition split_into :: "image \<Rightarrow> kernel \<Rightarrow> u8 list list \<Rightarrow> kernel \<Rightarrow> bool" where
  "split_into im k ws k' \<longleftrightarrow> nsh_cmdnarg k' = int (length ws)
     \<and> (\<forall>i < length ws. cstr (ram k') (nsh_cmd k' i) (ws ! i) \<and> blk (nsh_cmd k' i) (Suc (length (ws ! i))) \<subseteq> blk (nsh_buf im) NSH_SIZE)
     \<and> (\<forall>i \<ge> length ws. nsh_cmd k' i = nsh_cmd k i)
     \<and> (\<forall>a. a \<notin> blk (nsh_buf im) NSH_SIZE \<longrightarrow> ram k' a = ram k a)
     \<and> cur k' = cur k \<and> hw k' = hw k \<and> kbd k' = kbd k \<and> tidy k' = tidy k \<and> buddy (phys k') = buddy (phys k)"

lemma createcmd_split:
  assumes "sys_inv im k" "line_is im k xs"
  shows "\<exists>k'. nsh_createcmd im k = Some k' \<and> split_into im k (words xs) k' \<and> sys_inv im k'"
proof -
  obtain k1 where k1: "nsh_createcmd im k = Some (k1\<lparr>nsh_cmdnarg := int (length (words xs))\<rparr>)" "split_post im 0 0 xs k k1"
    using createcmd_words [OF assms(2)] by blast
  have len: "length xs < 1024" using assms(2) by (simp add: line_is_def)
  have rec: "k1 = k\<lparr>phys := (phys k)\<lparr>kmem := ram k1\<rparr>, nsh_cmd := nsh_cmd k1\<rparr>"
    and old: "\<forall>i. i < 0 \<or> 0 + length (words xs) \<le> i \<longrightarrow> nsh_cmd k1 i = nsh_cmd k i"
    and new: "\<forall>i < length (words xs). cstr (ram k1) (nsh_cmd k1 (0 + i)) (words xs ! i)
          \<and> (\<exists>l. nsh_cmd k1 (0 + i) = nsh_at im (int l) \<and> l + length (words xs ! i) \<le> 0 + length xs)"
    and frame: "\<forall>a. (\<forall>i < length xs. a \<noteq> nsh_at im (int (0 + i))) \<longrightarrow> ram k1 a = ram k a"
    using k1(2) unfolding split_post_def by blast+
  let ?k = "k1\<lparr>nsh_cmdnarg := int (length (words xs))\<rparr>"
  have fr: "ram ?k a = ram k a" if "a \<notin> blk (nsh_buf im) NSH_SIZE" for a
  proof -
    have "a \<noteq> nsh_at im (int (0 + i))" if "i < length xs" for i
      using nsh_at_blk [of i im] that len \<open>a \<notin> _\<close> by auto
    then show ?thesis using frame by simp
  qed
  have inside: "blk (nsh_at im (int l)) (Suc n) \<subseteq> blk (nsh_buf im) NSH_SIZE" if "l + n \<le> length xs" for l n
    using that len unfolding nsh_at_def of_int_of_nat_eq by (intro blk_subset) (simp_all add: NSH_SIZE_def)
  have c: "cur ?k = cur k" "hw ?k = hw k" "con_inv ?k = con_inv k" "buddy (phys ?k) = buddy (phys k)"
      "kbd ?k = kbd k" "tidy ?k = tidy k"
    by (subst rec, simp add: cur_def con_inv_def tidy_def)+
  have "split_into im k (words xs) ?k"
    using new old fr inside c(1,2,4-6) unfolding split_into_def by (simp, metis)
  moreover have "sys_inv im ?k" using sys_inv_nsh [OF assms(1), of ?k] c(3,4) fr sys_invD(1) [OF assms(1)] by blast
  ultimately show ?thesis using k1(1) by blast
qed


section \<open>A new line\<close>

lemma nsh_prompt_ok:
  assumes "sys_inv im k"
  shows "\<exists>k'. nsh_prompt im k = Some k' \<and> sys_inv im k' \<and> scr_step im k k'
    \<and> (\<exists>s. sb_puts (dev im) (bytes ''nsh$ '') (sb_set_fg 9 (cur k)) (hw k) = Some (s, hw k') \<and> cur k' = s\<lparr>color := color (cur k)\<rparr>)"
proof -
  note c = con_invD [OF sys_invD(1) [OF assms]]
  obtain k1 where k1: "on_cur (sb_set_fg (color_val SB_COLOR_LIGHT_BLUE)) k = Some k1" "scr_step im k k1"
      "cur k1 = sb_set_fg (color_val SB_COLOR_LIGHT_BLUE) (cur k)" "hw k1 = hw k"
    using recolor [OF sys_invD(1) [OF assms] recolor_simps(2), where c3 = "\<lambda>_. color_val SB_COLOR_LIGHT_BLUE"] by blast
  have s1: "sys_inv im k1" using sys_inv_scr_step [OF assms k1(2)] by simp
  have "''nsh$ '' \<in> set literals" "expand Map.empty 0 (bytes ''nsh$ '') [] = Some (bytes ''nsh$ '')" "printable (bytes ''nsh$ '')"
    by (simp_all add: literals_def bytes_def printable_def)
  from kprint_sys [OF s1 this(1) strs_ok_empty this(2,3)]
  obtain k2 where k2: "kprint im ''nsh$ '' [] k1 = Some k2" "says im k1 (bytes ''nsh$ '') k2" "scr_step im k1 k2" by blast
  have s2: "sys_inv im k2" using sys_inv_scr_step [OF s1 k2(3)] by simp
  obtain k3 where k3: "on_cur (sb_set_color (color (cur k))) k2 = Some k3" "scr_step im k2 k3" "cur k3 = sb_set_color (color (cur k)) (cur k2)" "hw k3 = hw k2"
    using recolor [OF sys_invD(1) [OF s2], of "sb_set_color (color (cur k))" "\<lambda>_. color (cur k)" im] by (auto simp: recolor_simps)
  have "nsh_prompt im k = Some k3" using c(1) k1(1) k2(1) k3(1) by (simp add: nsh_prompt_def sb_get_color_def)
  moreover have "scr_step im k k3" using k1(2) k2(3) k3(2) by (blast intro: scr_step_trans)
  moreover from this have "sys_inv im k3" using sys_inv_scr_step [OF assms] by blast
  moreover have "sb_puts (dev im) (bytes ''nsh$ '') (sb_set_fg 9 (cur k)) (hw k) = Some (cur k2, hw k3)"
    using k2(2) k1(3,4) k3(4) by (simp add: says_def)
  ultimately show ?thesis using k3(3) by (auto simp: sb_set_color_def)
qed

lemma nsh_newline_ok:
  assumes "sys_inv im k"
  shows "\<exists>k'. nsh_newline im k = Some k' \<and> sys_inv im k' \<and> line_is im k' [] \<and> nsh_cmdnarg k' = 0 \<and> (\<forall>i < 128. nsh_cmd k' i = 0)
    \<and> (tidy k \<longrightarrow> tidy k') \<and> kbd k' = kbd k \<and> data_reads (ports (hw k')) = data_reads (ports (hw k))
    \<and> buddy (phys k') = buddy (phys k) \<and> (\<forall>a. a \<notin> blk (nsh_buf im) NSH_SIZE \<union> blk (kbuf im) 4096 \<longrightarrow> ram k' a = ram k a)
    \<and> (\<exists>s. sb_puts (dev im) (bytes ''nsh$ '') (sb_set_fg 9 (cur k)) (hw k) = Some (s, hw k') \<and> cur k' = s\<lparr>color := color (cur k)\<rparr>)"
proof -
  let ?m = "fst (memset (ram k) (nsh_buf im) 0 (of_int NSH_BUFSIZE))"
  let ?k = "(set_ram ?m k)\<lparr>nsh_cmd := (\<lambda>i. if int i < NSH_BUFSIZE div 2 div 4 then 0 else nsh_cmd k i), nsh_bufindex := 0, nsh_cmdnarg := 0\<rparr>"
  have m: "?m a = (if a \<in> blk (nsh_buf im) NSH_SIZE then 0 else ram k a)" for a
    by (simp add: memset_filled filled_def NSH_BUFSIZE_def NSH_SIZE_def)
  have k: "nsh_newline im k = nsh_prompt im ?k" by (simp add: nsh_newline_def Let_def set_ram_def cong: if_cong)
  have s: "sys_inv im ?k"
  proof (rule sys_inv_nsh [OF assms])
    show "con_inv ?k" using sys_invD(1) [OF assms] by (simp add: con_inv_def)
  qed (simp_all add: m)
  have l: "line_is im ?k []" using nsh_at_blk [of _ im] by (simp add: line_is_def nsh_get_def m)
  obtain k' where k': "nsh_prompt im ?k = Some k'" "sys_inv im k'" "scr_step im ?k k'"
      "\<exists>s. sb_puts (dev im) (bytes ''nsh$ '') (sb_set_fg 9 (cur ?k)) (hw ?k) = Some (s, hw k') \<and> cur k' = s\<lparr>color := color (cur ?k)\<rparr>"
    using nsh_prompt_ok [OF s] by blast
  have sb: "same_but_screen im ?k k'" using k'(3) by (simp add: scr_step_def)
  have "line_is im k' []" by (rule line_is_same [OF s sb l])
  moreover have "nsh_cmdnarg k' = 0" "\<forall>i < 128. nsh_cmd k' i = 0" using sb by (simp_all add: same_but_screen_def NSH_BUFSIZE_def)
  moreover have "ram k' a = ram k a" if "a \<notin> blk (nsh_buf im) NSH_SIZE \<union> blk (kbuf im) 4096" for a
    using that sb by (simp add: same_but_screen_def m)
  moreover have "cur ?k = cur k" "hw ?k = hw k" "kbd k' = kbd k" "data_reads (ports (hw k')) = data_reads (ports (hw k))"
      "buddy (phys k') = buddy (phys k)" using sb by (simp_all add: cur_def same_but_screen_def)
  moreover have "tidy k \<longrightarrow> tidy k'" using k'(3) by (simp add: scr_step_def tidy_def cur_def)
  ultimately show ?thesis using k k'(1,2,4) by auto
qed


section \<open>Finding the command\<close>

abbreviation names :: "string list" where "names \<equiv> map fst builtin_help"

lemma names_ok: "set names \<subseteq> set literals" "inj_on bytes (set names)"
proof -
  show "set names \<subseteq> set literals" unfolding builtin_help_def literals_def by simp
  have "distinct (map bytes names)" unfolding builtin_help_def by (simp add: bytes_def)
  then show "inj_on bytes (set names)" by (simp only: distinct_map)
qed

text \<open>\<^verbatim>\<open>strcmp\<close> ends at the end of its first string whatever the second holds.\<close>

lemma strcmp_differs:
  assumes "cstr m p xs" "\<not> cstr m q xs"
  shows "\<exists>r. strcmp m p q = Some r \<and> r \<noteq> 0"
proof -
  have "\<exists>p' q'. scan2 (\<lambda>s t. m s \<noteq> 0 \<and> m t \<noteq> 0 \<and> m s = m t) p q = Some (p', q') \<and> m p' \<noteq> m q'"
    using assms
  proof (induction xs arbitrary: p q)
    case Nil
    then show ?case by (subst scan2.simps) simp
  next
    case (Cons x xs)
    show ?case
    proof (cases "m q = x")
      case True
      then show ?thesis using Cons.IH [of "p + 1" "q + 1"] Cons.prems by (subst scan2.simps) simp
    next
      case False
      then show ?thesis using Cons.prems by (subst scan2.simps) auto
    qed
  qed
  then show ?thesis by (auto simp: strcmp_def)
qed

lemma exec_loop_hit:
  assumes "sys_inv im k" "set ss \<subseteq> set names" "cstr (ram k) (nsh_cmd k 0) (bytes s)" "s \<in> set ss"
  shows "nsh_exec_loop im ss k = map_option snd (builtin_exec im s (nsh_cmdnarg k) (nsh_cmd k) k)"
  using assms(2,4)
proof (induction ss)
  case (Cons t ss)
  obtain r where r: "strcmp (ram k) (nsh_cmd k 0) (lit im t) = Some r" "r = 0 \<longleftrightarrow> bytes s = bytes t"
    using strcmp_lit(1) [OF assms(1) _ assms(3), of t] Cons.prems(1) names_ok(1) by auto
  moreover have "bytes s = bytes t \<longleftrightarrow> s = t" using Cons.prems by (intro inj_on_eq_iff [OF names_ok(2)]) auto
  ultimately show ?case using Cons by auto
qed simp

lemma exec_loop_miss:
  assumes "sys_inv im k" "set ss \<subseteq> set names" "cstr (ram k) (nsh_cmd k 0) w" "w \<notin> bytes ` set ss" "\<not> cstr (ram k) 0 w"
  shows "nsh_exec_loop im ss k = kprint im ''nsh: %s: command not found\<newline>'' [nsh_cmd k 0] k"
  using assms(2,4)
proof (induction ss)
  case Nil
  then show ?case using strcmp_differs [OF assms(3,5)] by auto
next
  case (Cons t ss)
  obtain r where "strcmp (ram k) (nsh_cmd k 0) (lit im t) = Some r" "r = 0 \<longleftrightarrow> w = bytes t"
    using strcmp_lit(1) [OF assms(1) _ assms(3), of t] Cons.prems(1) names_ok(1) by auto
  then show ?case using Cons by auto
qed

text \<open>A word that names no command.\<close>

lemma exec_unknown:
  assumes "sys_inv im k" "word_arg im k (nsh_cmd k 0) w" "w \<notin> bytes ` set names" "\<not> cstr (ram k) 0 w"
  shows "\<exists>k'. nsh_execcmd im k = Some k' \<and> says im k (bytes ''nsh: '' @ w @ bytes '': command not found\<newline>'') k'
    \<and> (9 \<notin> set w \<longrightarrow> scr_step im k k')"
proof -
  let ?f = "''nsh: %s: command not found\<newline>''"
  have c: "cstr (ram k) (nsh_cmd k 0) w" using assms(2) by (simp add: word_arg_def)
  have "?f \<in> set literals" by (simp add: literals_def)
  from quote_says [OF assms(1) this assms(2), of "bytes ''nsh: ''" "bytes '': command not found\<newline>''"]
  have "\<exists>k'. kprint im ?f [nsh_cmd k 0] k = Some k' \<and> says im k (bytes ''nsh: '' @ w @ bytes '': command not found\<newline>'') k'
    \<and> (9 \<notin> set w \<longrightarrow> scr_step im k k')"
    by (simp add: bytes_def printable_def)
  moreover have "nsh_cmd k 0 \<noteq> 0" using c assms(4) by auto
  ultimately show ?thesis using exec_loop_miss [OF assms(1) order_refl c assms(3,4)] by (simp add: nsh_execcmd_def)
qed


text \<open>A line whose first word names a command, and one whose first word does not.\<close>

lemma exec_first:
  assumes "sys_inv im k" "split_into im k0 (w # ws) k" "length w < 1024" "0 \<notin> blk (nsh_buf im) NSH_SIZE"
  shows "s \<in> set names \<Longrightarrow> w = bytes s \<Longrightarrow> nsh_execcmd im k = map_option snd (builtin_exec im s (nsh_cmdnarg k) (nsh_cmd k) k)"
    and "w \<notin> bytes ` set names \<Longrightarrow> \<not> cstr (ram k) 0 w \<Longrightarrow> 8 \<notin> set w \<Longrightarrow>
      \<exists>k'. nsh_execcmd im k = Some k' \<and> says im k (bytes ''nsh: '' @ w @ bytes '': command not found\<newline>'') k' \<and> (9 \<notin> set w \<longrightarrow> scr_step im k k')"
proof -
  have c: "cstr (ram k) (nsh_cmd k 0) w" "blk (nsh_cmd k 0) (Suc (length w)) \<subseteq> blk (nsh_buf im) NSH_SIZE"
    using assms(2) unfolding split_into_def by (metis length_Cons nth_Cons_0 zero_less_Suc)+
  have nz: "nsh_cmd k 0 \<noteq> 0" using c(2) assms(4) by (auto simp: in_blk_iff dest: subsetD [where c = 0])
  show "nsh_execcmd im k = map_option snd (builtin_exec im s (nsh_cmdnarg k) (nsh_cmd k) k)" if "s \<in> set names" "w = bytes s"
    using exec_loop_hit [OF assms(1) order_refl, of s] c(1) that nz by (simp add: nsh_execcmd_def)
  show "\<exists>k'. nsh_execcmd im k = Some k' \<and> says im k (bytes ''nsh: '' @ w @ bytes '': command not found\<newline>'') k' \<and> (9 \<notin> set w \<longrightarrow> scr_step im k k')"
    if "w \<notin> bytes ` set names" "\<not> cstr (ram k) 0 w" "8 \<notin> set w"
  proof -
    have "word_arg im k (nsh_cmd k 0) w"
      using that(3) c assms(3) sys_invD(4) [OF assms(1)] by (auto simp: word_arg_def layout_ok_def)
    then show ?thesis using exec_unknown [OF assms(1) _ that(1,2)] by blast
  qed
qed

text \<open>What the newline key does before it looks at the line.\<close>

lemma enter_echo:
  assumes "sys_inv im k" "line_is im k xs" "settled (cur k)"
  shows "\<exists>k1 k2. on_screen (sb_scroll_down (dev im)) k = Some k1 \<and> kprint im ''\<newline>'' [] k1 = Some k2 \<and> says im k1 [10] k2
    \<and> sys_inv im k2 \<and> line_is im k2 xs \<and> nsh_cmd k2 = nsh_cmd k \<and> nsh_cmdnarg k2 = nsh_cmdnarg k \<and> scr_step im k k2"
proof -
  obtain k1 where k1: "on_screen (sb_scroll_down (dev im)) k = Some k1" "sys_inv im k1" "scr_step im k k1"
    using scroll_to_cursor [OF assms(1,3)] by blast
  have "''\<newline>'' \<in> set literals" "expand Map.empty 0 (bytes ''\<newline>'') [] = Some [10]" "printable [10]"
    by (simp_all add: literals_def bytes_def printable_def)
  from kprint_sys [OF k1(2) this(1) strs_ok_empty this(2,3)]
  obtain k2 where k2: "kprint im ''\<newline>'' [] k1 = Some k2" "says im k1 [10] k2" "scr_step im k1 k2" by blast
  have s: "scr_step im k k2" using k1(3) k2(3) by (rule scr_step_trans)
  then have "same_but_screen im k k2" by (simp add: scr_step_def)
  then show ?thesis
    using k1(1) k2(1,2) s sys_inv_scr_step [OF assms(1) s] line_is_same [OF assms(1) _ assms(2)] by (auto simp: same_but_screen_def)
qed

lemma nsh_enter_split:
  assumes "sys_inv im k" "line_is im k xs" "settled (cur k)" "nsh_cmd k 0 = 0" "nsh_cmdnarg k = 0"
  shows "\<exists>k1 k2 k3. on_screen (sb_scroll_down (dev im)) k = Some k1 \<and> says im k1 [10] k2 \<and> scr_step im k k2 \<and> split_into im k2 (words xs) k3
    \<and> sys_inv im k3 \<and> nsh_addchar im 10 k = nsh_execcmd im k3 \<bind> nsh_newline im \<and> (words xs = [] \<longrightarrow> nsh_cmd k3 0 = 0)"
proof -
  obtain k1 k2 where k: "on_screen (sb_scroll_down (dev im)) k = Some k1" "kprint im ''\<newline>'' [] k1 = Some k2" "says im k1 [10] k2"
      "sys_inv im k2" "line_is im k2 xs" "nsh_cmd k2 = nsh_cmd k" "nsh_cmdnarg k2 = nsh_cmdnarg k" "scr_step im k k2"
    using enter_echo [OF assms(1-3)] by blast
  have b: "nsh_bufindex k2 = int (length xs)" "nsh_cmd k2 0 = 0" "nsh_cmdnarg k2 = 0" using k(5-7) assms(4,5) by (simp_all add: line_is_def)
  show ?thesis
  proof (cases "xs = []")
    case True
    have "nsh_addchar im 10 k = nsh_execcmd im k2 \<bind> nsh_newline im" using k(1,2) b True by (simp add: nsh_addchar_def nsh_execcmd_def)
    moreover have "split_into im k2 (words xs) k2" using True b by (simp add: split_into_def)
    ultimately show ?thesis using k(1,3,4,8) b True by (intro exI [of _ k1] exI [of _ k2] exI [of _ k2]) simp
  next
    case False
    obtain k3 where k3: "nsh_createcmd im k2 = Some k3" "split_into im k2 (words xs) k3" "sys_inv im k3"
      using createcmd_split [OF k(4,5)] by blast
    have "nsh_addchar im 10 k = nsh_execcmd im k3 \<bind> nsh_newline im"
      using k(1,2) k3(1) b False by (simp add: nsh_addchar_def)
    moreover have "words xs = [] \<longrightarrow> nsh_cmd k3 0 = 0" using k3(2) b(2) by (simp add: split_into_def)
    ultimately show ?thesis using k(1,3,8) k3(2,3) by blast
  qed
qed

section \<open>Correctness properties\<close>

text \<open>
  C25: \<^verbatim>\<open>nsh_createcmd\<close> is the splitting of the line into its maximal runs of other characters than the space: it returns on every line, and then
  \<^verbatim>\<open>nsh_cmdnarg\<close> counts the words, each of the first entries of \<^verbatim>\<open>nsh_cmd\<close> points into the line at the corresponding word,
  now terminated, and nothing else has changed.
\<close>

theorem nsh_createcmd_correct:
  assumes "sys_inv im k" "line_is im k xs"
  shows "\<exists>k'. nsh_createcmd im k = Some k' \<and> sys_inv im k' \<and> split_into im k (words xs) k'"
  using createcmd_split [OF assms] by blast

text \<open>The line "a bc" in the buffer at 0x8000.\<close>

definition demo_typed :: kernel where
  "demo_typed = (demo_sys ((\<lambda>_. 0)(0x8000 := 97, 0x8001 := 32, 0x8002 := 98, 0x8003 := 99)))\<lparr>nsh_bufindex := 4\<rparr>"

lemma demo_typed:
  "sys_inv demo_image demo_typed" "line_is demo_image demo_typed [97, 32, 98, 99]" "settled (cur demo_typed)"
  "nsh_cmd demo_typed i = 0" "nsh_cmdnarg demo_typed = 0" "ram demo_typed 0 = 0"
proof -
  let ?m = "(\<lambda>_. 0)(0x8000 := 97, 0x8001 := 32, 0x8002 := 98, 0x8003 := 99) :: mem"
  show "sys_inv demo_image demo_typed"
    using demo_sys_inv [of ?m] by (simp add: demo_typed_def sys_inv_def con_inv_def)
  show "ram demo_typed 0 = 0" by (simp add: demo_typed_def demo_sys_low)
  have g: "nsh_get demo_image demo_typed (int i) = ?m (0x8000 + of_nat i)" if "i < 1024" for i
  proof -
    have "unat (0x8000 + of_nat i :: ptr) = 0x8000 + i" using that by (subst unat_add_of_nat) simp_all
    then show ?thesis using that by (simp add: nsh_get_def nsh_at_def demo_image_def demo_sys_low demo_typed_def del: fun_upd_apply)
  qed
  have "?m (0x8000 + of_nat i) = (if i < 4 then [97, 32, 98, 99] ! i else 0)" if "i < 1024" for i
  proof -
    have u: "unat (of_nat i :: ptr) = i" using that by (intro unat_of_nat_small) simp
    have "(0x8000 + of_nat i :: ptr) = 0x8000 + n \<longleftrightarrow> i = unat n" for n using u by (auto simp: word_unat_eq_iff [of "of_nat i"])
    from this [of 0] this [of 1] this [of 2] this [of 3] show ?thesis by (auto simp: nth_Cons')
  qed
  then show "line_is demo_image demo_typed [97, 32, 98, 99]" using g by (simp add: line_is_def demo_typed_def del: fun_upd_apply)
  have "cur demo_typed = cur (demo_sys (\<lambda>_. 0))" by (simp add: demo_typed_def demo_sys_def demo_kernel_def cur_def)
  then show "settled (cur demo_typed)" using demo_line_empty(2) by simp
qed (simp_all add: demo_typed_def demo_sys_def demo_kernel_def)

theorem nsh_createcmd_correct_witness:
  "\<exists>k'. nsh_createcmd demo_image demo_typed = Some k' \<and> nsh_cmdnarg k' = 2 \<and> cstr (ram k') (nsh_cmd k' 1) [98, 99]"
  using nsh_createcmd_correct [OF demo_typed(1,2)] by (auto simp: split_into_def)

text \<open>
  C7: the newline key.  The line is echoed and split; an empty or blank line goes straight to a new prompt; a line whose first word is the name of a
  built-in command runs that command on the words of the line, then a new line begins; any other first word is reported as not found (unless the
  bytes at address 0, with which the loop compares it last, happen to be that word).
\<close>

theorem nsh_enter_correct:
  assumes "sys_inv im k" "line_is im k xs" "settled (cur k)" "nsh_cmd k 0 = 0" "nsh_cmdnarg k = 0" "0 \<notin> blk (nsh_buf im) NSH_SIZE"
  shows "\<exists>k1 k2 k3. on_screen (sb_scroll_down (dev im)) k = Some k1 \<and> says im k1 [10] k2 \<and> split_into im k2 (words xs) k3 \<and> sys_inv im k3
    \<and> (case words xs of [] \<Rightarrow> nsh_addchar im 10 k = nsh_newline im k3
       | w # ws \<Rightarrow>
           (\<forall>s \<in> set names. w = bytes s \<longrightarrow>
              nsh_addchar im 10 k = do { (r, k4) \<leftarrow> builtin_exec im s (nsh_cmdnarg k3) (nsh_cmd k3) k3; nsh_newline im k4 })
         \<and> (w \<notin> bytes ` set names \<and> \<not> cstr (ram k3) 0 w \<and> 8 \<notin> set w \<longrightarrow>
              (\<exists>k4. says im k3 (bytes ''nsh: '' @ w @ bytes '': command not found\<newline>'') k4 \<and> nsh_addchar im 10 k = nsh_newline im k4)))"
proof -
  obtain k1 k2 k3 where k: "on_screen (sb_scroll_down (dev im)) k = Some k1" "says im k1 [10] k2" "scr_step im k k2"
      "split_into im k2 (words xs) k3" "sys_inv im k3" "nsh_addchar im 10 k = nsh_execcmd im k3 \<bind> nsh_newline im" "words xs = [] \<longrightarrow> nsh_cmd k3 0 = 0"
    using nsh_enter_split [OF assms(1-5)] by blast
  show ?thesis
  proof (cases "words xs")
    case Nil
    then have "nsh_addchar im 10 k = nsh_newline im k3" using k(6,7) by (simp add: nsh_execcmd_def)
    then show ?thesis using k(1,2,4,5) Nil by (intro exI [of _ k1] exI [of _ k2] exI [of _ k3]) simp
  next
    case (Cons w ws)
    have len: "length w < 1024" using word_length [of w xs] Cons assms(2) by (simp add: line_is_def)
    note first = exec_first [OF k(5) k(4) [unfolded Cons] len assms(6)]
    have "nsh_addchar im 10 k = do { (r, k4) \<leftarrow> builtin_exec im s (nsh_cmdnarg k3) (nsh_cmd k3) k3; nsh_newline im k4 }"
      if "s \<in> set names" "w = bytes s" for s
      unfolding k(6) first(1) [OF that] by (simp add: bind_map_option comp_def split_def)
    moreover have "\<exists>k4. says im k3 (bytes ''nsh: '' @ w @ bytes '': command not found\<newline>'') k4 \<and> nsh_addchar im 10 k = nsh_newline im k4"
      if "w \<notin> bytes ` set names" "\<not> cstr (ram k3) 0 w" "8 \<notin> set w"
      using first(2) [OF that] k(6) by auto
    ultimately show ?thesis using k(1,2,4,5) unfolding Cons list.case by blast
  qed
qed

theorem nsh_enter_correct_witness:
  "\<exists>k3 k4. says demo_image k3 (bytes ''nsh: a: command not found\<newline>'') k4 \<and> nsh_addchar demo_image 10 demo_typed = nsh_newline demo_image k4"
proof -
  have w: "words [97, 32, 98, 99] = [[97], [98, 99]]" by simp
  have "[97] \<notin> bytes ` set names" unfolding builtin_help_def by (simp add: bytes_def)
  moreover have z: "0 \<notin> blk (nsh_buf demo_image) NSH_SIZE" by (simp add: demo_image_def in_blk_iff NSH_SIZE_def)
  moreover have "bytes ''nsh: '' @ [97] @ bytes '': command not found\<newline>'' = bytes ''nsh: a: command not found\<newline>''" by (simp add: bytes_def)
  moreover have "\<not> cstr (ram k3) 0 [97]"
    if "on_screen (sb_scroll_down (dev demo_image)) demo_typed = Some k1" "says demo_image k1 [10] k2" "split_into demo_image k2 ws k3" for k1 k2 k3 ws
  proof -
    have "ram k3 0 = ram k2 0" "ram k2 0 = ram k1 0" "ram k1 0 = ram demo_typed 0"
      using that z by (auto simp: split_into_def says_def same_but_screen_def demo_image_def in_blk_iff on_screen_def bind_eq_Some_conv split: if_splits)
    then show ?thesis using demo_typed(6) by simp
  qed
  ultimately show ?thesis
    using nsh_enter_correct [OF demo_typed(1-3,4,5) z] unfolding w list.case by (auto 0 3)
qed

section \<open>Completion\<close>

definition complete :: "u8 list \<Rightarrow> u8 list \<Rightarrow> u8 list" where
  "complete name xs = (if length xs < length name \<and> take (length xs) name = xs then name else xs)"

lemma common_whole: "common xs ys = length xs \<longleftrightarrow> take (length xs) ys = xs"
  by (induction xs ys rule: common.induct) auto

lemma line_cstr: "line_is im k xs \<Longrightarrow> cstr (ram k) (nsh_buf im) xs"
proof -
  assume l: "line_is im k xs"
  have "ram k (nsh_buf im + of_nat i) = nsh_get im k (int i)" for i by (simp add: nsh_get_def nsh_at_def)
  then show ?thesis using l unfolding cstr_iff by (auto simp: line_is_def in_set_conv_nth)
qed

lemma nsh_append_ok:
  assumes "sys_inv im k" "line_is im k xs" "cstr (ram k) q ys" "blk q (Suc (length ys)) \<subseteq> lit_area im" "length xs + length ys < 1024"
  shows "\<exists>k'. nsh_append im q k = Some k' \<and> sys_inv im k' \<and> line_is im k' (xs @ ys) \<and> cur k' = cur k \<and> hw k' = hw k \<and> line_step im k k'"
  using assms
proof (induction ys arbitrary: xs k q)
  case Nil
  then show ?case by (subst nsh_append.simps) (auto simp: line_step_def)
next
  case (Cons y ys)
  let ?k = "(nsh_put im (nsh_bufindex k) y k)\<lparr>nsh_bufindex := nsh_bufindex k + 1\<rparr>"
  have b: "nsh_bufindex k = int (length xs)" using Cons.prems(2) by (simp add: line_is_def)
  have y: "ram k q = y" "y \<noteq> 0" using Cons.prems(3) by auto
  have sub: "blk (q + 1) (Suc (length ys)) \<subseteq> blk q (Suc (length (y # ys)))"
    using blk_subset [of 1 "Suc (length ys)" "Suc (length (y # ys))" q] Cons.prems(5) by simp
  have "sys_inv im ?k" using sys_inv_put [OF Cons.prems(1), of "length xs"] Cons.prems(5) b by simp
  moreover have "line_is im ?k (xs @ [y])" using line_is_append [OF Cons.prems(2)] Cons.prems(5) y by simp
  moreover have "cstr (ram ?k) (q + 1) ys"
  proof -
    have "nsh_at im (int (length xs)) \<notin> lit_area im"
      using nsh_at_blk [of "length xs" im] sys_invD(4) [OF Cons.prems(1)] Cons.prems(5) by (auto simp: layout_ok_def)
    then have "cstr (ram ?k) (q + 1) ys = cstr (ram k) (q + 1) ys"
      using sub Cons.prems(4,5) by (intro cstr_cong) (auto simp: nsh_put_def b)
    then show ?thesis using Cons.prems(3) by simp
  qed
  moreover have "blk (q + 1) (Suc (length ys)) \<subseteq> lit_area im" using sub Cons.prems(4) by blast
  ultimately obtain k' where "nsh_append im (q + 1) ?k = Some k'" "sys_inv im k'" "line_is im k' ((xs @ [y]) @ ys)" "cur k' = cur ?k" "hw k' = hw ?k" "line_step im ?k k'"
    using Cons.IH [of ?k "xs @ [y]" "q + 1"] Cons.prems(5) by auto
  moreover have "nsh_append im q k = nsh_append im (q + 1) ?k"
    using y Cons.prems(5) b by (subst nsh_append.simps) (simp add: NSH_BUFSIZE_def)
  moreover have "cur ?k = cur k" "hw ?k = hw k" by (simp_all add: cur_def nsh_put_def)
  moreover have "line_step im k ?k" using line_step_put [of "length xs" im k] Cons.prems(5) b by simp
  ultimately show ?case by (auto intro: line_step_trans)
qed

lemma nsh_complete_ok:
  assumes "sys_inv im k" "line_is im k xs" "s \<in> set literals" "printable (bytes s)" "length s < 1024"
  shows "\<exists>k'. nsh_complete im s k = Some k' \<and> sys_inv im k' \<and> line_is im k' (complete (bytes s) xs) \<and> line_step im k k'
    \<and> sb_puts (dev im) (drop (length xs) (complete (bytes s) xs)) (cur k) (hw k) = Some (cur k', hw k')"
proof -
  let ?n = "common xs (bytes s)" and ?ys = "drop (length xs) (bytes s)"
  let ?q = "lit im s + of_nat (length xs)"
  have lit: "lit_ok im (ram k) s" by (rule lits_okD [OF sys_invD(2) [OF assms(1)] assms(3)])
  then have c: "cstr (ram k) (nsh_buf im) xs" "cstr (ram k) (lit im s) (bytes s)" using line_cstr [OF assms(2)] by (simp_all add: lit_ok_def)
  have n: "?n \<le> length xs" "?n \<le> length (bytes s)" by (rule common_le)+
  have p: "ram k (nsh_buf im + of_nat ?n) = 0 \<longleftrightarrow> ?n = length xs"
    using cstr_zat [OF c(1) n(1)] cstr_nonzero [OF c(1)] n(1) by (auto simp: nth_append in_set_conv_nth split: if_splits)
  have q: "ram k (lit im s + of_nat ?n) = 0 \<longleftrightarrow> ?n = length (bytes s)"
    using cstr_zat [OF c(2) n(2)] cstr_nonzero [OF c(2)] n(2) by (auto simp: nth_append in_set_conv_nth split: if_splits)
  have scan: "nsh_complete im s k = (if ?n = length xs \<and> ?n \<noteq> length (bytes s)
      then do { k1 \<leftarrow> kprint im ''%s'' [lit im s + of_nat ?n] k; nsh_append im (lit im s + of_nat ?n) k1 } else Some k)"
    by (simp add: nsh_complete_def scan2_cstr [OF c] p q)
  show ?thesis
  proof (cases "length xs < length (bytes s) \<and> take (length xs) (bytes s) = xs")
    case True
    then have nl: "?n = length xs" by (simp add: common_whole)
    have area: "blk ?q (Suc (length ?ys)) \<subseteq> blk (lit im s) (Suc (length s))"
      using True assms(5) by (intro blk_subset) (simp_all add: bytes_def)
    have y: "cstr (ram k) ?q ?ys" using cstr_drop [OF c(2), of "length xs"] True by simp
    have "8 \<notin> set ?ys" "9 \<notin> set ?ys" using assms(4) in_set_dropD [of _ "length xs" "bytes s"] by (auto simp: printable_def)
    then have wa: "word_arg im k ?q ?ys"
      using y area lit assms(5) by (auto simp: word_arg_def lit_ok_def bytes_def)
    have "''%s'' \<in> set literals" by (simp add: literals_def)
    from quote_says [OF assms(1) this wa, of "[]" "[]"]
    obtain k1 where k1: "kprint im ''%s'' [?q] k = Some k1" "says im k ?ys k1" "scr_step im k k1"
      using \<open>9 \<notin> set ?ys\<close> by (auto simp: bytes_def printable_def)
    have sb: "same_but_screen im k k1" using k1(2) by (simp add: says_def)
    have s1: "sys_inv im k1" using sys_inv_scr_step [OF assms(1) k1(3)] by simp
    have l1: "line_is im k1 xs" by (rule line_is_same [OF assms(1) sb assms(2)])
    have "cstr (ram k1) ?q ?ys"
      using y wa sb assms(5) by (intro cstr_kept [OF y]) (auto simp: word_arg_def bytes_def)
    moreover have "blk ?q (Suc (length ?ys)) \<subseteq> lit_area im" using area assms(3) by (auto simp: lit_area_def)
    moreover have "length xs + length ?ys < 1024" using True assms(5) by (simp add: bytes_def)
    ultimately obtain k' where k': "nsh_append im ?q k1 = Some k'" "sys_inv im k'" "line_is im k' (xs @ ?ys)" "cur k' = cur k1" "hw k' = hw k1" "line_step im k1 k'"
      using nsh_append_ok [OF s1 l1] by blast
    have "xs @ ?ys = take (length xs) (bytes s) @ ?ys" using True by (simp only:)
    then have xs: "xs @ ?ys = bytes s" by simp
    have comp: "complete (bytes s) xs = bytes s" using True by (simp only: complete_def if_True simp_thms)
    have "?n \<noteq> length (bytes s)" using True nl by (simp only:) simp
    then have "nsh_complete im s k = Some k'" using scan nl k1(1) k'(1) by simp
    moreover have "sb_puts (dev im) ?ys (cur k) (hw k) = Some (cur k', hw k')" using k1(2) k'(4,5) by (simp add: says_def)
    moreover have "line_step im k k'" using line_step_trans [OF line_step_scr [OF k1(3)] k'(6)] .
    ultimately show ?thesis using k'(2,3) unfolding xs comp by blast
  next
    case False
    have "\<not> (?n = length xs \<and> ?n \<noteq> length (bytes s))"
    proof
      assume a: "?n = length xs \<and> ?n \<noteq> length (bytes s)"
      then have "take (length xs) (bytes s) = xs" using common_whole by blast
      moreover have "length xs < length (bytes s)" using a n by linarith
      ultimately show False using False by blast
    qed
    then have "nsh_complete im s k = Some k" unfolding scan by (rule if_not_P)
    moreover have "complete (bytes s) xs = xs" using False unfolding complete_def by (rule if_not_P)
    ultimately show ?thesis using assms(1,2) by (simp add: line_step_def)
  qed
qed

lemma nsh_completes:
  assumes "sys_inv im k" "line_is im k xs" "set ss \<subseteq> set literals" "list_all (\<lambda>s. printable (bytes s) \<and> length s < 1024) ss"
  shows "\<exists>k'. for_each (nsh_complete im) ss k = Some k' \<and> sys_inv im k' \<and> line_is im k' (fold (\<lambda>s. complete (bytes s)) ss xs) \<and> line_step im k k'
    \<and> sb_puts (dev im) (drop (length xs) (fold (\<lambda>s. complete (bytes s)) ss xs)) (cur k) (hw k) = Some (cur k', hw k')
    \<and> take (length xs) (fold (\<lambda>s. complete (bytes s)) ss xs) = xs"
  using assms
proof (induction ss arbitrary: k xs)
  case (Cons s ss)
  let ?c = "complete (bytes s) xs" and ?f = "fold (\<lambda>s. complete (bytes s)) ss"
  obtain k1 where k1: "nsh_complete im s k = Some k1" "sys_inv im k1" "line_is im k1 ?c"
      "sb_puts (dev im) (drop (length xs) ?c) (cur k) (hw k) = Some (cur k1, hw k1)" "line_step im k k1"
    using nsh_complete_ok [OF Cons.prems(1,2), of s] Cons.prems(3,4) by auto
  obtain k2 where k2: "for_each (nsh_complete im) ss k1 = Some k2" "sys_inv im k2" "line_is im k2 (?f ?c)"
      "sb_puts (dev im) (drop (length ?c) (?f ?c)) (cur k1) (hw k1) = Some (cur k2, hw k2)" "take (length ?c) (?f ?c) = ?c" "line_step im k1 k2"
    using Cons.IH [OF k1(2,3)] Cons.prems(3,4) by auto
  have le: "length xs \<le> length ?c" and t: "take (length xs) ?c = xs" by (auto simp: complete_def)
  obtain zs where zs: "?f ?c = ?c @ zs" using k2(5) by (metis append_take_drop_id)
  then have "drop (length xs) (?f ?c) = drop (length xs) ?c @ drop (length ?c) (?f ?c)" "take (length xs) (?f ?c) = xs"
    using le t by simp_all
  then show ?case using k1 k2 line_step_trans [OF k1(5) k2(6)] by (simp add: sb_puts_append)
qed (simp add: line_step_def)

lemma nsh_tab_completes:
  assumes "sys_inv im k" "line_is im k xs" "settled (cur k)" "xs \<noteq> []"
  shows "let ys = fold (\<lambda>s. complete (bytes s)) names xs
    in \<exists>k1 k'. on_screen (sb_scroll_down (dev im)) k = Some k1 \<and> nsh_addchar im 9 k = Some k' \<and> sys_inv im k' \<and> line_is im k' ys \<and> line_step im k k'
      \<and> take (length xs) ys = xs \<and> sb_puts (dev im) (drop (length xs) ys) (cur k1) (hw k1) = Some (cur k', hw k')"
proof -
  obtain k1 where k1: "on_screen (sb_scroll_down (dev im)) k = Some k1" "sys_inv im k1" "scr_step im k k1"
    using scroll_to_cursor [OF assms(1,3)] by blast
  have line1: "line_is im k1 xs" using line_is_same [OF assms(1) _ assms(2)] k1(3) by (simp add: scr_step_def)
  then have "nsh_bufindex k1 \<noteq> 0" using assms(4) by (simp add: line_is_def)
  moreover have "list_all (\<lambda>s. printable (bytes s) \<and> length s < 1024) names" unfolding builtin_help_def by (simp add: printable_def bytes_def)
  ultimately show ?thesis
    using nsh_completes [OF k1(2) line1 names_ok(1)] k1(1) line_step_trans [OF line_step_scr [OF k1(3)]] by (auto simp: nsh_addchar_def Let_def)
qed

text \<open>
  C26: the tabulation key refines completion on lists.  With the screen settled and a line that is not empty, \<^verbatim>\<open>nsh_addchar\<close> returns, keeps the
  kernel's invariant, completes the line with the names of the table one after the other (a name replaces the line when the line is a proper prefix of it), and
  echoes exactly the characters it has added.
\<close>

theorem nsh_tab_refines:
  assumes "sys_inv im k" "line_is im k xs" "settled (cur k)" "xs \<noteq> []"
  shows "let ys = fold (\<lambda>s. complete (bytes s)) names xs
    in \<exists>k1 k'. on_screen (sb_scroll_down (dev im)) k = Some k1 \<and> nsh_addchar im 9 k = Some k' \<and> sys_inv im k' \<and> line_is im k' ys
      \<and> take (length xs) ys = xs \<and> sb_puts (dev im) (drop (length xs) ys) (cur k1) (hw k1) = Some (cur k', hw k')"
  using nsh_tab_completes [OF assms] unfolding Let_def by blast

theorem nsh_tab_refines_witness: "\<exists>k'. nsh_addchar demo_image 9 demo_typed = Some k' \<and> line_is demo_image k' [97, 32, 98, 99]"
proof -
  have "fold (\<lambda>s. complete (bytes s)) names [97, 32, 98, 99] = [97, 32, 98, 99]"
    unfolding builtin_help_def by (simp add: complete_def bytes_def)
  then show ?thesis using nsh_tab_refines [OF demo_typed(1-3)] unfolding Let_def by auto
qed

end
