(* ===== verification/Kernel_Main.thy ===== *)
theory Kernel_Main
  imports Nsh_Command
begin

text \<open>
  The entry point, \<^verbatim>\<open>src/kernel/kernel.c\<close>: from the state the boot loader and \<^verbatim>\<open>boot_init\<close> leave to the
  prompt of the shell.  The memory map of the multiboot information is a list of its entries; the
  addresses where the kernel image starts and ends are parameters.
\<close>

section \<open>Definitions\<close>

record multiboot_info =
  mem_lower :: u32
  mem_upper :: u32
  mmap :: "mmap_entry list"

definition init_descriptor_tables :: "image \<Rightarrow> kernel \<Rightarrow> kernel \<times> segments \<times> interrupts" where
  "init_descriptor_tables im k =
     (let k1 = on_ports (pic_8259_init (dev im) PIC1_OFFSET PIC2_OFFSET) k;
          (m1, gp, segs) = gdt_init (ram k1);
          k2 = (set_ram m1 k1)\<lparr>gdtp := gp\<rparr>;
          (m2, ints) = idt_init (isr im) (ram k2)
      in ((set_ram m2 k2)\<lparr>idtp := idtr ints\<rparr>, segs, ints))"

definition welcome_screen :: "image \<Rightarrow> nat \<Rightarrow> kernel \<Rightarrow> kernel option" where
  "welcome_screen im i k =
     do { (s, v) \<leftarrow> sb_putstr (dev im) (ram k) (lit im ''Welcome to nulix-2.0.1\<newline>'') (sb_init (sb k ! i)) (hw k);
          Some (k\<lparr>sb := (sb k)[i := s], hw := v\<rparr>) }"

text \<open>\<^verbatim>\<open>kernel_main\<close> up to the call of \<^verbatim>\<open>nsh\<close>, which does not return, and the states the shell then runs through.\<close>

definition kernel_boot :: "image \<Rightarrow> ptr \<Rightarrow> ptr \<Rightarrow> multiboot_info \<Rightarrow> kernel \<Rightarrow> kernel option" where
  "kernel_boot im sk ek mbi k =
     do { let k1 = fst (init_descriptor_tables im k);
          let k2 = k1\<lparr>kbd := KBD_initialize (kbd k1)\<rparr>;
          p \<leftarrow> kpm_init sk ek (mmap mbi) (mem_upper mbi - mem_lower mbi) (ram k2);
          k3 \<leftarrow> for_each (welcome_screen im) [0..<NBSCREENBUF] (k2\<lparr>phys := p\<rparr>);
          on_screen (sb_load (dev im)) (k3\<lparr>sb_current := 0\<rparr>) }"

inductive kernel_main :: "image \<Rightarrow> ptr \<Rightarrow> ptr \<Rightarrow> multiboot_info \<Rightarrow> kbd_event \<Rightarrow> kernel \<Rightarrow> kbd_event \<times> kernel \<Rightarrow> bool"
  for im sk ek mbi evt k where
  boot: "kernel_boot im sk ek mbi k = Some k1 \<Longrightarrow> nsh im evt k1 s \<Longrightarrow> kernel_main im sk ek mbi evt k s"

section \<open>Memory after the start\<close>

definition desc_area :: "ptr set" where
  "desc_area = blk 0 2048 \<union> blk 0x800 56"

definition boot_area :: "ptr \<Rightarrow> u32 \<Rightarrow> ptr set" where
  "boot_area ek memkb =
     (let N = unat (memkb * 1024) div 4096 div 1024 * 1024
      in blk (ALIGNNEXT ek PAGE_SIZE + sizeof_buddy_t) (nbytes N + order_off N KPM_NORDERS))"

text \<open>What the linker script and the machine's memory map keep apart.\<close>

definition boot_layout :: "image \<Rightarrow> ptr \<Rightarrow> u32 \<Rightarrow> bool" where
  "boot_layout im ek memkb \<longleftrightarrow> layout_ok im (boot_area ek memkb) \<and> desc_area \<inter> (lit_area im \<union> boot_area ek memkb) = {}"


lemma init_layout_frame:
  assumes "a \<notin> boot_area ek memkb"
  shows "kmem (kpm_init_layout ek memkb m) a = m a"
proof -
  let ?n = "ALIGN (memkb * 1024 div PAGE_SIZE) 1024" and ?e = "ALIGNNEXT ek PAGE_SIZE + sizeof_buddy_t"
  let ?N = "unat ?n"
  have n: "?N \<le> 1047552" by (rule nframes_bound)
  have N: "?N = unat (memkb * 1024) div 4096 div 1024 * 1024" using unat_ALIGN [of "memkb * 1024 div PAGE_SIZE" 10] by simp
  have "0 < KPM_NORDERS" by (simp add: KPM_NORDERS_def)
  then have b0: "kpm_order_bitmaps KPM_NORDERS p ?n ! 0 = p" for p
    using kpm_order_bitmaps_nth [of 0 KPM_NORDERS ?n p] n by simp
  have o: "nbytes ?N + order_off ?N KPM_NORDERS < 4294967296"
    using n nbytes_le [OF n] order_off_le [of ?N KPM_NORDERS] by (simp add: KPM_NORDERS_def)
  then have tot: "unat (sum_list (kpm_order_sizes KPM_NORDERS ?n)) = order_off ?N KPM_NORDERS"
    using n by (simp add: sum_order_sizes unat_of_nat_small)
  have sz: "KPM_NBYTES_FROM_NBITS ?n = of_nat (nbytes ?N)" using n by (simp add: NBYTES_of_nat)
  moreover have "unat (KPM_NBYTES_FROM_NBITS ?n) = nbytes ?N" using n by (simp add: unat_NBYTES)
  ultimately have sz': "unat (of_nat (nbytes ?N) :: u32) = nbytes ?N" by simp
  have sub: "blk ?e (nbytes ?N) \<subseteq> blk ?e (nbytes ?N + order_off ?N KPM_NORDERS)"
    "blk (?e + of_nat (nbytes ?N)) (order_off ?N KPM_NORDERS) \<subseteq> blk ?e (nbytes ?N + order_off ?N KPM_NORDERS)"
    using o blk_subset [of 0 "nbytes ?N" _ ?e] by (simp_all add: blk_subset)
  have "kmem (kpm_init_layout ek memkb m) = filled (filled m ?e 0 (nbytes ?N)) (?e + of_nat (nbytes ?N)) 0xff (order_off ?N KPM_NORDERS)"
    by (simp add: kpm_init_layout_def Let_def b0 memset_filled tot sz sz')
  then show ?thesis using assms sub unfolding boot_area_def Let_def N [symmetric] by (auto simp: filled_def)
qed

lemma init_tables_area: "kpm_tables (buddy (kpm_init_layout ek memkb m)) \<subseteq> boot_area ek memkb"
  using init_tables [of ek memkb m] unfolding boot_area_def Let_def by (simp only: init_layout_fields(3))

lemma layout_ok_mono: "layout_ok im T \<Longrightarrow> T' \<subseteq> T \<Longrightarrow> layout_ok im T'"
  unfolding layout_ok_def by blast

section \<open>The screens after the start\<close>

lemma welcome_screen_ok:
  assumes "lit_ok im (ram k) ''Welcome to nulix-2.0.1\<newline>''" "i < length (sb k)"
  shows "\<exists>s v. welcome_screen im i k = Some (k\<lparr>sb := (sb k)[i := s], hw := v\<rparr>) \<and> sb_inv s \<and> \<not> loaded s
    \<and> sb_puts (dev im) (bytes ''Welcome to nulix-2.0.1\<newline>'') (sb_init (sb k ! i)) (hw k) = Some (s, v)"
proof -
  let ?w = "bytes ''Welcome to nulix-2.0.1\<newline>''"
  have "8 \<notin> set ?w" by (simp add: bytes_def)
  from sb_puts_ok [OF this sb_init_inv] obtain s v where s: "sb_puts (dev im) ?w (sb_init (sb k ! i)) (hw k) = Some (s, v)" "sb_inv s"
    unfolding sb_ok_def by blast
  have "\<not> loaded s" using sb_puts_loaded [OF s(1)] by (simp add: sb_init_def)
  moreover have "cstr (ram k) (lit im ''Welcome to nulix-2.0.1\<newline>'') ?w" using assms(1) by (simp add: lit_ok_def)
  ultimately show ?thesis using s by (simp add: welcome_screen_def sb_putstr_puts)
qed


lemma welcome_all:
  assumes "lit_ok im (ram k) ''Welcome to nulix-2.0.1\<newline>''" "length (sb k) = NBSCREENBUF"
  shows "\<exists>s v. for_each (welcome_screen im) [0..<NBSCREENBUF] k = Some (k\<lparr>sb := [s 0, s 1], hw := v\<rparr>)
    \<and> (\<forall>i < NBSCREENBUF. sb_inv (s i) \<and> \<not> loaded (s i)
         \<and> (\<exists>v v'. sb_puts (dev im) (bytes ''Welcome to nulix-2.0.1\<newline>'') (sb_init (sb k ! i)) v = Some (s i, v')))"
proof -
  let ?w = "bytes ''Welcome to nulix-2.0.1\<newline>''"
  obtain s0 v0 where 0: "welcome_screen im 0 k = Some (k\<lparr>sb := (sb k)[0 := s0], hw := v0\<rparr>)" "sb_inv s0" "\<not> loaded s0"
      "sb_puts (dev im) ?w (sb_init (sb k ! 0)) (hw k) = Some (s0, v0)"
    using welcome_screen_ok [OF assms(1), of 0] assms(2) by (auto simp: NBSCREENBUF_def)
  let ?k = "k\<lparr>sb := (sb k)[0 := s0], hw := v0\<rparr>"
  obtain s1 v1 where 1: "welcome_screen im 1 ?k = Some (?k\<lparr>sb := (sb ?k)[1 := s1], hw := v1\<rparr>)" "sb_inv s1" "\<not> loaded s1"
      "sb_puts (dev im) ?w (sb_init (sb ?k ! 1)) (hw ?k) = Some (s1, v1)"
    using welcome_screen_ok [of im ?k 1] assms by (auto simp: NBSCREENBUF_def)
  obtain x y where xy: "sb k = [x, y]" using assms(2) by (auto simp: NBSCREENBUF_def numeral_2_eq_2 length_Suc_conv)
  have "for_each (welcome_screen im) [0..<NBSCREENBUF] k = Some (k\<lparr>sb := [s0, s1], hw := v1\<rparr>)"
    using 0(1) 1(1) xy by (simp add: NBSCREENBUF_def upt_rec)
  then show ?thesis using 0 1 xy
    by (intro exI [of _ "\<lambda>i. if i = 0 then s0 else s1"] exI [of _ v1]) (auto simp: NBSCREENBUF_def less_2_cases_iff)
qed


lemma boot_screens:
  assumes "lit_ok im (ram k) ''Welcome to nulix-2.0.1\<newline>''" "length (sb k) = NBSCREENBUF" "sb_nbscreen k = int NBSCREENBUF"
  shows "\<exists>bs v. do { k1 \<leftarrow> for_each (welcome_screen im) [0..<NBSCREENBUF] k; on_screen (sb_load (dev im)) (k1\<lparr>sb_current := 0\<rparr>) }
        = Some (k\<lparr>sb := bs, hw := v, sb_current := 0\<rparr>)
    \<and> con_inv (k\<lparr>sb := bs, hw := v, sb_current := 0\<rparr>) \<and> shows_window (bs ! 0) (vga v)
    \<and> (\<forall>i < NBSCREENBUF. \<exists>s v v'. sb_puts (dev im) (bytes ''Welcome to nulix-2.0.1\<newline>'') (sb_init (sb k ! i)) v = Some (s, v')
          \<and> bs ! i = s\<lparr>loaded := (i = 0)\<rparr>)"
proof -
  let ?w = "bytes ''Welcome to nulix-2.0.1\<newline>''"
  obtain s v where w: "for_each (welcome_screen im) [0..<NBSCREENBUF] k = Some (k\<lparr>sb := [s 0, s 1], hw := v\<rparr>)"
      "\<forall>i < NBSCREENBUF. sb_inv (s i) \<and> \<not> loaded (s i) \<and> (\<exists>v v'. sb_puts (dev im) ?w (sb_init (sb k ! i)) v = Some (s i, v'))"
    using welcome_all [OF assms(1,2)] by blast
  have s: "sb_inv (s 0)" "sb_inv (s 1)" "\<not> loaded (s 0)" "\<not> loaded (s 1)" using w(2) by (auto simp: NBSCREENBUF_def)
  obtain v' where v': "sb_load (dev im) (s 0) v = Some ((s 0)\<lparr>loaded := True\<rparr>, v')" "sb_inv ((s 0)\<lparr>loaded := True\<rparr>)" "shows_window (s 0) (vga v')"
    using sb_load_window [OF s(1)] by blast
  let ?bs = "[(s 0)\<lparr>loaded := True\<rparr>, s 1]"
  have "(s 1)\<lparr>loaded := False\<rparr> = s 1" using s(4) by (cases "s 1") simp
  then have "?bs ! i = (s i)\<lparr>loaded := (i = 0)\<rparr>" if "i < NBSCREENBUF" for i using that by (auto simp: NBSCREENBUF_def less_2_cases_iff)
  then have "\<forall>i < NBSCREENBUF. \<exists>s v v'. sb_puts (dev im) ?w (sb_init (sb k ! i)) v = Some (s, v') \<and> ?bs ! i = s\<lparr>loaded := (i = 0)\<rparr>"
    using w(2) by metis
  moreover have "con_inv (k\<lparr>sb := ?bs, hw := v', sb_current := 0\<rparr>)"
    using s v'(2) assms(3) by (simp add: con_inv_def NBSCREENBUF_def less_2_cases_iff all_conj_distrib)
  moreover have "shows_window (?bs ! 0) (vga v')" using v'(3) by (simp add: shows_window_def)
  ultimately show ?thesis using w(1) v'(1)
    by (intro exI [of _ ?bs] exI [of _ v']) (simp add: on_screen_def cur_ok_def cur_def set_cur_def)
qed

section \<open>Correctness properties\<close>

text \<open>The hypotheses on the machine and the image, of which \<open>mem\<close> is the size in KiB that \<^verbatim>\<open>kernel_main\<close> hands to \<^verbatim>\<open>kpm_init\<close>.\<close>

definition boot_ok :: "image \<Rightarrow> ptr \<Rightarrow> ptr \<Rightarrow> multiboot_info \<Rightarrow> kernel \<Rightarrow> bool" where
  "boot_ok im sk ek mbi k \<longleftrightarrow>
     (let mem = mem_upper mbi - mem_lower mbi; N = unat (mem * 1024) div 4096 div 1024 * 1024; E = unat (ek - KERNEL_VIRT_OFFSET) in
      length (sb k) = NBSCREENBUF \<and> sb_nbscreen k = int NBSCREENBUF \<and> lits_ok im (ram k) \<and> boot_layout im ek mem
      \<and> (\<forall>e \<in> set (mmap mbi). entry_ok N e) \<and> (\<exists>e \<in> set (mmap mbi). entry_size e = 0)
      \<and> KERNEL_VIRT_OFFSET \<le> ek \<and> unat ek \<le> 0xFFFFF000 \<and> 4096 dvd unat sk \<and> unat sk \<le> E \<and> E \<le> N * 4096)"

lemma boot_tables:
  "ram (fst (init_descriptor_tables im k)) = fst (idt_init (isr im) (fst (gdt_init (ram k))))"
  "sb (fst (init_descriptor_tables im k)) = sb k" "sb_nbscreen (fst (init_descriptor_tables im k)) = sb_nbscreen k"
  "gdtp (fst (init_descriptor_tables im k)) = \<lparr>gdt_limit = 48, gdt_base = 0x800\<rparr>"
  "idtp (fst (init_descriptor_tables im k)) = \<lparr>idt_limit = 2048, idt_base = 0\<rparr>"
  "a \<notin> desc_area \<Longrightarrow> ram (fst (init_descriptor_tables im k)) a = ram k a"
proof -
  obtain m1 gp segs where g: "gdt_init (ram k) = (m1, gp, segs)" by (metis prod.collapse)
  have gp: "gp = \<lparr>gdt_limit = 48, gdt_base = 0x800\<rparr>"
    using g by (simp add: gdt_init_def Let_def GDT_SIZE_def GDT_BASE_ADDRESS_def)
  show r: "ram (fst (init_descriptor_tables im k)) = fst (idt_init (isr im) (fst (gdt_init (ram k))))"
    and "sb (fst (init_descriptor_tables im k)) = sb k" "sb_nbscreen (fst (init_descriptor_tables im k)) = sb_nbscreen k"
    "gdtp (fst (init_descriptor_tables im k)) = \<lparr>gdt_limit = 48, gdt_base = 0x800\<rparr>"
    by (simp_all add: init_descriptor_tables_def on_ports_def g gp Let_def split_def)
  show "idtp (fst (init_descriptor_tables im k)) = \<lparr>idt_limit = 2048, idt_base = 0\<rparr>"
    by (simp add: init_descriptor_tables_def on_ports_def g Let_def split_def) (simp add: idt_init_def Let_def)
  show "ram (fst (init_descriptor_tables im k)) a = ram k a" if "a \<notin> desc_area"
    using that by (simp add: r idt_init_frame gdt_init_frame desc_area_def)
qed

lemma boot_kpm:
  assumes "boot_ok im sk ek mbi k"
  defines "mem \<equiv> mem_upper mbi - mem_lower mbi"
  defines "N \<equiv> unat (mem * 1024) div 4096 div 1024 * 1024"
  shows "\<exists>p. kpm_init sk ek (mmap mbi) mem (ram (fst (init_descriptor_tables im k))) = Some p \<and> kpm_inv p
    \<and> kpm_tables (buddy p) \<subseteq> boot_area ek mem \<and> (\<forall>a. a \<notin> boot_area ek mem \<longrightarrow> kmem p a = ram (fst (init_descriptor_tables im k)) a)
    \<and> free_frames p = enabled_set p
    \<and> free_frames p = (\<Union>e \<in> set (takeWhile (\<lambda>e. entry_size e \<noteq> 0) (mmap mbi)). entry_frames N e) - insert 0 (kernel_frames sk ek N)"
proof -
  let ?m = "ram (fst (init_descriptor_tables im k))"
  have N: "nf (kpm_init_layout ek mem ?m) = N" unfolding N_def by (rule init_layout_fields)
  have b: "\<forall>e \<in> set (mmap mbi). entry_ok N e" "\<exists>e \<in> set (mmap mbi). entry_size e = 0"
    "KERNEL_VIRT_OFFSET \<le> ek" "unat ek \<le> 0xFFFFF000" "4096 dvd unat sk"
    "unat sk \<le> unat (ek - KERNEL_VIRT_OFFSET)" "unat (ek - KERNEL_VIRT_OFFSET) \<le> N * 4096"
    using assms(1) by (simp_all add: boot_ok_def Let_def N_def mem_def)
  obtain p where p: "kpm_init sk ek (mmap mbi) mem ?m = Some p" "kpm_inv p" "buddy p = buddy (kpm_init_layout ek mem ?m)"
      "tables_only (kpm_init_layout ek mem ?m) p" "free_frames p = enabled_set p"
      "free_frames p = (\<Union>e \<in> set (takeWhile (\<lambda>e. entry_size e \<noteq> 0) (mmap mbi)). entry_frames N e) - insert 0 (kernel_frames sk ek N)"
    using kpm_init_frames [where es = "mmap mbi" and ek = ek and memkb = mem and m = ?m and sk = sk, unfolded N, OF b] by blast
  have t: "kpm_tables (buddy (kpm_init_layout ek mem ?m)) \<subseteq> boot_area ek mem" by (rule init_tables_area)
  then have "kmem p a = ?m a" if "a \<notin> boot_area ek mem" for a
    using p(4) that init_layout_frame [OF that, of ?m] by (auto simp: tables_only_def)
  then show ?thesis using p t by auto
qed

lemma booted:
  assumes "boot_ok im sk ek mbi k"
  shows "let N = unat ((mem_upper mbi - mem_lower mbi) * 1024) div 4096 div 1024 * 1024
    in \<exists>k'. kernel_boot im sk ek mbi k = Some k' \<and> sys_inv im k'
      \<and> (\<forall>a \<in> desc_area. ram k' a = fst (idt_init (isr im) (fst (gdt_init (ram k)))) a)
      \<and> gdtp k' = \<lparr>gdt_limit = 48, gdt_base = 0x800\<rparr> \<and> idtp k' = \<lparr>idt_limit = 2048, idt_base = 0\<rparr>
      \<and> free_in k' = enabled_in k'
      \<and> free_in k' = (\<Union>e \<in> set (takeWhile (\<lambda>e. entry_size e \<noteq> 0) (mmap mbi)). entry_frames N e) - insert 0 (kernel_frames sk ek N)
      \<and> getkeymapentry (kbd k') = Some US104_getkeymapentry
      \<and> sb_current k' = 0 \<and> shows_window (cur k') (vga (hw k'))
      \<and> (\<forall>i < NBSCREENBUF. \<exists>s v v'. sb_puts (dev im) (bytes ''Welcome to nulix-2.0.1\<newline>'') (sb_init (sb k ! i)) v = Some (s, v')
            \<and> sb k' ! i = s\<lparr>loaded := (i = 0)\<rparr>)"
proof -
  let ?mem = "mem_upper mbi - mem_lower mbi" and ?w = "''Welcome to nulix-2.0.1\<newline>''"
  let ?N = "unat (?mem * 1024) div 4096 div 1024 * 1024"
  define k1 where "k1 = fst (init_descriptor_tables im k)"
  have b: "length (sb k) = NBSCREENBUF" "sb_nbscreen k = int NBSCREENBUF" "lits_ok im (ram k)" "boot_layout im ek ?mem"
    using assms by (simp_all add: boot_ok_def Let_def)
  obtain p where p: "kpm_init sk ek (mmap mbi) ?mem (ram k1) = Some p" "kpm_inv p" "kpm_tables (buddy p) \<subseteq> boot_area ek ?mem"
      "\<forall>a. a \<notin> boot_area ek ?mem \<longrightarrow> kmem p a = ram k1 a" "free_frames p = enabled_set p"
      "free_frames p = (\<Union>e \<in> set (takeWhile (\<lambda>e. entry_size e \<noteq> 0) (mmap mbi)). entry_frames ?N e) - insert 0 (kernel_frames sk ek ?N)"
    using boot_kpm [OF assms] unfolding k1_def by blast
  let ?k2 = "k1\<lparr>kbd := KBD_initialize (kbd k1), phys := p\<rparr>"
  have "kmem p a = ram k a" if "a \<in> lit_area im" for a
  proof -
    have "a \<notin> desc_area" "a \<notin> boot_area ek ?mem" using that b(4) by (auto simp: boot_layout_def layout_ok_def)
    then show ?thesis using p(4) boot_tables(6) [of a im k] by (simp add: k1_def)
  qed
  then have lits: "lits_ok im (kmem p)" by (intro lits_ok_cong [OF b(3)]) blast
  have k1: "sb k1 = sb k" "sb_nbscreen k1 = sb_nbscreen k" "gdtp k1 = \<lparr>gdt_limit = 48, gdt_base = 0x800\<rparr>" "idtp k1 = \<lparr>idt_limit = 2048, idt_base = 0\<rparr>"
    "ram k1 = fst (idt_init (isr im) (fst (gdt_init (ram k))))"
    by (simp_all add: k1_def boot_tables)
  have "?w \<in> set literals" by (simp add: literals_def)
  from boot_screens [of im ?k2] lits_okD [OF lits this] obtain bs v where
    w: "do { k3 \<leftarrow> for_each (welcome_screen im) [0..<NBSCREENBUF] ?k2; on_screen (sb_load (dev im)) (k3\<lparr>sb_current := 0\<rparr>) }
        = Some (?k2\<lparr>sb := bs, hw := v, sb_current := 0\<rparr>)" "con_inv (?k2\<lparr>sb := bs, hw := v, sb_current := 0\<rparr>)" "shows_window (bs ! 0) (vga v)"
      "\<forall>i < NBSCREENBUF. \<exists>s v v'. sb_puts (dev im) (bytes ?w) (sb_init (sb k ! i)) v = Some (s, v') \<and> bs ! i = s\<lparr>loaded := (i = 0)\<rparr>"
    using b(1,2) k1(1,2) by auto
  let ?k = "?k2\<lparr>sb := bs, hw := v, sb_current := 0\<rparr>"
  have boot: "kernel_boot im sk ek mbi k = Some ?k" using p(1) w(1) by (simp add: kernel_boot_def Let_def flip: k1_def)
  have "layout_ok im (kpm_tables (buddy p))" using layout_ok_mono [OF _ p(3)] b(4) by (simp add: boot_layout_def)
  then have "sys_inv im ?k" using w(2) lits p(2) by (simp add: sys_inv_def)
  moreover have "\<forall>a \<in> desc_area. ram ?k a = fst (idt_init (isr im) (fst (gdt_init (ram k)))) a"
    using p(4) b(4) unfolding boot_layout_def k1(5) [symmetric] by auto
  moreover have "gdtp ?k = \<lparr>gdt_limit = 48, gdt_base = 0x800\<rparr>" "idtp ?k = \<lparr>idt_limit = 2048, idt_base = 0\<rparr>" "free_in ?k = enabled_in ?k"
    "free_in ?k = (\<Union>e \<in> set (takeWhile (\<lambda>e. entry_size e \<noteq> 0) (mmap mbi)). entry_frames ?N e) - insert 0 (kernel_frames sk ek ?N)" "sb_current ?k = 0"
    using k1(3,4) p(5,6) by simp_all
  moreover have "getkeymapentry (kbd ?k) = Some US104_getkeymapentry" by (simp add: KBD_initialize_def KBD_setkeymap_def)
  moreover have "cur ?k = bs ! 0" "hw ?k = v" "sb ?k = bs" by (simp_all add: cur_def)
  ultimately show ?thesis unfolding Let_def using boot w(3,4) by metis
qed

text \<open>
  C6: the start of the kernel.  On a machine and an image whose areas of memory do not overlap, \<^verbatim>\<open>kernel_main\<close> gets through to the shell: the
  descriptor tables are in memory and their registers point to them, the allocator owns exactly the
  available frames outside the kernel, the layout is US, both screens show the welcome line, the first is the current one and on
  display, and the kernel's invariant holds.
\<close>

theorem kernel_boot_correct:
  assumes "boot_ok im sk ek mbi k"
  shows "let N = unat ((mem_upper mbi - mem_lower mbi) * 1024) div 4096 div 1024 * 1024
    in \<exists>k'. kernel_boot im sk ek mbi k = Some k' \<and> sys_inv im k'
      \<and> (\<forall>a \<in> desc_area. ram k' a = fst (idt_init (isr im) (fst (gdt_init (ram k)))) a)
      \<and> gdtp k' = \<lparr>gdt_limit = 48, gdt_base = 0x800\<rparr> \<and> idtp k' = \<lparr>idt_limit = 2048, idt_base = 0\<rparr>
      \<and> free_in k' = enabled_in k'
      \<and> free_in k' = (\<Union>e \<in> set (takeWhile (\<lambda>e. entry_size e \<noteq> 0) (mmap mbi)). entry_frames N e) - insert 0 (kernel_frames sk ek N)
      \<and> getkeymapentry (kbd k') = Some US104_getkeymapentry
      \<and> sb_current k' = 0 \<and> shows_window (cur k') (vga (hw k'))
      \<and> (\<forall>i < NBSCREENBUF. \<exists>s v v'. sb_puts (dev im) (bytes ''Welcome to nulix-2.0.1\<newline>'') (sb_init (sb k ! i)) v = Some (s, v')
            \<and> sb k' ! i = s\<lparr>loaded := (i = 0)\<rparr>)"
  by (rule booted [OF assms])

definition demo_mbi :: multiboot_info where
  "demo_mbi = \<lparr>mem_lower = 640, mem_upper = 33408, mmap = demo_mmap\<rparr>"

lemma demo_boot_area: "boot_area 0xC0120000 32768 \<subseteq> blk 0xC0120064 0x10000"
proof -
  have "ALIGNNEXT 0xC0120000 PAGE_SIZE + sizeof_buddy_t = 0xC0120064"
    by (simp add: ALIGNNEXT_def PAGE_SIZE_def sizeof_buddy_t_def)
  moreover have "unat (32768 * 1024 :: u32) div 4096 div 1024 * 1024 = 8192" by simp
  moreover have "nbytes 8192 + order_off 8192 KPM_NORDERS \<le> 0x10000" using order_off_le [of 8192 KPM_NORDERS] by (simp add: nbytes_def KPM_NORDERS_def)
  then have "blk 0xC0120064 (nbytes 8192 + order_off 8192 KPM_NORDERS) \<subseteq> blk (0xC0120064 :: ptr) 0x10000" by (auto simp: blk_def)
  ultimately show ?thesis unfolding boot_area_def Let_def by (simp only:)
qed

lemma demo_boot_ok: "boot_ok demo_image 0x100000 0xC0120000 demo_mbi (demo_kernel (demo_ram m))"
proof -
  have "desc_area \<inter> blk 0x20000 17920 = {}" "desc_area \<inter> blk 0xC0120064 0x10000 = {}"
    using blk_apart [of 0 2048 "0x20000" 17920] blk_apart [of "0x800" 56 "0x20000" 17920]
      blk_apart [of 0 2048 "0xC0120064" "0x10000"] blk_apart [of "0x800" 56 "0xC0120064" "0x10000"]
    by (auto simp: desc_area_def)
  then have "boot_layout demo_image 0xC0120000 32768"
    using demo_areas demo_boot_area unfolding boot_layout_def layout_ok_def by (simp add: demo_image_def) blast
  then show ?thesis
    using demo_lits_ok [of m]
    by (simp add: boot_ok_def Let_def demo_mbi_def demo_kernel_def NBSCREENBUF_def demo_mmap_def entry_ok_def entry_used_def
      KERNEL_VIRT_OFFSET_def MULTIBOOT_MEMORY_AVAILABLE_def)
qed

theorem kernel_boot_correct_witness:
  "\<exists>k'. kernel_boot demo_image 0x100000 0xC0120000 demo_mbi (demo_kernel (demo_ram (\<lambda>_. 0))) = Some k' \<and> sys_inv demo_image k' \<and> sb_current k' = 0"
  using kernel_boot_correct [OF demo_boot_ok, of "\<lambda>_. 0"] unfolding Let_def by blast

text \<open>
  The kernel reaches its prompt.  From such a start \<^verbatim>\<open>kernel_main\<close> arrives at the head of the shell's loop with an empty line, no arguments, and the
  kernel's invariant.
\<close>

theorem kernel_main_prompt:
  assumes "boot_ok im sk ek mbi k"
  shows "\<exists>k'. kernel_main im sk ek mbi evt k (evt, k') \<and> sys_inv im k' \<and> line_is im k' [] \<and> nsh_cmdnarg k' = 0 \<and> nsh_cmd k' 0 = 0"
proof -
  obtain k1 where k1: "kernel_boot im sk ek mbi k = Some k1" "sys_inv im k1" using booted [OF assms] unfolding Let_def by blast
  obtain k2 where k2: "nsh_newline im k1 = Some k2" "sys_inv im k2" "line_is im k2 []" "nsh_cmdnarg k2 = 0" "\<forall>i < 128. nsh_cmd k2 i = 0"
    using nsh_newline_ok [OF k1(2)] by blast
  then have "kernel_main im sk ek mbi evt k (evt, k2)" using k1(1) by (blast intro: boot nsh_start)
  then show ?thesis using k2 by auto
qed

theorem kernel_main_prompt_witness:
  "\<exists>k'. kernel_main demo_image 0x100000 0xC0120000 demo_mbi \<lparr>evt_type = KEY_PRESSED, key = KEY_K\<rparr> (demo_kernel (demo_ram (\<lambda>_. 0)))
      (\<lparr>evt_type = KEY_PRESSED, key = KEY_K\<rparr>, k') \<and> line_is demo_image k' []"
  using kernel_main_prompt [OF demo_boot_ok, of "\<lparr>evt_type = KEY_PRESSED, key = KEY_K\<rparr>" "\<lambda>_. 0"] by blast

end
