(* ===== verification/Nsh_Session.thy ===== *)
theory Nsh_Session
  imports Kernel_Main Screen_Text "HOL-Library.Sublist"
begin

text \<open>
  What the user of the shell sees.  The line editor refines a list of characters (\<open>Nsh_Edit\<close>), and the screen refines a page of
  lines (\<open>Screen_Text\<close>); here the two are put together: while a line is typed, the page ends with the prompt and that line, wrapped
  at 80 columns, and the display shows it.
\<close>

section \<open>Wrapped text\<close>

function wrap :: "'a list \<Rightarrow> 'a list list" where
  "wrap zs = (if length zs < 80 then [zs] else take 80 zs # wrap (drop 80 zs))"
  by pat_completeness auto
termination by (relation "measure length") auto

declare wrap.simps [simp del]

lemma wrap_short: "length zs < 80 \<Longrightarrow> wrap zs = [zs]"
  by (simp add: wrap.simps)

lemma wrap_not_Nil [simp]: "wrap zs \<noteq> []"
  by (subst wrap.simps) simp

lemma length_wrap: "length (wrap zs) = length zs div 80 + 1"
proof (induction zs rule: wrap.induct)
  case (1 zs)
  then show ?case by (cases "length zs < 80") (simp_all add: wrap.simps [of zs] le_div_geq)
qed

lemma last_wrap: "length (last (wrap zs)) = length zs mod 80"
proof (induction zs rule: wrap.induct)
  case (1 zs)
  then show ?case by (cases "length zs < 80") (simp_all add: wrap.simps [of zs] le_mod_geq)
qed

lemma wrap_snoc:
  "wrap (zs @ [z]) = (let l = last (wrap zs) @ [z] in if length l = 80 then butlast (wrap zs) @ [l, []] else butlast (wrap zs) @ [l])"
proof (induction zs rule: wrap.induct)
  case (1 zs)
  show ?case
  proof (cases "length zs < 80")
    case True
    then show ?thesis by (cases "length zs = 79") (simp_all add: wrap.simps [of zs] wrap.simps [of "zs @ [z]"] wrap.simps [of "[]"])
  next
    case False
    then have "wrap (zs @ [z]) = take 80 zs # wrap (drop 80 zs @ [z])" by (subst wrap.simps) simp
    then show ?thesis using 1 [OF False] False by (simp add: wrap.simps [of zs] Let_def)
  qed
qed

lemma length_last_wrap_less: "length (last (wrap zs)) < 80"
  by (simp add: last_wrap)

lemma add_cell_wrap:
  assumes "length (b @ wrap zs) = 200 \<longrightarrow> b \<noteq> []"
  shows "\<exists>b'. suffix b' b \<and> add_cell w (b @ wrap zs) = b' @ wrap (zs @ [w]) \<and> (length (b @ wrap zs) < 200 \<longrightarrow> b' = b)"
proof -
  obtain p l where p: "wrap zs = p @ [l]" using wrap_not_Nil [of zs] by (metis append_butlast_last_id)
  have w: "wrap (zs @ [w]) = (if length (l @ [w]) = 80 then p @ [l @ [w], []] else p @ [l @ [w]])"
    by (simp add: wrap_snoc p Let_def)
  have a: "add_cell w (b @ wrap zs) = (if length (l @ [w]) = 80 then new_line (b @ p @ [l @ [w]]) else b @ p @ [l @ [w]])"
    by (simp add: add_cell_def p butlast_append)
  show ?thesis
  proof (cases "length (l @ [w]) = 80 \<and> length (b @ wrap zs) = 200")
    case True
    then obtain x b1 where b: "b = x # b1" using assms by (cases b) auto
    then have "add_cell w (b @ wrap zs) = b1 @ wrap (zs @ [w])" unfolding a w using True by (simp add: new_line_def p)
    then show ?thesis using True by (intro exI [of _ b1]) (simp add: b suffix_ConsI)
  next
    case False
    then have "add_cell w (b @ wrap zs) = b @ wrap (zs @ [w])" unfolding a w by (auto simp: new_line_def p)
    then show ?thesis by blast
  qed
qed

lemma erase_cell_wrap: "erase_cell (b @ wrap (zs @ [w])) = b @ wrap zs" "can_erase (b @ wrap (zs @ [w]))"
proof -
  obtain p l where p: "wrap zs = p @ [l]" using wrap_not_Nil [of zs] by (metis append_butlast_last_id)
  have "wrap (zs @ [w]) = (if length (l @ [w]) = 80 then p @ [l @ [w], []] else p @ [l @ [w]])"
    by (simp add: wrap_snoc p Let_def)
  then show "erase_cell (b @ wrap (zs @ [w])) = b @ wrap zs" "can_erase (b @ wrap (zs @ [w]))"
    using p by (simp_all add: erase_cell_def can_erase_def butlast_append Let_def)
qed

section \<open>The keyboard controller\<close>

text \<open>The start of the kernel and a new prompt leave the pending bytes of the keyboard alone.\<close>

lemma on_screen_io:
  "on_screen f k = Some k' \<Longrightarrow> (\<And>s v s' v'. f s v = Some (s', v') \<Longrightarrow> data_reads (ports v') = data_reads (ports v))
    \<Longrightarrow> kbd k' = kbd k \<and> data_reads (ports (hw k')) = data_reads (ports (hw k))"
  by (auto simp: on_screen_def bind_eq_Some_conv split: if_splits)

lemma kprint_io: "kprint im fmt args k = Some k' \<Longrightarrow> kbd k' = kbd k \<and> data_reads (ports (hw k')) = data_reads (ports (hw k))"
  by (auto simp: kprint_def kprintf_def bind_eq_Some_conv dest!: on_screen_io [OF _ sb_putstr_reads])

lemma on_cur_io: "on_cur f k = Some k' \<Longrightarrow> kbd k' = kbd k \<and> hw k' = hw k"
  by (auto simp: on_cur_def split: if_splits)

lemma nsh_newline_io: "nsh_newline im k = Some k' \<Longrightarrow> kbd k' = kbd k \<and> data_reads (ports (hw k')) = data_reads (ports (hw k))"
  by (auto simp: nsh_newline_def nsh_prompt_def Let_def bind_eq_Some_conv dest!: on_cur_io kprint_io split: if_splits)

lemma welcome_screen_io: "welcome_screen im i k = Some k' \<Longrightarrow> kbd k' = kbd k \<and> data_reads (ports (hw k')) = data_reads (ports (hw k))"
  by (auto simp: welcome_screen_def bind_eq_Some_conv dest!: keeps_reads)

lemma init_descriptor_tables_io:
  "kbd (fst (init_descriptor_tables im k)) = kbd k"
  "data_reads (ports (hw (fst (init_descriptor_tables im k)))) = data_reads (ports (hw k))"
proof -
  have "data_reads (irq_clear_mask d i tr) = data_reads tr" for d i tr
    by (simp add: irq_clear_mask_def irq_port_def port_write_u8_def port_read_u8_def Let_def data_reads_def PS2_DATA_PORT_def
      PIC1_DATA_def PIC2_DATA_def PIC1_def PIC2_def)
  moreover have "data_reads (port_write_u8 p c tr) = data_reads tr" for p c tr by (simp add: port_write_u8_def data_reads_def)
  ultimately have "data_reads (pic_8259_init d a b tr) = data_reads tr" for d a b tr by (simp add: pic_8259_init_def Let_def)
  then show "kbd (fst (init_descriptor_tables im k)) = kbd k"
    "data_reads (ports (hw (fst (init_descriptor_tables im k)))) = data_reads (ports (hw k))"
    by (simp_all add: init_descriptor_tables_def on_ports_def Let_def split_def)
qed

lemma kernel_boot_io:
  assumes "kernel_boot im sk ek mbi k = Some k'"
  shows "kbd k' = KBD_initialize (kbd k) \<and> data_reads (ports (hw k')) = data_reads (ports (hw k))"
proof -
  obtain p k3 where 3: "for_each (welcome_screen im) [0..<NBSCREENBUF]
      ((fst (init_descriptor_tables im k))\<lparr>kbd := KBD_initialize (kbd (fst (init_descriptor_tables im k))), phys := p\<rparr>) = Some k3"
    "on_screen (sb_load (dev im)) (k3\<lparr>sb_current := 0\<rparr>) = Some k'"
    using assms by (auto simp: kernel_boot_def Let_def bind_eq_Some_conv)
  have "[0..<NBSCREENBUF] = [0, 1]" by (simp add: NBSCREENBUF_def upt_rec)
  then have "kbd k3 = KBD_initialize (kbd k)" "data_reads (ports (hw k3)) = data_reads (ports (hw k))"
    using 3(1) by (auto simp: bind_eq_Some_conv init_descriptor_tables_io dest!: welcome_screen_io)
  then show ?thesis using on_screen_io [OF 3(2) sb_load_reads] by simp
qed

section \<open>The current screen of the kernel\<close>

definition con_text :: "kernel \<Rightarrow> page \<Rightarrow> bool" where
  "con_text k ls \<longleftrightarrow> con_inv k \<and> has_text (cur k) ls \<and> synced (cur k) (hw k)"

lemma con_text_displays: "con_text k ls \<Longrightarrow> displays (vga (hw k)) ls"
  by (auto simp: con_text_def intro: synced_displays con_invD)

lemma says_text:
  assumes "says im k t k'" "con_text k ls" "set t \<inter> {0, 8, 9} = {}"
  shows "con_text k' (fold (type_char (color (cur k))) t ls)" "color (cur k') = color (cur k)"
  using puts_text [of "cur k" ls "hw k" t "dev im"] assms by (auto simp: says_def con_text_def)

lemma has_text_settled: "has_text s ls \<Longrightarrow> settled s"
  using has_text_visible(1) [of s ls] by (simp add: settled_def)

section \<open>Typing\<close>

lemma edit_cells: "0 \<notin> set xs \<Longrightarrow> c \<noteq> 0 \<Longrightarrow> 0 \<notin> set (edit c xs)"
  by (auto simp: edit_def dest: in_set_butlastD)

text \<open>The page while the line \<open>xs\<close> is typed behind the prompt \<open>l\<close>.\<close>

definition typed_page :: "u8 \<Rightarrow> page \<Rightarrow> u16 list \<Rightarrow> u8 list \<Rightarrow> page" where
  "typed_page col b l xs = b @ wrap (l @ map (cell col) xs)"

lemma typed_page_can_erase: "l \<noteq> [] \<Longrightarrow> can_erase (typed_page col b l xs)"
  using erase_cell_wrap(2) [of b "butlast (l @ map (cell col) xs)" "last (l @ map (cell col) xs)"]
  by (simp add: typed_page_def)

lemma type_char_typed_page:
  assumes "length l < 90" "length xs < 1024" "c \<notin> {0, 9, 10}" "edit c xs \<noteq> xs"
  shows "\<exists>b'. suffix b' b \<and> type_char col c (typed_page col b l xs) = typed_page col b' l (edit c xs) \<and> (length b \<le> 180 \<longrightarrow> b' = b)"
proof (cases "c = 8")
  case True
  then have "xs \<noteq> []" "edit c xs = butlast xs" using assms(4) by (auto simp: edit_def)
  then obtain x ys where "xs = ys @ [x]" "edit c xs = ys" by (metis append_butlast_last_id)
  then show ?thesis using True erase_cell_wrap(1) [of b "l @ map (cell col) ys"] by (simp add: typed_page_def type_char_def)
next
  case False
  then have e: "edit c xs = xs @ [c]" using assms(4) by (auto simp: edit_def split: if_splits)
  have "(length l + length xs) div 80 \<le> 1112 div 80" using assms(1,2) by (intro div_le_mono) linarith
  then have w: "length (wrap (l @ map (cell col) xs)) \<le> 14" by (simp add: length_wrap)
  obtain b' where "suffix b' b" "add_cell (cell col c) (b @ wrap (l @ map (cell col) xs)) = b' @ wrap ((l @ map (cell col) xs) @ [cell col c])"
    "length (b @ wrap (l @ map (cell col) xs)) < 200 \<longrightarrow> b' = b"
    using add_cell_wrap [of b "l @ map (cell col) xs" "cell col c"] w by fastforce
  then show ?thesis using False assms(3) w e by (auto simp: typed_page_def type_char_def)
qed

lemma nsh_key_shows:
  assumes "sys_inv im k" "line_is im k xs" "con_text k (typed_page col b l xs)" "color (cur k) = col" "c \<notin> {0, 9, 10}"
    and "l \<noteq> []" "length l < 90"
  shows "\<exists>k' b'. nsh_addchar im c k = Some k' \<and> sys_inv im k' \<and> line_is im k' (edit c xs) \<and> suffix b' b \<and> line_step im k k'
    \<and> con_text k' (typed_page col b' l (edit c xs)) \<and> color (cur k') = col \<and> (length b \<le> 180 \<longrightarrow> b' = b)"
proof -
  have t: "has_text (cur k) (typed_page col b l xs)" "synced (cur k) (hw k)" using assms(3) by (simp_all add: con_text_def)
  have er: "can_erase (typed_page col b l xs)" using typed_page_can_erase [OF assms(6)] .
  have "c = 8 \<longrightarrow> erasable (cur k)" using has_text_erasable [OF t(1)] er by blast
  then obtain k' where k': "nsh_addchar im c k = Some k'" "sys_inv im k'" "line_is im k' (edit c xs)" "line_step im k k'"
      "if edit c xs = xs then cur k' = cur k \<and> hw k' = hw k else sb_putchar (dev im) c (cur k) (hw k) = Some (cur k', hw k')"
    using nsh_addchar_edits [OF assms(1,2) has_text_settled [OF t(1)] assms(5)] has_text_visible(2) [OF t(1), of "dev im" "hw k"]
    by auto
  have con: "con_inv k'" by (rule sys_invD(1) [OF k'(2)])
  show ?thesis
  proof (cases "edit c xs = xs")
    case True
    then show ?thesis using k' t con assms(4) by (intro exI [of _ k'] exI [of _ b]) (simp add: con_text_def)
  next
    case False
    have len: "length xs < 1024" using assms(2) by (simp add: line_is_def)
    obtain b' where b': "suffix b' b" "type_char col c (typed_page col b l xs) = typed_page col b' l (edit c xs)" "length b \<le> 180 \<longrightarrow> b' = b"
      using type_char_typed_page [OF assms(7) len assms(5) False] by blast
    have "has_text (cur k') (typed_page col b' l (edit c xs)) \<and> synced (cur k') (hw k') \<and> color (cur k') = col"
      using putchar_text [OF t, of c "dev im"] k'(5) False assms(4,5) er b'(2) by auto
    then show ?thesis using k'(1-4) con b' by (intro exI [of _ k'] exI [of _ b']) (simp add: con_text_def)
  qed
qed

text \<open>
  Strokes as they come from the keyboard: the shell takes one press at a time, after the releases that precede it.
\<close>

type_synonym press = "stroke list \<times> stroke"

definition press_ok :: "press \<Rightarrow> bool" where
  "press_ok = (\<lambda>(rs, s). (\<forall>r \<in> set rs. known_stroke r \<and> evt_type (stroke_event r) = KEY_RELEASED) \<and> known_stroke s \<and> evt_type (stroke_event s) = KEY_PRESSED)"

definition press_bytes :: "press \<Rightarrow> u8 list" where
  "press_bytes = (\<lambda>(rs, s). concat (map stroke_bytes rs) @ stroke_bytes s)"

definition press_events :: "press \<Rightarrow> kbd_event list" where
  "press_events = (\<lambda>(rs, s). map stroke_event (rs @ [s]))"

text \<open>The events the shell sees, each with the character that the layout and the modifiers give it.\<close>

fun presses :: "press list \<Rightarrow> kbd_state \<Rightarrow> (kbd_event \<times> u8) list" where
  "presses [] st = []"
| "presses (p # ps) st =
     (let st' = after (press_events p) st; e = stroke_event (snd p) in (e, KBD_getchar e st') # presses ps st')"

text \<open>A key that edits the line, or does nothing: not Enter, not the tabulation, not one of the four keys that scroll.\<close>

definition edits :: "kbd_event \<times> u8 \<Rightarrow> bool" where
  "edits = (\<lambda>(e, c). c \<notin> {9, 10} \<and> (c = 0 \<longrightarrow> key e \<notin> {KEY_CURSOR_UP, KEY_CURSOR_DOWN, KEY_PAGE_DOWN, KEY_PAGE_UP}))"

definition shown :: "image \<Rightarrow> u8 \<Rightarrow> page \<Rightarrow> u16 list \<Rightarrow> u8 list \<Rightarrow> kernel \<Rightarrow> bool" where
  "shown im col b l xs k \<longleftrightarrow> sys_inv im k \<and> line_is im k xs \<and> con_text k (typed_page col b l xs) \<and> color (cur k) = col \<and> l \<noteq> [] \<and> length l < 90"

text \<open>The head of a turn of the loop: the press is taken from the controller and decoded.\<close>

lemma press_taken:
  assumes "ps2_delivers (dev im) bs" "drop (data_reads (ports (hw k))) bs = press_bytes p @ rest" "press_ok p" "\<not> ext (kbd k)"
    and "presses [p] (kbd k) = [(e, c)]"
  shows "\<exists>tr. nsh_step im (evt, k) = (let k1 = on_ports (\<lambda>_. tr) (k\<lparr>kbd := after (press_events p) (kbd k)\<rparr>)
      in do { k2 \<leftarrow> (if c \<noteq> 0 then nsh_addchar im c k1 else nsh_shortcut im e k1); Some (e, k2) }) \<and> drop (data_reads tr) bs = rest"
proof -
  obtain rs s where p: "p = (rs, s)" by (cases p) auto
  let ?st = "after (press_events p) (kbd k)"
  have e: "e = stroke_event s" "c = KBD_getchar e ?st" using assms(5) by (auto simp: p Let_def)
  obtain tr where tr: "KBD_geteventbytype (dev im) KEY_PRESSED evt (kbd k) (ports (hw k)) = Some (e, ?st, tr)" "drop (data_reads tr) bs = rest"
    using geteventbytype_strokes [OF assms(1), of "ports (hw k)" rs s rest KEY_PRESSED "kbd k" evt] assms(2-4) e(1)
    by (auto simp: p press_ok_def press_bytes_def press_events_def)
  then show ?thesis using e(2) by (intro exI [of _ tr]) (simp add: nsh_step_def on_ports_def Let_def)
qed

text \<open>What the decoding leaves alone.\<close>

lemma press_state:
  fixes k :: kernel and st :: kbd_state and tr :: ports
  defines "k1 \<equiv> on_ports (\<lambda>_. tr) (k\<lparr>kbd := st\<rparr>)"
  shows "ports (hw k1) = tr" "kbd k1 = st" "con_inv k1 = con_inv k" "sys_inv im k1 = sys_inv im k" "line_is im k1 xs = line_is im k xs"
    "cur k1 = cur k" "con_text k1 ls = con_text k ls" "tidy k1 = tidy k" "nsh_cmd k1 = nsh_cmd k" "nsh_cmdnarg k1 = nsh_cmdnarg k" "phys k1 = phys k"
proof -
  show *: "cur k1 = cur k" "con_inv k1 = con_inv k" "phys k1 = phys k" by (simp_all add: k1_def on_ports_def con_inv_def cur_def)
  show "ports (hw k1) = tr" "kbd k1 = st" "line_is im k1 xs = line_is im k xs" "nsh_cmd k1 = nsh_cmd k" "nsh_cmdnarg k1 = nsh_cmdnarg k"
    by (simp_all add: k1_def on_ports_def line_is_def nsh_get_def)
  show "sys_inv im k1 = sys_inv im k" using * by (simp add: sys_inv_def)
  have "vga (hw k1) = vga (hw k)" by (simp add: k1_def on_ports_def)
  then show "con_text k1 ls = con_text k ls" using * by (simp add: con_text_def synced_def)
  show "tidy k1 = tidy k" by (rule tidy_cong) (simp_all add: k1_def on_ports_def)
qed

lemma nsh_step_shows:
  assumes "shown im col b l xs k" "ps2_delivers (dev im) bs" "drop (data_reads (ports (hw k))) bs = press_bytes p @ rest"
    and "press_ok p" "\<not> ext (kbd k)" "edits (e, c)" "presses [p] (kbd k) = [(e, c)]"
  shows "\<exists>k' b'. nsh_step im (evt, k) = Some (e, k') \<and> suffix b' b \<and> (length b \<le> 180 \<longrightarrow> b' = b)
    \<and> shown im col b' l (if c = 0 then xs else edit c xs) k' \<and> kbd k' = after (press_events p) (kbd k) \<and> drop (data_reads (ports (hw k'))) bs = rest"
proof -
  let ?st = "after (press_events p) (kbd k)"
  obtain tr where tr: "nsh_step im (evt, k) = (let k1 = on_ports (\<lambda>_. tr) (k\<lparr>kbd := ?st\<rparr>)
      in do { k2 \<leftarrow> (if c \<noteq> 0 then nsh_addchar im c k1 else nsh_shortcut im e k1); Some (e, k2) })" "drop (data_reads tr) bs = rest"
    using press_taken [OF assms(2-5,7)] by blast
  let ?k = "on_ports (\<lambda>_. tr) (k\<lparr>kbd := ?st\<rparr>)"
  have sh: "shown im col b l xs ?k" using assms(1) by (simp add: shown_def press_state)
  show ?thesis
  proof (cases "c = 0")
    case True
    then have "nsh_shortcut im e ?k = Some ?k" using assms(6) by (simp add: edits_def nsh_shortcut_def)
    then show ?thesis using tr True sh by (intro exI [of _ ?k] exI [of _ b]) (simp add: press_state)
  next
    case False
    then have "c \<notin> {0, 9, 10}" using assms(6) by (auto simp: edits_def)
    then obtain k' b' where k': "nsh_addchar im c ?k = Some k'" "shown im col b' l (edit c xs) k'" "suffix b' b" "length b \<le> 180 \<longrightarrow> b' = b" "line_step im ?k k'"
      using nsh_key_shows [of im ?k xs col b l c] sh unfolding shown_def by blast
    then have "kbd k' = ?st" "data_reads (ports (hw k')) = data_reads tr" by (simp_all add: line_step_def press_state)
    then show ?thesis using tr False k' by (intro exI [of _ k'] exI [of _ b']) simp
  qed
qed

lemma nsh_run_shows:
  assumes "nsh im evt0 k0 (evt, k)" "shown im col b l xs k" "ps2_delivers (dev im) bs"
    and "drop (data_reads (ports (hw k))) bs = concat (map press_bytes ps) @ rest"
    and "\<forall>p \<in> set ps. press_ok p" "\<not> ext (kbd k)" "list_all edits (presses ps (kbd k))"
  shows "\<exists>evt' k' b'. nsh im evt0 k0 (evt', k') \<and> suffix b' b \<and> (length b \<le> 180 \<longrightarrow> b' = b)
    \<and> shown im col b' l (fold edit (filter (\<lambda>c. c \<noteq> 0) (map snd (presses ps (kbd k)))) xs) k' \<and> drop (data_reads (ports (hw k'))) bs = rest"
  using assms
proof (induction ps arbitrary: evt k xs b)
  case Nil
  then show ?case by auto
next
  case (Cons p ps)
  obtain e c where ec: "presses [p] (kbd k) = [(e, c)]" by (simp add: Let_def)
  let ?st = "after (press_events p) (kbd k)"
  have pr: "presses (p # ps) (kbd k) = (e, c) # presses ps ?st" using ec by (auto simp: Let_def)
  obtain k1 b1 where 1: "nsh_step im (evt, k) = Some (e, k1)" "suffix b1 b" "length b \<le> 180 \<longrightarrow> b1 = b"
    "shown im col b1 l (if c = 0 then xs else edit c xs) k1" "kbd k1 = ?st" "drop (data_reads (ports (hw k1))) bs = concat (map press_bytes ps) @ rest"
    using nsh_step_shows [OF Cons.prems(2,3) _ _ Cons.prems(6) _ ec, of "concat (map press_bytes ps) @ rest" evt] Cons.prems(4,5,7) pr by auto
  have r: "nsh im evt0 k0 (e, k1)" by (rule nsh_turn [OF Cons.prems(1) 1(1)])
  have "\<not> ext (kbd k1)" "list_all edits (presses ps (kbd k1))" using Cons.prems(7) pr 1(5) by (simp_all add: after_def)
  from Cons.IH [OF r 1(4) Cons.prems(3) 1(6) _ this] Cons.prems(5) obtain evt' k' b' where 2: "nsh im evt0 k0 (evt', k')" "suffix b' b1"
    "length b1 \<le> 180 \<longrightarrow> b' = b1" "drop (data_reads (ports (hw k'))) bs = rest"
    "shown im col b' l (fold edit (filter (\<lambda>c. c \<noteq> 0) (map snd (presses ps ?st))) (if c = 0 then xs else edit c xs)) k'"
    using 1(5) by auto
  have "suffix b' b" using 2(2) 1(2) by (rule suffix_order.trans)
  then show ?case using 2 1(2,3) pr by (intro exI [of _ evt'] exI [of _ k'] exI [of _ b']) (auto split: if_splits)
qed

section \<open>The prompt\<close>

lemma fold_type_char_short:
  assumes "set cs \<inter> {8, 10} = {}" "length l + length cs < 80"
  shows "fold (type_char col) cs (b @ [l]) = b @ [l @ map (cell col) cs]"
  using assms
proof (induction cs arbitrary: l)
  case (Cons c cs)
  have "type_char col c (b @ [l]) = b @ [l @ [cell col c]]" using Cons.prems by (simp add: type_char_def add_cell_def)
  then show ?case using Cons by simp
qed simp

definition prompt_cells :: "u8 \<Rightarrow> u16 list" where
  "prompt_cells col = map (cell ((col AND 0xf0) OR 9)) (bytes ''nsh$ '')"

lemma fold_type_char_wrap:
  assumes "set cs \<inter> {8, 10} = {}" "length zs + length cs < 15000"
  shows "\<exists>b'. suffix b' b \<and> fold (type_char col) cs (b @ wrap zs) = b' @ wrap (zs @ map (cell col) cs) \<and> (length b \<le> 10 \<and> length zs + length cs < 800 \<longrightarrow> b' = b)"
  using assms
proof (induction cs arbitrary: b zs)
  case (Cons c cs)
  have "length zs div 80 \<le> 15000 div 80" using Cons.prems(2) by (intro div_le_mono) simp
  then have w: "length (wrap zs) \<le> 188" by (simp add: length_wrap)
  have small: "length (b @ wrap zs) < 200" if "length b \<le> 10" using that w by simp
  obtain b1 where b1: "suffix b1 b" "add_cell (cell col c) (b @ wrap zs) = b1 @ wrap (zs @ [cell col c])" "length (b @ wrap zs) < 200 \<longrightarrow> b1 = b"
    using add_cell_wrap [of b zs "cell col c"] w by fastforce
  have "type_char col c (b @ wrap zs) = add_cell (cell col c) (b @ wrap zs)" using Cons.prems(1) by (simp add: type_char_def)
  then have step: "fold (type_char col) (c # cs) (b @ wrap zs) = fold (type_char col) cs (b1 @ wrap (zs @ [cell col c]))" using b1(2) by simp
  obtain b' where b': "suffix b' b1" "fold (type_char col) cs (b1 @ wrap (zs @ [cell col c])) = b' @ wrap ((zs @ [cell col c]) @ map (cell col) cs)"
      "length b1 \<le> 10 \<and> length (zs @ [cell col c]) + length cs < 800 \<longrightarrow> b' = b1"
    using Cons.IH [of "zs @ [cell col c]" b1] Cons.prems by auto
  have "suffix b' b" using b'(1) b1(1) by (rule suffix_order.trans)
  then show ?case using step b'(2,3) b1(3) small by (intro exI [of _ b']) auto
qed auto

text \<open>A new prompt behind what the screen shows.\<close>

lemma nsh_newline_shows:
  assumes "sys_inv im k" "con_text k (b @ wrap l0)" "length l0 < 80"
  shows "\<exists>k' b'. nsh_newline im k = Some k' \<and> sys_inv im k' \<and> line_is im k' [] \<and> color (cur k') = color (cur k)
    \<and> nsh_cmd k' 0 = 0 \<and> nsh_cmdnarg k' = 0 \<and> (tidy k \<longrightarrow> tidy k') \<and> kbd k' = kbd k \<and> data_reads (ports (hw k')) = data_reads (ports (hw k))
    \<and> (\<forall>a. a \<notin> blk (nsh_buf im) NSH_SIZE \<union> blk (kbuf im) 4096 \<longrightarrow> ram k' a = ram k a) \<and> buddy (phys k') = buddy (phys k)
    \<and> (length b \<le> 10 \<longrightarrow> b' = b) \<and> con_text k' (typed_page (color (cur k)) b' (l0 @ prompt_cells (color (cur k))) [])"
proof -
  let ?f = "sb_set_fg 9 (cur k)" and ?p = "bytes ''nsh$ ''" and ?c = "(color (cur k) AND 0xf0) OR 9"
  obtain k' s where k': "nsh_newline im k = Some k'" "sys_inv im k'" "line_is im k' []" "nsh_cmdnarg k' = 0" "\<forall>i < 128. nsh_cmd k' i = 0"
    "tidy k \<longrightarrow> tidy k'" "kbd k' = kbd k" "data_reads (ports (hw k')) = data_reads (ports (hw k))"
    "\<forall>a. a \<notin> blk (nsh_buf im) NSH_SIZE \<union> blk (kbuf im) 4096 \<longrightarrow> ram k' a = ram k a" "buddy (phys k') = buddy (phys k)"
    "sb_puts (dev im) ?p ?f (hw k) = Some (s, hw k')" "cur k' = s\<lparr>color := color (cur k)\<rparr>"
    using nsh_newline_ok [OF assms(1)] by blast
  have f: "has_text ?f (b @ wrap l0)" "synced ?f (hw k)" "color ?f = ?c"
    using assms(2) by (auto simp: con_text_def sb_set_fg_def has_text_def lines_at_def synced_def shows_window_def)
  have p: "set ?p \<inter> {0, 8, 9} = {}" "set ?p \<inter> {8, 10} = {}" "length ?p < 80" by (simp_all add: bytes_def)
  obtain b' where b': "fold (type_char ?c) ?p (b @ wrap l0) = b' @ wrap (l0 @ prompt_cells (color (cur k)))" "length b \<le> 10 \<longrightarrow> b' = b"
    using fold_type_char_wrap [OF p(2), of l0 b ?c] p(3) assms(3) by (auto simp: prompt_cells_def)
  have "has_text s (b' @ wrap (l0 @ prompt_cells (color (cur k))))" "synced s (hw k')"
    using puts_text [OF f(1,2) p(1), of "dev im"] k'(11) b'(1) f(3) by auto
  then have "con_text k' (typed_page (color (cur k)) b' (l0 @ prompt_cells (color (cur k))) [])"
    using k'(12) sys_invD(1) [OF k'(2)] by (auto simp: con_text_def typed_page_def has_text_def lines_at_def synced_def shows_window_def)
  then show ?thesis using k' b'(2) by (intro exI [of _ k'] exI [of _ b']) simp
qed

section \<open>After the start\<close>

definition welcome_cells :: "u16 list" where
  "welcome_cells = map (cell SB_DFL_COLOR) (bytes ''Welcome to nulix-2.0.1'')"

lemma boot_text:
  assumes "boot_ok im sk ek mbi k"
  shows "\<exists>k'. kernel_boot im sk ek mbi k = Some k' \<and> sys_inv im k' \<and> con_text k' [welcome_cells, []] \<and> color (cur k') = SB_DFL_COLOR \<and> tidy k'"
proof -
  let ?w = "bytes ''Welcome to nulix-2.0.1''"
  obtain k' where k': "kernel_boot im sk ek mbi k = Some k'" "sys_inv im k'" "sb_current k' = 0" "shows_window (cur k') (vga (hw k'))"
    "\<forall>i < NBSCREENBUF. \<exists>s v v'. sb_puts (dev im) (bytes ''Welcome to nulix-2.0.1\<newline>'') (sb_init (sb k ! i)) v = Some (s, v')
            \<and> sb k' ! i = s\<lparr>loaded := (i = 0)\<rparr>"
    using booted [OF assms] unfolding Let_def by blast
  have w: "set (?w @ [10]) \<inter> {0, 8, 9} = {}" "set ?w \<inter> {8, 10} = {}" "length ?w < 80" "bytes ''Welcome to nulix-2.0.1\<newline>'' = ?w @ [10]" by (simp_all add: bytes_def)
  have "fold (type_char SB_DFL_COLOR) (?w @ [10]) [[]] = [welcome_cells, []]"
    using fold_type_char_short [OF w(2), of "[]" SB_DFL_COLOR "[]"] w(3) by (simp add: type_char_def new_line_def welcome_cells_def)
  moreover have "color (sb_init s) = SB_DFL_COLOR" for s by (simp add: sb_init_def)
  ultimately have puts: "has_text s [welcome_cells, []]" "color s = SB_DFL_COLOR" if "sb_puts (dev im) (?w @ [10]) (sb_init s0) v = Some (s, v')" for s s0 v v'
    using puts_text [OF init_text w(1), of "dev im" s0 v] that by auto
  have all: "has_text (sb k' ! i) [welcome_cells, []] \<and> color (sb k' ! i) = SB_DFL_COLOR" if i: "i < NBSCREENBUF" for i
  proof -
    obtain s v v' where "sb_puts (dev im) (?w @ [10]) (sb_init (sb k ! i)) v = Some (s, v')" "sb k' ! i = s\<lparr>loaded := (i = 0)\<rparr>"
      using k'(5) i unfolding w(4) by blast
    then show ?thesis using puts [of "sb k ! i" v s v'] by (simp add: has_text_loaded)
  qed
  from this [of 0] have "has_text (cur k') [welcome_cells, []]" "color (cur k') = SB_DFL_COLOR" using k'(3) by (simp_all add: cur_def NBSCREENBUF_def)
  moreover have "tidy k'" using all k'(4) unfolding tidy_def synced_def by blast
  ultimately show ?thesis using k'(1,2,4) sys_invD(1) [OF k'(2)] by (auto simp: con_text_def synced_def)
qed

section \<open>Correctness properties\<close>

text \<open>
  C5: from power on to the characters on the display.  On a machine that boots, let the keyboard controller deliver
  the bytes of any sequence of presses and releases of known keys (shift and caps lock included) that does not contain Enter, the tabulation or a key that
  scrolls.  Then \<^verbatim>\<open>kernel_main\<close> runs to a state at the head of the shell's loop that has taken all of them, the line of the shell is what
  the typed characters and backspaces edit, and the VGA memory shows the welcome line and, below it, the blue prompt and that line, wrapped
  at 80 columns.
\<close>

theorem kernel_session_shows:
  assumes "boot_ok im sk ek mbi k" "\<not> ext (kbd k)" "ps2_delivers (dev im) bs"
    and "drop (data_reads (ports (hw k))) bs = concat (map press_bytes ps) @ rest" "\<forall>p \<in> set ps. press_ok p"
    and "list_all edits (presses ps (KBD_initialize (kbd k)))"
  shows "let xs = fold edit (filter (\<lambda>c. c \<noteq> 0) (map snd (presses ps (KBD_initialize (kbd k))))) []
    in \<exists>evt' k'. kernel_main im sk ek mbi evt k (evt', k') \<and> sys_inv im k' \<and> line_is im k' xs \<and> drop (data_reads (ports (hw k'))) bs = rest
      \<and> displays (vga (hw k')) (welcome_cells # wrap (map (cell 9) (bytes ''nsh$ '') @ map (cell SB_DFL_COLOR) xs))"
proof -
  let ?l = "prompt_cells SB_DFL_COLOR" and ?xs = "fold edit (filter (\<lambda>c. c \<noteq> 0) (map snd (presses ps (KBD_initialize (kbd k))))) []"
  obtain k1 where k1: "kernel_boot im sk ek mbi k = Some k1" "sys_inv im k1" "con_text k1 [welcome_cells, []]" "color (cur k1) = SB_DFL_COLOR"
    using boot_text [OF assms(1)] by blast
  obtain k2 where k2: "nsh_newline im k1 = Some k2" "sys_inv im k2" "line_is im k2 []" "color (cur k2) = SB_DFL_COLOR"
    "con_text k2 (typed_page SB_DFL_COLOR [welcome_cells] ?l [])"
    using nsh_newline_shows [OF k1(2), of "[welcome_cells]" "[]"] k1(3,4) by (auto simp: wrap_short)
  have io: "kbd k2 = KBD_initialize (kbd k)" "data_reads (ports (hw k2)) = data_reads (ports (hw k))"
    using nsh_newline_io [OF k2(1)] kernel_boot_io [OF k1(1)] by simp_all
  have l: "?l \<noteq> []" "length ?l < 90" "?l = map (cell 9) (bytes ''nsh$ '')" by (simp_all add: prompt_cells_def bytes_def SB_DFL_COLOR_def)
  have sh: "shown im SB_DFL_COLOR [welcome_cells] ?l [] k2" using k2 l by (simp add: shown_def)
  have "\<not> ext (kbd k2)" using assms(2) by (simp add: io KBD_initialize_def KBD_setkeymap_def)
  from nsh_run_shows [OF nsh_start [OF k2(1), of evt] sh assms(3) _ assms(5) this] obtain evt' k' where
    "nsh im evt k1 (evt', k')" "shown im SB_DFL_COLOR [welcome_cells] ?l ?xs k'" "drop (data_reads (ports (hw k'))) bs = rest"
    using assms(4,6) by (auto simp: io)
  then show ?thesis unfolding Let_def
    using boot [OF k1(1), of evt "(evt', k')"] con_text_displays by (fastforce simp: shown_def typed_page_def l(3))
qed

lemma demo_boot_dev: "boot_ok (demo_image\<lparr>dev := d\<rparr>) 0x100000 0xC0120000 demo_mbi (demo_kernel (demo_ram (\<lambda>_. 0)))"
  using demo_boot_ok [of "\<lambda>_. 0"] by (simp add: boot_ok_def boot_layout_def layout_ok_def lits_ok_def lit_ok_def lit_area_def Let_def)

lemma demo_ps2_delivers: "ps2_delivers (dev (demo_image\<lparr>dev := demo_ps2 bs\<rparr>)) bs"
  unfolding ps2_delivers_def demo_ps2_def by (simp add: PS2_DATA_PORT_def PS2_STATUS_REGISTER_PORT_def ucast_u16_u8)

text \<open>The demonstration machine with the keys h and i typed on it.\<close>

definition demo_keys :: "press list" where
  "demo_keys = [([], (False, 0x23, KEY_PRESSED)), ([(False, 0x23, KEY_RELEASED)], (False, 0x17, KEY_PRESSED))]"

lemma demo_keys_presses:
  "presses demo_keys (KBD_initialize kbd_st_zero) = [(\<lparr>evt_type = KEY_PRESSED, key = KEY_H\<rparr>, of_char (CHR ''h'')), (\<lparr>evt_type = KEY_PRESSED, key = KEY_I\<rparr>, of_char (CHR ''i''))]"
  "\<forall>p \<in> set demo_keys. press_ok p" "concat (map press_bytes demo_keys) = [0x23, 0xA3, 0x17]"
  by code_simp+

theorem kernel_session_shows_witness:
  "\<exists>evt' k'. kernel_main (demo_image\<lparr>dev := demo_ps2 [0x23, 0xA3, 0x17]\<rparr>) 0x100000 0xC0120000 demo_mbi \<lparr>evt_type = KEY_PRESSED, key = UNKNOWN\<rparr>
      (demo_kernel (demo_ram (\<lambda>_. 0))) (evt', k') \<and> line_is (demo_image\<lparr>dev := demo_ps2 [0x23, 0xA3, 0x17]\<rparr>) k' (bytes ''hi'')
    \<and> displays (vga (hw k')) [welcome_cells, map (cell 9) (bytes ''nsh$ '') @ map (cell SB_DFL_COLOR) (bytes ''hi'')]"
proof -
  let ?bs = "[0x23, 0xA3, 0x17] :: u8 list" and ?k = "demo_kernel (demo_ram (\<lambda>_. 0))"
  let ?im = "demo_image\<lparr>dev := demo_ps2 ?bs\<rparr>"
  have b: "boot_ok ?im 0x100000 0xC0120000 demo_mbi ?k" by (rule demo_boot_dev)
  have k: "kbd ?k = kbd_st_zero" "ports (hw ?k) = []" "\<not> ext kbd_st_zero" by (simp_all add: demo_kernel_def demo_video_def kbd_st_zero_def)
  have d: "ps2_delivers (dev ?im) ?bs" by (rule demo_ps2_delivers)
  have e: "list_all edits (presses demo_keys (KBD_initialize (kbd ?k)))" by (simp add: k(1) demo_keys_presses edits_def)
  have x: "fold edit (filter (\<lambda>c. c \<noteq> 0) (map snd (presses demo_keys (KBD_initialize (kbd ?k))))) [] = bytes ''hi''"
    by (simp add: k(1) demo_keys_presses edit_def bytes_def)
  have w: "wrap (map (cell 9) (bytes ''nsh$ '') @ map (cell SB_DFL_COLOR) (bytes ''hi'')) = [map (cell 9) (bytes ''nsh$ '') @ map (cell SB_DFL_COLOR) (bytes ''hi'')]"
    by (rule wrap_short) (simp add: bytes_def)
  have "drop (data_reads (ports (hw ?k))) ?bs = concat (map press_bytes demo_keys) @ []" by (simp add: k demo_keys_presses)
  from kernel_session_shows [OF b _ d this demo_keys_presses(2) e, of "\<lparr>evt_type = KEY_PRESSED, key = UNKNOWN\<rparr>", unfolded x Let_def w] k show ?thesis by auto
qed

end
