(* ===== verification/Commands.thy ===== *)
theory Commands
  imports Builtins_Correct
begin

text \<open>
  The commands that only print: \<^verbatim>\<open>hexdump\<close>, \<^verbatim>\<open>info\<close> and \<^verbatim>\<open>help\<close>.  They return, keep the kernel's invariant, and change
  nothing but the screen; \<^verbatim>\<open>hexdump\<close> does so exactly when all it is asked to dump is mapped.  The rules \<open>runs\<close> follow the structure of the code.
\<close>

section \<open>Runs that only print\<close>

abbreviation runs :: "image \<Rightarrow> kernel \<Rightarrow> kernel option \<Rightarrow> bool" where
  "runs im \<equiv> con.runs im"

named_theorems runs_rules \<open>introduction rules for runs\<close>

declare con.runs_Some [runs_rules] con.runs_bind [runs_rules] con.runs_if [runs_rules] con.runs_for_each [runs_rules]

lemma runs_recolor [runs_rules]:
  assumes "sys_inv im k"
  shows "runs im k (on_cur (sb_set_fg c) k)" "runs im k (on_cur (sb_set_bg c) k)" "runs im k (on_cur (sb_set_color c) k)"
proof -
  have r: "runs im k (on_cur f k)" if "\<And>s. f s = s\<lparr>color := g s\<rparr>" for f g
    using recolor [OF sys_invD(1) [OF assms] that, of im] sys_inv_scr_step [OF assms] by (auto simp: con.runs_def)
  show "runs im k (on_cur (sb_set_fg c) k)" "runs im k (on_cur (sb_set_bg c) k)" "runs im k (on_cur (sb_set_color c) k)"
    by (rule r, rule recolor_simps)+
qed

text \<open>A call of \<^verbatim>\<open>kprintf\<close> with a format that \<open>expand\<close> covers.\<close>

definition prints :: "string \<Rightarrow> u32 list \<Rightarrow> bool" where
  "prints fmt args \<longleftrightarrow> fmt \<in> set literals \<and> (\<exists>t. expand Map.empty 0 (bytes fmt) args = Some t \<and> printable t)"

lemma runs_kprint [runs_rules]: "sys_inv im k \<Longrightarrow> prints fmt args \<Longrightarrow> runs im k (kprint im fmt args k)"
  using kprint_step [of im k fmt args] sys_inv_scr_step [of im k] by (auto simp: prints_def con.runs_def)

lemma runs_kprints [runs_rules]:
  "sys_inv im k \<Longrightarrow> list_all (\<lambda>(f, args). prints f args) calls \<Longrightarrow> runs im k (kprints im calls k)"
  unfolding kprints_def by (rule con.runs_for_each) (auto simp: list_all_iff intro!: runs_kprint)

section \<open>The formats\<close>

lemmas num_lengths = length_num_text_le [of 16 8 False] length_num_text_le [of 16 4 False] length_num_text_le [of 16 2 False]
  length_num_text_le [of 16 0 False] length_num_text_le [of 10 0 False] length_num_text_le [of 10 0 True]
  length_num_text_le [of 2 0 False] length_num_text_le [of 2 8 False]

lemma prints_plain: "fmt \<in> set literals \<Longrightarrow> 37 \<notin> set (bytes fmt) \<Longrightarrow> printable (bytes fmt) \<Longrightarrow> prints fmt []"
proof -
  assume a: "fmt \<in> set literals" "37 \<notin> set (bytes fmt)" "printable (bytes fmt)"
  have "37 \<notin> set xs \<Longrightarrow> expand Map.empty 0 xs [] = Some xs" for xs :: "u8 list" by (induction xs rule: induct_list012) auto
  then show ?thesis using a by (auto simp: prints_def)
qed

lemma hexdump_formats:
  "prints '' '' []" "prints ''  '' []" "prints ''  |'' []" "prints ''|\<newline>'' []" "prints ''%8p: '' [a]" "prints ''%2x'' [a]"
  "prints ''%c'' [ucast (b :: u8)] \<longleftrightarrow> b \<noteq> 0 \<and> b \<noteq> 8 \<and> b \<noteq> 9"
proof -
  show "prints '' '' []" "prints ''  '' []" "prints ''  |'' []" "prints ''|\<newline>'' []"
    by (rule prints_plain; simp add: literals_def bytes_def printable_def)+
  show "prints ''%8p: '' [a]" "prints ''%2x'' [a]"
    using num_lengths [of a]
    by (simp_all add: prints_def literals_def bytes_def spec_text_def va_arg_def is_pad_def printable_def num_text_ok)
  have "ucast (ucast b :: u32) = b" by (rule bit_word_eqI) (simp add: bit_simps)
  then show "prints ''%c'' [ucast b] \<longleftrightarrow> b \<noteq> 0 \<and> b \<noteq> 8 \<and> b \<noteq> 9"
    by (auto simp: prints_def literals_def bytes_def spec_text_def va_arg_def is_pad_def printable_def)
qed

section \<open>hexdump\<close>

lemma runs_hx_hex:
  assumes "sys_inv im k" "int i < sint nb \<longrightarrow> mapped im (base + of_nat i)"
  shows "runs im k (hx_hex im base nb i k)"
proof (cases "int i < sint nb")
  case True
  then have "load_u8 im k1 (base + of_nat i) = Some (ram k1 (base + of_nat i))" for k1 using assms(2) by (simp add: load_u8_def)
  then show ?thesis using assms(1) True unfolding hx_hex_def by (simp only: bind.bind_lunit) (intro runs_rules hexdump_formats)
next
  case False
  then have "\<not> 0 < sint nb - int i" by simp
  then show ?thesis using assms(1) unfolding hx_hex_def by (simp only: if_False) (intro runs_rules hexdump_formats)
qed

lemma runs_hx_char:
  assumes s: "sys_inv im k" and m: "int i < sint nb \<longrightarrow> mapped im (base + of_nat i)"
  shows "runs im k (hx_char im base nb i k)"
proof -
  define byte where "byte = ram k (base + of_nat i)"
  define c where "c = (if byte = 0 \<or> byte < 32 \<or> byte > 127 then 46 else byte)"
  have c: "c \<noteq> 0 \<and> c \<noteq> 8 \<and> c \<noteq> 9" by (auto simp: c_def)
  have "runs im k (on_cur (sb_set_fg fg) k \<bind> (\<lambda>k1. kprint im ''%c'' [ucast c] k1 \<bind> on_cur (sb_set_fg C_INACTIVE)))" for fg
    using s c by (intro runs_rules) (simp_all add: hexdump_formats)
  moreover have "runs im k (kprint im '' '' [] k)" using s by (intro runs_rules hexdump_formats)
  moreover have "int i < sint nb \<Longrightarrow> load_u8 im k (base + of_nat i) = Some byte" using m by (simp add: load_u8_def byte_def)
  ultimately show ?thesis unfolding hx_char_def Let_def by (auto simp: c_def)
qed

text \<open>The addresses of a line are mapped.\<close>

definition line_mapped :: "image \<Rightarrow> ptr \<Rightarrow> u32 \<Rightarrow> bool" where
  "line_mapped im base nb \<longleftrightarrow> (\<forall>i < 16. int i < sint nb \<longrightarrow> mapped im (base + of_nat i))"

lemma runs_hx_printline: "sys_inv im k \<Longrightarrow> line_mapped im base nb \<Longrightarrow> runs im k (hx_printline im base nb k)"
  unfolding hx_printline_def
  by (intro runs_rules hexdump_formats runs_hx_hex runs_hx_char) (auto simp: line_mapped_def NBYTES_LINE_def)

text \<open>A line with an unmapped address does not come to an end.\<close>

lemma for_each_None: "x \<in> set xs \<Longrightarrow> (\<And>k. f x k = None) \<Longrightarrow> for_each f xs k = None"
proof (induction xs arbitrary: k)
  case (Cons y ys)
  then show ?case by (cases "f y k") auto
qed simp

lemma hx_printline_faults:
  assumes "\<not> line_mapped im base nb"
  shows "hx_printline im base nb k = None"
proof -
  obtain i where i: "i < 16" "int i < sint nb" "\<not> mapped im (base + of_nat i)" using assms by (auto simp: line_mapped_def)
  have "hx_hex im base nb i k = None" for k using i by (simp add: hx_hex_def load_u8_def bind_eq_None_conv)
  then have "for_each (hx_hex im base nb) [0..<unat NBYTES_LINE] k = None" for k
    using i(1) by (intro for_each_None) (simp_all add: NBYTES_LINE_def)
  then show ?thesis by (simp add: hx_printline_def bind_eq_None_conv)
qed

text \<open>The lines of a dump.\<close>

definition range_mapped :: "image \<Rightarrow> ptr \<Rightarrow> u32 \<Rightarrow> bool" where
  "range_mapped im base sz \<longleftrightarrow> (\<forall>a \<in> blk base (unat sz). mapped im a)"

lemma less_sint_small: "unat z < 17 \<Longrightarrow> int i < sint z \<longleftrightarrow> i < unat z" for z :: u32
proof -
  assume "unat z < 17"
  then have "uint z < 17" unfolding uint_nat by linarith
  then have "sint z = uint z" by (simp add: sint_32_cases)
  then have "sint z = int (unat z)" unfolding uint_nat .
  then show ?thesis by (simp only: of_nat_less_iff)
qed

lemma blk_split:
  fixes sz :: u32
  assumes "n \<le> unat sz"
  shows "blk base (unat sz) = blk base n \<union> blk (base + of_nat n) (unat sz - n)"
proof (rule set_eqI)
  fix a
  define d where "d = a - base"
  have u: "unat (of_nat n :: u32) = n" using assms unat_u32_less [of sz] by (intro unat_of_nat_small) simp
  have e: "a - (base + of_nat n) = d - of_nat n" by (simp add: d_def)
  have s: "unat (d - of_nat n) = unat d - n" if "n \<le> unat d"
    using unat_sub_no_wrap [of "of_nat n" d] that unfolding u by blast
  have "unat d < unat sz \<longleftrightarrow> unat d < n \<or> unat (d - of_nat n) < unat sz - n"
  proof (cases "n \<le> unat d")
    case True
    show ?thesis unfolding s [OF True] using True assms by arith
  qed (use assms in arith)
  then show "a \<in> blk base (unat sz) \<longleftrightarrow> a \<in> blk base n \<union> blk (base + of_nat n) (unat sz - n)"
    unfolding Un_iff in_blk_iff e d_def [symmetric] .
qed

lemma line_mapped_blk: "unat nb < 17 \<Longrightarrow> line_mapped im base nb \<longleftrightarrow> range_mapped im base nb"
  unfolding line_mapped_def range_mapped_def using blk_add_of_nat [of _ "unat nb" base] by (auto simp: less_sint_small elim!: in_blkE)

lemma unat_line_bytes: "sz \<ge> NBYTES_LINE \<Longrightarrow> 16 \<le> unat sz \<and> unat (sz - NBYTES_LINE) = unat sz - 16 \<and> unat NBYTES_LINE = 16"
  "\<not> sz \<ge> NBYTES_LINE \<Longrightarrow> unat sz < 16"
  by (simp_all add: NBYTES_LINE_def word_le_nat_alt unat_sub)

lemma range_mapped_step:
  assumes "sz \<ge> NBYTES_LINE"
  shows "range_mapped im base sz \<longleftrightarrow> line_mapped im base NBYTES_LINE \<and> range_mapped im (base + NBYTES_LINE) (sz - NBYTES_LINE)"
proof -
  have u: "16 \<le> unat sz" "unat (sz - NBYTES_LINE) = unat sz - 16" "unat NBYTES_LINE = 16" "NBYTES_LINE = of_nat 16"
    using unat_line_bytes(1) [OF assms] by (simp_all add: NBYTES_LINE_def)
  show ?thesis
    using blk_split [OF u(1), of base] line_mapped_blk [of NBYTES_LINE im base] u by (auto simp: range_mapped_def)
qed

lemma hx_lines_end:
  "hx_lines im base sz k = Some (b, z, k') \<Longrightarrow> unat z < 16 \<and> (range_mapped im b z \<longrightarrow> range_mapped im base sz)"
proof (induction im base sz k rule: hx_lines.induct)
  case (1 im base sz k)
  show ?case
  proof (cases "sz \<ge> NBYTES_LINE")
    case True
    then obtain k1 where k1: "hx_printline im base NBYTES_LINE k = Some k1" "hx_lines im (base + NBYTES_LINE) (sz - NBYTES_LINE) k1 = Some (b, z, k')"
      using 1(2) by (subst (asm) hx_lines.simps) (auto simp: bind_eq_Some_conv)
    have "line_mapped im base NBYTES_LINE" using k1(1) hx_printline_faults [of im base NBYTES_LINE k] by auto
    then show ?thesis using 1(1) [OF True k1] range_mapped_step [OF True] by blast
  next
    case False
    then show ?thesis using 1(2) unat_line_bytes(2) [OF False] by (subst (asm) hx_lines.simps) auto
  qed
qed

lemma hx_lines_runs:
  assumes "sys_inv im k" "range_mapped im base sz"
  shows "\<exists>b z k'. hx_lines im base sz k = Some (b, z, k') \<and> sys_inv im k' \<and> scr_step im k k' \<and> unat z < 16 \<and> range_mapped im b z"
  using assms
proof (induction im base sz k rule: hx_lines.induct)
  case (1 im base sz k)
  show ?case
  proof (cases "sz \<ge> NBYTES_LINE")
    case True
    note m = 1(3) [unfolded range_mapped_step [OF True]]
    obtain k1 where k1: "hx_printline im base NBYTES_LINE k = Some k1" "sys_inv im k1" "scr_step im k k1"
      using runs_hx_printline [OF 1(2) conjunct1 [OF m]] by (auto simp: con.runs_def)
    obtain b z k' where "hx_lines im (base + NBYTES_LINE) (sz - NBYTES_LINE) k1 = Some (b, z, k')" "sys_inv im k'" "scr_step im k1 k'"
        "unat z < 16" "range_mapped im b z"
      using 1(1) [OF True k1(1,2) conjunct2 [OF m]] by blast
    then show ?thesis using True k1 scr_step_trans [OF k1(3)] by (subst hx_lines.simps) auto
  next
    case False
    then show ?thesis using 1(2,3) unat_line_bytes(2) [OF False] by (subst hx_lines.simps) (simp add: scr_step_refl sys_invD)
  qed
qed

lemma hx_print_runs:
  assumes "sys_inv im k" "range_mapped im base sz"
  shows "\<exists>k'. hx_print im base sz k = Some k' \<and> sys_inv im k' \<and> scr_step im k k' \<and> color (cur k') = color (cur k)"
proof -
  have "runs im k (on_cur (sb_set_color SB_DFL_COLOR) k \<bind> on_cur (sb_set_fg C_INACTIVE))" using assms(1) by (intro runs_rules)
  then obtain k1 k2 where k2: "on_cur (sb_set_color SB_DFL_COLOR) k = Some k1" "on_cur (sb_set_fg C_INACTIVE) k1 = Some k2" "sys_inv im k2" "scr_step im k k2"
    by (auto simp: con.runs_def bind_eq_Some_conv)
  obtain b z k3 where k3: "hx_lines im base sz k2 = Some (b, z, k3)" "sys_inv im k3" "scr_step im k2 k3" "unat z < 16" "range_mapped im b z"
    using hx_lines_runs [OF k2(3) assms(2)] by blast
  have "line_mapped im b z" using k3(4,5) line_mapped_blk [of z im b] by simp
  then have "runs im k3 (if z \<noteq> 0 then hx_printline im b z k3 else Some k3)" using k3(2) by (intro runs_rules runs_hx_printline)
  then obtain k4 where k4: "(if z \<noteq> 0 then hx_printline im b z k3 else Some k3) = Some k4" "sys_inv im k4" "scr_step im k3 k4"
    unfolding con.runs_def by blast
  obtain k5 where k5: "on_cur (sb_set_color (color (cur k))) k4 = Some k5" "scr_step im k4 k5" "cur k5 = sb_set_color (color (cur k)) (cur k4)"
    using recolor [OF sys_invD(1) [OF k4(2)], of "sb_set_color (color (cur k))" "\<lambda>_. color (cur k)" im] by (auto simp: recolor_simps)
  have "hx_print im base sz k = Some k5"
    using con_invD(1) [OF sys_invD(1) [OF assms(1)]] k2(1,2) k3(1) k4(1) k5(1) by (simp add: hx_print_def sb_get_color_def)
  moreover have "scr_step im k k5" using k2(4) k3(3) k4(3) k5(2) by (blast intro: scr_step_trans)
  ultimately show ?thesis using sys_inv_scr_step [OF k4(2) k5(2)] k5(3) by (simp add: recolor_simps)
qed

lemma hx_print_faults:
  assumes "\<not> range_mapped im base sz"
  shows "hx_print im base sz k = None"
proof (rule ccontr)
  assume "hx_print im base sz k \<noteq> None"
  then obtain k2 b z k3 k4 where k3: "hx_lines im base sz k2 = Some (b, z, k3)" "(if z \<noteq> 0 then hx_printline im b z k3 else Some k3) = Some k4"
    by (auto simp: hx_print_def bind_eq_Some_conv split: if_splits)
  note e = hx_lines_end [OF k3(1)]
  have "range_mapped im b z"
  proof (cases "z = 0")
    case True
    then show ?thesis by (simp add: range_mapped_def)
  next
    case False
    then have "line_mapped im b z" using k3(2) hx_printline_faults [of im b z k3] by auto
    then show ?thesis using e line_mapped_blk [of z im b] by simp
  qed
  then show False using e assms by blast
qed

section \<open>info\<close>

lemma info_formats:
  "prints ''INFO IDT\<newline>'' []" "prints ''INFO GDT\<newline>'' []" "prints ''INFO STACK\<newline>'' []" "prints ''INFO BUDDY\<newline>'' []" "prints ''\<newline>'' []"
  "prints ''BASE LOW    BASE MID    BASE HIGH   LIMIT LOW   GRAN        ACC\<newline>'' []" "prints ''Base:  %8p | Limit: %8p\<newline>'' [a, b]"
  "prints ''Size = %u bytes\<newline>'' [a]" "prints ''Size = %d bytes\<newline>'' [a]" "prints ''Top:   %8p | Bottom : %8p\<newline>'' [a, b]"
  "prints ''%4p      '' [a]" "prints ''\<newline>%4x  '' [a]" "prints ''order %u(size of %u)\<newline>'' [a, b]" "prints ''buddy address:        %p\<newline>'' [a]"
  "prints ''buddy size:           %u KB\<newline>'' [a]" "prints ''orders address:       %p\<newline>'' [a]" "prints ''frame number:         %x\<newline>'' [a]"
  "prints ''memory size:          %u KB\<newline>'' [a]" "prints ''info: order number not formatted correctly\<newline>'' []"
proof -
  note simps = prints_def literals_def bytes_def spec_text_def va_arg_def is_pad_def printable_def num_text_ok
  show "prints ''INFO IDT\<newline>'' []" "prints ''INFO GDT\<newline>'' []" "prints ''INFO STACK\<newline>'' []" "prints ''INFO BUDDY\<newline>'' []" "prints ''\<newline>'' []"
    "prints ''BASE LOW    BASE MID    BASE HIGH   LIMIT LOW   GRAN        ACC\<newline>'' []" "prints ''info: order number not formatted correctly\<newline>'' []"
    by (rule prints_plain; simp add: literals_def bytes_def printable_def)+
  show "prints ''Base:  %8p | Limit: %8p\<newline>'' [a, b]" "prints ''Top:   %8p | Bottom : %8p\<newline>'' [a, b]" "prints ''order %u(size of %u)\<newline>'' [a, b]"
    using num_lengths [of a] num_lengths [of b] by (simp_all add: simps)
  show "prints ''Size = %u bytes\<newline>'' [a]" "prints ''Size = %d bytes\<newline>'' [a]"
    "prints ''%4p      '' [a]" "prints ''\<newline>%4x  '' [a]" "prints ''buddy address:        %p\<newline>'' [a]"
    "prints ''buddy size:           %u KB\<newline>'' [a]" "prints ''orders address:       %p\<newline>'' [a]" "prints ''frame number:         %x\<newline>'' [a]"
    "prints ''memory size:          %u KB\<newline>'' [a]"
    using num_lengths [of a] by (simp_all add: simps)
qed

lemma register_formats:
  "list_all (\<lambda>f. prints f [a]) [''eax : %8p\<newline>'', ''ebx : %8p\<newline>'', ''ecx : %8p\<newline>'', ''edx : %8p\<newline>'', ''cs : %8p\<newline>'', ''ds : %8p\<newline>'',
     ''es : %8p\<newline>'', ''gs : %8p\<newline>'', ''ss : %8p\<newline>'', ''esi : %8p\<newline>'', ''edi : %8p\<newline>'', ''ebp : %8p\<newline>'', ''eip : %8p\<newline>'',
     ''esp : %8p\<newline>'', ''eflags : %b\<newline>'', ''cr0 : %8b\<newline>'', ''cr3 : %8p\<newline>'']"
  using num_lengths [of a]
  by (simp add: prints_def bytes_def spec_text_def va_arg_def is_pad_def printable_def num_text_ok) (simp add: literals_def)

lemma runs_info_registers: "sys_inv im k \<Longrightarrow> runs im k (info_registers im k)"
  unfolding info_registers_def by (rule runs_kprints) (use register_formats in simp_all)

lemma runs_info_idt: "sys_inv im k \<Longrightarrow> runs im k (info_idt im k)"
  unfolding info_idt_def by (intro runs_rules info_formats)

lemma runs_info_stack: "sys_inv im k \<Longrightarrow> runs im k (info_stack im k)"
  unfolding info_stack_def by (intro runs_rules info_formats)

lemma runs_info_gdt: "sys_inv im k \<Longrightarrow> runs im k (info_gdt im k)"
  unfolding info_gdt_def info_gdt_entry_def Let_def by (intro runs_rules info_formats)

lemma runs_info_buddy: "sys_inv im k \<Longrightarrow> runs im k (info_buddy im i k)"
proof -
  have byte: "runs im k (info_buddy_byte im c i j k)" if "sys_inv im k" for k c i j
    unfolding info_buddy_byte_def Let_def using that by (intro runs_rules info_formats hexdump_formats)
  have ord: "runs im k (info_buddy_print_order im i k)" if "sys_inv im k" for k i
  proof -
    have "cur_ok k" by (rule con_invD [OF sys_invD(1) [OF that]])
    then show ?thesis unfolding info_buddy_print_order_def Let_def
      using that by (simp only: if_True) (intro runs_rules info_formats byte)
  qed
  assume "sys_inv im k"
  then show ?thesis unfolding info_buddy_def
    by (intro runs_rules ord) (simp_all add: info_formats)
qed

lemma runs_quote:
  assumes "sys_inv im k" "word_arg im k p w" "9 \<notin> set w"
  shows "runs im k (kprint im ''info: '%s' doesn't exist.\<newline>'' [p] k)"
proof -
  have "''info: '%s' doesn't exist.\<newline>'' \<in> set literals" by (simp add: literals_def)
  from quote_says [OF assms(1) this assms(2), of "bytes ''info: '' @ [39]" "[39] @ bytes '' doesn't exist.\<newline>''"]
  obtain k' where "kprint im ''info: '%s' doesn't exist.\<newline>'' [p] k = Some k'" "scr_step im k k'"
    using assms(3) by (auto simp: bytes_def printable_def)
  then show ?thesis using sys_inv_scr_step [OF assms(1)] by (auto simp: con.runs_def)
qed

section \<open>help\<close>

text \<open>The literals as strings that \<^verbatim>\<open>%s\<close> may print.\<close>

definition lit_strs :: "image \<Rightarrow> ptr \<rightharpoonup> u8 list" where
  "lit_strs im = map_of (map (\<lambda>s. (lit im s, bytes s)) literals)"

lemma lit_strs_ok:
  assumes "sys_inv im k"
  shows "strs_ok (lit_strs im) (ram k) (kbuf im) 4096" "s \<in> set literals \<Longrightarrow> lit_strs im (lit im s) = Some (bytes s)"
proof -
  have ok: "lit_ok im (ram k) s" if "s \<in> set literals" for s by (rule lits_okD [OF sys_invD(2) [OF assms] that])
  have D: "\<exists>s \<in> set literals. p = lit im s \<and> xs = bytes s" if "lit_strs im p = Some xs" for p xs
    using map_of_SomeD [OF that [unfolded lit_strs_def]] by auto
  show "strs_ok (lit_strs im) (ram k) (kbuf im) 4096"
    unfolding strs_ok_def
  proof (intro allI impI)
    fix p xs assume "lit_strs im p = Some xs"
    from D [OF this] obtain s where "s \<in> set literals" "p = lit im s" "xs = bytes s" by blast
    then show "cstr (ram k) p xs \<and> length xs < 4294967295 \<and> blk p (Suc (length xs)) \<inter> blk (kbuf im) (unat (4096 :: u32)) = {}"
      using ok [of s] by (simp add: lit_ok_def bytes_def)
  qed
  show "lit_strs im (lit im s) = Some (bytes s)" if s: "s \<in> set literals"
  proof -
    have "lit_strs im (lit im s) \<noteq> None" unfolding lit_strs_def map_of_eq_None_iff using s by (auto simp: image_image)
    then obtain xs where x: "lit_strs im (lit im s) = Some xs" by blast
    from D [OF x] obtain s' where s': "s' \<in> set literals" "lit im s = lit im s'" "xs = bytes s'" by blast
    have "cstr (ram k) (lit im s) (bytes s)" "cstr (ram k) (lit im s) xs"
      using ok [OF s] ok [OF s'(1)] unfolding lit_ok_def s'(2,3) by blast+
    then have "xs = bytes s" by (rule cstr_unique [symmetric])
    then show ?thesis using x by simp
  qed
qed

definition help_line :: "string \<times> string \<Rightarrow> u8 list" where
  "help_line e = bytes ''-> '' @ bytes (fst e) @ bytes '': '' @ bytes (snd e) @ [10]"

lemma help_table:
  "list_all (\<lambda>e. fst e \<in> set literals \<and> snd e \<in> set literals \<and> printable (help_line e)) builtin_help"
  unfolding builtin_help_def list.pred_inject
  by (intro conjI TrueI) (simp_all add: literals_def help_line_def printable_def bytes_def)

lemma help_expand:
  assumes "strs p = Some xs" "strs q = Some ys"
  shows "expand strs 0 (bytes ''-> %s: %s\<newline>'') [p, q] = Some (bytes ''-> '' @ xs @ bytes '': '' @ ys @ [10])"
  using assms by (simp add: bytes_def spec_text_def va_arg_def is_pad_def)

lemma help_line_says:
  assumes "e \<in> set builtin_help" "sys_inv im k"
  shows "\<exists>k'. kprint im ''-> %s: %s\<newline>'' [lit im (fst e), lit im (snd e)] k = Some k' \<and> says im k (help_line e) k' \<and> scr_step im k k'"
proof -
  have e: "fst e \<in> set literals" "snd e \<in> set literals" "printable (help_line e)" using help_table assms(1) by (auto simp: list_all_iff)
  have "''-> %s: %s\<newline>'' \<in> set literals" by (simp add: literals_def)
  then show ?thesis
    using kprint_sys [OF assms(2) _ lit_strs_ok(1) [OF assms(2)] help_expand [OF lit_strs_ok(2) [OF assms(2) e(1)] lit_strs_ok(2) [OF assms(2) e(2)]]] e(3)
    unfolding help_line_def by blast
qed

lemma help_lines_say:
  assumes "set es \<subseteq> set builtin_help" "sys_inv im k"
  shows "\<exists>k'. for_each (\<lambda>(name, description). kprint im ''-> %s: %s\<newline>'' [lit im name, lit im description]) es k = Some k'
    \<and> says im k (concat (map help_line es)) k' \<and> scr_step im k k'"
  using assms
proof (induction es arbitrary: k)
  case Nil
  then show ?case by (simp add: says_refl scr_step_refl sys_invD)
next
  case (Cons e es)
  obtain k1 where k1: "kprint im ''-> %s: %s\<newline>'' [lit im (fst e), lit im (snd e)] k = Some k1" "says im k (help_line e) k1" "scr_step im k k1"
    using help_line_says [of e im k] Cons.prems by auto
  then have "sys_inv im k1" using sys_inv_says [OF Cons.prems(2)] by blast
  then show ?case using Cons.IH [of k1] Cons.prems(1) k1(1) says_trans [OF k1(2)] scr_step_trans [OF k1(3)] by (auto simp: split_def)
qed

lemma help_says:
  assumes "sys_inv im k"
  shows "\<exists>k'. blt_help im k = Some (0, k')
    \<and> says im k (bytes ''KFS - available commands:\<newline>'' @ concat (map help_line builtin_help)) k' \<and> scr_step im k k'"
proof -
  let ?t = "''KFS - available commands:\<newline>''"
  have "?t \<in> set literals" "expand Map.empty 0 (bytes ?t) [] = Some (bytes ?t)" "printable (bytes ?t)"
    by (simp_all add: literals_def) (simp_all add: bytes_def printable_def)
  then obtain k1 where k1: "kprint im ?t [] k = Some k1" "says im k (bytes ?t) k1" "scr_step im k k1" using kprint_sys [OF assms _ strs_ok_empty] by blast
  then have "sys_inv im k1" using sys_inv_says [OF assms] by blast
  from help_lines_say [OF subset_refl this] k1 says_trans [OF k1(2)] scr_step_trans [OF k1(3)] show ?thesis by (auto simp: blt_help_def)
qed

section \<open>Correctness properties\<close>

text \<open>
  \<^verbatim>\<open>help\<close> prints its title and then one line for every command of the table, with its name and description, in the order of
  the table, and returns 0.
\<close>

theorem blt_help_correct:
  assumes "sys_inv im k"
  shows "\<exists>k'. blt_help im k = Some (0, k')
    \<and> says im k (bytes ''KFS - available commands:\<newline>'' @ concat (map help_line builtin_help)) k'"
  using help_says [OF assms] by blast

theorem blt_help_correct_witness: "\<exists>k'. blt_help demo_image (demo_sys (\<lambda>_. 0)) = Some (0, k') \<and> con_inv k'"
  using blt_help_correct [OF demo_sys_inv, of "\<lambda>_. 0"] by (auto simp: says_def)

text \<open>
  \<^verbatim>\<open>hexdump\<close> of two numbers, an address and a size, which \<^verbatim>\<open>strtoul\<close> clamps to \<^verbatim>\<open>ULONG_MAX\<close>.  If all the bytes it is asked for are mapped it returns 0, keeps
  the kernel's invariant, changes nothing but the screen, and restores the colour; if one is not, the page fault ends it, and it never returns.
\<close>

theorem blt_hexdump_correct:
  assumes "sys_inv im k" "3 \<le> argc" "num_arg (ram k) (argv 1) a" "num_arg (ram k) (argv 2) z"
  shows "if range_mapped im (of_nat (ulong_clamp a)) (of_nat (ulong_clamp z))
    then \<exists>k'. blt_hexdump im argc argv k = Some (0, k') \<and> sys_inv im k' \<and> scr_step im k k' \<and> color (cur k') = color (cur k)
    else blt_hexdump im argc argv k = None"
proof -
  let ?a = "of_nat (ulong_clamp a) :: u32" and ?z = "of_nat (ulong_clamp z) :: u32"
  obtain q where q: "strtoul (ram k) (argv 1) 0 = Some (?a, q)" "ram k q = 0" using strto_num_arg(2) [OF assms(3)] by blast
  obtain q' where q': "strtoul (ram k) (argv 2) 0 = Some (?z, q')" "ram k q' = 0" using strto_num_arg(2) [OF assms(4)] by blast
  have "blt_hexdump im argc argv k = map_option (Pair 0) (hx_print im ?a ?z k)"
    using assms(2) q q' by (cases "hx_print im ?a ?z k") (simp_all add: blt_hexdump_def)
  then show ?thesis using hx_print_runs [OF assms(1), of ?a ?z] hx_print_faults [of im ?a ?z k] by (cases "range_mapped im ?a ?z") auto
qed

theorem blt_hexdump_correct_witness:
  "\<exists>k'. blt_hexdump demo_image 3 (\<lambda>i. if i = 1 then 0x8010 else 0x8000) (demo_sys demo_args) = Some (0, k') \<and> sys_inv demo_image k'"
proof -
  have "boot_mapped x" if "x \<in> blk 0x1000 5000" for x
  proof -
    obtain j where "j < 5000" "x = 0x1000 + of_nat j" using \<open>x \<in> blk 0x1000 5000\<close> by (rule in_blkE)
    then have "unat x < 0x400000" using unat_add_of_nat [of "0x1000" j] by simp
    then show ?thesis by (simp add: boot_mapped_def word_less_nat_alt)
  qed
  then have "range_mapped demo_image (of_nat (ulong_clamp 0x1000)) (of_nat (ulong_clamp 5000))"
    by (simp add: range_mapped_def ulong_clamp_def demo_image_def)
  then show ?thesis
    using blt_hexdump_correct [where im = demo_image and k = "demo_sys demo_args" and argc = 3 and argv = "\<lambda>i. if i = 1 then 0x8010 else 0x8000"
        and a = "0x1000" and z = 5000] demo_sys_inv demo_arg_4096 demo_arg_5000 by auto
qed

text \<open>\<^verbatim>\<open>info\<close> as a choice on its first argument.\<close>

abbreviation ret :: "int \<Rightarrow> kernel option \<Rightarrow> (int \<times> kernel) option" where
  "ret x r \<equiv> r \<bind> (\<lambda>k1. Some (x, k1))"

lemma blt_info_choice:
  assumes "sys_inv im k" "2 \<le> argc" "word_arg im k (argv 1) w" "2 < argc \<longrightarrow> num_arg (ram k) (argv 2) n"
  shows "blt_info im argc argv k =
    (if w = bytes ''gdt'' then ret 0 (info_gdt im k)
     else if w = bytes ''stack'' then ret 0 (info_stack im k)
     else if w = bytes ''buddy'' then
       (if 2 < argc then
          (if 11 \<le> n then ret (-1) (kprint im ''info: order number not formatted correctly\<newline>'' [] k) else ret 0 (info_buddy im (int n) k))
        else ret 0 (info_buddy im (-1) k))
     else if w = bytes ''idt'' then ret 0 (info_idt im k)
     else if w = bytes ''registers'' then ret 0 (info_registers im k)
     else ret (-1) (kprint im ''info: '%s' doesn't exist.\<newline>'' [argv 1] k))"
proof -
  have c: "cstr (ram k) (argv 1) w" using assms(3) by (simp add: word_arg_def)
  have lits: "''gdt'' \<in> set literals" "''stack'' \<in> set literals" "''buddy'' \<in> set literals" "''idt'' \<in> set literals" "''registers'' \<in> set literals"
    by (simp_all add: literals_def)
  note cmp = lits [THEN strcmp_lit(1) [OF assms(1) _ c]]
  obtain g s b i r where cmps: "strcmp (ram k) (argv 1) (lit im ''gdt'') = Some g" "g = 0 \<longleftrightarrow> w = bytes ''gdt''"
      "strcmp (ram k) (argv 1) (lit im ''stack'') = Some s" "s = 0 \<longleftrightarrow> w = bytes ''stack''"
      "strcmp (ram k) (argv 1) (lit im ''buddy'') = Some b" "b = 0 \<longleftrightarrow> w = bytes ''buddy''"
      "strcmp (ram k) (argv 1) (lit im ''idt'') = Some i" "i = 0 \<longleftrightarrow> w = bytes ''idt''"
      "strcmp (ram k) (argv 1) (lit im ''registers'') = Some r" "r = 0 \<longleftrightarrow> w = bytes ''registers''"
    using cmp by metis
  have num: "\<exists>q. strtol (ram k) (argv 2) 0 = Some (of_nat (long_clamp n), q) \<and> ram k q = 0" if "2 < argc"
    using strto_num_arg(1) assms(4) that by blast
  have n: "11 \<le> long_clamp n \<longleftrightarrow> 11 \<le> n" "n < 11 \<Longrightarrow> long_clamp n = n" by (auto simp: long_clamp_def)
  show ?thesis
  proof (cases "2 < argc")
    case True
    then obtain q where "strtol (ram k) (argv 2) 0 = Some (of_nat (long_clamp n), q)" "ram k q = 0" using num by blast
    then show ?thesis using assms(2) True n long_clamp_word(3) [of n] by (cases "11 \<le> n") (simp_all add: blt_info_def cmps KPM_NORDERS_def cong: if_cong del: One_nat_def split del: if_split)
  next
    case False
    then show ?thesis using assms(2) by (simp add: blt_info_def cmps cong: if_cong del: One_nat_def split del: if_split)
  qed
qed

text \<open>
  \<^verbatim>\<open>info\<close> returns for every word it is given, keeps the kernel's invariant and changes nothing but the screen.  It returns 0 exactly on
  the five names it knows, and with \<^verbatim>\<open>buddy\<close> and a number, on the orders 0 to 10.
\<close>

theorem blt_info_correct:
  assumes "sys_inv im k" "2 \<le> argc" "word_arg im k (argv 1) w" "2 < argc \<longrightarrow> num_arg (ram k) (argv 2) n" "9 \<notin> set w"
  shows "\<exists>r k'. blt_info im argc argv k = Some (r, k') \<and> sys_inv im k' \<and> scr_step im k k'
    \<and> (r = 0 \<longleftrightarrow> w \<in> bytes ` {''gdt'', ''stack'', ''buddy'', ''idt'', ''registers''} \<and> (w = bytes ''buddy'' \<and> 2 < argc \<longrightarrow> n < 11))"
proof -
  have run: "\<exists>r' k'. ret x R = Some (r', k') \<and> sys_inv im k' \<and> scr_step im k k' \<and> r' = x" if "runs im k R" for R x
    using that by (auto simp: con.runs_def)
  note runs = runs_info_gdt runs_info_stack runs_info_idt runs_info_registers runs_info_buddy runs_kprint [OF _ info_formats(19)]
  note ch = blt_info_choice [OF assms(1-4)]
  note r = runs [OF assms(1), THEN run] runs_quote [OF assms(1,3,5), THEN run]
  consider "w = bytes ''gdt''" | "w = bytes ''stack''" | "w = bytes ''buddy''" "2 < argc" "n < 11" | "w = bytes ''buddy''" "2 < argc" "11 \<le> n"
    | "w = bytes ''buddy''" "argc \<le> 2" | "w = bytes ''idt''" | "w = bytes ''registers''"
    | "w \<notin> bytes ` {''gdt'', ''stack'', ''buddy'', ''idt'', ''registers''}" by (cases "2 < argc"; cases "n < 11") auto
  then show ?thesis
  proof cases
    case 1 then show ?thesis using r(1) [of 0] unfolding ch by (simp add: bytes_def)
  next
    case 2 then show ?thesis using r(2) [of 0] unfolding ch by (simp add: bytes_def)
  next
    case 3 then show ?thesis using r(5) [of "int n" 0] unfolding ch by (simp add: bytes_def)
  next
    case 4 then show ?thesis using r(6) [of "-1"] unfolding ch by (auto simp: bytes_def)
  next
    case 5 then show ?thesis using r(5) [of "-1" 0] unfolding ch by (simp add: bytes_def)
  next
    case 6 then show ?thesis using r(3) [of 0] unfolding ch by (simp add: bytes_def)
  next
    case 7 then show ?thesis using r(4) [of 0] unfolding ch by (simp add: bytes_def)
  next
    case 8 then show ?thesis using r(7) [of "-1"] unfolding ch by auto
  qed
qed

theorem blt_info_correct_witness:
  "\<exists>r k'. blt_info demo_image 2 (\<lambda>_. 0x8020) (demo_sys demo_words) = Some (r, k') \<and> sys_inv demo_image k' \<and> r \<noteq> 0"
proof -
  have "bytes ''us'' \<notin> bytes ` {''gdt'', ''stack'', ''buddy'', ''idt'', ''registers''}" by (simp add: bytes_def)
  then show ?thesis
    using blt_info_correct [where im = demo_image and k = "demo_sys demo_words" and argc = 2 and argv = "\<lambda>_. 0x8020" and w = "bytes ''us''"]
      demo_sys_inv demo_word_args(3) by (auto simp: bytes_def)
qed

end
