(* ===== verification/Nsh_Returns.thy ===== *)
theory Nsh_Returns
  imports Nsh_Command Commands
begin

text \<open>
  The commands of the shell on arguments of any form: whatever words the line holds, each command but \<^verbatim>\<open>free\<close> and those that halt or raise an interrupt
  returns, keeps the kernel's invariant, and leaves the screens tidy.  The rules \<open>returns_rules\<close> follow the structure of the code, so
  that the proof for a command is its definition and the formats it prints.
\<close>

section \<open>What a command leaves alone\<close>

text \<open>
  A step of a command keeps the pending bytes of the keyboard controller, the structure of the buddy allocator, and all memory but the buffer of
  \<^verbatim>\<open>kprintf\<close> and the bitmaps, and leaves tidy screens tidy.
\<close>

definition cmd_step :: "image \<Rightarrow> kernel \<Rightarrow> kernel \<Rightarrow> bool" where
  "cmd_step im k k' \<longleftrightarrow> (\<forall>a. a \<notin> blk (kbuf im) 4096 \<union> kpm_tables (buddy (phys k)) \<longrightarrow> ram k' a = ram k a)
     \<and> buddy (phys k') = buddy (phys k) \<and> data_reads (ports (hw k')) = data_reads (ports (hw k)) \<and> (tidy k \<longrightarrow> tidy k')"

lemma keeps_cmd_step: "keeps im k k' \<Longrightarrow> cmd_step im k k' \<and> kbd k' = kbd k"
  by (simp add: keeps_def cmd_step_def)

lemma scr_cmd_step: "scr_step im k k' \<Longrightarrow> cmd_step im k k' \<and> kbd k' = kbd k"
  by (intro keeps_cmd_step keeps_scr)

text \<open>A command that returns, with the invariant kept and the keyboard driver in the state \<open>st\<close>.\<close>

definition returns :: "image \<Rightarrow> kernel \<Rightarrow> kbd_state \<Rightarrow> (int \<times> kernel) option \<Rightarrow> bool" where
  "returns im k st R \<longleftrightarrow> (\<exists>r k'. R = Some (r, k') \<and> sys_inv im k' \<and> cmd_step im k k' \<and> kbd k' = st)"

named_theorems returns_rules \<open>introduction rules for commands that return\<close>

lemma returns_runs [returns_rules]: "runs im k R \<Longrightarrow> returns im k (kbd k) (ret x R)"
  using scr_cmd_step by (auto simp: con.runs_def returns_def)

lemma returns_if [returns_rules]: "(b \<Longrightarrow> returns im k st x) \<Longrightarrow> (\<not> b \<Longrightarrow> returns im k st y) \<Longrightarrow> returns im k st (if b then x else y)"
  by simp

text \<open>The arguments of a command are words.\<close>

definition args_ok :: "image \<Rightarrow> kernel \<Rightarrow> int \<Rightarrow> (nat \<Rightarrow> ptr) \<Rightarrow> bool" where
  "args_ok im k argc argv \<longleftrightarrow> (\<forall>i. int i < argc \<longrightarrow> (\<exists>w. word_arg im k (argv i) w \<and> 9 \<notin> set w))"

lemma args_okD:
  assumes "args_ok im k argc argv" "int i < argc"
  obtains w where "word_arg im k (argv i) w" "9 \<notin> set w"
  using assms by (auto simp: args_ok_def)

lemma returns_strto [returns_rules]:
  assumes "args_ok im k argc argv" "int i < argc" "\<And>v p. returns im k st (f v p)"
  shows "returns im k st (strtol (ram k) (argv i) 0 \<bind> (\<lambda>(v, p). f v p))" "returns im k st (strtoul (ram k) (argv i) 0 \<bind> (\<lambda>(v, p). f v p))"
proof -
  obtain w where "cstr (ram k) (argv i) w" using args_okD [OF assms(1,2)] by (auto simp: word_arg_def)
  from strto_total [OF this, of 0, where 'a = 32] obtain v p v' p' where
    "strtol (ram k) (argv i) 0 = Some (v, p)" "strtoul (ram k) (argv i) 0 = Some (v', p')" unfolding strtol_def strtoul_def by blast
  then show "returns im k st (strtol (ram k) (argv i) 0 \<bind> (\<lambda>(v, p). f v p))" "returns im k st (strtoul (ram k) (argv i) 0 \<bind> (\<lambda>(v, p). f v p))"
    using assms(3) by simp_all
qed

lemma returns_strcmp [returns_rules]:
  assumes "args_ok im k argc argv" "int i < argc" "sys_inv im k" "s \<in> set literals" "\<And>r. returns im k st (f r)"
  shows "returns im k st (strcmp (ram k) (argv i) (lit im s) \<bind> f)"
proof -
  obtain w where "cstr (ram k) (argv i) w" using args_okD [OF assms(1,2)] by (auto simp: word_arg_def)
  from strcmp_lit(1) [OF assms(3,4) this] show ?thesis using assms(5) by auto
qed

lemma runs_quoted:
  assumes "sys_inv im k" "args_ok im k argc argv" "int i < argc" "fmt \<in> set literals" "bytes fmt = us @ [37, 115] @ vs"
    and "printable us" "printable vs" "length us + length vs < 90" "37 \<notin> set us" "37 \<notin> set vs"
  shows "runs im k (kprint im fmt [argv i] k)"
proof -
  obtain w where w: "word_arg im k (argv i) w" "9 \<notin> set w" using args_okD [OF assms(2,3)] .
  obtain k' where "kprint im fmt [argv i] k = Some k'" "scr_step im k k'"
    using quote_says [OF assms(1,4) w(1) assms(5-10)] w(2) by blast
  then show ?thesis using sys_inv_scr_step [OF assms(1)] by (auto simp: con.runs_def)
qed

section \<open>Every command returns\<close>

lemma command_formats:
  "prints ''Usage: alloc size\<newline>'' []" "prints ''alloc: Size not well formatted.\<newline>'' []" "prints ''Usage: color fg/bg COLOR\<newline>'' []"
  "prints ''       color reset\<newline>'' []" "prints ''Usage: keymap LAYOUT\<newline>'' []" "prints ''       keymap list\<newline>'' []" "prints ''Layout:\<newline>'' []"
  "prints ''Usage: hexdump address size\<newline>'' []" "prints ''hexdump: Address not well formated.\<newline>'' []" "prints ''hexdump: Size not well formated.\<newline>'' []"
  "prints ''Usage: info [gdt/idt/stack/buddy/registers]\<newline>'' []"
  by (rule prints_plain; simp add: literals_def bytes_def printable_def)+

text \<open>
  The one command that reads where it is told to: \<^verbatim>\<open>hexdump\<close> comes back exactly when all the bytes it is asked for are mapped (or its arguments are
  refused before it reads any).
\<close>

definition hexdump_mapped :: "image \<Rightarrow> kernel \<Rightarrow> int \<Rightarrow> (nat \<Rightarrow> ptr) \<Rightarrow> bool" where
  "hexdump_mapped im k argc argv \<longleftrightarrow> (3 \<le> argc \<longrightarrow>
     (\<forall>a p z q. strtoul (ram k) (argv 1) 0 = Some (a, p) \<and> ram k p = 0 \<and> strtoul (ram k) (argv 2) 0 = Some (z, q) \<and> ram k q = 0
        \<longrightarrow> range_mapped im a z))"

lemma args_strtoul:
  assumes "args_ok im k argc argv" "int i < argc"
  obtains v p where "strtoul (ram k) (argv i) 0 = Some (v, p)"
proof -
  obtain w where "cstr (ram k) (argv i) w" using args_okD [OF assms] by (auto simp: word_arg_def)
  from strto_total(2) [OF this, of 0, where 'a = 32] show ?thesis using that unfolding strtoul_def by blast
qed

lemma hexdump_returns:
  assumes "sys_inv im k" "args_ok im k argc argv" "hexdump_mapped im k argc argv"
  shows "returns im k (kbd k) (blt_hexdump im argc argv k)"
proof (cases "argc < 3")
  case True
  then show ?thesis using assms(1) unfolding blt_hexdump_def usage_hexdump_def
    by (simp only: if_True) (intro returns_rules runs_rules command_formats)
next
  case False
  obtain a p where a: "strtoul (ram k) (argv 1) 0 = Some (a, p)" using args_strtoul [OF assms(2), of 1] False by auto
  obtain z q where z: "strtoul (ram k) (argv 2) 0 = Some (z, q)" using args_strtoul [OF assms(2), of 2] False by auto
  have "range_mapped im a z" if "ram k p = 0" "ram k q = 0" using assms(3) False a z that by (auto simp: hexdump_mapped_def)
  then have "runs im k (hx_print im a z k)" if "ram k p = 0" "ram k q = 0"
    using hx_print_runs [OF assms(1), of a z] that by (auto simp: con.runs_def)
  then show ?thesis using assms(1) False unfolding blt_hexdump_def a
    by (simp only: if_False bind.bind_lunit case_prod_conv z) (intro returns_rules runs_rules command_formats; simp)
qed

lemma hexdump_faults:
  assumes "\<not> hexdump_mapped im k argc argv"
  shows "blt_hexdump im argc argv k = None"
  using assms hx_print_faults by (auto simp: hexdump_mapped_def blt_hexdump_def)

lemma set_color_returns:
  assumes "sys_inv im k" "args_ok im k argc argv" "int i < argc" "\<And>c. runs im k (on_cur (f c) k)"
  shows "returns im k (kbd k) (set_color_named im f (argv i) k)"
proof -
  obtain w where w: "cstr (ram k) (argv i) w" using args_okD [OF assms(2,3)] by (auto simp: word_arg_def)
  have "''color: '%s' unknown color.\<newline>'' \<in> set literals" by (simp add: literals_def)
  from runs_quoted [OF assms(1-3) this, of "bytes ''color: '' @ [39]" "[39] @ bytes '' unknown color.\<newline>''"]
  have q: "runs im k (kprint im ''color: '%s' unknown color.\<newline>'' [argv i] k)" by (simp add: bytes_def printable_def)
  from find_name_ok [OF assms(1) lit_lists(1) w, of 0] obtain n where "find_name im (ram k) colors 0 (argv i) = Some n" by blast
  moreover have "returns im k (kbd k) (ret 0 (on_cur (f c) k))" for c by (rule returns_runs [OF assms(4)])
  ultimately show ?thesis using returns_runs [OF q, of "-1"] by (cases n) (simp_all add: set_color_named_def)
qed

lemma color_returns:
  assumes "sys_inv im k" "args_ok im k argc argv"
  shows "returns im k (kbd k) (blt_color im argc argv k)"
proof -
  have q: "runs im k (kprint im ''color: '%s' unknown command.\<newline>'' [argv 1] k)" if "\<not> argc < 2"
    using runs_quoted [OF assms, of 1 "''color: '%s' unknown command.\<newline>''" "bytes ''color: '' @ [39]" "[39] @ bytes '' unknown command.\<newline>''"] that
    by (simp add: bytes_def printable_def literals_def)
  have lits: "''reset'' \<in> set literals" "''fg'' \<in> set literals" "''bg'' \<in> set literals" using lit_lists(3) by simp_all
  show ?thesis unfolding blt_color_def usage_color_def using assms
    by (intro q returns_rules runs_rules command_formats set_color_returns lits) auto
qed

lemma info_returns:
  assumes "sys_inv im k" "args_ok im k argc argv"
  shows "returns im k (kbd k) (blt_info im argc argv k)"
proof -
  have q: "runs im k (kprint im ''info: '%s' doesn't exist.\<newline>'' [argv 1] k)" if "\<not> argc < 2"
    using runs_quoted [OF assms, of 1 "''info: '%s' doesn't exist.\<newline>''" "bytes ''info: '' @ [39]" "[39] @ bytes '' doesn't exist.\<newline>''"] that
    by (simp add: bytes_def printable_def literals_def)
  have lits: "''gdt'' \<in> set literals" "''stack'' \<in> set literals" "''buddy'' \<in> set literals" "''idt'' \<in> set literals" "''registers'' \<in> set literals"
    by (simp_all add: literals_def)
  show ?thesis unfolding blt_info_def usage_info_def using assms
    by (intro q returns_rules runs_rules command_formats info_formats runs_info_gdt runs_info_stack runs_info_buddy runs_info_idt runs_info_registers lits) auto
qed

lemma help_returns: "sys_inv im k \<Longrightarrow> returns im k (kbd k) (blt_help im k)"
  using help_says [of im k] sys_inv_scr_step [of im k] scr_cmd_step by (fastforce simp: returns_def)

lemma alloc_returns:
  assumes "sys_inv im k" "args_ok im k argc argv"
  shows "returns im k (kbd k) (blt_alloc im argc argv k)"
proof -
  have "returns im k (kbd k) (do { k1 \<leftarrow> kprint im ''Asked for allocation of %d bytes\<newline>'' [z] k;
       (r, _, k2) \<leftarrow> alloc_loop im (stack_chunk im) z k1;
       k3 \<leftarrow> (if r = -1 then kprint im ''Failed to allocate memory area.\<newline>'' [] k2 else Some k2);
       Some (0, k3) })" for z
    using alloc_asked [OF assms(1), of z] keeps_cmd_step unfolding returns_def by blast
  then show ?thesis unfolding blt_alloc_def usage_alloc_def using assms
    by (intro returns_strto returns_if) (auto intro!: returns_runs runs_rules command_formats)
qed


text \<open>The layout that \<^verbatim>\<open>keymap\<close> installs, for the name it is given.\<close>

definition set_layout :: "u8 list \<Rightarrow> kbd_state \<Rightarrow> kbd_state" where
  "set_layout w st = (if w = bytes ''us'' then st\<lparr>getkeymapentry := Some US104_getkeymapentry\<rparr>
     else if w = bytes ''fr'' then st\<lparr>getkeymapentry := Some FR_getkeymapentry\<rparr> else st)"

lemma runs_layout:
  assumes "sys_inv im k" "s \<in> {''us'', ''fr''}"
  shows "runs im k (kprint im ''- %s\<newline>'' [lit im s] k)"
proof -
  have l: "s \<in> set literals" "''- %s\<newline>'' \<in> set literals" using assms(2) by (auto simp: literals_def)
  have "expand (lit_strs im) 0 (bytes ''- %s\<newline>'') [lit im s] = Some (bytes ''- '' @ bytes s @ [10])"
    using lit_strs_ok(2) [OF assms(1) l(1)] by (simp add: bytes_def spec_text_def va_arg_def is_pad_def)
  moreover have "printable (bytes ''- '' @ bytes s @ [10])" using assms(2) by (auto simp: bytes_def printable_def)
  ultimately show ?thesis
    using kprint_sys [OF assms(1) l(2) lit_strs_ok(1) [OF assms(1)]] sys_inv_scr_step [OF assms(1)] unfolding con.runs_def by blast
qed

lemma keymap_returns:
  assumes "sys_inv im k" "args_ok im k argc argv" "1 < argc \<longrightarrow> cstr (ram k) (argv 1) w"
  shows "returns im k (if 1 < argc then set_layout w (kbd k) else kbd k) (blt_keymap im argc argv k)"
proof (cases "1 < argc")
  case False
  have "returns im k (kbd k) (ret (-1) (usage_keymap im k))" unfolding usage_keymap_def using assms(1) by (intro returns_rules runs_rules command_formats)
  then show ?thesis using False by (simp add: blt_keymap_def)
next
  case True
  then have c: "cstr (ram k) (argv 1) w" using assms(3) by blast
  have lay: "runs im k (for_each (\<lambda>(name, fn). kprint im ''- %s\<newline>'' [lit im name]) layouts k)" if "sys_inv im k" for k
    using that by (intro con.runs_for_each) (auto simp: layouts_def intro!: runs_layout)
  obtain l where l: "strcmp (ram k) (argv 1) (lit im ''list'') = Some l" "l = 0 \<longleftrightarrow> w = bytes ''list''"
    using strcmp_lit(1) [OF assms(1) _ c, of "''list''"] lit_lists(3) by auto
  have q: "runs im k (kprint im ''keymap: Layout '%s' not found.\<newline>'' [argv 1] k)"
    using runs_quoted [OF assms(1,2), of 1 "''keymap: Layout '%s' not found.\<newline>''" "bytes ''keymap: Layout '' @ [39]" "[39] @ bytes '' not found.\<newline>''"] True
    by (simp add: bytes_def printable_def literals_def)
  show ?thesis
  proof (cases "w = bytes ''list''")
    case list: True
    have "runs im k (kprint im ''Layout:\<newline>'' [] k \<bind> (\<lambda>k1. for_each (\<lambda>(name, fn). kprint im ''- %s\<newline>'' [lit im name]) layouts k1))"
      using assms(1) by (intro con.runs_bind lay runs_kprint command_formats)
    from returns_runs [OF this, of "-1"] show ?thesis using True list l by (simp add: blt_keymap_def set_layout_def bytes_def del: One_nat_def)
  next
    case False
    have eq: "blt_keymap im argc argv k = do {
          i \<leftarrow> find_name im (ram k) (map fst layouts) 0 (argv 1);
          case i of
            Some n \<Rightarrow> Some (0, k\<lparr>kbd := KBD_setkeymap (snd (layouts ! n)) (kbd k)\<rparr>)
          | None \<Rightarrow> ret (-1) (kprint im ''keymap: Layout '%s' not found.\<newline>'' [argv 1] k) }"
      using True False l by (simp add: blt_keymap_def del: One_nat_def)
    have inst: "returns im k (st) (Some (0, k\<lparr>kbd := st\<rparr>))" for st
      using assms(1) tidy_cong [of "k\<lparr>kbd := st\<rparr>" k] by (simp add: returns_def sys_inv_def con_inv_def cmd_step_def)
    from find_name_ok [OF assms(1) lit_lists(2) c, of 0] show ?thesis
    proof (elim disjE exE conjE)
      fix j assume j: "j < length (map fst layouts)" "find_name im (ram k) (map fst layouts) 0 (argv 1) = Some (Some (0 + j))"
        "w = bytes (map fst layouts ! j)"
      then have "j = 0 \<or> j = 1" by (auto simp: layouts_def)
      then have "set_layout w (kbd k) = KBD_setkeymap (snd (layouts ! j)) (kbd k)" using j(3) by (auto simp: layouts_def KBD_setkeymap_def bytes_def set_layout_def)
      then show ?thesis using j inst True by (simp add: eq)
    next
      assume n: "find_name im (ram k) (map fst layouts) 0 (argv 1) = Some None" "w \<notin> bytes ` set (map fst layouts)"
      then have "set_layout w (kbd k) = kbd k" by (auto simp: set_layout_def layouts_def)
      then show ?thesis using returns_runs [OF q, of "-1"] n(1) True by (simp add: eq)
    qed
  qed
qed

section \<open>Screens\<close>

lemma returns_code0: "\<exists>k'. R = Some k' \<and> sys_inv im k' \<and> cmd_step im k k' \<and> kbd k' = st \<Longrightarrow> returns im k st (code0 R)"
  by (auto simp: code0_def returns_def)

lemma sys_inv_screens: "sys_inv im k \<Longrightarrow> con_inv k' \<Longrightarrow> phys k' = phys k \<Longrightarrow> sys_inv im k'"
  by (simp add: sys_inv_def)

lemma clear_returns:
  assumes "sys_inv im k"
  shows "returns im k (kbd k) (code0 (blt_clear im k))"
proof (rule returns_code0)
  note c = con_invD [OF sys_invD(1) [OF assms]]
  obtain s v where sv: "sb_clear (dev im) (cur k) (hw k) = Some (s, v)" "has_text s [[]]" "synced s v" "loaded s = loaded (cur k)"
    using clear_text [OF c(2)] by blast
  let ?k = "(set_cur s k)\<lparr>hw := v\<rparr>"
  have e: "blt_clear im k = Some ?k" using sv(1) c(1) by (simp add: blt_clear_def on_screen_def)
  have "sb_inv s" using sv(2) by (auto simp: has_text_def lines_at_def sb_inv_def)
  then have con: "con_inv ?k" using con_inv_set_cur(1) [OF sys_invD(1) [OF assms]] sv(4) c(3) by simp
  have "cur ?k = s" using c(4) by (simp add: cur_def set_cur_def)
  moreover have "sb ?k ! i = sb k ! i" if "int i \<noteq> sb_current k" for i
    using that c(1) by (simp add: set_cur_def cur_ok_def) (metis int_nat_eq nth_list_update_neq)
  ultimately have "tidy ?k" if "tidy k" using tidy_cur [OF that sys_invD(1) [OF assms], of ?k "[[]]"] sv(2,3) by (simp add: set_cur_def)
  then show "\<exists>k'. blt_clear im k = Some k' \<and> sys_inv im k' \<and> cmd_step im k k' \<and> kbd k' = kbd k"
    using e sys_inv_screens [OF assms con] sb_clear_reads [OF sv(1)] by (simp add: cmd_step_def set_cur_def)
qed

lemma switch_frame:
  assumes "blt_next im k = Some k' \<or> blt_prev im k = Some k'"
  shows "phys k' = phys k \<and> kbd k' = kbd k \<and> data_reads (ports (hw k')) = data_reads (ports (hw k))"
  using assms by (auto simp: blt_next_def blt_prev_def on_cur_def on_screen_def set_cur_def Let_def bind_eq_Some_conv dest!: sb_load_reads split: if_splits)

lemma switch_returns:
  assumes "sys_inv im k"
  shows "returns im k (kbd k) (code0 (blt_next im k))" "returns im k (kbd k) (code0 (blt_prev im k))"
proof -
  have step: "sys_inv im k' \<and> cmd_step im k k' \<and> kbd k' = kbd k"
    if s: "blt_next im k = Some k' \<or> blt_prev im k = Some k'" "con_inv k'" "shows_window (cur k') (vga (hw k'))"
      "\<forall>i < NBSCREENBUF. sb k' ! i = (sb k ! i)\<lparr>loaded := (int i = sb_current k')\<rparr>" for k'
  proof -
    note f = switch_frame [OF s(1)]
    have "tidy k'" if "tidy k" using that s(3,4) by (simp add: tidy_def has_text_loaded synced_def)
    then show ?thesis using f sys_inv_screens [OF assms s(2)] by (simp add: cmd_step_def)
  qed
  show "returns im k (kbd k) (code0 (blt_next im k))" "returns im k (kbd k) (code0 (blt_prev im k))"
    using screens_switch [OF sys_invD(1) [OF assms], of im] step by (auto intro!: returns_code0)
qed


section \<open>Running a line\<close>

text \<open>
  The lines whose commands are covered: not \<^verbatim>\<open>free\<close>, which trusts its arguments, and not the commands that halt or raise an interrupt; \<^verbatim>\<open>hexdump\<close>
  where \<^verbatim>\<open>boot_init\<close> has mapped the memory, or with arguments that are no numbers.  A word that
  names no command must not begin with the byte at address 0, where the dispatch loop ends up looking for a name.
\<close>

definition boot_range :: "ptr \<Rightarrow> u32 \<Rightarrow> bool" where
  "boot_range a z \<longleftrightarrow> unat a + unat z \<le> 0x400000 \<or> 0xC0000000 \<le> unat a \<and> unat a + unat z \<le> 0xC0400000"

definition hex_ok :: "u8 list list \<Rightarrow> bool" where
  "hex_ok ws \<longleftrightarrow> (case ws of w # u # v # _ \<Rightarrow>
       if w = bytes ''hexdump''
       then snd (word_num u) = length u \<and> snd (word_num v) = length v \<longrightarrow> boot_range (fst (word_num u)) (fst (word_num v)) else True
     | _ \<Rightarrow> True)"

definition runnable :: "u8 \<Rightarrow> u8 list list \<Rightarrow> bool" where
  "runnable z ws \<longleftrightarrow> (case ws of [] \<Rightarrow> True | w # _ \<Rightarrow> w \<notin> bytes ` {''reboot'', ''poweroff'', ''exit'', ''free'', ''interrupt''}
     \<and> (w \<notin> bytes ` set names \<longrightarrow> hd w \<noteq> z) \<and> hex_ok ws)"

definition layout_after :: "u8 list list \<Rightarrow> kbd_state \<Rightarrow> kbd_state" where
  "layout_after ws st = (case ws of w # v # _ \<Rightarrow> if w = bytes ''keymap'' then set_layout v st else st | _ \<Rightarrow> st)"

text \<open>The machine maps what \<^verbatim>\<open>boot_init\<close> has mapped.\<close>

definition maps_boot :: "image \<Rightarrow> bool" where
  "maps_boot im \<longleftrightarrow> (\<forall>a. boot_mapped a \<longrightarrow> mapped im a)"

lemma boot_range_mapped:
  assumes "maps_boot im" "boot_range a z"
  shows "range_mapped im a z"
  unfolding range_mapped_def
proof
  fix x assume "x \<in> blk a (unat z)"
  then obtain j where j: "j < unat z" "x = a + of_nat j" by (rule in_blkE)
  then have "unat a + j < 4294967296" using assms(2) unfolding boot_range_def by linarith
  then have "unat x = unat a + j" unfolding j(2) by (rule unat_add_of_nat)
  then have "boot_mapped x" using assms(2) j(1) by (auto simp: boot_range_def boot_mapped_def word_less_nat_alt word_le_nat_alt)
  then show "mapped im x" using assms(1) by (simp add: maps_boot_def)
qed

lemma split_args:
  assumes "sys_inv im k" "split_into im k0 (words xs) k" "length xs < 1024" "set xs \<inter> {8, 9} = {}"
  shows "args_ok im k (nsh_cmdnarg k) (nsh_cmd k)"
  unfolding args_ok_def
proof (intro allI impI)
  fix i assume "int i < nsh_cmdnarg k"
  then have i: "i < length (words xs)" using assms(2) by (simp add: split_into_def)
  let ?w = "words xs ! i"
  have w: "?w \<in> set (words xs)" using i by simp
  have c: "cstr (ram k) (nsh_cmd k i) ?w" "blk (nsh_cmd k i) (Suc (length ?w)) \<subseteq> blk (nsh_buf im) NSH_SIZE"
    using assms(2) i by (simp_all add: split_into_def)
  have "length ?w < 4000" "set ?w \<inter> {8, 9} = {}" using word_length [OF w] words_ok [OF w] assms(3,4) by auto
  then show "\<exists>w. word_arg im k (nsh_cmd k i) w \<and> 9 \<notin> set w"
    using c sys_invD(4) [OF assms(1)] by (intro exI [of _ ?w]) (auto simp: word_arg_def layout_ok_def)
qed

lemma builtin_returns:
  assumes "sys_inv im k" "args_ok im k argc argv" "1 < argc \<longrightarrow> cstr (ram k) (argv 1) v"
    and "s \<in> set names" "s \<notin> {''reboot'', ''poweroff'', ''exit'', ''free'', ''interrupt''}" "s = ''hexdump'' \<longrightarrow> hexdump_mapped im k argc argv"
  shows "returns im k (if s = ''keymap'' \<and> 1 < argc then set_layout v (kbd k) else kbd k) (builtin_exec im s argc argv k)"
proof -
  have "s \<in> {''keymap'', ''color'', ''alloc'', ''info'', ''clear'', ''hexdump'', ''next'', ''prev'', ''help''}"
    using assms(4,5) unfolding builtin_help_def by auto
  then show ?thesis
    using assms(6) keymap_returns [OF assms(1-3)] color_returns [OF assms(1,2)] alloc_returns [OF assms(1,2)] info_returns [OF assms(1,2)]
      clear_returns [OF assms(1)] hexdump_returns [OF assms(1,2)] switch_returns [OF assms(1)] help_returns [OF assms(1)]
    unfolding builtin_exec_def by (elim insertE emptyE) simp_all
qed

lemma split_hexdump:
  assumes "split_into im k0 (w # ws) k" "\<forall>v \<in> set (w # ws). length v < 1024" "maps_boot im" "w = bytes ''hexdump''" "hex_ok (w # ws)"
  shows "hexdump_mapped im k (nsh_cmdnarg k) (nsh_cmd k)"
  unfolding hexdump_mapped_def
proof (intro impI allI, elim conjE)
  fix a p z q
  assume 3: "3 \<le> nsh_cmdnarg k" and st: "strtoul (ram k) (nsh_cmd k 1) 0 = Some (a, p)" "ram k p = 0" "strtoul (ram k) (nsh_cmd k 2) 0 = Some (z, q)" "ram k q = 0"
  have n: "nsh_cmdnarg k = 1 + int (length ws)" using assms(1) by (simp add: split_into_def)
  then obtain u v ws' where ws: "ws = u # v # ws'" using 3 by (cases ws; cases "tl ws") auto
  have at: "cstr (ram k) (nsh_cmd k i) ((w # ws) ! i)" if "i < length (w # ws)" for i
    using assms(1) that by (simp add: split_into_def)
  have c: "cstr (ram k) (nsh_cmd k 1) u" "cstr (ram k) (nsh_cmd k 2) v"
    using at [of 1] at [of 2] by (simp_all add: ws numeral_2_eq_2)
  have num: "b = fst (word_num t) \<and> snd (word_num t) = length t"
    if "cstr (ram k) c t" "length t < 1024" "strtoul (ram k) c 0 = Some (b, e)" "ram k e = 0" for c t b e
  proof -
    have e: "b = fst (word_num t)" "e = c + of_nat (snd (word_num t))" "snd (word_num t) \<le> length t"
      using strtoul_word [OF that(1)] that(2,3) by auto
    have "\<not> snd (word_num t) < length t" using that(1,4) unfolding e(2) cstr_iff by metis
    then show ?thesis using e by simp
  qed
  have "boot_range a z"
    using num [OF c(1) _ st(1,2)] num [OF c(2) _ st(3,4)] assms(2,4,5) by (simp add: ws hex_ok_def)
  then show "range_mapped im a z" by (rule boot_range_mapped [OF assms(3)])
qed

lemma exec_returns:
  assumes "sys_inv im k" "split_into im k0 (words xs) k" "length xs < 1024" "set xs \<inter> {8, 9} = {}" "0 \<notin> blk (nsh_buf im) NSH_SIZE"
    and "runnable (ram k 0) (words xs)" "words xs = [] \<longrightarrow> nsh_cmd k 0 = 0" "maps_boot im"
  shows "\<exists>k'. nsh_execcmd im k = Some k' \<and> sys_inv im k' \<and> cmd_step im k k' \<and> kbd k' = layout_after (words xs) (kbd k)"
proof (cases "words xs")
  case Nil
  then show ?thesis using assms(1,7) by (simp add: nsh_execcmd_def cmd_step_def layout_after_def)
next
  case (Cons w ws)
  have w: "w \<noteq> []" "set w \<subseteq> set xs" "length w < 1024" using words_ok [of w xs] word_length [of w xs] assms(3) Cons by auto
  note first = exec_first [OF assms(1) assms(2) [unfolded Cons] w(3) assms(5)]
  show ?thesis
  proof (cases "w \<in> bytes ` set names")
    case True
    then obtain s where s: "s \<in> set names" "w = bytes s" by blast
    have bad: "s \<notin> {''reboot'', ''poweroff'', ''exit'', ''free'', ''interrupt''}" using assms(6) s(2) by (auto simp: runnable_def Cons)
    have n0: "\<forall>v \<in> set (w # ws). length v < 1024" using word_length [of _ xs] assms(3) Cons by fastforce
    define v where "v = (case ws of [] \<Rightarrow> [] | v # _ \<Rightarrow> v)"
    have n: "nsh_cmdnarg k = 1 + int (length ws)" using assms(2) by (simp add: split_into_def Cons)
    have "1 < nsh_cmdnarg k \<longrightarrow> cstr (ram k) (nsh_cmd k 1) v"
      using assms(2) n by (cases ws) (auto simp: split_into_def Cons v_def dest!: spec [of _ 1])
    note v = this
    have h: "s = ''hexdump'' \<longrightarrow> hexdump_mapped im k (nsh_cmdnarg k) (nsh_cmd k)"
      using split_hexdump [OF assms(2) [unfolded Cons] n0 assms(8)] assms(6) Cons s(2) by (auto simp: runnable_def)
    from builtin_returns [OF assms(1) split_args [OF assms(1-4)] v s(1) bad h]
    obtain r k' where k': "builtin_exec im s (nsh_cmdnarg k) (nsh_cmd k) k = Some (r, k')" "sys_inv im k'" "cmd_step im k k'"
      "kbd k' = (if s = ''keymap'' \<and> 1 < nsh_cmdnarg k then set_layout v (kbd k) else kbd k)" by (auto simp: returns_def)
    have "s = ''keymap'' \<longleftrightarrow> w = bytes ''keymap''"
      unfolding s(2) using inj_on_eq_iff [OF names_ok(2) s(1), of "''keymap''"] by (auto simp: builtin_help_def)
    then have "kbd k' = layout_after (words xs) (kbd k)" using k'(4) n by (cases ws) (auto simp: layout_after_def Cons v_def)
    then show ?thesis using first(1) [OF s] k' by auto
  next
    case False
    then have "\<not> cstr (ram k) 0 w" using assms(6) w(1) by (cases w) (auto simp: runnable_def Cons)
    moreover have "8 \<notin> set w" "9 \<notin> set w" using w(2) assms(4) by auto
    ultimately obtain k' where k': "nsh_execcmd im k = Some k'" "scr_step im k k'" using first(2) [OF False] by blast
    have "w \<noteq> bytes ''keymap''" using False by (auto simp: builtin_help_def)
    then have "layout_after (words xs) (kbd k) = kbd k" by (auto simp: layout_after_def Cons split: list.split)
    then show ?thesis using k' scr_cmd_step [OF k'(2)] sys_inv_scr_step [OF assms(1) k'(2)] by auto
  qed
qed

section \<open>Correctness properties\<close>

text \<open>
  C14: which commands return.  Whatever the line holds behind its first word (no argument, too many, numbers, overlong or malformed numbers, unknown names), every command but \<^verbatim>\<open>free\<close>
  and those that halt the machine or raise an interrupt returns, \<^verbatim>\<open>hexdump\<close> exactly if all the bytes it is asked for are mapped: otherwise the page fault, for which there is no gate,
  ends it.  A command that returns keeps the kernel's invariant, leaves the screens tidy, takes no byte from the keyboard,
  and changes no memory but the buffer of \<^verbatim>\<open>kprintf\<close> and the bitmaps of the allocator.
\<close>

theorem commands_return:
  assumes "sys_inv im k" "args_ok im k argc argv" "s \<in> set names" "s \<notin> {''reboot'', ''poweroff'', ''exit'', ''free'', ''interrupt''}"
  shows "if s = ''hexdump'' \<and> \<not> hexdump_mapped im k argc argv then builtin_exec im s argc argv k = None
    else \<exists>r k'. builtin_exec im s argc argv k = Some (r, k') \<and> sys_inv im k' \<and> cmd_step im k k'"
proof (cases "s = ''hexdump'' \<and> \<not> hexdump_mapped im k argc argv")
  case True
  then show ?thesis using hexdump_faults by (simp add: builtin_exec_def)
next
  case False
  have "\<exists>v. 1 < argc \<longrightarrow> cstr (ram k) (argv 1) v" using assms(2) unfolding args_ok_def word_arg_def by (metis of_nat_1)
  then obtain v where v: "1 < argc \<longrightarrow> cstr (ram k) (argv 1) v" by blast
  from False have "s = ''hexdump'' \<longrightarrow> hexdump_mapped im k argc argv" by blast
  from builtin_returns [OF assms(1,2) v assms(3,4) this] False show ?thesis by (auto simp: returns_def)
qed

theorem commands_return_witness:
  "\<exists>r k'. builtin_exec demo_image ''color'' 3 (\<lambda>i. if i = 1 then 0x8000 else 0x8010) (demo_sys demo_words) = Some (r, k') \<and> sys_inv demo_image k'"
proof -
  have "9 \<notin> set (bytes ''fg'')" "9 \<notin> set (bytes ''red'')" by (simp_all add: bytes_def)
  then have "args_ok demo_image (demo_sys demo_words) 3 (\<lambda>i. if i = 1 then 0x8000 else 0x8010)"
    using demo_word_args by (auto simp: args_ok_def)
  moreover have "''color'' \<in> set names" by (simp add: builtin_help_def)
  ultimately show ?thesis
    using commands_return [OF demo_sys_inv, of demo_words 3 "\<lambda>i. if i = 1 then 0x8000 else 0x8010" "''color''"] by auto
qed

end
