(* ===== verification/Nsh_Run.thy ===== *)
theory Nsh_Run
  imports Paging Nsh_Session Nsh_Returns
begin

text \<open>
  Whole sessions at the keyboard: an abstract machine whose state is the line and the keyboard driver, and the proof that the kernel, started at power on, follows it
  through any number of lines and commands.  \<open>at_prompt\<close> is the relation between the two; each key keeps it.
\<close>

unbundle bit_operations_syntax

section \<open>The session, abstractly\<close>

text \<open>One character of the keyboard on the line: Enter starts a new one, the tabulation completes it.\<close>

definition sh_key :: "u8 \<Rightarrow> u8 list \<Rightarrow> u8 list" where
  "sh_key c xs = (if c = 0 then xs else if c = 10 then [] else if c = 9 then (if xs = [] then [] else fold (\<lambda>s. complete (bytes s)) names xs)
     else edit c xs)"

text \<open>
  A session: the line and the keyboard driver after a sequence of presses.  It is not defined for the keys that scroll and for
  lines that are not \<open>runnable\<close>; \<open>z\<close> is the byte at address 0.
\<close>

fun sh_session :: "u8 \<Rightarrow> press list \<Rightarrow> u8 list \<times> kbd_state \<Rightarrow> (u8 list \<times> kbd_state) option" where
  "sh_session z [] s = Some s"
| "sh_session z (p # ps) (xs, st) =
     (let st1 = after (press_events p) st; e = stroke_event (snd p); c = KBD_getchar e st1
      in if c = 0 \<and> key e \<in> {KEY_CURSOR_UP, KEY_CURSOR_DOWN, KEY_PAGE_DOWN, KEY_PAGE_UP} \<or> c = 10 \<and> \<not> runnable z (words xs) then None
         else sh_session z ps (sh_key c xs, if c = 10 then layout_after (words xs) st1 else st1))"

section \<open>At the head of the loop\<close>

definition low_ok :: "image \<Rightarrow> kernel \<Rightarrow> bool" where
  "low_ok im k \<longleftrightarrow> maps_boot im \<and> 0 \<notin> blk (nsh_buf im) NSH_SIZE \<union> blk (kbuf im) 4096 \<union> kpm_tables (buddy (phys k))"

text \<open>The line and the screen between two keys, with \<open>z\<close> at address 0.\<close>

definition at_prompt :: "image \<Rightarrow> u8 \<Rightarrow> u8 list \<Rightarrow> kernel \<Rightarrow> bool" where
  "at_prompt im z xs k \<longleftrightarrow> sys_inv im k \<and> tidy k \<and> line_is im k xs \<and> set xs \<inter> {8, 9, 10} = {} \<and> nsh_cmd k 0 = 0 \<and> nsh_cmdnarg k = 0
     \<and> low_ok im k \<and> ram k 0 = z
     \<and> (\<exists>b l. con_text k (typed_page (color (cur k)) b (l @ prompt_cells (color (cur k))) xs) \<and> length l < 80)"

lemma at_promptE:
  assumes "at_prompt im z xs k"
  obtains b l where "con_text k (typed_page (color (cur k)) b (l @ prompt_cells (color (cur k))) xs)" "length l < 80"
  using assms by (auto simp: at_prompt_def)

lemma at_prompt_settled: "at_prompt im z xs k \<Longrightarrow> settled (cur k)"
  by (auto simp: at_prompt_def con_text_def intro: has_text_settled)

text \<open>The last line of a screen leaves room for a character.\<close>

lemma has_text_last:
  assumes "has_text s ls"
  shows "ls = butlast ls @ wrap (last ls)" "length (last ls) < 80"
proof -
  have "ls \<noteq> []" "length (last ls) < 80" using assms by (auto simp: has_text_def dest: lines_atD(9))
  then show "ls = butlast ls @ wrap (last ls)" "length (last ls) < 80" by (simp_all add: wrap_short)
qed

text \<open>A new prompt.\<close>

lemma newline_at_prompt:
  assumes "sys_inv im k" "tidy k" "low_ok im k" "ram k 0 = z"
  shows "\<exists>k'. nsh_newline im k = Some k' \<and> at_prompt im z [] k' \<and> kbd k' = kbd k \<and> data_reads (ports (hw k')) = data_reads (ports (hw k))"
proof -
  obtain ls where ls: "has_text (cur k) ls" "synced (cur k) (hw k)" using assms(2) sys_invD(1) [OF assms(1)] by (rule tidyD)
  have "con_text k (butlast ls @ wrap (last ls))" using ls sys_invD(1) [OF assms(1)] by (simp add: con_text_def flip: has_text_last(1) [OF ls(1)])
  from nsh_newline_shows [OF assms(1) this has_text_last(2) [OF ls(1)]] obtain k' b' where
    "nsh_newline im k = Some k'" "sys_inv im k'" "line_is im k' []" "color (cur k') = color (cur k)"
    "nsh_cmd k' 0 = 0" "nsh_cmdnarg k' = 0" "tidy k'" "kbd k' = kbd k" "data_reads (ports (hw k')) = data_reads (ports (hw k))"
    "\<forall>a. a \<notin> blk (nsh_buf im) NSH_SIZE \<union> blk (kbuf im) 4096 \<longrightarrow> ram k' a = ram k a" "buddy (phys k') = buddy (phys k)"
    "con_text k' (typed_page (color (cur k)) b' (last ls @ prompt_cells (color (cur k))) [])"
    using assms(2) by blast
  then show ?thesis using assms(3,4) has_text_last(2) [OF ls(1)]
    by (intro exI [of _ k']) (auto simp: at_prompt_def low_ok_def)
qed

lemma line_step_low: "line_step im k k' \<Longrightarrow> low_ok im k \<Longrightarrow> low_ok im k' \<and> ram k' 0 = ram k 0"
  by (simp add: line_step_def low_ok_def)

lemma prompt_length: "length (prompt_cells c) = 5" "prompt_cells c \<noteq> []"
  by (simp_all add: prompt_cells_def bytes_def)

text \<open>What is left to show when a key has only edited the line.\<close>

lemma line_step_at_prompt:
  assumes "at_prompt im z xs k" "sys_inv im k'" "line_is im k' ys" "line_step im k k'" "set ys \<inter> {8, 9, 10} = {}" "color (cur k') = color (cur k)"
    and "con_text k' (typed_page (color (cur k)) b (l @ prompt_cells (color (cur k))) ys)" "length l < 80"
  shows "at_prompt im z ys k' \<and> kbd k' = kbd k \<and> data_reads (ports (hw k')) = data_reads (ports (hw k))"
proof -
  have st: "kbd k' = kbd k" "data_reads (ports (hw k')) = data_reads (ports (hw k))" "nsh_cmd k' = nsh_cmd k" "nsh_cmdnarg k' = nsh_cmdnarg k" "tidy k \<longrightarrow> tidy k'"
    using assms(4) by (simp_all add: line_step_def)
  have "low_ok im k' \<and> ram k' 0 = ram k 0" using line_step_low [OF assms(4)] assms(1) by (simp add: at_prompt_def)
  moreover have "tidy k" "nsh_cmd k 0 = 0" "nsh_cmdnarg k = 0" "ram k 0 = z" using assms(1) by (simp_all add: at_prompt_def)
  moreover have p: "\<exists>b l. con_text k' (typed_page (color (cur k')) b (l @ prompt_cells (color (cur k'))) ys) \<and> length l < 80"
    unfolding assms(6) using assms(7,8) by blast
  ultimately show ?thesis unfolding at_prompt_def by (intro conjI p assms(2,3,5)) (use st in simp_all)
qed

lemma edit_at_prompt:
  assumes "at_prompt im z xs k" "c \<notin> {0, 9, 10}"
  shows "\<exists>k'. nsh_addchar im c k = Some k' \<and> at_prompt im z (edit c xs) k' \<and> kbd k' = kbd k \<and> data_reads (ports (hw k')) = data_reads (ports (hw k))"
proof -
  obtain b l where t: "con_text k (typed_page (color (cur k)) b (l @ prompt_cells (color (cur k))) xs)" "length l < 80" using assms(1) by (rule at_promptE)
  have "sys_inv im k" "line_is im k xs" and xs: "set xs \<inter> {8, 9, 10} = {}" using assms(1) by (simp_all add: at_prompt_def)
  from nsh_key_shows [OF this(1,2) t(1) refl assms(2)] t(2) obtain k' b' where k':
    "nsh_addchar im c k = Some k'" "sys_inv im k'" "line_is im k' (edit c xs)" "line_step im k k'"
    "con_text k' (typed_page (color (cur k)) b' (l @ prompt_cells (color (cur k))) (edit c xs))" "color (cur k') = color (cur k)"
    by (auto simp: prompt_length)
  have "set (edit c xs) \<inter> {8, 9, 10} = {}" using xs assms(2) in_set_butlastD [of _ xs] by (auto simp: edit_def)
  from line_step_at_prompt [OF assms(1) k'(2-4) this k'(6,5) t(2)] k'(1) show ?thesis by blast
qed

text \<open>Completion.\<close>

lemma scroll_nothing:
  assumes "con_text k ls"
  shows "on_screen (sb_scroll_down (dev im)) k = Some k"
proof -
  have "cur_ok k" "has_text (cur k) ls" using assms con_invD(1) [of k] by (simp_all add: con_text_def)
  moreover have "(set_cur (cur k) k)\<lparr>hw := hw k\<rparr> = k" by (simp add: set_cur_def cur_def)
  ultimately show ?thesis using has_text_visible(2) [of "cur k" ls "dev im" "hw k"] by (simp add: on_screen_def)
qed

lemma complete_chars: "set (fold (\<lambda>s. complete (bytes s)) ss xs) \<subseteq> set xs \<union> \<Union> (set ` bytes ` set ss)"
proof (induction ss arbitrary: xs)
  case (Cons s ss)
  have "set (complete (bytes s) xs) \<subseteq> set xs \<union> set (bytes s)" by (simp add: complete_def)
  then show ?case using Cons.IH [of "complete (bytes s) xs"] by auto
qed simp

lemma names_chars: "\<Union> (set ` bytes ` set names) \<inter> {0, 8, 9, 10} = {}"
  unfolding builtin_help_def by (simp add: bytes_def)

lemma tab_at_prompt:
  assumes "at_prompt im z xs k"
  shows "\<exists>k'. nsh_addchar im 9 k = Some k' \<and> at_prompt im z (sh_key 9 xs) k' \<and> kbd k' = kbd k \<and> data_reads (ports (hw k')) = data_reads (ports (hw k))"
proof -
  let ?c = "color (cur k)" and ?ys = "fold (\<lambda>s. complete (bytes s)) names xs"
  obtain b l where t: "con_text k (typed_page ?c b (l @ prompt_cells ?c) xs)" "length l < 80" using assms by (rule at_promptE)
  have k: "sys_inv im k" "line_is im k xs" "set xs \<inter> {8, 9, 10} = {}" using assms by (simp_all add: at_prompt_def)
  show ?thesis
  proof (cases "xs = []")
    case True
    then have "nsh_addchar im 9 k = Some k" using scroll_nothing [OF t(1), of im] k(2) by (simp add: nsh_addchar_def line_is_def)
    then show ?thesis using assms True by (simp add: sh_key_def)
  next
    case False
    obtain k' where k': "nsh_addchar im 9 k = Some k'" "sys_inv im k'" "line_is im k' ?ys" "line_step im k k'" "take (length xs) ?ys = xs"
        "sb_puts (dev im) (drop (length xs) ?ys) (cur k) (hw k) = Some (cur k', hw k')"
      using nsh_tab_completes [OF k(1,2) at_prompt_settled [OF assms] False] scroll_nothing [OF t(1), of im] by (auto simp: Let_def)
    have "0 \<notin> set xs" "0 \<notin> set ?ys" "length ?ys < 1024" using k(2) k'(3) by (auto simp: line_is_def)
    then have ys: "set ?ys \<inter> {0, 8, 9, 10} = {}" using complete_chars [of names xs] names_chars k(3) by blast
    let ?d = "drop (length xs) ?ys"
    have d: "set ?d \<inter> {0, 8, 9} = {}" "set ?d \<inter> {8, 10} = {}" using ys set_drop_subset [of "length xs" ?ys] by auto
    have e: "xs @ ?d = ?ys" using append_take_drop_id [of "length xs" ?ys] k'(5) by simp
    have len: "length ((l @ prompt_cells ?c) @ map (cell ?c) xs) + length ?d < 15000"
      using t(2) \<open>length ?ys < 1024\<close> arg_cong [OF e, of length] by (simp add: prompt_length)
    obtain b' where b': "fold (type_char ?c) ?d (typed_page ?c b (l @ prompt_cells ?c) xs) = typed_page ?c b' (l @ prompt_cells ?c) ?ys"
      using fold_type_char_wrap [OF d(2) len, of b ?c] arg_cong [OF e, of "map (cell ?c)"] by (auto simp: typed_page_def)
    have con: "con_text k' (typed_page ?c b' (l @ prompt_cells ?c) ?ys)" "color (cur k') = ?c"
      using puts_text [of "cur k" "typed_page ?c b (l @ prompt_cells ?c) xs" "hw k" ?d "dev im"] t(1) d(1) k'(6) b' sys_invD(1) [OF k'(2)] by (auto simp: con_text_def)
    have "set ?ys \<inter> {8, 9, 10} = {}" using ys by blast
    from line_step_at_prompt [OF assms k'(2-4) this con(2,1) t(2)] show ?thesis using k'(1) False by (simp add: sh_key_def)
  qed
qed

text \<open>Enter.\<close>

lemma enter_at_prompt:
  assumes "at_prompt im z xs k" "runnable z (words xs)"
  shows "\<exists>k'. nsh_addchar im 10 k = Some k' \<and> at_prompt im z [] k' \<and> kbd k' = layout_after (words xs) (kbd k)
    \<and> data_reads (ports (hw k')) = data_reads (ports (hw k))"
proof -
  have k: "sys_inv im k" "line_is im k xs" "nsh_cmd k 0 = 0" "nsh_cmdnarg k = 0" "set xs \<inter> {8, 9} = {}" "low_ok im k" "ram k 0 = z" "tidy k"
    using assms(1) by (auto simp: at_prompt_def)
  obtain k2 k3 where k3: "scr_step im k k2" "split_into im k2 (words xs) k3" "sys_inv im k3"
      "nsh_addchar im 10 k = nsh_execcmd im k3 \<bind> nsh_newline im" "words xs = [] \<longrightarrow> nsh_cmd k3 0 = 0"
    using nsh_enter_split [OF k(1,2) at_prompt_settled [OF assms(1)] k(3,4)] by blast
  have z3: "ram k3 0 = z" "low_ok im k3" "tidy k3" "kbd k3 = kbd k" "data_reads (ports (hw k3)) = data_reads (ports (hw k))"
    using k3(1,2) k(6-8) by (simp_all add: scr_step_def same_but_screen_def split_into_def low_ok_def)
  have m: "maps_boot im" using k(6) by (simp add: low_ok_def)
  have "length xs < 1024" "0 \<notin> blk (nsh_buf im) NSH_SIZE" using k(2,6) by (simp_all add: line_is_def low_ok_def)
  then obtain k4 where k4: "nsh_execcmd im k3 = Some k4" "sys_inv im k4" "cmd_step im k3 k4" "kbd k4 = layout_after (words xs) (kbd k3)"
    using exec_returns [OF k3(3,2) _ k(5) _ _ k3(5) m] assms(2) z3(1) by blast
  have "ram k4 0 = z" "low_ok im k4" "tidy k4" "data_reads (ports (hw k4)) = data_reads (ports (hw k))"
    using k4(3) z3 by (simp_all add: cmd_step_def low_ok_def)
  from newline_at_prompt [OF k4(2) this(3,2,1)] this(4) show ?thesis using k3(4) k4(1,4) z3(4) by auto
qed

section \<open>A turn of the loop\<close>

lemma key_at_prompt:
  assumes "at_prompt im z xs k" "c \<noteq> 0" "c = 10 \<longrightarrow> runnable z (words xs)"
  shows "\<exists>k'. nsh_addchar im c k = Some k' \<and> at_prompt im z (sh_key c xs) k' \<and> kbd k' = (if c = 10 then layout_after (words xs) (kbd k) else kbd k)
    \<and> data_reads (ports (hw k')) = data_reads (ports (hw k))"
proof -
  consider "c = 10" | "c = 9" | "c \<notin> {0, 9, 10}" using assms(2) by blast
  then show ?thesis
  proof cases
    case 1 then show ?thesis using enter_at_prompt [OF assms(1)] assms(3) by (simp add: sh_key_def)
  next
    case 2 then show ?thesis using tab_at_prompt [OF assms(1)] by simp
  next
    case 3 then show ?thesis using edit_at_prompt [OF assms(1) 3] by (simp add: sh_key_def)
  qed
qed

lemma turn_at_prompt:
  assumes "at_prompt im z xs k" "ps2_delivers (dev im) bs" "drop (data_reads (ports (hw k))) bs = press_bytes p @ rest" "press_ok p" "\<not> ext (kbd k)"
    and "sh_session z [p] (xs, kbd k) = Some (ys, st)"
  shows "\<exists>e k'. nsh_step im (evt, k) = Some (e, k') \<and> at_prompt im z ys k' \<and> kbd k' = st \<and> drop (data_reads (ports (hw k'))) bs = rest"
proof -
  let ?st = "after (press_events p) (kbd k)" and ?e = "stroke_event (snd p)"
  define c where "c = KBD_getchar ?e ?st"
  have ec: "presses [p] (kbd k) = [(?e, c)]" by (simp add: c_def Let_def)
  have s: "\<not> (c = 0 \<and> key ?e \<in> {KEY_CURSOR_UP, KEY_CURSOR_DOWN, KEY_PAGE_DOWN, KEY_PAGE_UP})" "c = 10 \<longrightarrow> runnable z (words xs)"
    "ys = sh_key c xs" "st = (if c = 10 then layout_after (words xs) ?st else ?st)"
    using assms(6) by (auto simp: c_def Let_def split: if_splits)
  obtain tr where tr: "nsh_step im (evt, k) = (let k1 = on_ports (\<lambda>_. tr) (k\<lparr>kbd := ?st\<rparr>)
      in do { k2 \<leftarrow> (if c \<noteq> 0 then nsh_addchar im c k1 else nsh_shortcut im ?e k1); Some (?e, k2) })" "drop (data_reads tr) bs = rest"
    using press_taken [OF assms(2-5) ec] by blast
  let ?k = "on_ports (\<lambda>_. tr) (k\<lparr>kbd := ?st\<rparr>)"
  have a: "at_prompt im z xs ?k" using assms(1) by (simp add: at_prompt_def press_state low_ok_def)
  show ?thesis
  proof (cases "c = 0")
    case True
    then have "nsh_shortcut im ?e ?k = Some ?k" using s(1) by (simp add: nsh_shortcut_def)
    then show ?thesis using tr True a s(3,4) by (intro exI [of _ ?e] exI [of _ ?k]) (simp add: press_state sh_key_def)
  next
    case False
    obtain k' where "nsh_addchar im c ?k = Some k'" "at_prompt im z ys k'" "kbd k' = st" "data_reads (ports (hw k')) = data_reads tr"
      using key_at_prompt [OF a False s(2)] s(3,4) by (auto simp: press_state)
    then show ?thesis using tr False by (intro exI [of _ ?e] exI [of _ k']) simp
  qed
qed

lemma session_ext: "sh_session z [p] (xs, st) = Some (ys, st') \<Longrightarrow> \<not> ext st'"
  by (auto simp: Let_def layout_after_def set_layout_def after_def split: if_splits list.splits)

lemma session_Cons: "sh_session z (p # ps) s = sh_session z [p] s \<bind> sh_session z ps"
  by (cases s) (auto simp: Let_def)

lemma run_at_prompt:
  assumes "nsh im evt0 k0 (evt, k)" "at_prompt im z xs k" "ps2_delivers (dev im) bs"
    and "drop (data_reads (ports (hw k))) bs = concat (map press_bytes ps) @ rest" "\<forall>p \<in> set ps. press_ok p" "\<not> ext (kbd k)"
    and "sh_session z ps (xs, kbd k) = Some (ys, st)"
  shows "\<exists>evt' k'. nsh im evt0 k0 (evt', k') \<and> at_prompt im z ys k' \<and> kbd k' = st \<and> drop (data_reads (ports (hw k'))) bs = rest"
  using assms
proof (induction ps arbitrary: evt k xs)
  case Nil
  then show ?case by auto
next
  case (Cons p ps)
  obtain xs1 st1 where s: "sh_session z [p] (xs, kbd k) = Some (xs1, st1)" "sh_session z ps (xs1, st1) = Some (ys, st)"
    using Cons.prems(7) unfolding session_Cons [of z p ps] by (auto simp: bind_eq_Some_conv simp del: sh_session.simps)
  obtain e k1 where 1: "nsh_step im (evt, k) = Some (e, k1)" "at_prompt im z xs1 k1" "kbd k1 = st1"
      "drop (data_reads (ports (hw k1))) bs = concat (map press_bytes ps) @ rest"
    using turn_at_prompt [OF Cons.prems(2,3) _ _ Cons.prems(6) s(1), of "concat (map press_bytes ps) @ rest" evt] Cons.prems(4,5) by auto
  have "nsh im evt0 k0 (e, k1)" by (rule nsh_turn [OF Cons.prems(1) 1(1)])
  from Cons.IH [OF this 1(2) Cons.prems(3) 1(4)] Cons.prems(5) session_ext [OF s(1)] s(2) 1(3) show ?case by auto
qed

section \<open>Address 0\<close>

text \<open>The first byte of memory is the low byte of the address of the first interrupt handler.\<close>

lemma idt_first_byte: "fst (idt_init t m) 0 = ucast (divide_error_addr t)"
proof -
  let ?m = "fst (idt_init t m)"
  have "idt_base_low (idt_entry ?m ISR_DE) = ucast (divide_error_addr t AND 0xFFFF)"
    unfolding idt_init_puts by (subst idt.get_puts) (simp_all add: idt_consts)
  then have "load16 ?m 0 = ucast (divide_error_addr t AND 0xFFFF)" by (simp add: idt_entry_def idt_at_def idt_consts)
  then have "ucast (load16 ?m 0) = (ucast (ucast (divide_error_addr t AND 0xFFFF) :: u16) :: u8)" by simp
  moreover have "ucast (load16 ?m 0) = ?m 0" by (rule bit_word_eqI) (auto simp: load16_def bit_simps)
  moreover have e: "(0xFFFF :: u32) = mask 16" by (simp add: mask_eq_exp_minus_1)
  have "ucast (ucast (divide_error_addr t AND 0xFFFF) :: u16) = (ucast (divide_error_addr t) :: u8)"
    unfolding e by (rule bit_word_eqI) (auto simp: bit_simps)
  ultimately show ?thesis by simp
qed

lemma kernel_boot_phys:
  assumes "kernel_boot im sk ek mbi k = Some k'"
  shows "kpm_init sk ek (mmap mbi) (mem_upper mbi - mem_lower mbi) (ram (fst (init_descriptor_tables im k))) = Some (phys k')"
proof -
  have scr: "phys k' = phys k" if "for_each (welcome_screen im) is k = Some k'" for "is" k k'
    using that by (induction "is" arbitrary: k) (auto simp: welcome_screen_def bind_eq_Some_conv)
  have "phys k' = phys k" if "on_screen f k = Some k'" for f k k'
    using that by (auto simp: on_screen_def bind_eq_Some_conv set_cur_def split: if_splits)
  then show ?thesis using assms by (auto simp: kernel_boot_def Let_def bind_eq_Some_conv dest!: scr)
qed

lemma boot_low:
  assumes "boot_ok im sk ek mbi k" "kernel_boot im sk ek mbi k = Some k'"
  shows "0 \<notin> kpm_tables (buddy (phys k'))" "ram k' 0 = ucast (divide_error_addr (isr im))"
proof -
  let ?mem = "mem_upper mbi - mem_lower mbi"
  have "boot_layout im ek ?mem" using assms(1) by (simp add: boot_ok_def Let_def)
  moreover have "0 \<in> desc_area" by (simp add: desc_area_def in_blk_iff)
  ultimately have z: "0 \<notin> boot_area ek ?mem" unfolding boot_layout_def by blast
  have p: "kpm_tables (buddy (phys k')) \<subseteq> boot_area ek ?mem" "\<forall>a. a \<notin> boot_area ek ?mem \<longrightarrow> ram k' a = ram (fst (init_descriptor_tables im k)) a"
    using boot_kpm [OF assms(1)] kernel_boot_phys [OF assms(2)] by auto
  show "0 \<notin> kpm_tables (buddy (phys k'))" using p(1) z by blast
  show "ram k' 0 = ucast (divide_error_addr (isr im))" using p(2) z by (simp add: boot_tables(1) idt_first_byte)
qed

text \<open>The pages of \<^verbatim>\<open>boot_init\<close> map at least \<open>boot_mapped\<close>.\<close>

lemma boot_init_mapped:
  assumes "mapped im = (\<lambda>a. translate (fst (boot_init m0)) (snd (boot_init m0)) a \<noteq> None)"
  shows "maps_boot im"
  unfolding maps_boot_def
proof (intro allI impI)
  fix a :: ptr assume "boot_mapped a"
  then consider "unat a < 0x400000" | "0xC0000000 \<le> unat a" "unat a < 0xC0400000"
    by (auto simp: boot_mapped_def word_less_nat_alt word_le_nat_alt)
  then show "mapped im a"
  proof cases
    case 1
    then show ?thesis using boot_translate [of a m0] by (simp add: assms)
  next
    case 2
    have "unat (a - Paging.KERNEL_VIRT_OFFSET) = unat a - 0xC0000000"
      using 2(1) by (subst unat_sub_no_wrap) (simp_all add: Paging.KERNEL_VIRT_OFFSET_def)
    then have "unat (a - Paging.KERNEL_VIRT_OFFSET) < 0x400000" using 2 by linarith
    then show ?thesis using boot_translate [of "a - Paging.KERNEL_VIRT_OFFSET" m0] by (simp add: assms)
  qed
qed

section \<open>Correctness properties\<close>

text \<open>
  C3: whole sessions.  On a machine that boots, with the pages that \<^verbatim>\<open>boot_init\<close> has set up on whatever memory held before, let the keyboard controller deliver the bytes of any sequence of presses and releases of known keys: letters,
  shift and caps lock, backspace, tabulation and Enter, on any number of lines, with any commands and arguments but \<^verbatim>\<open>free\<close>, those that halt the machine or
  raise an interrupt, and a \<^verbatim>\<open>hexdump\<close> that reaches outside the first 4 MiB and their copy at \<^verbatim>\<open>KERNEL_VIRT_OFFSET\<close>, where a page fault would end it.  Then \<^verbatim>\<open>kernel_main\<close> runs to a state at the head of the shell's loop that has taken all of them; no command has hung.  There
  the kernel's invariant holds (screens, literals, buddy allocator, layout), the line and the keyboard driver, with the layout that \<^verbatim>\<open>keymap\<close> has installed, are those of the
  abstract session, and the display ends with the prompt and the line, in the current colour and wrapped at 80 columns.
\<close>

theorem kernel_session_runs:
  assumes "boot_ok im sk ek mbi k" "0 \<notin> blk (nsh_buf im) NSH_SIZE \<union> blk (kbuf im) 4096" "\<not> ext (kbd k)" "ps2_delivers (dev im) bs"
    and "drop (data_reads (ports (hw k))) bs = concat (map press_bytes ps) @ rest" "\<forall>p \<in> set ps. press_ok p"
    and "sh_session (ucast (divide_error_addr (isr im))) ps ([], KBD_initialize (kbd k)) = Some (xs, st)"
    and "mapped im = (\<lambda>a. translate (fst (boot_init m0)) (snd (boot_init m0)) a \<noteq> None)"
  shows "\<exists>evt' k'. kernel_main im sk ek mbi evt k (evt', k') \<and> sys_inv im k' \<and> line_is im k' xs \<and> kbd k' = st \<and> drop (data_reads (ports (hw k'))) bs = rest
    \<and> (\<exists>b l. displays (vga (hw k')) (b @ wrap (l @ prompt_cells (color (cur k')) @ map (cell (color (cur k'))) xs)))"
proof -
  let ?z = "ucast (divide_error_addr (isr im)) :: u8"
  obtain k1 where k1: "kernel_boot im sk ek mbi k = Some k1" "sys_inv im k1" "tidy k1" using boot_text [OF assms(1)] by blast
  have low: "low_ok im k1" "ram k1 0 = ?z" using boot_low [OF assms(1) k1(1)] assms(2) boot_init_mapped [OF assms(8)] by (simp_all add: low_ok_def)
  obtain k2 where k2: "nsh_newline im k1 = Some k2" "at_prompt im ?z [] k2" "kbd k2 = kbd k1" "data_reads (ports (hw k2)) = data_reads (ports (hw k1))"
    using newline_at_prompt [OF k1(2,3) low] by blast
  have io: "kbd k2 = KBD_initialize (kbd k)" "data_reads (ports (hw k2)) = data_reads (ports (hw k))"
    using k2(3,4) kernel_boot_io [OF k1(1)] by simp_all
  have e: "\<not> ext (kbd k2)" using assms(3) by (simp add: io KBD_initialize_def KBD_setkeymap_def)
  obtain evt' k' where k': "nsh im evt k1 (evt', k')" "at_prompt im ?z xs k'" "kbd k' = st" "drop (data_reads (ports (hw k'))) bs = rest"
    using run_at_prompt [OF nsh_start [OF k2(1), of evt] k2(2) assms(4) _ assms(6) e, of rest xs st] assms(5,7) unfolding io by blast
  obtain b l where t: "con_text k' (typed_page (color (cur k')) b (l @ prompt_cells (color (cur k'))) xs)" using k'(2) by (rule at_promptE)
  have "displays (vga (hw k')) (b @ wrap (l @ prompt_cells (color (cur k')) @ map (cell (color (cur k'))) xs))"
    using con_text_displays [OF t] by (simp add: typed_page_def)
  moreover have "kernel_main im sk ek mbi evt k (evt', k')" by (rule boot [OF k1(1) k'(1)])
  moreover have "sys_inv im k'" "line_is im k' xs" using k'(2) by (simp_all add: at_prompt_def)
  ultimately show ?thesis using k'(3,4) by blast
qed

text \<open>
  The demonstration machine, on which the line \<^verbatim>\<open>keymap fr\<close>, its first word completed by the tabulation, is entered, and then the key at the place of Q is pressed.
\<close>

definition demo_stroke :: "u8 \<Rightarrow> press" where
  "demo_stroke b = ([], (False, b, KEY_PRESSED))"

definition demo_presses :: "press list" where
  "demo_presses = map demo_stroke [0x25, 0x12, 0x0F, 0x39, 0x21, 0x13, 0x1C, 0x10]"

lemma demo_session:
  "\<exists>st. sh_session (ucast (divide_error_addr (isr demo_image))) demo_presses ([], KBD_initialize kbd_st_zero) = Some (bytes ''a'', st)"
  "\<forall>p \<in> set demo_presses. press_ok p" "concat (map press_bytes demo_presses) = [0x25, 0x12, 0x0F, 0x39, 0x21, 0x13, 0x1C, 0x10]"
proof -
  have "map_option fst (sh_session (ucast (divide_error_addr (isr demo_image))) demo_presses ([], KBD_initialize kbd_st_zero)) = Some (bytes ''a'')" by code_simp
  then show "\<exists>st. sh_session (ucast (divide_error_addr (isr demo_image))) demo_presses ([], KBD_initialize kbd_st_zero) = Some (bytes ''a'', st)" by auto
  show "\<forall>p \<in> set demo_presses. press_ok p" "concat (map press_bytes demo_presses) = [0x25, 0x12, 0x0F, 0x39, 0x21, 0x13, 0x1C, 0x10]" by code_simp+
qed

text \<open>The pages that \<^verbatim>\<open>boot_init\<close> has set up on memory of zeros.\<close>

definition demo_pages :: "ptr \<Rightarrow> bool" where
  "demo_pages = (\<lambda>a. translate (fst (boot_init (\<lambda>_. 0))) (snd (boot_init (\<lambda>_. 0))) a \<noteq> None)"

theorem kernel_session_runs_witness:
  "\<exists>evt' k'. kernel_main (demo_image\<lparr>dev := demo_ps2 [0x25, 0x12, 0x0F, 0x39, 0x21, 0x13, 0x1C, 0x10], mapped := demo_pages\<rparr>) 0x100000 0xC0120000 demo_mbi
      \<lparr>evt_type = KEY_PRESSED, key = UNKNOWN\<rparr> (demo_kernel (demo_ram (\<lambda>_. 0))) (evt', k')
    \<and> line_is (demo_image\<lparr>dev := demo_ps2 [0x25, 0x12, 0x0F, 0x39, 0x21, 0x13, 0x1C, 0x10], mapped := demo_pages\<rparr>) k' (bytes ''a'')"
proof -
  let ?bs = "[0x25, 0x12, 0x0F, 0x39, 0x21, 0x13, 0x1C, 0x10] :: u8 list" and ?k = "demo_kernel (demo_ram (\<lambda>_. 0))"
  let ?im = "demo_image\<lparr>dev := demo_ps2 ?bs, mapped := demo_pages\<rparr>"
  have b: "boot_ok ?im 0x100000 0xC0120000 demo_mbi ?k"
    using demo_boot_dev [of "demo_ps2 ?bs"] by (simp add: boot_ok_def boot_layout_def layout_ok_def lits_ok_def lit_ok_def lit_area_def Let_def)
  have k: "kbd ?k = kbd_st_zero" "ports (hw ?k) = []" "\<not> ext (kbd ?k)" by (simp_all add: demo_kernel_def demo_video_def kbd_st_zero_def)
  have z: "0 \<notin> blk (nsh_buf ?im) NSH_SIZE \<union> blk (kbuf ?im) 4096" by (simp add: demo_image_def in_blk_iff NSH_SIZE_def)
  have d: "ps2_delivers (dev ?im) ?bs" using demo_ps2_delivers [of ?bs] by simp
  obtain st where st: "sh_session (ucast (divide_error_addr (isr ?im))) demo_presses ([], KBD_initialize (kbd ?k)) = Some (bytes ''a'', st)"
    using demo_session(1) by (auto simp: k(1))
  have p: "mapped ?im = (\<lambda>a. translate (fst (boot_init (\<lambda>_. 0))) (snd (boot_init (\<lambda>_. 0))) a \<noteq> None)" by (simp add: demo_pages_def)
  have "drop (data_reads (ports (hw ?k))) ?bs = concat (map press_bytes demo_presses) @ []" by (simp add: k demo_session(3))
  from kernel_session_runs [OF b z k(3) d this demo_session(2) st p] show ?thesis by blast
qed

end
