(* ===== verification/Shell.thy ===== *)
theory Shell
  imports System Builtins_System
begin

text \<open>
  The first shell, \<^verbatim>\<open>src/kernel/shell.c\<close>, which the sources keep although the build uses \<^verbatim>\<open>nsh\<close>: a line of at most 31
  characters, a hash of the line, and a table of functions indexed by the hash.

  The file is older than the rest: it includes \<^verbatim>\<open>vga.h\<close>, which the sources do not have.  Of the fourteen functions of the table, six are commands
  of \<^verbatim>\<open>nsh/builtins\<close> (\<^verbatim>\<open>reboot\<close>, \<^verbatim>\<open>poweroff\<close>, \<^verbatim>\<open>clear\<close>, \<^verbatim>\<open>help\<close>, \<^verbatim>\<open>alloc\<close> and \<^verbatim>\<open>free\<close>) and run here as they stand there; the other eight
  have no body in the sources, nor has \<^verbatim>\<open>VGA_putchar\<close>.  They are parameters, \<open>undef\<close> and \<open>VGA_putchar\<close>, which may or may not come back.
  The table calls its functions without arguments; \<open>stray\<close> stands for the argument count and vector that a command then finds on the
  stack.  The static buffer stands at the address \<open>bf\<close>.
\<close>

unbundle bit_operations_syntax

section \<open>Definitions\<close>

definition HASH_VALUE :: u32 where "HASH_VALUE = 5381"
definition HASH_MOD :: u32 where "HASH_MOD = 100"
definition SHELL_BUFSIZE :: u32 where "SHELL_BUFSIZE = 32"

datatype shell_fn =
    F_reboot | F_gdt_print | F_key_us | F_print_stack | F_color_red | F_int_divide | F_clear
  | F_help | F_alloc | F_poweroff | F_free | F_buddy_print | F_key_fr | F_color_reset

definition f_ptr :: "shell_fn option list" where
  "f_ptr = (replicate (unat HASH_MOD) None)
     [14 := Some F_reboot, 20 := Some F_gdt_print, 21 := Some F_key_us, 29 := Some F_print_stack, 30 := Some F_color_red,
      37 := Some F_int_divide, 52 := Some F_clear, 60 := Some F_help, 61 := Some F_alloc, 62 := Some F_poweroff,
      71 := Some F_free, 88 := Some F_buddy_print, 90 := Some F_key_fr, 98 := Some F_color_reset]"

definition print_prompt :: "image \<Rightarrow> kernel \<Rightarrow> kernel option" where
  "print_prompt im = kprint im ''$>'' []"

definition error_cmd :: "image \<Rightarrow> ptr \<Rightarrow> kernel \<Rightarrow> kernel option" where
  "error_cmd im bf = kprint im ''ksh: %s: command not found\<newline>'' [bf]"

text \<open>The characters are signed, so a byte from 0x80 on is extended to the upper half of the words.\<close>

partial_function (option) dj2b_loop :: "mem \<Rightarrow> ptr \<Rightarrow> u32 \<Rightarrow> u32 option" where
  "dj2b_loop m to_hash hash =
     (let c = scast (m to_hash) in if c \<noteq> 0 then dj2b_loop m (to_hash + 1) (c + push_bit 1 hash) else Some hash)"

declare dj2b_loop.simps [code]

definition dj2b_hash :: "mem \<Rightarrow> ptr \<Rightarrow> u32 option" where
  "dj2b_hash m to_hash = do { hash \<leftarrow> dj2b_loop m to_hash HASH_VALUE; Some (hash mod HASH_MOD) }"

text \<open>A call through the table.\<close>

definition shell_call :: "(shell_fn \<Rightarrow> kernel \<Rightarrow> kernel option) \<Rightarrow> (kernel \<Rightarrow> int \<times> (nat \<Rightarrow> ptr)) \<Rightarrow> image \<Rightarrow> shell_fn \<Rightarrow> kernel \<Rightarrow> kernel option" where
  "shell_call undef stray im f k =
     (case f of
        F_reboot \<Rightarrow> map_option snd (blt_reboot im k)
      | F_poweroff \<Rightarrow> map_option snd (blt_poweroff im k)
      | F_clear \<Rightarrow> blt_clear im k
      | F_help \<Rightarrow> map_option snd (blt_help im k)
      | F_alloc \<Rightarrow> map_option snd (blt_alloc im (fst (stray k)) (snd (stray k)) k)
      | F_free \<Rightarrow> map_option snd (blt_free im (fst (stray k)) (snd (stray k)) k)
      | _ \<Rightarrow> undef f k)"

text \<open>A read of the table outside its 100 entries has no value.\<close>

definition handle_command :: "(shell_fn \<Rightarrow> kernel \<Rightarrow> kernel option) \<Rightarrow> (kernel \<Rightarrow> int \<times> (nat \<Rightarrow> ptr)) \<Rightarrow> image \<Rightarrow> ptr \<Rightarrow> kernel \<Rightarrow> kernel option" where
  "handle_command undef stray im bf k =
     do { hash \<leftarrow> dj2b_hash (ram k) bf;
          if hash > HASH_MOD then error_cmd im bf k
          else if unat hash < length f_ptr then
            (case f_ptr ! unat hash of None \<Rightarrow> error_cmd im bf k | Some f \<Rightarrow> shell_call undef stray im f k)
          else None }"

definition buffer_put :: "ptr \<Rightarrow> u8 \<Rightarrow> u8 \<Rightarrow> kernel \<Rightarrow> kernel" where
  "buffer_put bf i c k = set_ram ((ram k)(bf + ucast i := c)) k"

definition buffer_clear :: "ptr \<Rightarrow> kernel \<Rightarrow> kernel" where
  "buffer_clear bf k = set_ram (fst (memset (ram k) bf 0 SHELL_BUFSIZE)) k"

definition fill_buffer :: "ptr \<Rightarrow> u8 \<Rightarrow> u8 \<Rightarrow> kernel \<Rightarrow> kernel" where
  "fill_buffer bf c i k = (if uint i < uint SHELL_BUFSIZE - 1 then buffer_put bf i c k else k)"

text \<open>What \<^verbatim>\<open>shell\<close> does with a character, from the index \<open>i\<close> and the kernel before it.\<close>

definition shell_char :: "(u8 \<Rightarrow> kernel \<Rightarrow> kernel option) \<Rightarrow> (shell_fn \<Rightarrow> kernel \<Rightarrow> kernel option) \<Rightarrow> (kernel \<Rightarrow> int \<times> (nat \<Rightarrow> ptr)) \<Rightarrow> image \<Rightarrow> ptr
    \<Rightarrow> u8 \<Rightarrow> u8 \<times> kernel \<Rightarrow> (u8 \<times> kernel) option" where
  "shell_char VGA_putchar undef stray im bf c = (\<lambda>(i, k).
     if c = 10 then
       do { k1 \<leftarrow> VGA_putchar c k;
            k2 \<leftarrow> (if i > 0 then handle_command undef stray im bf k1 else Some k1);
            k3 \<leftarrow> print_prompt im k2;
            Some (0, buffer_clear bf k3) }
     else if c = 8 then
       (if i > 0 then do { let i1 = i - 1; k1 \<leftarrow> VGA_putchar c k; Some (i1, buffer_put bf i1 0 k1) } else Some (i, k))
     else if uint i < uint SHELL_BUFSIZE - 1 then
       do { k1 \<leftarrow> VGA_putchar c (fill_buffer bf c i k); Some (i + 1, k1) }
     else Some (i, k))"

text \<open>One turn of the loop, and the states at its head: the event, the index and the kernel.\<close>

definition shell_step :: "(u8 \<Rightarrow> kernel \<Rightarrow> kernel option) \<Rightarrow> (shell_fn \<Rightarrow> kernel \<Rightarrow> kernel option) \<Rightarrow> (kernel \<Rightarrow> int \<times> (nat \<Rightarrow> ptr)) \<Rightarrow> image \<Rightarrow> ptr
    \<Rightarrow> kbd_event \<times> u8 \<times> kernel \<Rightarrow> (kbd_event \<times> u8 \<times> kernel) option" where
  "shell_step VGA_putchar undef stray im bf = (\<lambda>(evt, i, k).
     do { tr1 \<leftarrow> KBD_wait (dev im) (ports (hw k));
          (r, evt1, st1, tr2) \<leftarrow> KBD_getevent (dev im) evt (kbd k) tr1;
          let k1 = on_ports (\<lambda>_. tr2) (k\<lparr>kbd := st1\<rparr>);
          let c = KBD_getchar evt1 (kbd k1);
          if r = 0 \<and> evt_type evt1 = KEY_PRESSED \<and> c \<noteq> 0
          then do { (i2, k2) \<leftarrow> shell_char VGA_putchar undef stray im bf c (i, k1); Some (evt1, i2, k2) }
          else Some (evt1, i, k1) })"

inductive shell :: "(u8 \<Rightarrow> kernel \<Rightarrow> kernel option) \<Rightarrow> (shell_fn \<Rightarrow> kernel \<Rightarrow> kernel option) \<Rightarrow> (kernel \<Rightarrow> int \<times> (nat \<Rightarrow> ptr)) \<Rightarrow> image \<Rightarrow> ptr
    \<Rightarrow> kbd_event \<Rightarrow> kernel \<Rightarrow> kbd_event \<times> u8 \<times> kernel \<Rightarrow> bool" for VGA_putchar undef stray im bf evt k where
  shell_start: "print_prompt im k = Some k1 \<Longrightarrow> shell VGA_putchar undef stray im bf evt k (evt, 0, buffer_clear bf k1)"
| shell_turn: "shell VGA_putchar undef stray im bf evt k s \<Longrightarrow> shell_step VGA_putchar undef stray im bf s = Some s'
    \<Longrightarrow> shell VGA_putchar undef stray im bf evt k s'"

section \<open>The hash\<close>

definition dj2b :: "u8 list \<Rightarrow> u32" where
  "dj2b xs = fold (\<lambda>c h. scast c + 2 * h) xs HASH_VALUE"

lemma scast_u8_eq_0: "(scast (x :: u8) :: u32) = 0 \<longleftrightarrow> x = 0"
proof
  have "(ucast (scast x :: u32) :: u8) = x" by (rule bit_word_eqI) (simp add: bit_simps)
  then show "(scast x :: u32) = 0 \<Longrightarrow> x = 0" by simp
qed simp

lemma dj2b_loop_cstr: "cstr m p xs \<Longrightarrow> dj2b_loop m p h = Some (fold (\<lambda>c h. scast c + 2 * h) xs h)"
proof (induction xs arbitrary: p h)
  case Nil
  then show ?case by (subst dj2b_loop.simps) simp
next
  case (Cons x xs)
  then show ?case by (subst dj2b_loop.simps) (simp add: scast_u8_eq_0 push_bit_eq_mult Let_def mult.commute)
qed

lemma dj2b_hash_cstr: "cstr m p xs \<Longrightarrow> dj2b_hash m p = Some (dj2b xs mod 100)"
  by (simp add: dj2b_hash_def dj2b_loop_cstr dj2b_def HASH_MOD_def)

lemma dj2b_snoc: "dj2b (xs @ [x]) = scast x + 2 * dj2b xs"
  by (simp add: dj2b_def)

lemma length_f_ptr: "length f_ptr = 100"
  by (simp add: f_ptr_def HASH_MOD_def)

lemma mod_100_less: "unat (h mod 100 :: u32) < 100"
  by (simp add: unat_mod)

section \<open>The line\<close>

text \<open>The buffer holds the characters typed since the prompt, and zeros behind them.\<close>

definition typed :: "ptr \<Rightarrow> u8 \<Rightarrow> kernel \<Rightarrow> u8 list \<Rightarrow> bool" where
  "typed bf i k xs \<longleftrightarrow> unat i = length xs \<and> length xs < 32 \<and> set xs \<inter> {0, 8} = {}
     \<and> (\<forall>j < 32. ram k (bf + of_nat j) = (if j < length xs then xs ! j else 0))"

definition sh_edit :: "u8 \<Rightarrow> u8 list \<Rightarrow> u8 list" where
  "sh_edit c xs = (if c = 10 then [] else if c = 8 then butlast xs else if length xs < 31 then xs @ [c] else xs)"

lemma typed_cstr: "typed bf i k xs \<Longrightarrow> cstr (ram k) bf xs"
  unfolding typed_def cstr_iff by (auto simp: disjoint_iff in_set_conv_nth)

lemma buffer_put_simps [simp]:
  "con_inv (buffer_put bf i c k) = con_inv k" "ram (buffer_put bf i c k) = (ram k)(bf + ucast i := c)"
  by (simp_all add: buffer_put_def)

lemma buffer_clear_simps [simp]:
  "con_inv (buffer_clear bf k) = con_inv k" "ram (buffer_clear bf k) = filled (ram k) bf 0 32"
  by (simp_all add: buffer_clear_def memset_filled SHELL_BUFSIZE_def)

lemma ucast_index: "unat (i :: u8) = n \<Longrightarrow> (ucast i :: u32) = of_nat n"
  by auto

lemma buffer_at: "i < 32 \<Longrightarrow> j < 32 \<Longrightarrow> (of_nat i :: ptr) = of_nat j \<longleftrightarrow> i = j"
  by (simp add: of_nat_word_inj)

lemma typed_clear: "typed bf 0 (buffer_clear bf k) []"
  by (simp add: typed_def filled_def blk_add_of_nat)

lemma typed_append:
  assumes "typed bf i k xs" "length xs < 31" "c \<notin> {0, 8}"
  shows "typed bf (i + 1) (buffer_put bf i c k) (xs @ [c])"
proof -
  have i: "unat i = length xs" using assms(1) by (simp add: typed_def)
  then have "unat (i + 1) = Suc (length xs)" using assms(2) unat_add_no_wrap [of i 1] by simp
  moreover have "(ucast i :: u32) = of_nat (length xs)" by (rule ucast_index [OF i])
  ultimately show ?thesis using assms by (auto simp: typed_def nth_append buffer_at)
qed

lemma unat_pred: "i > 0 \<Longrightarrow> unat (i - 1) = unat i - 1" for i :: u8
  using unat_sub_no_wrap [of 1 i] by (simp add: word_less_nat_alt)

lemma typed_butlast:
  assumes "typed bf i k xs" "i > 0"
  shows "typed bf (i - 1) (buffer_put bf (i - 1) 0 k) (butlast xs)"
proof -
  have i: "unat i = length xs" "length xs < 32" using assms(1) by (simp_all add: typed_def)
  have u: "unat (i - 1) = length xs - 1" using i assms(2) by (simp add: unat_pred)
  moreover have "(ucast (i - 1) :: u32) = of_nat (length xs - 1)" by (rule ucast_index [OF u])
  moreover have "set (butlast xs) \<inter> {0, 8} = {}" using assms(1) in_set_butlastD [of _ xs] by (auto simp: typed_def)
  ultimately show ?thesis using assms(1) i(2) by (auto simp: typed_def nth_butlast buffer_at)
qed

text \<open>The screens have their invariant, and the two literals stand apart from the buffers.\<close>

definition sh_inv :: "image \<Rightarrow> ptr \<Rightarrow> kernel \<Rightarrow> bool" where
  "sh_inv im bf k \<longleftrightarrow> con_inv k \<and> blk bf 32 \<inter> blk (kbuf im) 4096 = {}
     \<and> (\<forall>s \<in> {''$>'', ''ksh: %s: command not found\<newline>''}. lit_ok im (ram k) s \<and> blk (lit im s) (Suc (length s)) \<inter> blk bf 32 = {})"

lemma typed_cong: "typed bf i k xs \<Longrightarrow> \<forall>a \<in> blk bf 32. ram k' a = ram k a \<Longrightarrow> typed bf i k' xs"
  by (simp add: typed_def blk_add_of_nat)

lemma sh_inv_step:
  assumes "sh_inv im bf k" "con_inv k'" "\<forall>a. a \<notin> blk bf 32 \<union> blk (kbuf im) 4096 \<longrightarrow> ram k' a = ram k a"
  shows "sh_inv im bf k'"
proof -
  have "lit_ok im (ram k') s" if s: "lit_ok im (ram k) s" "blk (lit im s) (Suc (length s)) \<inter> blk bf 32 = {}" for s
  proof -
    have "cstr (ram k') (lit im s) (bytes s) = cstr (ram k) (lit im s) (bytes s)"
      using s assms(3) by (intro cstr_cong) (auto simp: lit_ok_def bytes_def)
    then show ?thesis using s(1) by (simp add: lit_ok_def)
  qed
  then show ?thesis using assms(1,2) by (simp add: sh_inv_def)
qed

lemma sh_inv_buffer:
  assumes "sh_inv im bf k"
  shows "sh_inv im bf (buffer_clear bf k)" "unat i < 32 \<Longrightarrow> sh_inv im bf (buffer_put bf i c k)"
proof -
  have "con_inv k" using assms by (simp add: sh_inv_def)
  then show "sh_inv im bf (buffer_clear bf k)" by (intro sh_inv_step [OF assms]) (auto simp: filled_def)
  have "bf + ucast i \<in> blk bf 32" if "unat i < 32"
    using ucast_index [OF refl, of i] blk_add_of_nat [OF that, of bf] that by simp
  then show "unat i < 32 \<Longrightarrow> sh_inv im bf (buffer_put bf i c k)"
    using \<open>con_inv k\<close> by (intro sh_inv_step [OF assms]) auto
qed

lemma sh_says: "sh_inv im bf k \<Longrightarrow> says im k t k' \<Longrightarrow> sh_inv im bf k'"
  by (erule sh_inv_step) (simp_all add: says_def same_but_screen_def)

lemma print_prompt_says:
  assumes "sh_inv im bf k"
  shows "\<exists>k'. print_prompt im k = Some k' \<and> says im k (bytes ''$>'') k' \<and> sh_inv im bf k'"
proof -
  have "lit_ok im (ram k) ''$>''" "con_inv k" using assms by (simp_all add: sh_inv_def)
  moreover have "expand Map.empty 0 (bytes ''$>'') [] = Some (bytes ''$>'')" "printable (bytes ''$>'')"
    by (simp_all add: bytes_def printable_def)
  ultimately show ?thesis unfolding print_prompt_def using kprint_says [OF _ strs_ok_empty] sh_says [OF assms] by blast
qed

lemma error_cmd_says:
  assumes "sh_inv im bf k" "typed bf i k xs"
  shows "\<exists>k'. error_cmd im bf k = Some k' \<and> says im k (bytes ''ksh: '' @ xs @ bytes '': command not found\<newline>'') k' \<and> sh_inv im bf k'"
proof -
  let ?f = "''ksh: %s: command not found\<newline>''" and ?s = "[bf \<mapsto> xs]"
  have c: "cstr (ram k) bf xs" "length xs < 32" "set xs \<inter> {0, 8} = {}" using assms(2) typed_cstr by (simp_all add: typed_def)
  have "blk bf (Suc (length xs)) \<subseteq> blk bf 32" using c(2) by (auto simp: in_blk_iff)
  then have "strs_ok ?s (ram k) (kbuf im) 4096" using c assms(1) by (auto simp: strs_ok_def sh_inv_def)
  moreover have "expand ?s 0 (bytes ?f) [bf] = Some (bytes ''ksh: '' @ xs @ bytes '': command not found\<newline>'')"
    by (simp add: bytes_def is_pad_def spec_text_def va_arg_def)
  moreover have "length (bytes ''ksh: '' @ xs @ bytes '': command not found\<newline>'') < 4096" "0 \<notin> set (bytes ''ksh: '' @ xs @ bytes '': command not found\<newline>'')"
      "8 \<notin> set (bytes ''ksh: '' @ xs @ bytes '': command not found\<newline>'')"
    using c by (auto simp: bytes_def)
  moreover have "lit_ok im (ram k) ?f" "con_inv k" using assms by (simp_all add: sh_inv_def)
  ultimately show ?thesis unfolding error_cmd_def using kprint_writes sh_says [OF assms(1)] by blast
qed

section \<open>Running a line\<close>

definition line_fn :: "u8 list \<Rightarrow> shell_fn option" where
  "line_fn xs = f_ptr ! unat (dj2b xs mod 100)"

lemma handle_command_line:
  assumes "typed bf i k xs"
  shows "handle_command undef stray im bf k = (case line_fn xs of None \<Rightarrow> error_cmd im bf k | Some f \<Rightarrow> shell_call undef stray im f k)"
proof -
  have h: "unat (dj2b xs mod 100) < 100" by (rule mod_100_less)
  then have "\<not> dj2b xs mod 100 > 100" by (simp add: word_less_nat_alt)
  then show ?thesis using h by (simp add: handle_command_def dj2b_hash_cstr [OF typed_cstr [OF assms]] HASH_MOD_def length_f_ptr line_fn_def)
qed

text \<open>What Enter does: the newline, then the command of a line that is not empty, then the prompt and an empty buffer.\<close>

definition enter_line :: "(u8 \<Rightarrow> kernel \<Rightarrow> kernel option) \<Rightarrow> (shell_fn \<Rightarrow> kernel \<Rightarrow> kernel option) \<Rightarrow> (kernel \<Rightarrow> int \<times> (nat \<Rightarrow> ptr)) \<Rightarrow> image \<Rightarrow> ptr
    \<Rightarrow> u8 list \<Rightarrow> kernel \<Rightarrow> (u8 \<times> kernel) option" where
  "enter_line VGA_putchar undef stray im bf xs k =
     do { k1 \<leftarrow> VGA_putchar 10 k;
          k2 \<leftarrow> (if xs = [] then Some k1 else case line_fn xs of None \<Rightarrow> error_cmd im bf k1 | Some f \<Rightarrow> shell_call undef stray im f k1);
          k3 \<leftarrow> print_prompt im k2;
          Some (0, buffer_clear bf k3) }"

text \<open>
  The buffer is static to the file, so \<^verbatim>\<open>VGA_putchar\<close> cannot name it; that it leaves those 32 bytes alone is all that the loop needs of it.
\<close>

definition spares :: "(u8 \<Rightarrow> kernel \<Rightarrow> kernel option) \<Rightarrow> ptr \<Rightarrow> bool" where
  "spares VGA_putchar bf \<longleftrightarrow> (\<forall>c k k'. VGA_putchar c k = Some k' \<longrightarrow> (\<forall>a \<in> blk bf 32. ram k' a = ram k a))"

lemma spares_typed: "spares VGA_putchar bf \<Longrightarrow> VGA_putchar c k = Some k' \<Longrightarrow> typed bf i k xs \<Longrightarrow> typed bf i k' xs"
  using typed_cong by (metis spares_def)

lemma shell_enter:
  assumes "spares VGA_putchar bf" "typed bf i k xs"
  shows "shell_char VGA_putchar undef stray im bf 10 (i, k) = enter_line VGA_putchar undef stray im bf xs k"
proof -
  have i: "i > 0 \<longleftrightarrow> xs \<noteq> []" using assms(2) by (simp add: typed_def word_less_nat_alt)
  show ?thesis
  proof (cases "VGA_putchar 10 k")
    case (Some k1)
    from spares_typed [OF assms(1) this assms(2)] show ?thesis
      using i Some by (simp add: shell_char_def enter_line_def handle_command_line)
  qed (simp add: shell_char_def enter_line_def)
qed

lemma shell_char_typed:
  assumes "spares VGA_putchar bf" "typed bf i k xs" "c \<noteq> 0" "shell_char VGA_putchar undef stray im bf c (i, k) = Some (i', k')"
  shows "typed bf i' k' (sh_edit c xs)"
proof -
  have i: "unat i = length xs" "unat i < 32" using assms(2) by (simp_all add: typed_def)
  consider "c = 10" | "c = 8" "i > 0" | "c = 8" "i = 0" | "c \<notin> {8, 10}" "length xs < 31" | "c \<notin> {8, 10}" "\<not> length xs < 31"
    by (auto simp: word_gt_0)
  then show ?thesis
  proof cases
    case 1
    then show ?thesis using assms(4) typed_clear by (auto simp: shell_char_def sh_edit_def bind_eq_Some_conv)
  next
    case 2
    then obtain k1 where k1: "VGA_putchar c k = Some k1" "i' = i - 1" "k' = buffer_put bf (i - 1) 0 k1"
      using assms(4) by (auto simp: shell_char_def bind_eq_Some_conv Let_def)
    show ?thesis using 2 typed_butlast [OF spares_typed [OF assms(1) k1(1) assms(2)] 2(2)] by (simp add: k1 sh_edit_def)
  next
    case 3
    then show ?thesis using assms(2,4) i by (auto simp: shell_char_def sh_edit_def)
  next
    case 4
    have "uint i < 31" using i 4(2) unfolding uint_nat by linarith
    then have "VGA_putchar c (buffer_put bf i c k) = Some k'" "i' = i + 1"
      using 4 assms(4) by (auto simp: shell_char_def fill_buffer_def SHELL_BUFSIZE_def bind_eq_Some_conv)
    then show ?thesis using 4 assms(3) spares_typed [OF assms(1) _ typed_append [OF assms(2) 4(2), of c]] by (simp add: sh_edit_def)
  next
    case 5
    have "\<not> uint i < 31" using i 5(2) unfolding uint_nat by linarith
    then show ?thesis using 5 assms(2,4) by (auto simp: shell_char_def sh_edit_def SHELL_BUFSIZE_def)
  qed
qed

text \<open>A key other than Enter fails to come back only where \<^verbatim>\<open>VGA_putchar\<close> does.\<close>

lemma shell_char_returns:
  assumes "c \<noteq> 10" "shell_char VGA_putchar undef stray im bf c (i, k) = None"
  shows "\<exists>k1. VGA_putchar c k1 = None"
  using assms by (auto simp: shell_char_def bind_eq_None_conv Let_def split: if_splits)

section \<open>Correctness properties\<close>

text \<open>
  The hash of a string is its polynomial with base 2 and the seed 5381, in 32-bit arithmetic and
  with signed characters, reduced below 100.
\<close>

theorem dj2b_hash_correct:
  assumes "cstr m p xs"
  shows "dj2b_hash m p = Some ((5381 * 2 ^ length xs + (\<Sum>j < length xs. scast (xs ! j) * 2 ^ (length xs - 1 - j))) mod 100)"
proof -
  have "dj2b xs = 5381 * 2 ^ length xs + (\<Sum>j < length xs. scast (xs ! j) * 2 ^ (length xs - 1 - j))" for xs
  proof (induction xs rule: rev_induct)
    case Nil
    then show ?case by (simp add: dj2b_def HASH_VALUE_def)
  next
    case (snoc x xs)
    have "(\<Sum>j < length xs. scast ((xs @ [x]) ! j) * 2 ^ (length xs - j)) = 2 * (\<Sum>j < length xs. (scast (xs ! j) :: u32) * 2 ^ (length xs - 1 - j))"
      unfolding sum_distrib_left
      by (rule sum.cong [OF refl]) (simp add: nth_append, metis Suc_diff_Suc mult.left_commute power_Suc)
    then show ?case using snoc by (simp add: dj2b_snoc nth_append algebra_simps)
  qed
  then show ?thesis using dj2b_hash_cstr [OF assms] by simp
qed

theorem dj2b_hash_correct_witness: "dj2b_hash ((\<lambda>_. 0)(0 := 0x66, 1 := 0x72)) 0 = Some 42"
  using dj2b_hash_correct [of "(\<lambda>_. 0)(0 := 0x66, 1 := 0x72)" 0 "[0x66, 0x72]"] by (simp add: lessThan_Suc)

text \<open>
  The function table and the hash agree.  Each command name hashes to the entry of its function, so that typing it runs it.
  The converse fails: the hash has 100 values, and a line such as \<^verbatim>\<open>keyfr\<close> runs \<^verbatim>\<open>reboot\<close>, though the comment on the hash calls its
  values unique.
\<close>

definition shell_names :: "(string \<times> shell_fn) list" where
  "shell_names = [(''reboot'', F_reboot), (''print_gdt'', F_gdt_print), (''key_us'', F_key_us), (''print_stack'', F_print_stack),
     (''color_red'', F_color_red), (''int_divide'', F_int_divide), (''clear'', F_clear), (''help'', F_help), (''alloc'', F_alloc),
     (''poweroff'', F_poweroff), (''free'', F_free), (''buddy_print'', F_buddy_print), (''key_fr'', F_key_fr), (''color_reset'', F_color_reset)]"

theorem shell_table_hashes:
  "map (\<lambda>(n, f). line_fn (bytes n)) shell_names = map (Some \<circ> snd) shell_names
   \<and> {i. i < 100 \<and> f_ptr ! i \<noteq> None} = (\<lambda>(n, f). unat (dj2b (bytes n) mod 100)) ` set shell_names
   \<and> line_fn (bytes ''keyfr'') = Some F_reboot \<and> line_fn (bytes ''divide'') = Some F_print_stack
   \<and> line_fn (bytes ''gdt_print'') = None"
proof -
  have "map (\<lambda>(n, f). line_fn (bytes n)) shell_names = map (Some \<circ> snd) shell_names" by code_simp
  moreover have "line_fn (bytes ''keyfr'') = Some F_reboot \<and> line_fn (bytes ''divide'') = Some F_print_stack
   \<and> line_fn (bytes ''gdt_print'') = None" by code_simp
  moreover have "filter (\<lambda>i. f_ptr ! i \<noteq> None) [0..<100] = sort (map (\<lambda>(n, f). unat (dj2b (bytes n) mod 100)) shell_names)" by code_simp
  then have "set (filter (\<lambda>i. f_ptr ! i \<noteq> None) [0..<100]) = set (map (\<lambda>(n, f). unat (dj2b (bytes n) mod 100)) shell_names)" by simp
  then have "{i. i < 100 \<and> f_ptr ! i \<noteq> None} = (\<lambda>(n, f). unat (dj2b (bytes n) mod 100)) ` set shell_names" by auto
  ultimately show ?thesis by blast
qed

text \<open>
  Enter on a line that names no function: the newline, the report with the text of the line, the prompt, and an empty line.
\<close>

theorem shell_unknown_line:
  assumes "spares VGA_putchar bf" "typed bf i k xs" "xs \<noteq> []" "line_fn xs = None" "VGA_putchar 10 k = Some k1" "sh_inv im bf k1"
  shows "\<exists>k2 k3. says im k1 (bytes ''ksh: '' @ xs @ bytes '': command not found\<newline>'') k2 \<and> says im k2 (bytes ''$>'') k3
    \<and> shell_char VGA_putchar undef stray im bf 10 (i, k) = Some (0, buffer_clear bf k3)"
proof -
  have "typed bf i k1 xs" by (rule spares_typed [OF assms(1,5,2)])
  from error_cmd_says [OF assms(6) this] obtain k2 where
    k2: "error_cmd im bf k1 = Some k2" "says im k1 (bytes ''ksh: '' @ xs @ bytes '': command not found\<newline>'') k2" "sh_inv im bf k2" by blast
  then obtain k3 where "print_prompt im k2 = Some k3" "says im k2 (bytes ''$>'') k3" using print_prompt_says by blast
  then show ?thesis using k2 assms(3-5) by (auto simp: shell_enter [OF assms(1,2)] enter_line_def)
qed

text \<open>
  C17: the line buffer of the first shell.  In every state the loop runs through, whatever is typed and whatever the functions of the table do or fail to do,
  the index and the 32 bytes of the buffer represent a line of at most 31 characters with no NUL and no backspace, terminated within
  the buffer.  A further key that comes back has edited that line, and a key other than Enter comes back unless \<^verbatim>\<open>VGA_putchar\<close> does not.  Enter runs the function at the
  entry of the table that the line hashes to, or reports the line if there is none (the index never leaves the table), then shows the prompt and
  empties the line.  The one hypothesis is that \<^verbatim>\<open>VGA_putchar\<close>, which the sources only call, does not write to the static buffer.
\<close>

theorem shell_line_invariant:
  assumes "spares VGA_putchar bf" "shell VGA_putchar undef stray im bf evt0 k0 (evt, i, k)"
  shows "\<exists>xs. typed bf i k xs \<and> cstr (ram k) bf xs
    \<and> (\<forall>c i' k'. c \<noteq> 0 \<and> shell_char VGA_putchar undef stray im bf c (i, k) = Some (i', k') \<longrightarrow> typed bf i' k' (sh_edit c xs))
    \<and> (\<forall>c. c \<noteq> 10 \<and> shell_char VGA_putchar undef stray im bf c (i, k) = None \<longrightarrow> (\<exists>k1. VGA_putchar c k1 = None))
    \<and> shell_char VGA_putchar undef stray im bf 10 (i, k) = enter_line VGA_putchar undef stray im bf xs k"
proof -
  have "\<exists>xs. typed bf (fst (snd s)) (snd (snd s)) xs" if "shell VGA_putchar undef stray im bf evt0 k0 s" for s
    using that
  proof (induction rule: shell.induct)
    case (shell_start k1)
    show ?case using typed_clear [of bf k1] by auto
  next
    case (shell_turn s s')
    obtain evt i k where s: "s = (evt, i, k)" by (metis prod.collapse)
    obtain xs where xs: "typed bf i k xs" using shell_turn.IH by (auto simp: s)
    have p: "typed bf i (on_ports f (k\<lparr>kbd := st\<rparr>)) xs" for f st
      using xs by (simp add: typed_def on_ports_def)
    obtain tr r evt1 st1 k1 where k1: "k1 = on_ports (\<lambda>_. tr) (k\<lparr>kbd := st1\<rparr>)"
      "(if r = (0 :: int) \<and> evt_type evt1 = KEY_PRESSED \<and> KBD_getchar evt1 (kbd k1) \<noteq> 0
        then do { (i2, k2) \<leftarrow> shell_char VGA_putchar undef stray im bf (KBD_getchar evt1 (kbd k1)) (i, k1); Some (evt1, i2, k2) }
        else Some (evt1, i, k1)) = Some s'"
      using shell_turn.hyps(2) unfolding s shell_step_def Let_def
      by (simp only: case_prod_conv) (auto simp: bind_eq_Some_conv split del: if_split)
    have t: "typed bf i k1 xs" unfolding k1(1) by (rule p)
    show ?case
    proof (cases "r = 0 \<and> evt_type evt1 = KEY_PRESSED \<and> KBD_getchar evt1 (kbd k1) \<noteq> 0")
      case True
      then obtain i2 k2 where s': "shell_char VGA_putchar undef stray im bf (KBD_getchar evt1 (kbd k1)) (i, k1) = Some (i2, k2)" "s' = (evt1, i2, k2)"
        using k1(2) by (auto simp: bind_eq_Some_conv)
      show ?thesis using shell_char_typed [OF assms(1) t _ s'(1)] True by (auto simp: s'(2))
    next
      case False
      then have "s' = (evt1, i, k1)" using k1(2) by auto
      then show ?thesis using t by (intro exI [of _ xs]) simp
    qed
  qed
  from this [OF assms(2)] obtain xs where xs: "typed bf i k xs" by auto
  then show ?thesis
    by (intro exI [of _ xs] conjI allI impI)
      (auto intro: typed_cstr shell_char_typed [OF assms(1) xs] shell_char_returns shell_enter [OF assms(1) xs])
qed

section \<open>A concrete environment\<close>

definition sh_literals :: "string list" where
  "sh_literals = [''$>'', ''ksh: %s: command not found\<newline>'']"

definition sh_image :: image where
  "sh_image = demo_image\<lparr>lit := pool_lit 0x20000 sh_literals\<rparr>"

definition sh_putchar :: "u8 \<Rightarrow> kernel \<Rightarrow> kernel option" where
  "sh_putchar c k = (if c = 8 then Some k else on_screen (sb_putchar (dev sh_image) c) k)"

lemma sh_putchar_returns: "con_inv k \<Longrightarrow> \<exists>k'. sh_putchar c k = Some k'"
proof (cases "c = 8")
  case False
  assume k: "con_inv k"
  obtain s v where "sb_putchar (dev sh_image) c (cur k) (hw k) = Some (s, v)"
    using sb_putchar_ok [OF con_invD(2) [OF k], of c "hw k" "dev sh_image"] False by (auto simp: sb_ok_def)
  then show ?thesis using False con_invD(1) [OF k] by (simp add: sh_putchar_def on_screen_def)
qed (simp add: sh_putchar_def)

lemma sh_demo_spares: "spares sh_putchar bf"
  by (auto simp: spares_def sh_putchar_def on_screen_def bind_eq_Some_conv set_cur_def split: if_splits)

lemma sh_demo_inv: "sh_inv sh_image 0x8000 (demo_kernel (pool_mem 0x20000 sh_literals m))"
proof -
  let ?m = "pool_mem 0x20000 sh_literals m"
  have d: "blk 0x8000 32 \<inter> blk 0x10000 4096 = {}" "blk 0x8000 32 \<inter> blk 0x20000 256 = {}" "blk 0x10000 4096 \<inter> blk 0x20000 256 = {}"
    by (rule blk_apart; simp)+
  have "cstr ?m (pool_lit 0x20000 sh_literals s) (bytes s)" "blk (pool_lit 0x20000 sh_literals s) (Suc (length s)) \<subseteq> blk 0x20000 256" "length s < 128"
    if "s \<in> set sh_literals" for s
  proof -
    have st: "storable s" using that by (auto simp: sh_literals_def storable_def)
    show "cstr ?m (pool_lit 0x20000 sh_literals s) (bytes s)" by (rule pool_cstr [OF that st]) (simp add: sh_literals_def)
    show "blk (pool_lit 0x20000 sh_literals s) (Suc (length s)) \<subseteq> blk 0x20000 256"
      using pool_slot [OF that st, of "0x20000"] by (simp add: sh_literals_def)
    show "length s < 128" using st by (simp add: storable_def)
  qed
  then have "lit_ok sh_image ?m s \<and> blk (lit sh_image s) (Suc (length s)) \<inter> blk 0x8000 32 = {}" if "s \<in> set sh_literals" for s
    using that d by (fastforce simp: lit_ok_def sh_image_def demo_image_def)
  then show ?thesis using d(1) demo_kernel_inv [of ?m]
    by (simp add: sh_inv_def sh_literals_def) (simp add: demo_kernel_def sh_image_def demo_image_def)
qed

text \<open>The functions that the sources do not have never come back; the others find no arguments.\<close>

theorem shell_line_invariant_witness:
  "\<exists>k. shell sh_putchar (\<lambda>_ _. None) (\<lambda>_. (0, \<lambda>_. 0)) sh_image 0x8000 \<lparr>evt_type = KEY_PRESSED, key = KEY_K\<rparr> (demo_kernel (pool_mem 0x20000 sh_literals (\<lambda>_. 0)))
      (\<lparr>evt_type = KEY_PRESSED, key = KEY_K\<rparr>, 0, k) \<and> cstr (ram k) 0x8000 []
    \<and> (\<exists>i' k'. shell_char sh_putchar (\<lambda>_ _. None) (\<lambda>_. (0, \<lambda>_. 0)) sh_image 0x8000 107 (0, k) = Some (i', k') \<and> typed 0x8000 i' k' [107])
    \<and> shell_char sh_putchar (\<lambda>_ _. None) (\<lambda>_. (0, \<lambda>_. 0)) sh_image 0x8000 10 (0, k) = enter_line sh_putchar (\<lambda>_ _. None) (\<lambda>_. (0, \<lambda>_. 0)) sh_image 0x8000 [] k"
proof -
  let ?k = "demo_kernel (pool_mem 0x20000 sh_literals (\<lambda>_. 0))" and ?evt = "\<lparr>evt_type = KEY_PRESSED, key = KEY_K\<rparr>"
  obtain k1 where k1: "print_prompt sh_image ?k = Some k1" "sh_inv sh_image 0x8000 k1" using print_prompt_says [OF sh_demo_inv] by blast
  let ?k1 = "buffer_clear 0x8000 k1"
  have run: "shell sh_putchar (\<lambda>_ _. None) (\<lambda>_. (0, \<lambda>_. 0)) sh_image 0x8000 ?evt ?k (?evt, 0, ?k1)" by (rule shell_start [OF k1(1)])
  obtain xs where xs: "typed 0x8000 0 ?k1 xs" "cstr (ram ?k1) 0x8000 xs"
    "\<forall>c i' k'. c \<noteq> 0 \<and> shell_char sh_putchar (\<lambda>_ _. None) (\<lambda>_. (0, \<lambda>_. 0)) sh_image 0x8000 c (0, ?k1) = Some (i', k') \<longrightarrow> typed 0x8000 i' k' (sh_edit c xs)"
    "shell_char sh_putchar (\<lambda>_ _. None) (\<lambda>_. (0, \<lambda>_. 0)) sh_image 0x8000 10 (0, ?k1) = enter_line sh_putchar (\<lambda>_ _. None) (\<lambda>_. (0, \<lambda>_. 0)) sh_image 0x8000 xs ?k1"
    using shell_line_invariant [OF sh_demo_spares run] by blast
  have e: "xs = []" using xs(1) by (simp add: typed_def)
  have "con_inv (buffer_put 0x8000 0 107 ?k1)" using k1(2) by (simp add: sh_inv_def)
  from sh_putchar_returns [OF this, of 107] obtain k2 where "sh_putchar 107 (buffer_put 0x8000 0 107 ?k1) = Some k2" by blast
  then have c: "shell_char sh_putchar (\<lambda>_ _. None) (\<lambda>_. (0, \<lambda>_. 0)) sh_image 0x8000 107 (0, ?k1) = Some (1, k2)"
    by (simp add: shell_char_def fill_buffer_def SHELL_BUFSIZE_def)
  have "typed 0x8000 1 k2 (sh_edit 107 xs)" by (rule mp [OF spec [OF spec [OF spec [OF xs(3)]]]]) (simp add: c)
  then show ?thesis using run xs(2,4) c by (intro exI [of _ ?k1]) (auto simp: e sh_edit_def)
qed

end
