(* ===== verification/Isr_Stack.thy ===== *)
theory Isr_Stack
  imports Machine
begin

text \<open>
  The macros \<^verbatim>\<open>LOAD_INTERRUPT_STACK\<close> and \<^verbatim>\<open>RESET_INTERRUPT_STACK\<close> of \<^verbatim>\<open>src/kernel/idt_internal.h\<close>, which stand around the body of every interrupt
  handler: assembly, as lists of instructions over the registers they use and the flat memory.
\<close>

unbundle bit_operations_syntax

section \<open>Definitions\<close>

record cpu =
  eax :: u32
  esp :: ptr
  seg_ds :: u16
  seg_es :: u16
  seg_fs :: u16
  seg_gs :: u16
  int_flag :: bool
  cpu_mem :: mem

datatype instr = CLI | STI | MOV_DS_AX | MOV_IMM_AX u16 | MOV_AX_DS | MOV_AX_ES | MOV_AX_FS | MOV_AX_GS
  | PUSH_EAX | POP_EAX | ADD_ESP u32 | SUB_ESP u32

text \<open>A move to \<open>%ax\<close> keeps the upper half of \<open>%eax\<close>; operands are in the order of the sources, source first.\<close>

definition set_ax :: "u16 \<Rightarrow> cpu \<Rightarrow> cpu" where
  "set_ax v c = c\<lparr>eax := (eax c AND 0xFFFF0000) OR ucast v\<rparr>"

definition ax :: "cpu \<Rightarrow> u16" where
  "ax c = ucast (eax c)"

fun iexec :: "instr \<Rightarrow> cpu \<Rightarrow> cpu" where
  "iexec CLI c = c\<lparr>int_flag := False\<rparr>"
| "iexec STI c = c\<lparr>int_flag := True\<rparr>"
| "iexec MOV_DS_AX c = set_ax (seg_ds c) c"
| "iexec (MOV_IMM_AX v) c = set_ax v c"
| "iexec MOV_AX_DS c = c\<lparr>seg_ds := ax c\<rparr>"
| "iexec MOV_AX_ES c = c\<lparr>seg_es := ax c\<rparr>"
| "iexec MOV_AX_FS c = c\<lparr>seg_fs := ax c\<rparr>"
| "iexec MOV_AX_GS c = c\<lparr>seg_gs := ax c\<rparr>"
| "iexec PUSH_EAX c = c\<lparr>esp := esp c - 4, cpu_mem := store32 (cpu_mem c) (esp c - 4) (eax c)\<rparr>"
| "iexec POP_EAX c = c\<lparr>eax := load32 (cpu_mem c) (esp c), esp := esp c + 4\<rparr>"
| "iexec (ADD_ESP n) c = c\<lparr>esp := esp c + n\<rparr>"
| "iexec (SUB_ESP n) c = c\<lparr>esp := esp c - n\<rparr>"

definition LOAD_INTERRUPT_STACK :: "instr list" where
  "LOAD_INTERRUPT_STACK = [CLI, MOV_DS_AX, PUSH_EAX, MOV_IMM_AX 0x10, MOV_AX_DS, MOV_AX_ES, MOV_AX_FS, MOV_AX_GS, ADD_ESP 4]"

definition RESET_INTERRUPT_STACK :: "instr list" where
  "RESET_INTERRUPT_STACK = [SUB_ESP 4, POP_EAX, MOV_AX_DS, MOV_AX_ES, MOV_AX_FS, MOV_AX_GS, STI]"

definition run :: "instr list \<Rightarrow> cpu \<Rightarrow> cpu" where
  "run is c = fold iexec is c"

section \<open>The two macros\<close>

lemma set_ax_simps [simp]:
  "ax (set_ax v c) = v" "esp (set_ax v c) = esp c" "cpu_mem (set_ax v c) = cpu_mem c" "int_flag (set_ax v c) = int_flag c"
  "seg_ds (set_ax v c) = seg_ds c" "seg_es (set_ax v c) = seg_es c" "seg_fs (set_ax v c) = seg_fs c" "seg_gs (set_ax v c) = seg_gs c"
proof -
  have "ucast ((x AND 0xFFFF0000) OR ucast v) = v" for x :: u32
  proof -
    have e: "(0xFFFF0000 :: u32) = push_bit 16 (mask 16)" by (simp add: mask_eq_exp_minus_1 push_bit_eq_mult)
    show ?thesis unfolding e by (rule bit_word_eqI) (auto simp: bit_simps)
  qed
  then show "ax (set_ax v c) = v" by (simp add: ax_def set_ax_def)
qed (simp_all add: set_ax_def)

lemma ax_update [simp]:
  "ax (c\<lparr>int_flag := b\<rparr>) = ax c" "ax (c\<lparr>esp := e\<rparr>) = ax c" "ax (c\<lparr>cpu_mem := m\<rparr>) = ax c"
  "ax (c\<lparr>seg_ds := s\<rparr>) = ax c" "ax (c\<lparr>seg_es := s\<rparr>) = ax c" "ax (c\<lparr>seg_fs := s\<rparr>) = ax c" "ax (c\<lparr>seg_gs := s\<rparr>) = ax c"
  by (simp_all add: ax_def)

lemma load_stack:
  fixes c :: cpu
  defines "c1 \<equiv> run LOAD_INTERRUPT_STACK c"
  shows "seg_ds c1 = 0x10" "seg_es c1 = 0x10" "seg_fs c1 = 0x10" "seg_gs c1 = 0x10" "esp c1 = esp c" "\<not> int_flag c1"
    "cpu_mem c1 = store32 (cpu_mem c) (esp c - 4) (eax (set_ax (seg_ds c) c))"
  unfolding c1_def by (simp_all add: run_def LOAD_INTERRUPT_STACK_def) (simp add: set_ax_def)

lemma reset_stack:
  fixes c :: cpu
  defines "w \<equiv> load32 (cpu_mem c) (esp c - 4)" and "c1 \<equiv> run RESET_INTERRUPT_STACK c"
  shows "seg_ds c1 = ucast w" "seg_es c1 = ucast w" "seg_fs c1 = ucast w" "seg_gs c1 = ucast w" "esp c1 = esp c" "int_flag c1" "cpu_mem c1 = cpu_mem c" "eax c1 = w"
  unfolding c1_def by (simp_all add: run_def RESET_INTERRUPT_STACK_def w_def ax_def)

lemma ucast_load32: "ucast (load32 m p) = load16 m p"
  by (rule bit_word_eqI) (auto simp: load32_def bit_simps)

section \<open>Correctness properties\<close>

text \<open>
  C35: the macros around an interrupt handler.  The first one disables interrupts, puts the kernel data selector in the four segment registers and leaves the
  stack pointer where it was, so that the saved \<^verbatim>\<open>ds\<close> lies below it.  When the body returns with the stack pointer as it found it, the second one enables interrupts
  and gives all four registers the low half of the word that lies there now: \<^verbatim>\<open>ds\<close> has its value of before exactly when the body has not
  overwritten that place, as its first push would, and \<^verbatim>\<open>es\<close>, \<^verbatim>\<open>fs\<close> and \<^verbatim>\<open>gs\<close> get the value of \<^verbatim>\<open>ds\<close> in any case.
\<close>

theorem interrupt_stack_segments:
  assumes "esp c2 = esp c"
  shows "let c1 = run LOAD_INTERRUPT_STACK c; c3 = run RESET_INTERRUPT_STACK c2 in
     seg_ds c1 = 0x10 \<and> seg_es c1 = 0x10 \<and> seg_fs c1 = 0x10 \<and> seg_gs c1 = 0x10 \<and> \<not> int_flag c1 \<and> esp c1 = esp c
     \<and> (\<forall>a. a \<notin> blk (esp c - 4) 4 \<longrightarrow> cpu_mem c1 a = cpu_mem c a)
     \<and> esp c3 = esp c \<and> int_flag c3 \<and> cpu_mem c3 = cpu_mem c2
     \<and> seg_ds c3 = load16 (cpu_mem c2) (esp c - 4) \<and> seg_es c3 = seg_ds c3 \<and> seg_fs c3 = seg_ds c3 \<and> seg_gs c3 = seg_ds c3
     \<and> (seg_ds c3 = seg_ds c \<longleftrightarrow> load16 (cpu_mem c2) (esp c - 4) = load16 (cpu_mem c1) (esp c - 4))"
proof -
  have "load16 (cpu_mem (run LOAD_INTERRUPT_STACK c)) (esp c - 4) = seg_ds c"
    using set_ax_simps(1) [of "seg_ds c" c] by (simp add: load_stack load_store ax_def flip: ucast_load32)
  then show ?thesis using assms by (simp add: Let_def load_stack reset_stack ucast_load32 store32_frame)
qed

text \<open>A processor with the stack at 0x9000, and a body that has pushed one word.\<close>

definition demo_cpu :: cpu where
  "demo_cpu = \<lparr>eax = 0xCAFE0001, esp = 0x9000, seg_ds = 0x23, seg_es = 0x23, seg_fs = 0x23, seg_gs = 0x2B, int_flag = True, cpu_mem = (\<lambda>_. 0)\<rparr>"

theorem interrupt_stack_segments_witness:
  "seg_ds (run RESET_INTERRUPT_STACK (run [PUSH_EAX, ADD_ESP 4] (run LOAD_INTERRUPT_STACK demo_cpu))) = 0x10 \<and> seg_ds demo_cpu = 0x23"
proof -
  let ?c1 = "run LOAD_INTERRUPT_STACK demo_cpu"
  let ?c2 = "run [PUSH_EAX, ADD_ESP 4] ?c1"
  have 2: "esp ?c2 = esp ?c1" "cpu_mem ?c2 = store32 (cpu_mem ?c1) (esp ?c1 - 4) (eax ?c1)" by (simp_all add: run_def [of "[PUSH_EAX, ADD_ESP 4]"])
  have e: "esp ?c2 = esp demo_cpu" using 2(1) by (simp add: load_stack)
  have "seg_ds (run RESET_INTERRUPT_STACK ?c2) = load16 (cpu_mem ?c2) (esp demo_cpu - 4)" using interrupt_stack_segments [OF e] by (simp only: Let_def)
  also have "\<dots> = ucast (eax ?c1)" by (simp add: 2(2) load_stack load_store flip: ucast_load32)
  also have "\<dots> = 0x10" by (simp add: run_def LOAD_INTERRUPT_STACK_def demo_cpu_def set_ax_def)
  finally show ?thesis by (simp add: demo_cpu_def)
qed

end
