(* ===== verification/Spinlock.thy ===== *)
theory Spinlock
  imports Kfs_Prelude
begin

text \<open>
  The spinlock of \<^verbatim>\<open>src/kernel/spinlock.c\<close>.  \<^verbatim>\<open>__sync_val_compare_and_swap\<close> is one atomic step that
  returns the old value.  The functions are definitions over the lock; threads that call them
  concurrently are a step relation in which each compare-and-swap is one step.
\<close>

section \<open>The lock and its functions\<close>

record kspin =
  lock :: int
  data :: ptr

definition acquire_or_one :: "kspin \<Rightarrow> int \<times> kspin" where
  "acquire_or_one ks = (lock ks, if lock ks = 0 then ks\<lparr>lock := 1\<rparr> else ks)"

definition kspin_init :: "kspin \<Rightarrow> ptr \<Rightarrow> kspin" where
  "kspin_init ks d = ks\<lparr>lock := 0, data := d\<rparr>"

text \<open>
  \<^verbatim>\<open>while (acquire_or_one(ks) == 1);\<close>.  One evaluation of the condition is \<open>kspin_poll\<close>, which the concurrent threads below
  take as their step; \<open>kspin_lock\<close> is the loop with no other thread running.
\<close>

definition kspin_poll :: "kspin \<Rightarrow> bool \<times> kspin" where
  "kspin_poll ks = (let (old, ks') = acquire_or_one ks in (old = 1, ks'))"

partial_function (option) kspin_lock :: "kspin \<Rightarrow> (ptr \<times> kspin) option" where
  "kspin_lock ks =
     (let (busy, ks') = kspin_poll ks
      in if busy then kspin_lock ks' else Some (data ks', ks'))"

declare kspin_lock.simps [code]

definition kspin_trylock :: "kspin \<Rightarrow> int \<times> kspin" where
  "kspin_trylock ks = (let (old, ks') = acquire_or_one ks in (- old, ks'))"

definition kspin_drop :: "kspin \<Rightarrow> kspin" where
  "kspin_drop ks = ks\<lparr>lock := 0\<rparr>"

section \<open>Concurrent threads\<close>

text \<open>
  A thread is outside the lock, polls it in \<^verbatim>\<open>kspin_lock\<close>, or owns it.  Each polling iteration and
  each \<^verbatim>\<open>kspin_trylock\<close> is one step; only an owner calls \<^verbatim>\<open>kspin_drop\<close>.
\<close>

datatype phase = Outside | Polling | Owning

type_synonym spin_state = "kspin \<times> (nat \<Rightarrow> phase)"

inductive spin_step :: "spin_state \<Rightarrow> spin_state \<Rightarrow> bool" where
  call_lock: "ph t = Outside \<Longrightarrow> spin_step (ks, ph) (ks, ph(t := Polling))"
| poll_busy: "ph t = Polling \<Longrightarrow> kspin_poll ks = (True, ks') \<Longrightarrow> spin_step (ks, ph) (ks', ph)"
| poll_got: "ph t = Polling \<Longrightarrow> kspin_poll ks = (False, ks') \<Longrightarrow> spin_step (ks, ph) (ks', ph(t := Owning))"
| try_got: "ph t = Outside \<Longrightarrow> kspin_trylock ks = (r, ks') \<Longrightarrow> r = 0 \<Longrightarrow> spin_step (ks, ph) (ks', ph(t := Owning))"
| try_busy: "ph t = Outside \<Longrightarrow> kspin_trylock ks = (r, ks') \<Longrightarrow> r \<noteq> 0 \<Longrightarrow> spin_step (ks, ph) (ks', ph)"
| drop: "ph t = Owning \<Longrightarrow> spin_step (ks, ph) (kspin_drop ks, ph(t := Outside))"

inductive_cases spin_stepE: "spin_step (ks, ph) s'"

inductive spin_reachable :: "kspin \<Rightarrow> ptr \<Rightarrow> spin_state \<Rightarrow> bool" for ks0 d where
  spin_start: "spin_reachable ks0 d (kspin_init ks0 d, \<lambda>_. Outside)"
| spin_next: "spin_reachable ks0 d s \<Longrightarrow> spin_step s s' \<Longrightarrow> spin_reachable ks0 d s'"

text \<open>The lock word is 1 exactly while some thread owns the lock, and then only one does.\<close>

definition spin_inv :: "ptr \<Rightarrow> spin_state \<Rightarrow> bool" where
  "spin_inv d = (\<lambda>(ks, ph). data ks = d \<and>
     (lock ks = 0 \<and> (\<forall>t. ph t \<noteq> Owning) \<or> lock ks = 1 \<and> (\<exists>t. ph t = Owning \<and> (\<forall>u. ph u = Owning \<longrightarrow> u = t))))"

lemma spin_inv_free: "spin_inv d (ks, ph) \<Longrightarrow> lock ks \<noteq> 1 \<Longrightarrow> lock ks = 0 \<and> data ks = d \<and> (\<forall>t. ph t \<noteq> Owning)"
  by (auto simp: spin_inv_def)

lemma spin_inv_got: "data ks = d \<Longrightarrow> \<forall>t. ph t \<noteq> Owning \<Longrightarrow> spin_inv d (ks\<lparr>lock := 1\<rparr>, ph(t := Owning))"
  by (auto simp: spin_inv_def)

lemma spin_inv_outside: "spin_inv d (ks, ph) \<Longrightarrow> ph t \<noteq> Owning \<Longrightarrow> p \<noteq> Owning \<Longrightarrow> spin_inv d (ks, ph(t := p))"
  unfolding spin_inv_def by (auto split: if_splits)

lemma spin_inv_step:
  assumes "spin_step (ks, ph) s'" "spin_inv d (ks, ph)"
  shows "spin_inv d s'"
  using assms(1)
proof (cases rule: spin_step.cases)
  case (call_lock t)
  then show ?thesis using spin_inv_outside [OF assms(2)] by simp
next
  case (poll_busy t ks')
  then have "ks' = ks" by (auto simp: kspin_poll_def acquire_or_one_def)
  then show ?thesis using poll_busy(1) assms(2) by simp
next
  case (poll_got t ks')
  then have "lock ks \<noteq> 1" by (simp add: kspin_poll_def acquire_or_one_def)
  note f = spin_inv_free [OF assms(2) this]
  then have "ks' = ks\<lparr>lock := 1\<rparr>" using poll_got by (auto simp: kspin_poll_def acquire_or_one_def)
  then show ?thesis using poll_got(1) spin_inv_got f by simp
next
  case (try_got t r ks')
  then have "lock ks \<noteq> 1" by (auto simp: kspin_trylock_def acquire_or_one_def)
  note f = spin_inv_free [OF assms(2) this]
  then have "ks' = ks\<lparr>lock := 1\<rparr>" using try_got by (auto simp: kspin_trylock_def acquire_or_one_def)
  then show ?thesis using try_got(1) spin_inv_got f by simp
next
  case (try_busy t r ks')
  then have "ks' = ks" by (auto simp: kspin_trylock_def acquire_or_one_def)
  then show ?thesis using try_busy(1) assms(2) by simp
next
  case (drop t)
  then have "\<forall>u. ph u = Owning \<longrightarrow> u = t" "data ks = d" using assms(2) by (auto simp: spin_inv_def)
  then show ?thesis using drop(1) by (auto simp: spin_inv_def kspin_drop_def)
qed

lemma spin_inv_reachable: "spin_reachable ks0 d s \<Longrightarrow> spin_inv d s"
proof (induction rule: spin_reachable.induct)
  case spin_start
  then show ?case by (simp add: spin_inv_def kspin_init_def)
next
  case (spin_next s s')
  then show ?case using spin_inv_step by (cases s) blast
qed

text \<open>
  The steps of one polling thread are the loop of \<^verbatim>\<open>kspin_lock\<close>: from a lock on which the call returns, the thread alone gets to
  own the lock, which is then in the state the call leaves.
\<close>

lemma kspin_lock_steps:
  assumes "kspin_lock ks = Some (d, ks')" "ph t = Polling"
  shows "spin_step\<^sup>*\<^sup>* (ks, ph) (ks', ph(t := Owning)) \<and> d = data ks'"
proof -
  let ?P = "\<lambda>ks r. spin_step\<^sup>*\<^sup>* (ks, ph) (snd r, ph(t := Owning)) \<and> fst r = data (snd r)"
  have "?P ks r" if "kspin_lock ks = Some r" for r
  proof (rule kspin_lock.raw_induct [of ?P, OF _ that])
    fix lk ks r
    assume 1: "\<And>ks r. lk ks = Some r \<Longrightarrow> ?P ks r" "(let (busy, ks') = kspin_poll ks in if busy then lk ks' else Some (data ks', ks')) = Some r"
    obtain busy k1 where k1: "kspin_poll ks = (busy, k1)" by fastforce
    show "?P ks r"
    proof (cases busy)
      case True
      then have "spin_step\<^sup>*\<^sup>* (k1, ph) (snd r, ph(t := Owning)) \<and> fst r = data (snd r)" using 1(1) [of k1 r] 1(2) k1 by simp
      moreover have "spin_step (ks, ph) (k1, ph)" using poll_busy [of ph t ks k1] assms(2) k1 True by simp
      ultimately show ?thesis using converse_rtranclp_into_rtranclp [of spin_step "(ks, ph)" "(k1, ph)"] by blast
    next
      case False
      then have "r = (data k1, k1)" using 1(2) k1 by simp
      then show ?thesis using poll_got [of ph t ks k1] assms(2) k1 False by auto
    qed
  qed
  from this [OF assms(1)] show ?thesis by simp
qed

section \<open>Correctness properties\<close>

text \<open>
  C30: mutual exclusion.  In every interleaving of threads that lock, poll, try and drop, two threads
  never own the lock at once, the lock word is 1 exactly while one does, and the protected data
  pointer is the one the lock was initialised with.
\<close>

theorem spinlock_mutual_exclusion:
  assumes "spin_reachable ks0 d (ks, ph)"
  shows "(\<forall>t u. ph t = Owning \<and> ph u = Owning \<longrightarrow> t = u) \<and> (lock ks = 1 \<longleftrightarrow> (\<exists>t. ph t = Owning)) \<and> data ks = d"
  using spin_inv_reachable [OF assms] by (auto simp: spin_inv_def)

theorem spinlock_mutual_exclusion_witness:
  "\<exists>ks ph. spin_reachable \<lparr>lock = 7, data = 0\<rparr> 64 (ks, ph) \<and> ph 1 = Owning \<and> ph 2 = Polling \<and> lock ks = 1 \<and> data ks = 64"
proof -
  let ?k0 = "kspin_init \<lparr>lock = 7, data = 0\<rparr> 64"
  let ?k1 = "?k0\<lparr>lock := 1\<rparr>"
  have a: "kspin_poll ?k0 = (False, ?k1)"
    by (simp add: kspin_poll_def acquire_or_one_def kspin_init_def)
  have "spin_reachable \<lparr>lock = 7, data = 0\<rparr> 64 (?k0, (\<lambda>_. Outside)(1 := Polling))"
    by (rule spin_next [OF spin_start], rule call_lock) simp
  then have "spin_reachable \<lparr>lock = 7, data = 0\<rparr> 64 (?k1, (\<lambda>_. Outside)(1 := Polling, 1 := Owning))"
    by (rule spin_next) (rule poll_got [OF _ a], simp)
  then have r: "spin_reachable \<lparr>lock = 7, data = 0\<rparr> 64 (?k1, (\<lambda>_. Outside)(1 := Polling, 1 := Owning, 2 := Polling))"
    by (rule spin_next) (rule call_lock, simp)
  show ?thesis using r spinlock_mutual_exclusion [OF r]
    by (intro exI [of _ ?k1] exI [of _ "(\<lambda>_. Outside)(1 := Polling, 1 := Owning, 2 := Polling)"]) simp
qed

text \<open>
  \<^verbatim>\<open>kspin_lock\<close> on a free lock returns the data with the lock taken, \<^verbatim>\<open>kspin_trylock\<close> gives 0 and
  takes a free lock or gives -1 and leaves a taken one, and \<^verbatim>\<open>kspin_drop\<close> undoes either.
\<close>

theorem spinlock_functions:
  "kspin_lock (kspin_init ks d) = Some (d, (kspin_init ks d)\<lparr>lock := 1\<rparr>)
   \<and> kspin_trylock (kspin_init ks d) = (0, (kspin_init ks d)\<lparr>lock := 1\<rparr>)
   \<and> kspin_trylock (ks\<lparr>lock := 1\<rparr>) = (-1, ks\<lparr>lock := 1\<rparr>)
   \<and> kspin_drop ((kspin_init ks d)\<lparr>lock := 1\<rparr>) = kspin_init ks d"
  by (simp add: kspin_lock.simps kspin_poll_def acquire_or_one_def kspin_init_def kspin_trylock_def kspin_drop_def)

end
