(* ===== verification/Rtc.thy ===== *)
theory Rtc
  imports Port "HOL-Library.Signed_Division"
begin

text \<open>
  The real time clock driver, \<^verbatim>\<open>src/drivers/rtc/rtc.c\<close>.  The CMOS registers answer through the port
  device parameter.  The two polling loops of \<^verbatim>\<open>rtc_read_time\<close> need not end, so they are partial.
  The fields of \<^verbatim>\<open>struct rtc_time\<close> are \<^verbatim>\<open>int\<close>; every value the code computes from byte registers fits,
  except in \<^verbatim>\<open>rtc_get_timestamp\<close>, whose arithmetic is on 32-bit words.
\<close>

unbundle bit_operations_syntax

section \<open>Definitions\<close>

definition cmos_addr :: u16 where "cmos_addr = 0x70"
definition cmos_data :: u16 where "cmos_data = 0x71"

record rtc_time =
  sec :: int
  min :: int
  hour :: int
  day :: int
  mon :: int
  year :: int
  yday :: int

definition rtc_get_yday :: "rtc_time \<Rightarrow> int" where
  "rtc_get_yday t =
     (let yday0 = day t - 1;
          yday1 = (if mon t > 1 then yday0 + 31 else yday0);
          yday2 = (if mon t > 2
                   then (if year t mod 4 = 0 \<and> (year t mod 400 = 0 \<or> year t mod 100 \<noteq> 0)
                         then yday1 + 29 else yday1 + 28)
                   else yday1);
          yday3 = (if mon t > 3 then yday2 + 31 else yday2);
          yday4 = (if mon t > 4 then yday3 + 30 else yday3);
          yday5 = (if mon t > 5 then yday4 + 31 else yday4);
          yday6 = (if mon t > 6 then yday5 + 30 else yday5);
          yday7 = (if mon t > 7 then yday6 + 31 else yday6);
          yday8 = (if mon t > 8 then yday7 + 31 else yday7);
          yday9 = (if mon t > 9 then yday8 + 30 else yday8);
          yday10 = (if mon t > 10 then yday9 + 31 else yday9);
          yday11 = (if mon t > 11 then yday10 + 30 else yday10)
      in yday11)"

definition rtc_get_reg :: "device \<Rightarrow> u8 \<Rightarrow> ports \<Rightarrow> u8 \<times> ports" where
  "rtc_get_reg dev reg tr = port_read_u8 dev cmos_data (port_write_u8 cmos_addr reg tr)"

definition bcd :: "int \<Rightarrow> int" where
  "bcd x = (x AND 0x0F) + (x sdiv 16) * 10"

definition rtc_convert_BCDtobinary :: "rtc_time \<Rightarrow> rtc_time" where
  "rtc_convert_BCDtobinary tm =
     tm\<lparr>sec := bcd (sec tm), min := bcd (min tm),
        hour := ((hour tm AND 0x0F) + ((hour tm AND 0x70) sdiv 16) * 10) OR (hour tm AND 0x80),
        day := bcd (day tm), mon := bcd (mon tm), year := bcd (year tm)\<rparr>"

definition rtc_isdiff :: "rtc_time \<Rightarrow> rtc_time \<Rightarrow> bool" where
  "rtc_isdiff tm1 tm2 \<longleftrightarrow>
     sec tm1 \<noteq> sec tm2 \<or> min tm1 \<noteq> min tm2 \<or> hour tm1 \<noteq> hour tm2
     \<or> day tm1 \<noteq> day tm2 \<or> mon tm1 \<noteq> mon tm2 \<or> year tm1 \<noteq> year tm2"

text \<open>\<^verbatim>\<open>while (rtc_get_reg(cmos_reg_A) & 0x80);\<close>\<close>

partial_function (option) rtc_wait :: "device \<Rightarrow> ports \<Rightarrow> ports option" where
  "rtc_wait dev tr =
     (let (a, tr') = rtc_get_reg dev 0x0A tr
      in if a AND 0x80 \<noteq> 0 then rtc_wait dev tr' else Some tr')"

text \<open>The six register reads of one round.\<close>

definition rtc_sample :: "device \<Rightarrow> rtc_time \<Rightarrow> ports \<Rightarrow> rtc_time \<times> ports" where
  "rtc_sample dev tm tr0 =
     (let (r1, tr1) = rtc_get_reg dev 0x00 tr0;
          (r2, tr2) = rtc_get_reg dev 0x02 tr1;
          (r3, tr3) = rtc_get_reg dev 0x04 tr2;
          (r4, tr4) = rtc_get_reg dev 0x07 tr3;
          (r5, tr5) = rtc_get_reg dev 0x08 tr4;
          (r6, tr6) = rtc_get_reg dev 0x09 tr5
      in (tm\<lparr>sec := uint r1, min := uint r2, hour := uint r3, day := uint r4, mon := uint r5, year := uint r6\<rparr>, tr6))"

partial_function (option) rtc_stable :: "device \<Rightarrow> rtc_time \<Rightarrow> ports \<Rightarrow> (rtc_time \<times> ports) option" where
  "rtc_stable dev ltm tr =
     do { tr1 \<leftarrow> rtc_wait dev tr;
          let (tm, tr2) = rtc_sample dev ltm tr1;
          if rtc_isdiff tm ltm then rtc_stable dev tm tr2 else Some (tm, tr2) }"

declare rtc_wait.simps [code] rtc_stable.simps [code]

text \<open>From the raw registers to the time: everything after the read of register B.\<close>

definition rtc_decode :: "u8 \<Rightarrow> rtc_time \<Rightarrow> rtc_time" where
  "rtc_decode regB tm0 =
     (let curyear = 2022;
          tm1 = (if regB AND 0x04 = 0 then rtc_convert_BCDtobinary tm0 else tm0);
          tm2 = (if regB AND 0x02 = 0 \<and> hour tm1 AND 0x80 \<noteq> 0
                 then tm1\<lparr>hour := ((hour tm1 AND 0x7f) + 12) mod 24\<rparr> else tm1);
          y = year tm2 + (curyear div 100) * 100;
          tm3 = tm2\<lparr>year := if y < curyear then y + 100 else y\<rparr>
      in tm3\<lparr>yday := rtc_get_yday tm3\<rparr>)"

definition rtc_read_time :: "device \<Rightarrow> ports \<Rightarrow> (rtc_time \<times> ports) option" where
  "rtc_read_time dev tr =
     do { let zero = \<lparr>sec = 0, min = 0, hour = 0, day = 0, mon = 0, year = 0, yday = 0\<rparr>;
          (tm, tr1) \<leftarrow> rtc_stable dev zero tr;
          let (regB, tr2) = rtc_get_reg dev 0x0B tr1;
          Some (rtc_decode regB tm, tr2) }"

text \<open>The seconds computed from a time; \<^verbatim>\<open>uint32_t\<close> arithmetic, truncating division on \<^verbatim>\<open>int\<close>.\<close>

definition rtc_epoch :: "rtc_time \<Rightarrow> u32" where
  "rtc_epoch t =
     (let y = year t - 1900
      in of_int (sec t) + of_int (min t * 60) + of_int (hour t * 3600) + of_int (yday t * 86400)
         + of_int ((y - 70) * 31536000) + of_int (((y - 69) sdiv 4) * 86400)
         - of_int (((y - 1) sdiv 100) * 86400) + of_int (((y + 299) sdiv 400) * 86400))"

definition rtc_get_timestamp :: "device \<Rightarrow> ports \<Rightarrow> (u32 \<times> ports) option" where
  "rtc_get_timestamp dev tr = do { (t, tr') \<leftarrow> rtc_read_time dev tr; Some (rtc_epoch t, tr') }"

section \<open>The calendar\<close>

text \<open>C division truncates; on the operands that occur it is the usual one.\<close>

lemma sdiv_nonneg: "0 \<le> (a :: int) \<Longrightarrow> 0 < b \<Longrightarrow> a sdiv b = a div b"
  by (cases "a = 0") (simp_all add: signed_divide_int_def)

definition leap :: "int \<Rightarrow> bool" where
  "leap y \<longleftrightarrow> y mod 4 = 0 \<and> (y mod 100 \<noteq> 0 \<or> y mod 400 = 0)"

definition month_days :: "int \<Rightarrow> int list" where
  "month_days y = [31, if leap y then 29 else 28, 31, 30, 31, 30, 31, 31, 30, 31, 30, 31]"

text \<open>Days in the years from 1970 up to, and without, \<open>1970 + n\<close>.\<close>

primrec days_of_years :: "nat \<Rightarrow> int" where
  "days_of_years 0 = 0"
| "days_of_years (Suc n) = days_of_years n + (if leap (1970 + int n) then 366 else 365)"

lemma div_step:
  assumes "0 < (b :: int)"
  shows "(a + 1) div b = a div b + (if b dvd a + 1 then 1 else 0)"
proof (cases "b dvd a + 1")
  case True
  then obtain q where "a + 1 = b * q" by (elim dvdE)
  then have "a = b * (q - 1) + (b - 1)" "(a + 1) div b = q" using assms by (simp_all add: algebra_simps)
  then show ?thesis using True assms int_div_pos_eq [of a b "q - 1" "b - 1"] by simp
next
  case False
  define q r where "q = (a + 1) div b" and "r = (a + 1) mod b"
  have "a + 1 = b * q + r" by (simp add: q_def r_def)
  moreover have "0 < r" "r < b"
    using False assms pos_mod_bound [of b "a + 1"] pos_mod_sign [of b "a + 1"] by (auto simp: r_def dvd_eq_mod_eq_0 order_less_le)
  ultimately have "a div b = q" using int_div_pos_eq [of a b q "r - 1"] by simp
  then show ?thesis using False by (simp add: q_def)
qed

lemma dvd_shift: "(b :: int) dvd c \<Longrightarrow> b dvd a + c \<longleftrightarrow> b dvd a"
  by (simp add: dvd_add_left_iff)

lemma days_of_years_closed:
  "days_of_years n = int n * 365 + (int n + 1) div 4 - (int n + 69) div 100 + (int n + 369) div 400"
proof (induction n)
  case (Suc n)
  let ?n = "int n"
  have l4: "(1970 + ?n) mod 4 = 0 \<longleftrightarrow> 4 dvd ?n + 1 + 1" using dvd_shift [of 4 1968 "?n + 2"] by (simp add: dvd_eq_mod_eq_0 add.commute)
  have l100: "(1970 + ?n) mod 100 = 0 \<longleftrightarrow> 100 dvd ?n + 69 + 1" using dvd_shift [of 100 1900 "?n + 70"] by (simp add: dvd_eq_mod_eq_0 add.commute)
  have l400: "(1970 + ?n) mod 400 = 0 \<longleftrightarrow> 400 dvd ?n + 369 + 1" using dvd_shift [of 400 1600 "?n + 370"] by (simp add: dvd_eq_mod_eq_0 add.commute)
  have i1: "100 dvd ?n + 69 + 1" if "400 dvd ?n + 369 + 1"
    using that dvd_trans [of 100 400 "?n + 370"] dvd_shift [of 100 300 "?n + 70"] by (simp add: add.commute)
  have i2: "4 dvd ?n + 1 + 1" if "100 dvd ?n + 69 + 1"
    using that dvd_trans [of 4 100 "?n + 70"] dvd_shift [of 4 68 "?n + 2"] by (simp add: add.commute)
  define A B C where "A = (4 dvd ?n + 1 + 1)" and "B = (100 dvd ?n + 69 + 1)" and "C = (400 dvd ?n + 369 + 1)"
  have d: "(?n + 1 + 1) div 4 = (?n + 1) div 4 + (if A then 1 else 0)"
    "(?n + 69 + 1) div 100 = (?n + 69) div 100 + (if B then 1 else 0)"
    "(?n + 369 + 1) div 400 = (?n + 369) div 400 + (if C then 1 else 0)"
    unfolding A_def B_def C_def by (rule div_step, simp)+
  have e: "int (Suc n) = ?n + 1" "int (Suc n) + 1 = ?n + 1 + 1" "int (Suc n) + 69 = ?n + 69 + 1" "int (Suc n) + 369 = ?n + 369 + 1"
    by simp_all
  have lp: "leap (1970 + ?n) \<longleftrightarrow> A \<and> (\<not> B \<or> C)" by (simp only: leap_def l4 l100 l400 A_def B_def C_def)
  have i: "C \<longrightarrow> B" "B \<longrightarrow> A" unfolding A_def B_def C_def using i1 i2 by blast+
  show ?case
    unfolding days_of_years.simps e(2-4) d lp Suc unfolding e(1) using i by (cases A; cases B; cases C) simp_all
qed simp

lemma rtc_get_yday_months:
  assumes "1 \<le> mon t" "mon t \<le> 12"
  shows "rtc_get_yday t = day t - 1 + sum_list (take (nat (mon t - 1)) (month_days (year t)))"
proof -
  have "nat (mon t - 1) \<in> set [0..<12]" using assms by auto
  then obtain k where k: "mon t = 1 + int k" "k \<in> set [0..<12]" using assms by (metis add.commute int_nat_eq diff_add_cancel le_add_diff_inverse diff_ge_0_iff_ge)
  have "k \<in> {0, 1, 2, 3, 4, 5, 6, 7, 8, 9, 10, 11}" using k(2) by (simp add: upt_rec numeral_eq_Suc)
  then show ?thesis
    by (elim insertE emptyE) (auto simp: rtc_get_yday_def month_days_def leap_def k(1) Let_def numeral_eq_Suc)
qed

section \<open>Correctness properties\<close>

text \<open>
  C32: for a time from 1970 on, in a month from 1 to 12, the day of the year is the number of days before
  the date in its year, and the timestamp is the number of seconds since 1 January 1970 in the
  Gregorian calendar, modulo \<open>2^32\<close>.
\<close>

theorem rtc_epoch_correct:
  assumes "year t = 1970 + int n" "yday t = rtc_get_yday t" "1 \<le> mon t" "mon t \<le> 12"
  shows "rtc_epoch t = of_int
     (((days_of_years n + sum_list (take (nat (mon t - 1)) (month_days (year t))) + (day t - 1)) * 24 + hour t) * 3600
       + min t * 60 + sec t)"
proof -
  have y: "year t - 1900 - 70 = int n" "year t - 1900 - 69 = int n + 1" "year t - 1900 - 1 = int n + 69" "year t - 1900 + 299 = int n + 369"
    using assms(1) by simp_all
  show ?thesis
    unfolding rtc_epoch_def Let_def y sdiv_nonneg [of "int n + 1" 4, simplified] sdiv_nonneg [of "int n + 69" 100, simplified]
      sdiv_nonneg [of "int n + 369" 400, simplified] assms(2) rtc_get_yday_months [OF assms(3,4)] days_of_years_closed
    by (simp add: algebra_simps)
qed

theorem rtc_epoch_correct_witness:
  "rtc_epoch \<lparr>sec = 7, min = 6, hour = 5, day = 1, mon = 3, year = 1972, yday = 60\<rparr> = 68274367"
  using rtc_epoch_correct [of "\<lparr>sec = 7, min = 6, hour = 5, day = 1, mon = 3, year = 1972, yday = 60\<rparr>" 2]
  by (simp add: rtc_get_yday_def days_of_years_def month_days_def leap_def numeral_2_eq_2)

text \<open>
  A register value in binary-coded decimal reads as the number it stands for.
\<close>

theorem bcd_correct:
  assumes "0 \<le> d" "d \<le> 9" "0 \<le> u" "u \<le> 9"
  shows "bcd (16 * d + u) = 10 * d + u"
proof -
  have "(16 * d + u) AND 15 = (16 * d + u) mod 16" 
    using take_bit_eq_mask [of 4 "16 * d + u"] by (simp add: mask_eq_exp_minus_1 take_bit_eq_mod)
  then show ?thesis using assms by (simp add: bcd_def sdiv_nonneg)
qed

theorem bcd_correct_witness: "bcd 0x59 = 59"
  using bcd_correct [of 5 9] by simp

text \<open>
  In 12-hour mode the clock's 12 PM (noon) is read as hour 0, and its 12 AM (midnight) as hour 12.
\<close>

theorem rtc_noon_midnight:
  assumes "regB AND 0x06 = 0"
  shows "hour (rtc_decode regB (t\<lparr>hour := 0x92\<rparr>)) = 0 \<and> hour (rtc_decode regB (t\<lparr>hour := 0x12\<rparr>)) = 12"
proof -
  have "(regB AND 0x06) AND 0x04 = regB AND 0x04" "(regB AND 0x06) AND 0x02 = regB AND 0x02"
    by (simp_all add: and.assoc)
  then have b: "regB AND 0x04 = 0" "regB AND 0x02 = 0" unfolding assms by simp_all
  show ?thesis by (simp add: rtc_decode_def rtc_convert_BCDtobinary_def b Let_def)
qed

theorem rtc_noon_midnight_witness:
  "hour (rtc_decode 0 (\<lparr>sec = 0, min = 0, hour = 0, day = 1, mon = 1, year = 35, yday = 0\<rparr>\<lparr>hour := 0x92\<rparr>)) = 0"
  using rtc_noon_midnight [of 0 "\<lparr>sec = 0, min = 0, hour = 0, day = 1, mon = 1, year = 35, yday = 0\<rparr>"] by simp

end
