(* ===== verification/Spec2Isabelle.thy ===== *)
theory Spec2Isabelle
  imports Lib_Tests Nsh_Run Shell Isr_Stack Spinlock Rtc Paging
begin

text \<open>
  Verification of nulix (KFS), a small i386 kernel in C: \<^verbatim>\<open>src/\<close>.

  \<^bold>\<open>The program.\<close>  The boot code maps the first 4 MiB twice (\<^verbatim>\<open>kernel/boot_init.c\<close>) and calls \<^verbatim>\<open>kernel_main\<close> (\<^verbatim>\<open>kernel/kernel.c\<close>), which programs
  the interrupt controllers, installs the segment and interrupt tables, selects a keyboard layout, builds the buddy
  allocator from the boot loader's memory map, initialises two screen buffers, and enters the shell \<^verbatim>\<open>nsh\<close> (\<^verbatim>\<open>kernel/nsh/\<close>), which never returns.  The shell
  polls the keyboard driver, edits a line, splits it into words and runs a built-in command; the
  commands print with \<^verbatim>\<open>kprintf\<close>, which formats into a buffer and writes to the current screen
  buffer, a ring of 200 lines of which 25 are shown.

  \<^bold>\<open>State.\<close>  Memory is a function from 32-bit addresses to bytes (\<open>Kfs_Prelude\<close>), and whatever the code
  overlays on memory (bitmaps, descriptor tables, page tables, strings, the shell's line) is read from and written to
  it, so that aliasing is visible.  The globals of the kernel are the record \<open>kernel\<close> of \<open>Console\<close>: the allocator with
  the memory (\<open>phys\<close>), the screen buffers, the display with the trace of port accesses (\<open>hw\<close>), the keyboard
  state, the table registers and the shell's variables.  What the compiler, the linker, the boot loader or the hardware
  decides is the record \<open>image\<close>: the answers of the devices (a function of the port and of the accesses so far), the
  addresses of the \<^verbatim>\<open>kprintf\<close> buffer, of the line buffer, of the string literals (named by their text) and of the
  service routines, the interrupt frame, the processor registers, the stack symbols, and the addresses that the page tables map.  Loops that may not end
  are partial functions into \<open>option\<close>: \<open>None\<close> is a run that does not return or leaves the model, and every property
  that a function returns is stated as \<open>\<exists>y. f x = Some y\<close>.  There is no fuel.

  \<^bold>\<open>Theories, in the order of the code.\<close>

  \<^item> \<open>Kfs_Prelude\<close>: types, blocks of addresses, C strings, word arithmetic without overflow, bit tests.

  \<^item> \<open>Lib_Mem\<close>, \<open>Lib_Str\<close>, \<open>Lib_Std\<close>: \<^verbatim>\<open>lib/string\<close> and \<^verbatim>\<open>lib/std\<close>, one definition per function.  \<^verbatim>\<open>memmove\<close> copies the source as it was,
  overlapping or not; \<^verbatim>\<open>strtol\<close> reads the numeral a string starts with and clamps; the conversions return on every string.

  \<^item> \<open>Lib_Tests\<close>: the test programs \<^verbatim>\<open>lib/string/test.c\<close> and \<^verbatim>\<open>lib/std/test.c\<close>, run on these definitions: all assertions hold
  but five of the six on \<^verbatim>\<open>strncmp\<close>, which is off by one; all conversions pass.

  \<^item> \<open>Print\<close>, \<open>Print_Format\<close>: \<^verbatim>\<open>kernel/print.c\<close>.  \<^verbatim>\<open>snprintnum\<close> writes the reference text of a number, \<^verbatim>\<open>vsnprintf\<close> the text of \<open>expand\<close>, a reference
  semantics of formats; printing and \<^verbatim>\<open>strtol\<close> are inverse.

  \<^item> \<open>Kpm\<close>, \<open>Kpm_Tree\<close>, \<open>Kpm_Ops\<close>, \<open>Kpm_Alloc\<close>, \<open>Kpm_Init\<close>, \<open>Kpm_Correct\<close>: \<^verbatim>\<open>kernel/memory/kpm.c\<close>.  \<open>Kpm\<close> holds the definitions; the invariant says that a
  bit of each order is the disjunction of its two children and that disabled frames are allocated.  The locale \<open>frame_allocator\<close> is
  the abstract allocator (a set of free frames); its interpretation on the definitions gives disjointness and the
  round trip of any run of allocations.

  \<^item> \<open>Machine\<close>, \<open>Descriptors\<close>, \<open>Paging\<close>, \<open>Port\<close>, \<open>Pic_8259\<close>: \<^verbatim>\<open>gdt.c\<close>, \<^verbatim>\<open>idt.c\<close>, \<^verbatim>\<open>gdt_flush.s\<close>, \<^verbatim>\<open>memory/paging.c\<close>, \<^verbatim>\<open>boot_init.c\<close>, \<^verbatim>\<open>port.c\<close>, \<^verbatim>\<open>pic_8259.c\<close>.  The locale
  \<open>memory_table\<close> is a table of entries overlaid on memory; it is interpreted for the segment table, the
  interrupt table and the two page tables.  The properties read the tables the way the processor does.

  \<^item> \<open>Screenbuf\<close>: \<^verbatim>\<open>kernel/screenbuf.c\<close>, with pointers into the ring as integer offsets, so that a pointer that leaves it is visible.

  \<^item> \<open>Screen_Text\<close>, \<open>Screen_Ports\<close>: what a screen shows.  The ring refines a page, a list of at most 200 lines of coloured cells (\<open>has_text\<close>), on which a
  character is \<open>type_char\<close>; the display, of which single cells are written, stays what a redraw would give (\<open>synced\<close>).  A kernel is \<open>tidy\<close> when every screen holds a page and the
  display shows the current one.  The screen functions take no byte from the keyboard controller.

  \<^item> \<open>Keycodes\<close>, \<open>Keyboard\<close>: \<^verbatim>\<open>kernel/keyboard\<close> and the two layouts.  Decoding inverts the encoding of key strokes; the modifiers are a
  function of the history; a wanted event that the controller delivers is returned; the characters of both layouts are ASCII.

  \<^item> \<open>Spinlock\<close>, \<open>Rtc\<close>: mutual exclusion in every interleaving; the timestamp against the calendar.

  \<^item> \<open>Literals\<close>, \<open>Console\<close>, \<open>Output\<close>: the string literals, \<^verbatim>\<open>kprintf\<close> and the screen commands.  \<open>says im k t k'\<close>: the run from
  \<open>k\<close> to \<open>k'\<close> has put the text \<open>t\<close> on the current screen and changed nothing else; the locale \<open>kept_run\<close> has the
  rules for computations that keep an invariant.

  \<^item> \<open>Isr\<close>, \<open>Isr_Stack\<close>: \<^verbatim>\<open>kernel/isr.c\<close> and the dispatch through the gates in memory; the two macros of \<^verbatim>\<open>idt_internal.h\<close> around a handler, as lists of instructions on
  the registers they use.

  \<^item> \<open>System\<close>: the invariant \<open>sys_inv\<close> of the running kernel (screens, literals, allocator, and the areas of memory that keep them apart),
  and that printing, colours and the allocator keep it.

  \<^item> \<open>Builtins\<close>, \<open>Builtins_System\<close>, \<open>Builtins_Correct\<close>, \<open>Commands\<close>: \<^verbatim>\<open>kernel/nsh/builtins\<close>, definitions and properties.

  \<^item> \<open>Nsh\<close>, \<open>Nsh_Edit\<close>, \<open>Nsh_Command\<close>: \<^verbatim>\<open>kernel/nsh/nsh.c\<close>.  The line buffer refines a list of characters (\<open>line_is\<close>): editing, completion and splitting are list
  functions (\<open>edit\<close>, \<open>complete\<close>, \<open>words\<close>).  The event loop is a step function with the relation of its states.

  \<^item> \<open>Nsh_Returns\<close>: every command but \<^verbatim>\<open>free\<close> and those that halt or raise an interrupt returns on arguments of any form, with one exception: \<^verbatim>\<open>hexdump\<close> returns
  exactly when all the bytes it is asked for are mapped.  \<open>returns_rules\<close> follow the structure of the code.

  \<^item> \<open>Kernel_Main\<close>: \<^verbatim>\<open>kernel/kernel.c\<close>.  From a start in which the areas of memory do not overlap the kernel reaches its prompt with the
  invariant.

  \<^item> \<open>Nsh_Session\<close>, \<open>Nsh_Run\<close>: the composition of all of it, from power on over the bytes of the keyboard controller to the VGA memory.  \<open>Nsh_Session\<close> follows one line as it is
  typed and says exactly what is on the display; \<open>Nsh_Run\<close> follows any number of lines and commands, with an abstract machine (\<open>sh_session\<close>) whose state is the line and
  the keyboard driver.

  \<^item> \<open>Shell\<close>: \<^verbatim>\<open>kernel/shell.c\<close>, the shell before \<^verbatim>\<open>nsh\<close>, which the build no longer compiles: the hash, the table it indexes, the line buffer and the loop.  The six commands of its
  table that the sources still have are the definitions of \<open>Builtins\<close>; the eight others and \<^verbatim>\<open>VGA_putchar\<close> have no body in the sources and are parameters, which may or may not return.

  \<^bold>\<open>Hypotheses.\<close>  The properties about the running kernel assume its invariant.  Those that press a key assume that the screen is \<open>settled\<close>, that is that the viewport is not scrolled far above a cursor in the first lines of the
  ring; \<open>sb_scroll_down_shows\<close> says what \<^verbatim>\<open>sb_scroll_down\<close> does in both cases.  A backspace that is not \<open>erasable\<close> makes the column underflow;
  \<open>sb_putchar_safe\<close> has both cases.  The properties of whole sessions need neither: they follow from \<open>tidy\<close>, which the start establishes and every key
  but the four that scroll keeps.  The properties of the running kernel also assume that the areas of memory do not overlap; one of these areas is the buffer of \<^verbatim>\<open>kprintf\<close>, which is as large
  as the whole stack (see \<open>Console\<close>).  Witnesses instantiate every hypothesis on a demonstration machine of 32 MiB.

  \<^bold>\<open>Not modelled.\<close>  The assembly before the first C function; interrupts are taken between steps where the code
  waits for them, not between any two instructions.  Page faults are modelled for \<^verbatim>\<open>hexdump\<close>, the one command that reads where it is told to; what it reads is the flat memory, not the globals that the
  model keeps as records, and the two copies of the first 4 MiB are not identified.  The stack itself is not modelled, so its overflow is not.  The build files are not.
\<close>

end
